(* ===== verification/Prelude.thy ===== *)
theory Prelude
  imports Main "HOL-Library.Word" "HOL-Library.AList"
begin

unbundle bit_operations_syntax

text \<open>
  What every component of the development shares: the machine types of the
  Rust source, the result type of fallible operations, the association-list
  model of \<^verbatim>\<open>HashMap\<close>, and the list lemmas the component proofs use.

  A \<^verbatim>\<open>HashMap\<close> is an association list with distinct keys. Rust leaves its
  iteration order unspecified; the model iterates in insertion order, and
  theorems about an iteration are stated on sets or sums, which do not depend
  on the order.
\<close>

section \<open>Machine types\<close>

type_synonym byte = "8 word"
type_synonym bytes = "byte list"
type_synonym u32 = "32 word"
type_synonym u64 = "64 word"

text \<open>
  \<open>std::time::Instant\<close> and \<open>Duration\<close> as a number of nanoseconds.
\<close>

type_synonym instant = nat
type_synonym duration = nat

definition as_secs :: "duration \<Rightarrow> nat" where
  "as_secs d = d div 1000000000"

definition as_millis :: "duration \<Rightarrow> nat" where
  "as_millis d = d div 1000000"

definition from_secs :: "nat \<Rightarrow> duration" where
  "from_secs s = s * 1000000000"

definition from_millis :: "nat \<Rightarrow> duration" where
  "from_millis ms = ms * 1000000"

text \<open>
  \<open>i64\<close> values are integers in \<open>[- 2^63, 2^63)\<close>. The release profile of
  the repository does not enable overflow checks, so unchecked arithmetic
  wraps; \<open>as usize\<close> reinterprets the two's complement bits.
\<close>

definition i64_min :: int where
  "i64_min = - 9223372036854775808"

definition i64_max :: int where
  "i64_max = 9223372036854775807"

definition usize_max :: nat where
  "usize_max = 18446744073709551615"

definition is_i64 :: "int \<Rightarrow> bool" where
  "is_i64 n \<longleftrightarrow> i64_min \<le> n \<and> n \<le> i64_max"

definition wrap_i64 :: "int \<Rightarrow> int" where
  "wrap_i64 n = (n + 9223372036854775808) mod 18446744073709551616 - 9223372036854775808"

definition i64_as_usize :: "int \<Rightarrow> nat" where
  "i64_as_usize n = nat (n mod 18446744073709551616)"

definition checked_i64 :: "int \<Rightarrow> int option" where
  "checked_i64 n = (if is_i64 n then Some n else None)"

section \<open>Results\<close>

text \<open>
  \<open>Result<T, String>\<close> with the panics of the source made explicit.
\<close>

datatype failure = Err string | Panic

type_synonym 'a result = "failure + 'a"

section \<open>Collections of facts\<close>

named_theorems codec_simps \<open>round trips of the binary encodings\<close>
named_theorems hm_simps \<open>lookups after updates of a hash map\<close>
named_theorems wf_intros \<open>preservation of the well-formedness invariants\<close>

section \<open>Hash maps\<close>

type_synonym ('k, 'v) hash_map = "('k \<times> 'v) list"

definition hm_get :: "('k, 'v) hash_map \<Rightarrow> 'k \<Rightarrow> 'v option" where
  "hm_get m k = map_of m k"

definition hm_contains :: "('k, 'v) hash_map \<Rightarrow> 'k \<Rightarrow> bool" where
  "hm_contains m k \<longleftrightarrow> map_of m k \<noteq> None"

definition hm_insert :: "'k \<Rightarrow> 'v \<Rightarrow> ('k, 'v) hash_map \<Rightarrow> ('k, 'v) hash_map" where
  "hm_insert k v m = AList.update k v m"

definition hm_remove :: "'k \<Rightarrow> ('k, 'v) hash_map \<Rightarrow> ('k, 'v) hash_map" where
  "hm_remove k m = AList.delete k m"

definition hm_wf :: "('k, 'v) hash_map \<Rightarrow> bool" where
  "hm_wf m \<longleftrightarrow> distinct (map fst m)"

lemma hm_get_insert [simp, hm_simps]:
  "hm_get (hm_insert k v m) k' = (if k' = k then Some v else hm_get m k')"
  by (simp add: hm_get_def hm_insert_def update_conv)

lemma hm_get_remove [simp, hm_simps]:
  "hm_get (hm_remove k m) k' = (if k' = k then None else hm_get m k')"
  by (simp add: hm_get_def hm_remove_def delete_conv)

lemma hm_get_Nil [simp]: "hm_get [] k = None"
  by (simp add: hm_get_def)

lemma hm_contains_iff: "hm_contains m k \<longleftrightarrow> hm_get m k \<noteq> None"
  by (simp add: hm_contains_def hm_get_def)

lemma hm_wf_Nil [simp, wf_intros]: "hm_wf []"
  by (simp add: hm_wf_def)

lemma hm_wf_insert [simp, wf_intros]: "hm_wf m \<Longrightarrow> hm_wf (hm_insert k v m)"
  by (simp add: hm_wf_def hm_insert_def distinct_update)

lemma hm_wf_remove [simp, wf_intros]: "hm_wf m \<Longrightarrow> hm_wf (hm_remove k m)"
  by (simp add: hm_wf_def hm_remove_def distinct_delete)

lemma hm_get_Some_iff: "hm_wf m \<Longrightarrow> hm_get m k = Some v \<longleftrightarrow> (k, v) \<in> set m"
  by (simp add: hm_wf_def hm_get_def)

lemma hm_get_SomeD: "hm_get m k = Some v \<Longrightarrow> (k, v) \<in> set m"
  by (simp add: hm_get_def map_of_SomeD)

lemma hm_get_None_iff: "hm_get m k = None \<longleftrightarrow> k \<notin> fst ` set m"
  by (simp add: hm_get_def map_of_eq_None_iff)

lemma set_hm_insert:
  "hm_wf m \<Longrightarrow> set (hm_insert k v m) = {(k', v') \<in> set m. k' \<noteq> k} \<union> {(k, v)}"
  by (induction m) (force simp: hm_insert_def hm_wf_def split: if_splits)+

lemma set_hm_remove: "set (hm_remove k m) = {(k', v') \<in> set m. k' \<noteq> k}"
  by (auto simp: hm_remove_def AList.delete_eq)

text \<open>
  Sizes of maps: the sum of a weight over all entries, as the memory
  accounting of the store uses it.
\<close>

definition hm_sum :: "('k \<Rightarrow> 'v \<Rightarrow> nat) \<Rightarrow> ('k, 'v) hash_map \<Rightarrow> nat" where
  "hm_sum w m = sum_list (map (\<lambda>(k, v). w k v) m)"

definition opt_weight :: "('k \<Rightarrow> 'v \<Rightarrow> nat) \<Rightarrow> 'k \<Rightarrow> 'v option \<Rightarrow> nat" where
  "opt_weight w k ov = (case ov of None \<Rightarrow> 0 | Some v \<Rightarrow> w k v)"

lemma hm_sum_Nil [simp]: "hm_sum w [] = 0"
  by (simp add: hm_sum_def)

lemma opt_weight_simps [simp]:
  "opt_weight w k None = 0" "opt_weight w k (Some v) = w k v"
  by (simp_all add: opt_weight_def)

lemma hm_sum_insert:
  "hm_wf m \<Longrightarrow> hm_sum w (hm_insert k v m) + opt_weight w k (hm_get m k) = hm_sum w m + w k v"
  by (induction m)
    (auto simp: hm_wf_def hm_sum_def hm_insert_def hm_get_def map_of_eq_None_iff)

lemma hm_sum_remove:
  "hm_wf m \<Longrightarrow> hm_sum w (hm_remove k m) + opt_weight w k (hm_get m k) = hm_sum w m"
proof (induction m)
  case Nil
  then show ?case by (simp add: hm_remove_def)
next
  case (Cons p m)
  obtain k' v' where p: "p = (k', v')" by (cases p)
  from Cons.prems have wf: "hm_wf m" and notin: "k' \<notin> fst ` set m"
    by (auto simp: hm_wf_def p)
  show ?case
  proof (cases "k' = k")
    case True
    with notin have "AList.delete k m = m"
      by (simp add: delete_idem)
    with True show ?thesis by (simp add: p hm_remove_def hm_sum_def hm_get_def)
  next
    case False
    with Cons.IH [OF wf] show ?thesis
      by (simp add: p hm_remove_def hm_sum_def hm_get_def)
  qed
qed

lemma hm_sum_get_le: "hm_wf m \<Longrightarrow> opt_weight w k (hm_get m k) \<le> hm_sum w m"
  by (metis hm_sum_remove le_add2)

lemma length_hm_insert:
  "hm_wf m \<Longrightarrow> length (hm_insert k v m) = length m + (if hm_get m k = None then 1 else 0)"
  using hm_sum_insert [of m "\<lambda>_ _. 1" k v]
  by (auto simp: hm_sum_def split_def sum_list_triv split: if_splits option.splits)

lemma length_hm_remove:
  "hm_wf m \<Longrightarrow> length (hm_remove k m) + (if hm_get m k = None then 0 else 1) = length m"
  using hm_sum_remove [of m "\<lambda>_ _. 1" k]
  by (auto simp: hm_sum_def split_def sum_list_triv split: if_splits option.splits)

section \<open>Lists\<close>

lemma nth_drop_Cons: "i < length xs \<Longrightarrow> drop i xs = xs ! i # drop (Suc i) xs"
  by (rule Cons_nth_drop_Suc [symmetric])

lemma take_drop_split: "i \<le> j \<Longrightarrow> drop i xs = take (j - i) (drop i xs) @ drop j xs"
  by (metis append_take_drop_id drop_drop le_add_diff_inverse2)

lemma sum_list_map_update:
  fixes f :: "'a \<Rightarrow> nat"
  shows "i < length xs \<Longrightarrow> sum_list (map f (xs[i := x])) + f (xs ! i) = sum_list (map f xs) + f x"
  by (induction xs arbitrary: i) (auto split: nat.splits)

end
