(* ===== verification/Glob.thy ===== *)
theory Glob
  imports Prelude
begin

text \<open>
  Redis-style glob patterns: \<^verbatim>\<open>src/src/glob.rs\<close>. A pattern is compiled to a
  list of tokens (\<open>glob_new\<close>, with \<open>parse_class\<close> for bracket classes) and
  matched by an iterative matcher with one backtracking point
  (\<open>glob_matches\<close>). The specification is \<open>glob_sem\<close>, the recursive meaning of a
  token list; the iterative matcher is shown equal to it on every token list,
  and the compiler's collapsing of adjacent stars is shown to keep it.

  A Rust \<^verbatim>\<open>char\<close> is a Unicode scalar value, here its number.
\<close>

type_synonym uchar = nat

abbreviation (input) c_star :: uchar where "c_star \<equiv> 42"
abbreviation (input) c_question :: uchar where "c_question \<equiv> 63"
abbreviation (input) c_open :: uchar where "c_open \<equiv> 91"
abbreviation (input) c_close :: uchar where "c_close \<equiv> 93"
abbreviation (input) c_caret :: uchar where "c_caret \<equiv> 94"
abbreviation (input) c_dash :: uchar where "c_dash \<equiv> 45"

section \<open>Tokens\<close>

datatype class_member = Character uchar | Range uchar uchar

datatype token =
    AnySequence
  | AnyCharacter
  | Literal uchar
  | Class (negated: bool) (members: "class_member list")

record glob_pattern =
  tokens :: "token list"

fun member_matches :: "class_member \<Rightarrow> uchar \<Rightarrow> bool" where
  "member_matches (Character expected) v \<longleftrightarrow> expected = v"
| "member_matches (Range start stop) v \<longleftrightarrow> start \<le> v \<and> v \<le> stop"

fun token_matches :: "token \<Rightarrow> uchar \<Rightarrow> bool" where
  "token_matches AnyCharacter v = True"
| "token_matches (Literal expected) v = (expected = v)"
| "token_matches (Class neg ms) v = (list_ex (\<lambda>m. member_matches m v) ms \<noteq> neg)"
| "token_matches AnySequence v = False"

section \<open>Compilation\<close>

text \<open>The \<^verbatim>\<open>while\<close> loop of \<open>parse_class\<close>: the position it stops at and the members read.\<close>

function class_loop :: "uchar list \<Rightarrow> nat \<Rightarrow> class_member list \<Rightarrow> nat \<times> class_member list" where
  "class_loop chars pos ms =
     (if pos < length chars \<and> chars ! pos \<noteq> c_close then
        if pos + 2 < length chars \<and> chars ! (pos + 1) = c_dash \<and> chars ! (pos + 2) \<noteq> c_close
        then class_loop chars (pos + 3) (ms @ [Range (chars ! pos) (chars ! (pos + 2))])
        else class_loop chars (pos + 1) (ms @ [Character (chars ! pos)])
      else (pos, ms))"
  by pat_completeness auto
termination
  by (relation "measure (\<lambda>(chars, pos, ms). length chars - pos)") auto

declare class_loop.simps [simp del]

definition parse_class :: "uchar list \<Rightarrow> nat \<Rightarrow> (token \<times> nat) option" where
  "parse_class chars start =
     (let pos0 = start + 1;
          neg = (pos0 < length chars \<and> chars ! pos0 = c_caret);
          pos1 = (if neg then pos0 + 1 else pos0);
          (pos, ms) = class_loop chars pos1 []
      in if length chars \<le> pos \<or> ms = [] then None else Some (Class neg ms, pos + 1))"

lemma class_loop_ge: "pos \<le> fst (class_loop chars pos ms)"
proof (induction chars pos ms rule: class_loop.induct)
  case (1 chars pos ms)
  then show ?case
    by (subst class_loop.simps) (auto intro: le_trans [OF _ "1.IH"(1)] le_trans [OF _ "1.IH"(2)])
qed

lemma parse_class_advances: "parse_class chars start = Some (t, p) \<Longrightarrow> start < p"
  using class_loop_ge [of "start + 1" chars "[]"] class_loop_ge [of "start + 2" chars "[]"]
  by (auto simp: parse_class_def Let_def split: prod.splits if_splits)

text \<open>
  \<open>GlobPattern::new\<close>: the loop over the pattern with the tokens pushed so far.
\<close>

function glob_new_loop :: "uchar list \<Rightarrow> nat \<Rightarrow> token list \<Rightarrow> token list" where
  "glob_new_loop chars pos toks =
     (if pos < length chars then
        if chars ! pos = c_star then
          glob_new_loop chars (pos + 1)
            (if toks \<noteq> [] \<and> last toks = AnySequence then toks else toks @ [AnySequence])
        else if chars ! pos = c_question then
          glob_new_loop chars (pos + 1) (toks @ [AnyCharacter])
        else if chars ! pos = c_open then
          (case parse_class chars pos of
             Some (token, next) \<Rightarrow> glob_new_loop chars next (toks @ [token])
           | None \<Rightarrow> glob_new_loop chars (pos + 1) (toks @ [Literal c_open]))
        else glob_new_loop chars (pos + 1) (toks @ [Literal (chars ! pos)])
      else toks)"
  by pat_completeness auto
termination
  by (relation "measure (\<lambda>(chars, pos, toks). length chars - pos)")
    (auto dest: parse_class_advances)

declare glob_new_loop.simps [simp del]

definition glob_new :: "uchar list \<Rightarrow> glob_pattern" where
  "glob_new pattern = \<lparr>tokens = glob_new_loop pattern 0 []\<rparr>"

section \<open>Matching\<close>

text \<open>
  The backtracking loop. The state is \<open>value_pos\<close>, \<open>token_pos\<close>,
  \<open>sequence_pos\<close> and \<open>sequence_match\<close>; the result is the final \<open>token_pos\<close>,
  or \<open>None\<close> for the early \<^verbatim>\<open>return false\<close>.
\<close>

function match_loop ::
    "token list \<Rightarrow> uchar list \<Rightarrow> nat \<Rightarrow> nat \<Rightarrow> nat option \<Rightarrow> nat \<Rightarrow> nat option" where
  "match_loop toks vs value_pos token_pos sequence_pos sequence_match =
     (if value_pos < length vs then
        if token_pos < length toks \<and> token_matches (toks ! token_pos) (vs ! value_pos) then
          match_loop toks vs (value_pos + 1) (token_pos + 1) sequence_pos sequence_match
        else if token_pos < length toks \<and> toks ! token_pos = AnySequence then
          match_loop toks vs value_pos (token_pos + 1) (Some token_pos) value_pos
        else (case sequence_pos of
                Some sequence \<Rightarrow>
                  match_loop toks vs (sequence_match + 1) (sequence + 1) sequence_pos
                    (sequence_match + 1)
              | None \<Rightarrow> None)
      else Some token_pos)"
  by pat_completeness auto
termination
proof (relation "measures
    [\<lambda>(toks, vs, vp, tp, sp, sm).
       Suc (length toks) - (case sp of None \<Rightarrow> tp | Some s \<Rightarrow> min tp (Suc s)),
     \<lambda>(toks, vs, vp, tp, sp, sm). length vs - sm,
     \<lambda>(toks, vs, vp, tp, sp, sm). length vs - vp]", goal_cases)
  case 1
  then show ?case by simp
next
  case (2 toks vs vp tp sp sm)
  then show ?case by (auto split: option.splits)
next
  case (3 toks vs vp tp sp sm)
  then show ?case by (auto split: option.splits)
next
  case (4 toks vs vp tp sp sm s)
  then show ?case by auto
qed

declare match_loop.simps [simp del]

text \<open>The loop that skips trailing stars.\<close>

function skip_stars :: "token list \<Rightarrow> nat \<Rightarrow> nat" where
  "skip_stars toks token_pos =
     (if token_pos < length toks \<and> toks ! token_pos = AnySequence
      then skip_stars toks (token_pos + 1) else token_pos)"
  by pat_completeness auto
termination
  by (relation "measure (\<lambda>(toks, tp). length toks - tp)") auto

declare skip_stars.simps [simp del]

text \<open>\<open>Iterator::position\<close> and \<open>rposition\<close>.\<close>

fun position :: "('a \<Rightarrow> bool) \<Rightarrow> 'a list \<Rightarrow> nat option" where
  "position p [] = None"
| "position p (x # xs) = (if p x then Some 0 else map_option Suc (position p xs))"

fun rposition :: "('a \<Rightarrow> bool) \<Rightarrow> 'a list \<Rightarrow> nat option" where
  "rposition p [] = None"
| "rposition p (x # xs) =
     (case rposition p xs of Some i \<Rightarrow> Some (Suc i) | None \<Rightarrow> if p x then Some 0 else None)"

definition zip_matches :: "token list \<Rightarrow> uchar list \<Rightarrow> bool" where
  "zip_matches toks vs \<longleftrightarrow> list_all (\<lambda>(t, v). token_matches t v) (zip toks vs)"

definition glob_matches :: "glob_pattern \<Rightarrow> uchar list \<Rightarrow> bool" where
  "glob_matches self v =
     (let toks = tokens self in
      if length toks = 1 \<and> toks ! 0 = AnySequence then True
      else case position (\<lambda>t. t = AnySequence) toks of
        None \<Rightarrow> length toks = length v \<and> zip_matches toks v
      | Some first_sequence \<Rightarrow>
          (case rposition (\<lambda>t. t = AnySequence) toks of
             None \<Rightarrow> False
           | Some last_sequence \<Rightarrow>
               let suffix_len = length toks - last_sequence - 1 in
               if length v < first_sequence + suffix_len then False
               else if \<not> zip_matches (take first_sequence toks) (take first_sequence v) then False
               else if \<not> zip_matches (drop (last_sequence + 1) toks) (drop (length v - suffix_len) v)
               then False
               else if first_sequence = last_sequence then True
               else
                 let mid = drop first_sequence (take (last_sequence + 1) toks);
                     vmid = drop first_sequence (take (length v - suffix_len) v)
                 in case match_loop mid vmid 0 0 None 0 of
                      None \<Rightarrow> False
                    | Some token_pos \<Rightarrow> skip_stars mid token_pos = length mid))"

section \<open>Specification\<close>

text \<open>The meaning of a token list: a star stands for any sequence of characters.\<close>

fun glob_sem :: "token list \<Rightarrow> uchar list \<Rightarrow> bool" where
  "glob_sem [] vs = (vs = [])"
| "glob_sem (t # ts) [] = (t = AnySequence \<and> glob_sem ts [])"
| "glob_sem (t # ts) (v # vs) =
     (if t = AnySequence then glob_sem ts (v # vs) \<or> glob_sem (t # ts) vs
      else token_matches t v \<and> glob_sem ts vs)"

text \<open>
  The meaning of a pattern text without bracket classes, as the reference
  matcher of the repository's own tests computes it.
\<close>

fun pattern_sem :: "uchar list \<Rightarrow> uchar list \<Rightarrow> bool" where
  "pattern_sem [] vs = (vs = [])"
| "pattern_sem (c # cs) [] = (c = c_star \<and> pattern_sem cs [])"
| "pattern_sem (c # cs) (v # vs) =
     (if c = c_star then pattern_sem cs (v # vs) \<or> pattern_sem (c # cs) vs
      else if c = c_question then pattern_sem cs vs
      else c = v \<and> pattern_sem cs vs)"

fun no_adjacent_stars :: "token list \<Rightarrow> bool" where
  "no_adjacent_stars (t # u # ts) \<longleftrightarrow>
     \<not> (t = AnySequence \<and> u = AnySequence) \<and> no_adjacent_stars (u # ts)"
| "no_adjacent_stars ts \<longleftrightarrow> True"

section \<open>The meaning of token lists\<close>

abbreviation star_free :: "token list \<Rightarrow> bool" where
  "star_free ts \<equiv> AnySequence \<notin> set ts"

lemma glob_sem_Nil: "glob_sem ts [] \<longleftrightarrow> set ts \<subseteq> {AnySequence}"
  by (induction ts) auto

lemma glob_sem_Star: "glob_sem (AnySequence # ts) vs \<longleftrightarrow> (\<exists>i \<le> length vs. glob_sem ts (drop i vs))"
proof (induction vs)
  case Nil
  then show ?case by simp
next
  case (Cons v vs)
  have "(\<exists>i \<le> length (v # vs). glob_sem ts (drop i (v # vs)))
    \<longleftrightarrow> glob_sem ts (v # vs) \<or> (\<exists>i \<le> length vs. glob_sem ts (drop i vs))" (is "?L = ?R")
  proof
    assume ?L
    then obtain i where i: "i \<le> length (v # vs)" "glob_sem ts (drop i (v # vs))" by blast
    then show ?R by (cases i) auto
  next
    assume ?R
    then show ?L
    proof
      assume "glob_sem ts (v # vs)"
      then show ?L by (intro exI [of _ 0]) simp
    next
      assume "\<exists>i \<le> length vs. glob_sem ts (drop i vs)"
      then obtain i where "i \<le> length vs" "glob_sem ts (drop i vs)" by blast
      then show ?L by (intro exI [of _ "Suc i"]) simp
    qed
  qed
  with Cons.IH show ?case by simp
qed

lemma glob_sem_Star_mono:
  assumes "glob_sem (AnySequence # ts) (drop j vs)" and "i \<le> j" and "j \<le> length vs"
  shows "glob_sem (AnySequence # ts) (drop i vs)"
proof -
  from assms(1) obtain k where k: "k \<le> length (drop j vs)" "glob_sem ts (drop k (drop j vs))"
    unfolding glob_sem_Star by blast
  with assms show ?thesis
    unfolding glob_sem_Star by (intro exI [of _ "j - i + k"]) (auto simp: add.commute)
qed

lemma zip_matches_simps [simp]:
  "zip_matches [] vs" "zip_matches ts []"
  "zip_matches (t # ts) (v # vs) \<longleftrightarrow> token_matches t v \<and> zip_matches ts vs"
  by (auto simp: zip_matches_def)

lemma zip_matches_append:
  "length ts = length vs \<Longrightarrow>
   zip_matches (ts @ ts') (vs @ vs') \<longleftrightarrow> zip_matches ts vs \<and> zip_matches ts' vs'"
  by (simp add: zip_matches_def)

text \<open>A prefix without stars consumes exactly as many characters as it has tokens.\<close>

lemma glob_sem_prefix:
  "star_free ms \<Longrightarrow> glob_sem (ms @ ts) vs \<longleftrightarrow>
     length ms \<le> length vs \<and> zip_matches ms (take (length ms) vs) \<and> glob_sem ts (drop (length ms) vs)"
proof (induction ms arbitrary: vs)
  case Nil
  then show ?case by simp
next
  case (Cons m ms)
  then show ?case by (cases vs) auto
qed

lemma glob_sem_star_free:
  "star_free ts \<Longrightarrow> glob_sem ts vs \<longleftrightarrow> length ts = length vs \<and> zip_matches ts vs"
  using glob_sem_prefix [of ts "[]" vs] by auto

lemma ex_le_Suc_shift: "(\<exists>i \<le> Suc n. P i) \<longleftrightarrow> P 0 \<or> (\<exists>i \<le> n. P (Suc i))"
  by (metis Suc_le_mono not0_implies_Suc zero_le)

lemma glob_sem_append:
  "glob_sem (as @ bs) vs \<longleftrightarrow> (\<exists>i \<le> length vs. glob_sem as (take i vs) \<and> glob_sem bs (drop i vs))"
proof (induction as vs rule: glob_sem.induct)
  case (1 vs)
  then show ?case by (auto intro: exI [of _ 0])
next
  case (2 t ts)
  then show ?case by auto
next
  case (3 t ts v vs)
  show ?case
  proof (cases "t = AnySequence")
    case True
    with 3 have IH1: "glob_sem (ts @ bs) (v # vs) \<longleftrightarrow>
        (\<exists>i \<le> Suc (length vs). glob_sem ts (take i (v # vs)) \<and> glob_sem bs (drop i (v # vs)))"
      and IH2: "glob_sem (t # ts @ bs) vs \<longleftrightarrow>
        (\<exists>i \<le> length vs. glob_sem (t # ts) (take i vs) \<and> glob_sem bs (drop i vs))"
      by simp_all
    show ?thesis
      unfolding length_Cons append_Cons glob_sem.simps(3) IH1 IH2 ex_le_Suc_shift
      using True by (auto simp: glob_sem_Nil)
  next
    case False
    with 3 have IH: "glob_sem (ts @ bs) vs \<longleftrightarrow>
        (\<exists>i \<le> length vs. glob_sem ts (take i vs) \<and> glob_sem bs (drop i vs))"
      by simp
    show ?thesis
      unfolding length_Cons append_Cons glob_sem.simps(3) IH ex_le_Suc_shift
      using False by auto
  qed
qed

text \<open>A suffix without stars is matched against the end of the value.\<close>

lemma glob_sem_suffix:
  assumes "star_free bs"
  shows "glob_sem (as @ bs) vs \<longleftrightarrow>
     length bs \<le> length vs \<and> glob_sem as (take (length vs - length bs) vs)
     \<and> zip_matches bs (drop (length vs - length bs) vs)" (is "?L \<longleftrightarrow> ?R")
proof
  assume ?L
  then obtain i where i: "i \<le> length vs" "glob_sem as (take i vs)"
    and bs: "length bs = length (drop i vs)" "zip_matches bs (drop i vs)"
    unfolding glob_sem_append glob_sem_star_free [OF assms] by blast
  have "length bs \<le> length vs" and "i = length vs - length bs" using i(1) bs(1) by simp_all
  with i(2) bs(2) show ?R by blast
next
  assume ?R
  then show ?L
    unfolding glob_sem_append glob_sem_star_free [OF assms]
    by (intro exI [of _ "length vs - length bs"]) simp
qed

section \<open>The backtracking loop\<close>

definition loop_result :: "token list \<Rightarrow> nat option \<Rightarrow> bool" where
  "loop_result toks r = (case r of None \<Rightarrow> False | Some p \<Rightarrow> skip_stars toks p = length toks)"

lemma skip_stars_complete:
  "tp \<le> length toks \<Longrightarrow> skip_stars toks tp = length toks \<longleftrightarrow> glob_sem (drop tp toks) []"
proof (induction toks tp rule: skip_stars.induct)
  case (1 toks tp)
  show ?case
  proof (cases "tp < length toks")
    case True
    with 1 show ?thesis
      by (subst skip_stars.simps) (auto simp: nth_drop_Cons)
  next
    case False
    with 1 show ?thesis by (subst skip_stars.simps) auto
  qed
qed

text \<open>
  What the loop keeps: without a star seen so far, the answer is the meaning of
  the remaining tokens on the remaining characters. After a star at \<open>s\<close>, the
  tokens between it and \<open>token_pos\<close> are star-free and match the characters from
  \<open>sequence_match\<close> on, and the answer is the meaning of the tokens from the
  star on.
\<close>

definition loop_inv :: "token list \<Rightarrow> uchar list \<Rightarrow> nat \<Rightarrow> nat \<Rightarrow> nat option \<Rightarrow> nat \<Rightarrow> bool" where
  "loop_inv toks vs vp tp sp sm \<longleftrightarrow> vp \<le> length vs \<and> tp \<le> length toks \<and>
     (case sp of None \<Rightarrow> True
      | Some s \<Rightarrow> (\<exists>ms. drop s toks = AnySequence # ms @ drop tp toks \<and> star_free ms
                     \<and> vp = sm + length ms \<and> zip_matches ms (take (length ms) (drop sm vs))))"

definition loop_goal :: "token list \<Rightarrow> uchar list \<Rightarrow> nat \<Rightarrow> nat \<Rightarrow> nat option \<Rightarrow> nat \<Rightarrow> bool" where
  "loop_goal toks vs vp tp sp sm =
     (case sp of None \<Rightarrow> glob_sem (drop tp toks) (drop vp vs)
      | Some s \<Rightarrow> glob_sem (drop s toks) (drop sm vs))"

lemma later_choice:
  assumes "drop s toks = AnySequence # ms @ ts" and "star_free ms"
    and "glob_sem (drop s toks) (drop sm vs)" and "sm + length ms \<le> length vs"
  obtains j where "sm + length ms \<le> j" "j \<le> length vs" "glob_sem ts (drop j vs)"
proof -
  from assms(1,3) obtain i where i: "i \<le> length (drop sm vs)"
    and "glob_sem (ms @ ts) (drop i (drop sm vs))"
    by (auto simp: glob_sem_Star)
  with assms(2) have "length ms \<le> length (drop i (drop sm vs))"
    and "glob_sem ts (drop (sm + i + length ms) vs)"
    by (auto simp: glob_sem_prefix add_ac)
  with i assms(4) that [of "sm + i + length ms"] show thesis by auto
qed

lemma current_choice:
  assumes "drop s toks = AnySequence # ms @ ts" and "star_free ms"
    and "zip_matches ms (take (length ms) (drop sm vs))" and "sm + length ms \<le> length vs"
    and "glob_sem ts (drop (sm + length ms) vs)"
  shows "glob_sem (drop s toks) (drop sm vs)"
proof -
  from assms have "glob_sem (ms @ ts) (drop sm vs)"
    by (simp add: glob_sem_prefix add.commute)
  then show ?thesis unfolding assms(1) glob_sem_Star by (intro exI [of _ 0]) simp
qed

lemma loop_goal_at_end:
  assumes "loop_inv toks vs vp tp sp sm" and "vp = length vs"
  shows "loop_goal toks vs vp tp sp sm \<longleftrightarrow> glob_sem (drop tp toks) []"
proof (cases sp)
  case None
  with assms show ?thesis by (simp add: loop_goal_def)
next
  case (Some s)
  with assms(1) obtain ms where ms: "drop s toks = AnySequence # ms @ drop tp toks" "star_free ms"
    "vp = sm + length ms" "zip_matches ms (take (length ms) (drop sm vs))"
    by (auto simp: loop_inv_def)
  have "glob_sem (drop tp toks) []" if goal: "glob_sem (drop s toks) (drop sm vs)"
    using later_choice [OF ms(1,2) goal] ms(3) assms(2) by (metis drop_all le_antisym order_refl)
  moreover have "glob_sem (drop s toks) (drop sm vs)" if "glob_sem (drop tp toks) []"
    using current_choice [OF ms(1,2,4)] ms(3) assms(2) that by simp
  ultimately show ?thesis using Some by (auto simp: loop_goal_def)
qed

lemma loop_step_match:
  assumes inv: "loop_inv toks vs vp tp sp sm" and vp: "vp < length vs"
    and tok: "tp < length toks \<and> token_matches (toks ! tp) (vs ! vp)"
  shows "loop_inv toks vs (vp + 1) (tp + 1) sp sm"
    and "loop_goal toks vs (vp + 1) (tp + 1) sp sm = loop_goal toks vs vp tp sp sm"
proof -
  from tok have ns: "toks ! tp \<noteq> AnySequence" by auto
  have dt: "drop tp toks = toks ! tp # drop (Suc tp) toks" using tok by (simp add: nth_drop_Cons)
  have dv: "drop vp vs = vs ! vp # drop (Suc vp) vs" using vp by (simp add: nth_drop_Cons)
  show "loop_goal toks vs (vp + 1) (tp + 1) sp sm = loop_goal toks vs vp tp sp sm"
    using tok ns by (cases sp) (simp_all add: loop_goal_def dt dv)
  show "loop_inv toks vs (vp + 1) (tp + 1) sp sm"
  proof (cases sp)
    case None
    with vp tok show ?thesis by (simp add: loop_inv_def)
  next
    case (Some s)
    with inv obtain ms where ms: "drop s toks = AnySequence # ms @ drop tp toks" "star_free ms"
      "vp = sm + length ms" "zip_matches ms (take (length ms) (drop sm vs))"
      by (auto simp: loop_inv_def)
    have "take (Suc (length ms)) (drop sm vs) = take (length ms) (drop sm vs) @ [vs ! vp]"
      using ms(3) vp by (simp add: take_Suc_conv_app_nth)
    with ms tok vp have "zip_matches (ms @ [toks ! tp])
        (take (length (ms @ [toks ! tp])) (drop sm vs))"
      by (simp add: zip_matches_append)
    with Some ms vp tok ns show ?thesis
      by (auto simp: loop_inv_def dt intro!: exI [of _ "ms @ [toks ! tp]"])
  qed
qed

lemma loop_step_star:
  assumes inv: "loop_inv toks vs vp tp sp sm"
    and tok: "tp < length toks \<and> toks ! tp = AnySequence"
  shows "loop_inv toks vs vp (tp + 1) (Some tp) vp"
    and "loop_goal toks vs vp (tp + 1) (Some tp) vp = loop_goal toks vs vp tp sp sm"
proof -
  have dt: "drop tp toks = AnySequence # drop (Suc tp) toks"
    using tok by (metis nth_drop_Cons)
  from inv have vp: "vp \<le> length vs" by (simp add: loop_inv_def)
  show "loop_inv toks vs vp (tp + 1) (Some tp) vp"
    using tok vp dt by (auto simp: loop_inv_def)
  show "loop_goal toks vs vp (tp + 1) (Some tp) vp = loop_goal toks vs vp tp sp sm"
  proof (cases sp)
    case None
    then show ?thesis by (simp add: loop_goal_def)
  next
    case (Some s)
    with inv obtain ms where ms: "drop s toks = AnySequence # ms @ drop tp toks" "star_free ms"
      "vp = sm + length ms" "zip_matches ms (take (length ms) (drop sm vs))"
      by (auto simp: loop_inv_def)
    have "glob_sem (drop tp toks) (drop vp vs)" if goal: "glob_sem (drop s toks) (drop sm vs)"
    proof -
      from later_choice [OF ms(1,2) goal] ms(3) vp obtain j
        where "vp \<le> j" "j \<le> length vs" "glob_sem (drop tp toks) (drop j vs)"
        by metis
      then show ?thesis unfolding dt using glob_sem_Star_mono by blast
    qed
    moreover have "glob_sem (drop s toks) (drop sm vs)" if "glob_sem (drop tp toks) (drop vp vs)"
      using current_choice [OF ms(1,2,4)] ms(3) vp that by simp
    ultimately show ?thesis using Some by (auto simp: loop_goal_def)
  qed
qed

lemma loop_step_backtrack:
  assumes inv: "loop_inv toks vs vp tp (Some s) sm" and vp: "vp < length vs"
    and fail: "\<not> glob_sem (drop tp toks) (drop vp vs)"
  shows "loop_inv toks vs (sm + 1) (s + 1) (Some s) (sm + 1)"
    and "loop_goal toks vs (sm + 1) (s + 1) (Some s) (sm + 1) = loop_goal toks vs vp tp (Some s) sm"
proof -
  from inv obtain ms where ms: "drop s toks = AnySequence # ms @ drop tp toks" "star_free ms"
    "vp = sm + length ms" "zip_matches ms (take (length ms) (drop sm vs))"
    by (auto simp: loop_inv_def)
  then have s: "s < length toks" by (metis drop_all list.distinct(1) not_le)
  then have ds: "drop s toks = AnySequence # drop (Suc s) toks"
    using ms(1) by (metis list.inject nth_drop_Cons)
  then have rest: "drop (Suc s) toks = ms @ drop tp toks" using ms(1) by simp
  have sm: "sm < length vs" using ms(3) vp by simp
  from s sm ds show "loop_inv toks vs (sm + 1) (s + 1) (Some s) (sm + 1)"
    by (auto simp: loop_inv_def)
  have "\<not> glob_sem (drop (Suc s) toks) (drop sm vs)"
    using fail ms vp by (simp add: rest glob_sem_prefix add.commute)
  moreover have "drop sm vs = vs ! sm # drop (Suc sm) vs" using sm by (simp add: nth_drop_Cons)
  ultimately show "loop_goal toks vs (sm + 1) (s + 1) (Some s) (sm + 1)
      = loop_goal toks vs vp tp (Some s) sm"
    by (simp add: loop_goal_def ds)
qed

lemma match_loop_correct:
  "loop_inv toks vs vp tp sp sm \<Longrightarrow>
   loop_result toks (match_loop toks vs vp tp sp sm) \<longleftrightarrow> loop_goal toks vs vp tp sp sm"
proof (induction toks vs vp tp sp sm rule: match_loop.induct)
  case (1 toks vs vp tp sp sm)
  note inv = "1.prems"
  have tp: "tp \<le> length toks" and vp: "vp \<le> length vs"
    using inv by (auto simp: loop_inv_def)
  show ?case
  proof (cases "vp < length vs")
    case False
    with vp have end_vs: "vp = length vs" by simp
    have res: "loop_result toks (match_loop toks vs vp tp sp sm) \<longleftrightarrow> glob_sem (drop tp toks) []"
      using False tp by (subst match_loop.simps) (simp add: loop_result_def skip_stars_complete)
    show ?thesis
      using loop_goal_at_end [OF inv end_vs] res by simp
  next
    case True
    show ?thesis
    proof (cases "tp < length toks \<and> token_matches (toks ! tp) (vs ! vp)")
      case matched: True
      with True have "match_loop toks vs vp tp sp sm = match_loop toks vs (vp + 1) (tp + 1) sp sm"
        by (subst match_loop.simps) simp
      with "1.IH"(1) [OF True matched] loop_step_match [OF inv True matched] show ?thesis by simp
    next
      case unmatched: False
      show ?thesis
      proof (cases "tp < length toks \<and> toks ! tp = AnySequence")
        case star: True
        with True unmatched have "match_loop toks vs vp tp sp sm
            = match_loop toks vs vp (tp + 1) (Some tp) vp"
          by (subst match_loop.simps) simp
        with "1.IH"(2) [OF True unmatched star] loop_step_star [OF inv star] show ?thesis by simp
      next
        case stuck: False
        have fail: "\<not> glob_sem (drop tp toks) (drop vp vs)"
          using True unmatched stuck tp by (cases "tp = length toks") (auto simp: nth_drop_Cons)
        show ?thesis
        proof (cases sp)
          case None
          with True unmatched stuck have "match_loop toks vs vp tp sp sm = None"
            by (subst match_loop.simps) auto
          with None fail show ?thesis
            by (simp add: loop_result_def loop_goal_def)
        next
          case (Some s)
          note bt = loop_step_backtrack [OF inv [unfolded Some] True fail, folded Some]
          from True unmatched stuck Some have "match_loop toks vs vp tp sp sm
              = match_loop toks vs (sm + 1) (s + 1) sp (sm + 1)"
            by (subst match_loop.simps) auto
          with "1.IH"(3) [OF True unmatched stuck Some bt(1)] bt(2) show ?thesis by simp
        qed
      qed
    qed
  qed
qed

section \<open>The matcher\<close>

lemma position_None: "position p xs = None \<longleftrightarrow> (\<forall>x \<in> set xs. \<not> p x)"
  by (induction xs) auto

lemma rposition_None: "rposition p xs = None \<longleftrightarrow> (\<forall>x \<in> set xs. \<not> p x)"
  by (induction xs) (auto split: option.splits)

lemma position_Some:
  "position p xs = Some i \<Longrightarrow> i < length xs \<and> p (xs ! i) \<and> (\<forall>x \<in> set (take i xs). \<not> p x)"
  by (induction xs arbitrary: i) (auto split: if_splits)

lemma rposition_Some:
  "rposition p xs = Some i \<Longrightarrow> i < length xs \<and> p (xs ! i) \<and> (\<forall>x \<in> set (drop (Suc i) xs). \<not> p x)"
  by (induction xs arbitrary: i) (auto simp: rposition_None split: if_splits option.splits)

lemma position_le_rposition:
  assumes "position p xs = Some i" and "rposition p xs = Some j"
  shows "i \<le> j"
proof (rule ccontr)
  assume "\<not> i \<le> j"
  then have "xs ! i \<in> set (drop (Suc j) xs)"
    using position_Some [OF assms(1)] by (auto simp: in_set_conv_nth intro!: exI [of _ "i - Suc j"])
  with position_Some [OF assms(1)] rposition_Some [OF assms(2)] show False by blast
qed

text \<open>The tokens split at the first and the last star.\<close>

lemma glob_sem_split:
  assumes "f \<le> l" "l < length toks" "star_free (take f toks)" "star_free (drop (Suc l) toks)"
  defines "sl \<equiv> length toks - l - 1"
  shows "glob_sem toks v \<longleftrightarrow> f + sl \<le> length v
     \<and> zip_matches (take f toks) (take f v)
     \<and> zip_matches (drop (Suc l) toks) (drop (length v - sl) v)
     \<and> glob_sem (drop f (take (Suc l) toks)) (drop f (take (length v - sl) v))"
proof -
  let ?pre = "take f toks" and ?mid = "drop f (take (Suc l) toks)" and ?suf = "drop (Suc l) toks"
  have toks: "toks = ?pre @ ?mid @ ?suf"
    using assms(1,2) by (metis append_assoc append_take_drop_id min.absorb1 take_take le_SucI)
  have len: "length ?pre = f" "length ?suf = sl" using assms by (auto simp: sl_def)
  have "glob_sem toks v \<longleftrightarrow> f \<le> length v \<and> zip_matches ?pre (take f v)
     \<and> glob_sem (?mid @ ?suf) (drop f v)"
    using glob_sem_prefix [OF assms(3), of "?mid @ ?suf" v] len by (simp flip: toks)
  also have "glob_sem (?mid @ ?suf) (drop f v) \<longleftrightarrow> sl \<le> length v - f
     \<and> glob_sem ?mid (take (length v - f - sl) (drop f v))
     \<and> zip_matches ?suf (drop (length v - f - sl) (drop f v))"
    using glob_sem_suffix [OF assms(4), of ?mid "drop f v"] len by simp
  also have "take (length v - f - sl) (drop f v) = drop f (take (length v - sl) v)"
    by (simp add: drop_take diff_diff_eq add.commute)
  finally show ?thesis by (auto simp: add.commute)
qed

lemma glob_matches_correct_tokens:
  "glob_matches pat v \<longleftrightarrow> glob_sem (tokens pat) v"
proof (cases "position (\<lambda>t. t = AnySequence) (tokens pat)")
  case None
  then have "star_free (tokens pat)" by (auto simp: position_None)
  with None show ?thesis
    by (cases "tokens pat") (auto simp: glob_matches_def glob_sem_star_free)
next
  case (Some f)
  let ?toks = "tokens pat"
  have "rposition (\<lambda>t. t = AnySequence) ?toks \<noteq> None"
    using position_Some [OF Some] by (auto simp: rposition_None dest: nth_mem)
  then obtain l where l: "rposition (\<lambda>t. t = AnySequence) ?toks = Some l" by blast
  have fl: "f \<le> l" "l < length ?toks" "star_free (take f ?toks)" "star_free (drop (Suc l) ?toks)"
    using position_le_rposition [OF Some l] position_Some [OF Some] rposition_Some [OF l] by auto
  have star: "?toks ! f = AnySequence" using position_Some [OF Some] by simp
  let ?mid = "drop f (take (Suc l) ?toks)"
  have mid1: "?mid = [AnySequence]" if "f = l"
    using that fl star by (simp add: take_Suc_conv_app_nth)
  have loop: "loop_result ?mid (match_loop ?mid vs 0 0 None 0) \<longleftrightarrow> glob_sem ?mid vs" for vs
    using match_loop_correct [of ?mid vs 0 0 None 0] by (simp add: loop_inv_def loop_goal_def)
  have one: "glob_sem ?toks v" if "length ?toks = 1" "?toks ! 0 = AnySequence"
    using that glob_sem_Star [of "[]" v] by (cases ?toks) auto
  show ?thesis
    using glob_sem_split [OF fl, of v] loop mid1 one
    by (auto simp: glob_matches_def Some l Let_def loop_result_def glob_sem_Star)
qed

text \<open>
  Claim C31. On every compiled pattern and every value the iterative matcher,
  with its prefix and suffix shortcuts and its single backtracking point, answers
  exactly what the recursive meaning of the token list says.
\<close>

theorem glob_matches_correct:
  "glob_matches pat v \<longleftrightarrow> glob_sem (tokens pat) v"
  by (rule glob_matches_correct_tokens)

section \<open>The compiler\<close>

definition char_token :: "uchar \<Rightarrow> token" where
  "char_token c =
     (if c = c_star then AnySequence else if c = c_question then AnyCharacter else Literal c)"

lemma char_token_simps [simp]:
  "char_token c_star = AnySequence" "char_token c_question = AnyCharacter"
  "c \<noteq> c_star \<Longrightarrow> c \<noteq> c_question \<Longrightarrow> char_token c = Literal c"
  by (simp_all add: char_token_def)

lemma pattern_sem_tokens: "pattern_sem cs vs \<longleftrightarrow> glob_sem (map char_token cs) vs"
  by (induction cs vs rule: pattern_sem.induct) (auto simp: char_token_def)

lemma glob_sem_Star_Star:
  "glob_sem (AnySequence # AnySequence # ts) vs \<longleftrightarrow> glob_sem (AnySequence # ts) vs"
proof
  assume "glob_sem (AnySequence # AnySequence # ts) vs"
  then obtain i where "i \<le> length vs" "glob_sem (AnySequence # ts) (drop i vs)"
    unfolding glob_sem_Star [of "AnySequence # ts"] by blast
  then show "glob_sem (AnySequence # ts) vs"
    using glob_sem_Star_mono [of ts i vs 0] by simp
next
  assume "glob_sem (AnySequence # ts) vs"
  then show "glob_sem (AnySequence # AnySequence # ts) vs"
    unfolding glob_sem_Star [of "AnySequence # ts"] by (intro exI [of _ 0]) simp
qed

lemma glob_sem_collapse:
  assumes "as \<noteq> []" and "last as = AnySequence"
  shows "glob_sem (as @ AnySequence # ts) vs \<longleftrightarrow> glob_sem (as @ ts) vs"
proof -
  from assms have as: "as = butlast as @ [AnySequence]" by (metis append_butlast_last_id)
  have "glob_sem (butlast as @ AnySequence # AnySequence # ts) vs
      \<longleftrightarrow> glob_sem (butlast as @ AnySequence # ts) vs"
    unfolding glob_sem_append [of "butlast as"] glob_sem_Star_Star ..
  then show ?thesis by (subst (1 2) as) simp
qed

lemma glob_new_loop_sem:
  "c_open \<notin> set chars \<Longrightarrow>
   glob_sem (glob_new_loop chars pos toks) vs
     \<longleftrightarrow> glob_sem (toks @ map char_token (drop pos chars)) vs"
proof (induction chars pos toks rule: glob_new_loop.induct)
  case (1 chars pos toks)
  show ?case
  proof (cases "pos < length chars")
    case True
    let ?c = "chars ! pos"
    from True "1.prems" have c: "?c \<noteq> c_open" by (metis nth_mem)
    let ?toks' = "if ?c = c_star \<and> toks \<noteq> [] \<and> last toks = AnySequence
      then toks else toks @ [char_token ?c]"
    have step: "glob_new_loop chars pos toks = glob_new_loop chars (pos + 1) ?toks'"
      using True c by (subst glob_new_loop.simps) auto
    have "glob_sem (glob_new_loop chars (pos + 1) ?toks') vs
        \<longleftrightarrow> glob_sem (?toks' @ map char_token (drop (pos + 1) chars)) vs"
      using "1.IH"(1) [OF True] "1.IH"(2) [OF True] "1.IH"(5) [OF True _ _ c] "1.prems" c
      by (cases "?c = c_star"; cases "?c = c_question") (auto split: if_splits)
    also have "\<dots> \<longleftrightarrow> glob_sem (toks @ char_token ?c # map char_token (drop (pos + 1) chars)) vs"
      by (simp add: glob_sem_collapse)
    also have "char_token ?c # map char_token (drop (pos + 1) chars)
        = map char_token (drop pos chars)"
      using True by (simp add: nth_drop_Cons)
    finally show ?thesis unfolding step .
  next
    case False
    then show ?thesis by (subst glob_new_loop.simps) simp
  qed
qed

text \<open>
  For a pattern without bracket classes, compiling it and running
  the iterative matcher gives the answer of the reference matcher on the pattern
  text, for every pattern and every value.
\<close>

theorem glob_pattern_correct:
  assumes "c_open \<notin> set pattern"
  shows "glob_matches (glob_new pattern) v \<longleftrightarrow> pattern_sem pattern v"
  using glob_new_loop_sem [OF assms, of 0 "[]" v]
  by (simp add: glob_matches_correct_tokens glob_new_def pattern_sem_tokens)

theorem glob_pattern_correct_witness:
  "glob_matches (glob_new [104, c_star, c_star, 111]) [104, 101, 108, 108, 111]
     \<longleftrightarrow> pattern_sem [104, c_star, c_star, 111] [104, 101, 108, 108, 111]"
  by (rule glob_pattern_correct) simp

text \<open>Compilation collapses runs of stars: no two adjacent tokens are stars.\<close>

lemma no_adjacent_stars_snoc:
  "no_adjacent_stars (ts @ [t]) \<longleftrightarrow>
     no_adjacent_stars ts \<and> \<not> (ts \<noteq> [] \<and> last ts = AnySequence \<and> t = AnySequence)"
  by (induction ts rule: no_adjacent_stars.induct) auto

lemma parse_class_is_class: "parse_class chars pos = Some (t, p) \<Longrightarrow> t \<noteq> AnySequence"
  by (auto simp: parse_class_def Let_def split: prod.splits if_splits)

lemma glob_new_loop_collapsed:
  "no_adjacent_stars toks \<Longrightarrow> no_adjacent_stars (glob_new_loop chars pos toks)"
proof (induction chars pos toks rule: glob_new_loop.induct)
  case (1 chars pos toks)
  then show ?case
    by (subst glob_new_loop.simps)
      (auto simp: no_adjacent_stars_snoc parse_class_is_class split: option.splits)
qed

lemma glob_new_collapsed: "no_adjacent_stars (tokens (glob_new pattern))"
  by (simp add: glob_new_def glob_new_loop_collapsed)

end
