(* ===== verification/Limits.thy ===== *)
theory Limits
  imports Prelude
begin

text \<open>
  The resource budgets of the network surfaces: \<^verbatim>\<open>src/src/limits.rs\<close>. A
  \<open>ByteBudget\<close> (\<open>CountBudget\<close>) is a limit and an atomic counter shared by
  reservations; a reservation grows by a compare-and-swap loop and gives its
  bytes back when it is released or dropped.

  The first part models the calls of one thread. The second part is the
  concurrent program: any number of threads, each between the load and the
  compare-and-swap of its \<open>try_grow\<close>, interleaved in any order.
\<close>

section \<open>One caller\<close>

record byte_budget =
  bb_limit :: nat
  bb_used :: nat

record byte_reservation =
  br_bytes :: nat

definition byte_budget_new :: "nat \<Rightarrow> byte_budget" where
  "byte_budget_new limit = \<lparr>bb_limit = limit, bb_used = 0\<rparr>"

definition byte_reservation_new :: byte_reservation where
  "byte_reservation_new = \<lparr>br_bytes = 0\<rparr>"

text \<open>\<open>ByteReservation::try_grow\<close>, with no other thread between the load and the swap.\<close>

definition byte_try_grow ::
    "nat \<Rightarrow> byte_budget \<times> byte_reservation \<Rightarrow> bool \<times> byte_budget \<times> byte_reservation" where
  "byte_try_grow bytes s =
     (let (b, r) = s in
      if bytes = 0 then (True, b, r)
      else if bb_used b + bytes > usize_max then (False, b, r)
      else if bb_used b + bytes > bb_limit b then (False, b, r)
      else (True, b\<lparr>bb_used := bb_used b + bytes\<rparr>, r\<lparr>br_bytes := br_bytes r + bytes\<rparr>))"

definition byte_release ::
    "nat \<Rightarrow> byte_budget \<times> byte_reservation \<Rightarrow> byte_budget \<times> byte_reservation" where
  "byte_release bytes s =
     (let (b, r) = s; released = min bytes (br_bytes r) in
      if released = 0 then (b, r)
      else (b\<lparr>bb_used := bb_used b - released\<rparr>, r\<lparr>br_bytes := br_bytes r - released\<rparr>))"

definition byte_drop :: "byte_budget \<times> byte_reservation \<Rightarrow> byte_budget \<times> byte_reservation" where
  "byte_drop s = byte_release (br_bytes (snd s)) s"

definition byte_try_reserve ::
    "nat \<Rightarrow> byte_budget \<Rightarrow> byte_reservation option \<times> byte_budget" where
  "byte_try_reserve bytes b =
     (case byte_try_grow bytes (b, byte_reservation_new) of
        (True, b', r) \<Rightarrow> (Some r, b')
      | (False, b', r) \<Rightarrow> (None, fst (byte_drop (b', r))))"

text \<open>\<open>CountBudget\<close> and \<open>CountReservation\<close>.\<close>

record count_budget =
  cb_limit :: nat
  cb_used :: nat

record count_reservation =
  cr_count :: nat

definition count_budget_new :: "nat \<Rightarrow> count_budget" where
  "count_budget_new limit = \<lparr>cb_limit = limit, cb_used = 0\<rparr>"

definition count_reservation_new :: count_reservation where
  "count_reservation_new = \<lparr>cr_count = 0\<rparr>"

definition count_try_grow ::
    "nat \<Rightarrow> count_budget \<times> count_reservation \<Rightarrow> bool \<times> count_budget \<times> count_reservation" where
  "count_try_grow n s =
     (let (b, r) = s in
      if n = 0 then (True, b, r)
      else if cb_used b + n > usize_max then (False, b, r)
      else if cb_used b + n > cb_limit b then (False, b, r)
      else (True, b\<lparr>cb_used := cb_used b + n\<rparr>, r\<lparr>cr_count := cr_count r + n\<rparr>))"

definition count_release ::
    "nat \<Rightarrow> count_budget \<times> count_reservation \<Rightarrow> count_budget \<times> count_reservation" where
  "count_release n s =
     (let (b, r) = s; released = min n (cr_count r) in
      if released = 0 then (b, r)
      else (b\<lparr>cb_used := cb_used b - released\<rparr>, r\<lparr>cr_count := cr_count r - released\<rparr>))"

definition count_drop :: "count_budget \<times> count_reservation \<Rightarrow> count_budget \<times> count_reservation" where
  "count_drop s = count_release (cr_count (snd s)) s"

section \<open>The contract of a reservation\<close>

text \<open>
  What both kinds of budget promise their users: growing charges exactly the
  requested amount to both counters or nothing at all, it succeeds exactly when
  the limit allows it, and releasing gives back at most what is held.
\<close>

locale reservation =
  fixes used :: "'b \<Rightarrow> nat" and limit :: "'b \<Rightarrow> nat" and held :: "'r \<Rightarrow> nat"
    and grow :: "nat \<Rightarrow> 'b \<times> 'r \<Rightarrow> bool \<times> 'b \<times> 'r"
    and release :: "nat \<Rightarrow> 'b \<times> 'r \<Rightarrow> 'b \<times> 'r"
  assumes grow_ok: "grow n (b, r) = (True, b', r') \<Longrightarrow>
      used b' = used b + n \<and> held r' = held r + n \<and> limit b' = limit b"
    and grow_fail: "grow n (b, r) = (False, b', r') \<Longrightarrow> b' = b \<and> r' = r"
    and grow_bound: "grow n (b, r) = (True, b', r') \<Longrightarrow> 0 < n \<Longrightarrow> used b' \<le> limit b"
    and grow_iff: "0 < n \<Longrightarrow> fst (grow n (b, r)) \<longleftrightarrow> used b + n \<le> min (limit b) usize_max"
    and release_spec: "release n (b, r) = (b', r') \<Longrightarrow>
      held r' = held r - n \<and> used b' = used b - min n (held r) \<and> limit b' = limit b"
begin

text \<open>A charge that succeeded and is released in full leaves the counters as they were.\<close>

lemma grow_release:
  assumes "grow n (b, r) = (True, b', r')" and "release n (b', r') = (b'', r'')"
  shows "used b'' = used b \<and> held r'' = held r \<and> limit b'' = limit b"
  using grow_ok [OF assms(1)] release_spec [OF assms(2)] by auto

text \<open>The budget is never overdrawn by growing.\<close>

lemma grow_within:
  assumes "grow n (b, r) = (ok, b', r')" and "used b \<le> limit b"
  shows "used b' \<le> limit b'"
  using assms grow_ok [of n b r b' r'] grow_fail [of n b r b' r'] grow_bound [of n b r b' r']
  by (cases ok; cases "n = 0") auto

end

interpretation bytes: reservation bb_used bb_limit br_bytes byte_try_grow byte_release
  by unfold_locales (auto simp: byte_try_grow_def byte_release_def Let_def split: if_splits)

interpretation counts: reservation cb_used cb_limit cr_count count_try_grow count_release
  by unfold_locales (auto simp: count_try_grow_def count_release_def Let_def split: if_splits)

section \<open>Any number of threads\<close>

text \<open>
  Each reservation is owned by one thread, which is outside \<open>try_grow\<close> or has
  loaded \<open>current\<close> and is about to compare and swap.
\<close>

datatype pc = Idle | Loaded nat nat

record thread =
  t_bytes :: nat
  t_pc :: pc

record budget_sys =
  s_limit :: nat
  s_used :: nat
  s_threads :: "thread list"

abbreviation set_thread :: "budget_sys \<Rightarrow> nat \<Rightarrow> thread \<Rightarrow> budget_sys" where
  "set_thread s i t \<equiv> s\<lparr>s_threads := (s_threads s)[i := t]\<rparr>"

inductive budget_step :: "budget_sys \<Rightarrow> budget_sys \<Rightarrow> bool" where
  create: "budget_step s (s\<lparr>s_threads := s_threads s @ [\<lparr>t_bytes = 0, t_pc = Idle\<rparr>]\<rparr>)"
| load: "i < length (s_threads s) \<Longrightarrow> t = s_threads s ! i \<Longrightarrow> t_pc t = Idle \<Longrightarrow> 0 < n \<Longrightarrow>
     budget_step s (set_thread s i (t\<lparr>t_pc := Loaded (s_used s) n\<rparr>))"
| give_up: "i < length (s_threads s) \<Longrightarrow> t = s_threads s ! i \<Longrightarrow> t_pc t = Loaded current n \<Longrightarrow>
     usize_max < current + n \<or> s_limit s < current + n \<Longrightarrow>
     budget_step s (set_thread s i (t\<lparr>t_pc := Idle\<rparr>))"
| cas_ok: "i < length (s_threads s) \<Longrightarrow> t = s_threads s ! i \<Longrightarrow> t_pc t = Loaded current n \<Longrightarrow>
     current + n \<le> usize_max \<Longrightarrow> current + n \<le> s_limit s \<Longrightarrow> s_used s = current \<Longrightarrow>
     budget_step s
       (set_thread s i (t\<lparr>t_bytes := t_bytes t + n, t_pc := Idle\<rparr>)\<lparr>s_used := current + n\<rparr>)"
| cas_fail: "i < length (s_threads s) \<Longrightarrow> t = s_threads s ! i \<Longrightarrow> t_pc t = Loaded current n \<Longrightarrow>
     current + n \<le> usize_max \<Longrightarrow> current + n \<le> s_limit s \<Longrightarrow>
     budget_step s (set_thread s i (t\<lparr>t_pc := Loaded (s_used s) n\<rparr>))"
| release: "i < length (s_threads s) \<Longrightarrow> t = s_threads s ! i \<Longrightarrow> t_pc t = Idle \<Longrightarrow>
     released = min n (t_bytes t) \<Longrightarrow>
     budget_step s
       (set_thread s i (t\<lparr>t_bytes := t_bytes t - released\<rparr>)\<lparr>s_used := s_used s - released\<rparr>)"

inductive budget_reachable :: "nat \<Rightarrow> budget_sys \<Rightarrow> bool" for limit where
  init: "budget_reachable limit \<lparr>s_limit = limit, s_used = 0, s_threads = []\<rparr>"
| step: "budget_reachable limit s \<Longrightarrow> budget_step s s' \<Longrightarrow> budget_reachable limit s'"

text \<open>The counter is the sum of what the reservations hold, within the limit.\<close>

definition budget_inv :: "nat \<Rightarrow> budget_sys \<Rightarrow> bool" where
  "budget_inv limit s \<longleftrightarrow> s_limit s = limit \<and> s_used s \<le> limit
     \<and> s_used s = sum_list (map t_bytes (s_threads s))"

lemma map_bytes_same:
  "t_bytes t' = t_bytes (ts ! i) \<Longrightarrow> map t_bytes (ts[i := t']) = map t_bytes ts"
  by (rule nth_equalityI) (simp, metis length_list_update length_map nth_list_update_eq nth_list_update_neq nth_map)

lemma budget_step_inv: "budget_step s s' \<Longrightarrow> budget_inv limit s \<Longrightarrow> budget_inv limit s'"
proof (induction rule: budget_step.induct)
  case (cas_ok i s t current n)
  have "sum_list (map t_bytes ((s_threads s)[i := t\<lparr>t_bytes := t_bytes t + n, t_pc := Idle\<rparr>]))
      = sum_list (map t_bytes (s_threads s)) + n"
    using sum_list_map_update [OF cas_ok(1), of t_bytes
        "t\<lparr>t_bytes := t_bytes t + n, t_pc := Idle\<rparr>"] cas_ok(2)
    by simp
  with cas_ok(5-7) show ?case by (simp add: budget_inv_def)
next
  case (release i s t released n)
  let ?ts = "(s_threads s)[i := t\<lparr>t_bytes := t_bytes t - released\<rparr>]"
  have "sum_list (map t_bytes ?ts) + released = sum_list (map t_bytes (s_threads s))"
    using sum_list_map_update [OF release(1), of t_bytes "t\<lparr>t_bytes := t_bytes t - released\<rparr>"]
      release(2,4)
    by simp
  with release(5) have "s_limit s = limit" "s_used s \<le> limit"
    "s_used s = sum_list (map t_bytes ?ts) + released"
    by (simp_all add: budget_inv_def)
  then show ?case by (simp add: budget_inv_def)
next
  case (load i s t n)
  then show ?case by (simp add: budget_inv_def map_bytes_same)
next
  case (give_up i s t current n)
  then show ?case by (simp add: budget_inv_def map_bytes_same)
next
  case (cas_fail i s t current n)
  then show ?case by (simp add: budget_inv_def map_bytes_same)
next
  case (create s)
  then show ?case by (simp add: budget_inv_def)
qed

lemma budget_reachable_inv: "budget_reachable limit s \<Longrightarrow> budget_inv limit s"
proof (induction rule: budget_reachable.induct)
  case init
  show ?case by (simp add: budget_inv_def)
next
  case (step s s')
  then show ?case by (blast intro: budget_step_inv)
qed

text \<open>
  Claim C11. In every interleaving of growing and releasing threads the shared
  counter equals the bytes held by the live reservations and never exceeds the
  configured limit.
\<close>

theorem budget_never_exceeded:
  assumes "budget_reachable limit s"
  shows "s_used s = sum_list (map t_bytes (s_threads s)) \<and> s_used s \<le> limit"
  using budget_reachable_inv [OF assms] by (simp add: budget_inv_def)

theorem budget_never_exceeded_witness:
  "\<exists>s. budget_reachable 10 s \<and> s_used s = 7
     \<and> s_used s = sum_list (map t_bytes (s_threads s)) \<and> s_used s \<le> 10"
proof -
  let ?s0 = "\<lparr>s_limit = 10, s_used = 0, s_threads = []\<rparr>"
  let ?s1 = "?s0\<lparr>s_threads := [\<lparr>t_bytes = 0, t_pc = Idle\<rparr>]\<rparr>"
  let ?s2 = "?s1\<lparr>s_threads := [\<lparr>t_bytes = 0, t_pc = Loaded 0 7\<rparr>]\<rparr>"
  let ?s3 = "\<lparr>s_limit = 10, s_used = 7, s_threads = [\<lparr>t_bytes = 7, t_pc = Idle\<rparr>]\<rparr>"
  have "budget_step ?s0 ?s1" using budget_step.create [of ?s0] by simp
  moreover have "budget_step ?s1 ?s2" using budget_step.load [of 0 ?s1 _ 7] by simp
  moreover have "budget_step ?s2 ?s3"
    using budget_step.cas_ok [of 0 ?s2 _ 0 7] by (simp add: usize_max_def)
  ultimately have reach: "budget_reachable 10 ?s3"
    by (rule budget_reachable.step [OF budget_reachable.step
          [OF budget_reachable.step [OF budget_reachable.init]]])
  show ?thesis
    using reach budget_never_exceeded [OF reach] by (intro exI [of _ ?s3]) simp
qed

end
