(* ===== verification/Text.thy ===== *)
theory Text
  imports Prelude
begin

text \<open>
  What the source uses of Rust's standard library on text: UTF-8 validation
  (\<open>str::from_utf8\<close>), lossy conversion (\<open>String::from_utf8_lossy\<close>), the
  characters of a string, and decimal conversion of integers
  (\<open>i64::to_string\<close>, \<open>str::parse\<close>). A \<open>String\<close> is its UTF-8 bytes. The key
  and field names of the store pass through \<open>key_str\<close>, \<open>key_bytes\<close> and
  \<open>key_string\<close> of \<^verbatim>\<open>src/src/store/mod.rs\<close>, modelled at the end.
\<close>

section \<open>ASCII\<close>

definition ascii :: "string \<Rightarrow> bytes" where
  "ascii s = map of_char s"

section \<open>UTF-8\<close>

definition cont_byte :: "byte \<Rightarrow> bool" where
  "cont_byte b \<longleftrightarrow> 0x80 \<le> b \<and> b \<le> 0xBF"

text \<open>The second byte allowed after a three- or four-byte lead byte.\<close>

definition second_ok :: "byte \<Rightarrow> byte \<Rightarrow> bool" where
  "second_ok b c \<longleftrightarrow>
     (if b = 0xE0 then 0xA0 \<le> c \<and> c \<le> 0xBF
      else if b = 0xED then 0x80 \<le> c \<and> c \<le> 0x9F
      else if b = 0xF0 then 0x90 \<le> c \<and> c \<le> 0xBF
      else if b = 0xF4 then 0x80 \<le> c \<and> c \<le> 0x8F
      else cont_byte c)"

definition low6 :: "byte \<Rightarrow> nat" where
  "low6 b = unat b mod 64"

text \<open>
  The first character of a non-empty byte string, or the length of the
  maximal prefix that cannot start a character.
\<close>

fun utf8_next :: "bytes \<Rightarrow> nat option \<times> nat" where
  "utf8_next [] = (None, 0)"
| "utf8_next (b # bs) =
     (if b < 0x80 then (Some (unat b), 1)
      else if 0xC2 \<le> b \<and> b \<le> 0xDF then
        (case bs of c # _ \<Rightarrow>
           if cont_byte c then (Some ((unat b mod 32) * 64 + low6 c), 2) else (None, 1)
         | [] \<Rightarrow> (None, 1))
      else if 0xE0 \<le> b \<and> b \<le> 0xEF then
        (case bs of c # bs' \<Rightarrow>
           if second_ok b c then
             (case bs' of d # _ \<Rightarrow>
                if cont_byte d then (Some ((unat b mod 16) * 4096 + low6 c * 64 + low6 d), 3)
                else (None, 2)
              | [] \<Rightarrow> (None, 2))
           else (None, 1)
         | [] \<Rightarrow> (None, 1))
      else if 0xF0 \<le> b \<and> b \<le> 0xF4 then
        (case bs of c # bs' \<Rightarrow>
           if second_ok b c then
             (case bs' of d # bs'' \<Rightarrow>
                if cont_byte d then
                  (case bs'' of e # _ \<Rightarrow>
                     if cont_byte e then
                       (Some ((unat b mod 8) * 262144 + low6 c * 4096 + low6 d * 64 + low6 e), 4)
                     else (None, 3)
                   | [] \<Rightarrow> (None, 3))
                else (None, 2)
              | [] \<Rightarrow> (None, 2))
           else (None, 1)
         | [] \<Rightarrow> (None, 1))
      else (None, 1))"

lemma utf8_next_pos: "bs \<noteq> [] \<Longrightarrow> 0 < snd (utf8_next bs)"
  by (cases bs) (auto split: list.splits)

text \<open>A character depends on its own bytes only.\<close>

lemma utf8_next_Some:
  assumes "utf8_next bs = (Some c, n)"
  shows "0 < n \<and> n \<le> length bs \<and> utf8_next (take n bs @ rest) = (Some c, n)"
  using assms
  by (cases bs rule: utf8_next.cases) (auto split: if_splits list.splits)

text \<open>\<open>str::from_utf8\<close> followed by \<open>chars\<close>.\<close>

function utf8_chars :: "bytes \<Rightarrow> nat list option" where
  "utf8_chars bs =
     (if bs = [] then Some []
      else case utf8_next bs of
        (None, n) \<Rightarrow> None
      | (Some c, n) \<Rightarrow> map_option ((#) c) (utf8_chars (drop n bs)))"
  by pat_completeness auto
termination
proof (relation "measure length", goal_cases)
  case 1
  then show ?case by simp
next
  case (2 bs x n c)
  then show ?case using utf8_next_pos [of bs] by (cases "utf8_next bs") auto
qed

declare utf8_chars.simps [simp del]

definition utf8_valid :: "bytes \<Rightarrow> bool" where
  "utf8_valid bs \<longleftrightarrow> utf8_chars bs \<noteq> None"

definition replacement_char :: bytes where
  "replacement_char = [0xEF, 0xBF, 0xBD]"

text \<open>\<open>String::from_utf8_lossy\<close>: every maximal invalid prefix becomes U+FFFD.\<close>

function utf8_lossy :: "bytes \<Rightarrow> bytes" where
  "utf8_lossy bs =
     (if bs = [] then []
      else case utf8_next bs of
        (None, n) \<Rightarrow> replacement_char @ utf8_lossy (drop n bs)
      | (Some c, n) \<Rightarrow> take n bs @ utf8_lossy (drop n bs))"
  by pat_completeness auto
termination
proof (relation "measure length", goal_cases)
  case 1
  then show ?case by simp
next
  case (2 bs x n)
  then show ?case using utf8_next_pos [of bs] by (cases "utf8_next bs") auto
next
  case (3 bs x n c)
  then show ?case using utf8_next_pos [of bs] by (cases "utf8_next bs") auto
qed

declare utf8_lossy.simps [simp del]

lemma utf8_valid_Nil [simp]: "utf8_valid []"
  by (simp add: utf8_valid_def utf8_chars.simps)

lemma utf8_valid_char_append:
  assumes "utf8_next cs = (Some c, length cs)"
  shows "utf8_valid (cs @ bs) \<longleftrightarrow> utf8_valid bs"
proof -
  have "cs \<noteq> []" using assms by auto
  moreover have "utf8_next (cs @ bs) = (Some c, length cs)"
    using utf8_next_Some [OF assms, of bs] by simp
  ultimately have "utf8_chars (cs @ bs) = map_option ((#) c) (utf8_chars bs)"
    by (subst utf8_chars.simps) simp
  then show ?thesis by (simp add: utf8_valid_def)
qed

lemma utf8_lossy_valid: "utf8_valid (utf8_lossy bs)"
proof (induction bs rule: utf8_lossy.induct)
  case (1 bs)
  show ?case
  proof (cases "bs = []")
    case True
    then show ?thesis by (subst utf8_lossy.simps) simp
  next
    case False
    obtain oc n where nx: "utf8_next bs = (oc, n)" by (cases "utf8_next bs")
    show ?thesis
    proof (cases oc)
      case None
      have "utf8_next replacement_char = (Some 65533, length replacement_char)"
        by (simp add: replacement_char_def second_ok_def cont_byte_def low6_def)
      with "1.IH"(1) [OF False nx [unfolded None, symmetric]] False nx None show ?thesis
        by (subst utf8_lossy.simps) (simp add: utf8_valid_char_append)
    next
      case (Some c)
      with nx have "utf8_next (take n bs) = (Some c, length (take n bs))"
        using utf8_next_Some [of bs c n "[]"] by simp
      with "1.IH"(2) [OF False nx [unfolded Some, symmetric]] False nx Some show ?thesis
        by (subst utf8_lossy.simps) (simp add: utf8_valid_char_append)
    qed
  qed
qed

lemma utf8_lossy_id: "utf8_valid bs \<Longrightarrow> utf8_lossy bs = bs"
proof (induction bs rule: utf8_chars.induct)
  case (1 bs)
  show ?case
  proof (cases "bs = []")
    case True
    then show ?thesis by (simp add: utf8_lossy.simps)
  next
    case False
    with "1.prems" obtain c n where nx: "utf8_next bs = (Some c, n)"
      by (auto simp: utf8_valid_def utf8_chars.simps [of bs] split: prod.splits option.splits)
    with "1.prems" False have "utf8_valid (drop n bs)"
      by (simp add: utf8_valid_def utf8_chars.simps [of bs])
    with "1.IH" [OF False nx [symmetric]] False nx show ?thesis
      by (subst utf8_lossy.simps) simp
  qed
qed

lemma utf8_valid_ascii: "\<forall>b \<in> set bs. b < 0x80 \<Longrightarrow> utf8_valid bs"
proof (induction bs)
  case (Cons b bs)
  then show ?case using utf8_valid_char_append [of "[b]" "unat b" bs] by simp
qed simp

section \<open>Names\<close>

text \<open>\<open>key_str\<close>, \<open>key_bytes\<close> and \<open>key_string\<close>.\<close>

definition key_str :: "bytes \<Rightarrow> bytes" where
  "key_str key = (if utf8_valid key then key else [])"

definition key_bytes :: "bytes \<Rightarrow> bytes" where
  "key_bytes key = key"

definition key_string :: "bytes \<Rightarrow> bytes" where
  "key_string key = (if utf8_valid key then key else utf8_lossy key)"

lemma key_string_valid: "utf8_valid (key_string key)"
  by (simp add: key_string_def utf8_lossy_valid)

lemma key_str_valid [simp]: "utf8_valid key \<Longrightarrow> key_str key = key"
  by (simp add: key_str_def)

lemma key_string_id [simp]: "utf8_valid key \<Longrightarrow> key_string key = key"
  by (simp add: key_string_def)

section \<open>Decimal numbers\<close>

fun nat_digits :: "nat \<Rightarrow> bytes" where
  "nat_digits n = (if n < 10 then [of_nat (48 + n)]
     else nat_digits (n div 10) @ [of_nat (48 + n mod 10)])"

declare nat_digits.simps [simp del]

text \<open>\<open>i64::to_string\<close>.\<close>

definition i64_to_string :: "int \<Rightarrow> bytes" where
  "i64_to_string n = (if n < 0 then 45 # nat_digits (nat (- n)) else nat_digits (nat n))"

definition is_digit :: "byte \<Rightarrow> bool" where
  "is_digit b \<longleftrightarrow> 48 \<le> b \<and> b \<le> 57"

definition digit_val :: "byte \<Rightarrow> nat" where
  "digit_val b = unat b - 48"

fun digits_val :: "nat \<Rightarrow> bytes \<Rightarrow> nat" where
  "digits_val acc [] = acc"
| "digits_val acc (b # bs) = digits_val (acc * 10 + digit_val b) bs"

text \<open>
  \<open>str::parse::<i64>\<close>: an optional sign, at least one digit, and a value in
  range (the library accumulates with the sign, so both ends are reached).
\<close>

definition parse_i64 :: "bytes \<Rightarrow> int option" where
  "parse_i64 s =
     (let (neg, ds) =
        (case s of b # bs \<Rightarrow> if b = 45 then (True, bs) else if b = 43 then (False, bs) else (False, s)
         | [] \<Rightarrow> (False, []))
      in if ds = [] \<or> \<not> list_all is_digit ds then None
         else checked_i64 (if neg then - int (digits_val 0 ds) else int (digits_val 0 ds)))"

text \<open>\<open>str::parse::<u64>\<close>: an optional plus sign and at least one digit, in range.\<close>

definition parse_u64 :: "bytes \<Rightarrow> nat option" where
  "parse_u64 s =
     (let ds = (case s of b # bs \<Rightarrow> if b = 43 then bs else s | [] \<Rightarrow> [])
      in if ds = [] \<or> \<not> list_all is_digit ds then None
         else if digits_val 0 ds \<le> usize_max then Some (digits_val 0 ds) else None)"

lemma digits_val_append: "digits_val acc (xs @ ys) = digits_val (digits_val acc xs) ys"
  by (induction xs arbitrary: acc) auto

lemma digit_byte:
  assumes "n < 10"
  shows "is_digit (of_nat (48 + n))" "digit_val (of_nat (48 + n)) = n"
    "unat (of_nat (48 + n) :: byte) = 48 + n"
proof -
  show "unat (of_nat (48 + n) :: byte) = 48 + n"
    using assms by (simp add: unat_of_nat del: of_nat_add)
  then show "is_digit (of_nat (48 + n))" "digit_val (of_nat (48 + n)) = n"
    using assms by (simp_all add: is_digit_def digit_val_def word_le_nat_alt)
qed

lemma nat_digits_digits: "list_all is_digit (nat_digits n)"
proof (induction n rule: nat_digits.induct)
  case (1 n)
  then show ?case by (subst nat_digits.simps) (auto simp: digit_byte simp del: of_nat_add)
qed

lemma nat_digits_val: "digits_val 0 (nat_digits n) = n"
proof (induction n rule: nat_digits.induct)
  case (1 n)
  then show ?case
    by (subst nat_digits.simps) (auto simp: digit_byte digits_val_append simp del: of_nat_add)
qed

lemma nat_digits_not_Nil [simp]: "nat_digits n \<noteq> []"
  by (subst nat_digits.simps) simp

lemma is_digit_not_sign: "is_digit b \<Longrightarrow> b \<noteq> 45 \<and> b \<noteq> 43"
  by (auto simp: is_digit_def)

lemma nat_digits_Cons:
  obtains d ds where "nat_digits n = d # ds" "is_digit d"
  using nat_digits_digits [of n] by (cases "nat_digits n") auto

lemma parse_i64_to_string: "is_i64 n \<Longrightarrow> parse_i64 (i64_to_string n) = Some n"
proof (cases "n < 0")
  case True
  assume "is_i64 n"
  with True show ?thesis
    using nat_digits_digits [of "nat (- n)"]
    by (simp add: parse_i64_def i64_to_string_def nat_digits_val checked_i64_def)
next
  case False
  assume n: "is_i64 n"
  obtain d ds where d: "nat_digits (nat n) = d # ds" "is_digit d" by (rule nat_digits_Cons)
  with n False show ?thesis
    using nat_digits_digits [of "nat n"] nat_digits_val [of "nat n"] is_digit_not_sign [of d]
    by (simp add: parse_i64_def i64_to_string_def checked_i64_def)
qed

lemma parse_i64_range: "parse_i64 s = Some n \<Longrightarrow> is_i64 n"
  by (auto simp: parse_i64_def checked_i64_def Let_def split: prod.splits if_splits)

lemma utf8_valid_digits: "list_all is_digit ds \<Longrightarrow> utf8_valid ds"
proof (rule utf8_valid_ascii)
  assume "list_all is_digit ds"
  then show "\<forall>b \<in> set ds. b < 0x80"
    by (auto simp: list_all_iff is_digit_def word_less_nat_alt word_le_nat_alt)
qed

lemma utf8_valid_i64_to_string [simp]: "utf8_valid (i64_to_string n)"
  using utf8_valid_char_append [of "[45]" 45 "nat_digits (nat (- n))"]
  by (simp add: i64_to_string_def utf8_valid_digits nat_digits_digits)

end
