(* ===== verification/RespWrite.thy ===== *)
theory RespWrite
  imports Limits Text
begin

text \<open>
  The response encoder, the first half of \<^verbatim>\<open>src/src/resp.rs\<close>: the integer
  formatter \<open>itoa\<close>, the output limit of the current thread and the functions
  that append RESP fragments to the response buffer. A writer is the response
  buffer together with the thread-local \<open>OUTPUT_LIMIT\<close> and the byte budget its
  reservation draws on.
\<close>

section \<open>The integer formatter\<close>

record itoa_buffer =
  ib_buf :: bytes
  ib_pos :: nat

definition itoa_new :: itoa_buffer where
  "itoa_new = \<lparr>ib_buf = replicate 20 0, ib_pos = 20\<rparr>"

text \<open>\<open>self.pos -= 1; self.buf[self.pos] = b\<close>: a position below zero indexes out of the array.\<close>

definition itoa_put :: "byte \<Rightarrow> itoa_buffer \<Rightarrow> itoa_buffer result" where
  "itoa_put b ib =
     (if ib_pos ib = 0 \<or> length (ib_buf ib) < ib_pos ib then Inl Panic
      else Inr (ib\<lparr>ib_pos := ib_pos ib - 1, ib_buf := (ib_buf ib)[ib_pos ib - 1 := b]\<rparr>))"

fun itoa_loop :: "nat \<Rightarrow> itoa_buffer \<Rightarrow> itoa_buffer result" where
  "itoa_loop n ib =
     (if n = 0 then Inr ib
      else case itoa_put (of_nat (48 + n mod 10)) ib of
        Inl e \<Rightarrow> Inl e
      | Inr ib' \<Rightarrow> itoa_loop (n div 10) ib')"

declare itoa_loop.simps [simp del]

definition itoa_digits :: "nat \<Rightarrow> itoa_buffer \<Rightarrow> itoa_buffer result" where
  "itoa_digits n ib = (if n = 0 then itoa_put 48 ib else itoa_loop n ib)"

definition itoa_text :: "itoa_buffer \<Rightarrow> bytes" where
  "itoa_text ib = drop (ib_pos ib) (ib_buf ib)"

text \<open>\<open>-(n as i128) as u64\<close> is the magnitude modulo \<open>2 ^ 64\<close>.\<close>

definition format_i64 :: "int \<Rightarrow> itoa_buffer \<Rightarrow> bytes result" where
  "format_i64 n ib =
     (let magnitude = nat ((if n < 0 then - n else n) mod 2 ^ 64) in
      case itoa_digits magnitude (ib\<lparr>ib_pos := 20\<rparr>) of
        Inl e \<Rightarrow> Inl e
      | Inr ib' \<Rightarrow>
          (if n < 0 then
             (case itoa_put 45 ib' of Inl e \<Rightarrow> Inl e | Inr ib'' \<Rightarrow> Inr (itoa_text ib''))
           else Inr (itoa_text ib')))"

definition format_usize :: "nat \<Rightarrow> itoa_buffer \<Rightarrow> bytes result" where
  "format_usize n ib =
     (case itoa_digits n (ib\<lparr>ib_pos := 20\<rparr>) of
        Inl e \<Rightarrow> Inl e
      | Inr ib' \<Rightarrow> Inr (itoa_text ib'))"

lemma itoa_put_text:
  assumes "0 < ib_pos ib" and "ib_pos ib \<le> length (ib_buf ib)"
  shows "\<exists>ib'. itoa_put b ib = Inr ib' \<and> ib_pos ib' = ib_pos ib - 1 \<and>
    length (ib_buf ib') = length (ib_buf ib) \<and> itoa_text ib' = b # itoa_text ib"
proof -
  have "ib_pos ib - 1 < length (ib_buf ib)" using assms by simp
  then have "drop (ib_pos ib - 1) ((ib_buf ib)[ib_pos ib - 1 := b]) = b # drop (ib_pos ib) (ib_buf ib)"
    using assms(1) by (simp add: drop_update_swap nth_drop_Cons)
  with assms show ?thesis by (simp add: itoa_put_def itoa_text_def)
qed

lemma length_nat_digits: "n < 10 ^ Suc k \<Longrightarrow> length (nat_digits n) \<le> Suc k"
proof (induction k arbitrary: n)
  case 0
  then show ?case by (simp add: nat_digits.simps)
next
  case (Suc k)
  then have "n div 10 < 10 ^ Suc k" by (simp add: div_less_iff_less_mult mult.commute)
  with Suc.IH [of "n div 10"] show ?case
    by (subst nat_digits.simps) auto
qed

lemma itoa_loop_text:
  assumes "0 < n" and "length (nat_digits n) \<le> ib_pos ib" and "ib_pos ib \<le> length (ib_buf ib)"
  shows "\<exists>ib'. itoa_loop n ib = Inr ib' \<and> ib_pos ib' = ib_pos ib - length (nat_digits n) \<and>
    length (ib_buf ib') = length (ib_buf ib) \<and> itoa_text ib' = nat_digits n @ itoa_text ib"
  using assms
proof (induction n ib rule: itoa_loop.induct)
  case (1 n ib)
  have "0 < ib_pos ib"
    using "1.prems"(2) by (cases "nat_digits n") (auto simp: neq_Nil_conv)
  then obtain ib1 where ib1: "itoa_put (of_nat (48 + n mod 10)) ib = Inr ib1"
    "ib_pos ib1 = ib_pos ib - 1" "length (ib_buf ib1) = length (ib_buf ib)"
    "itoa_text ib1 = of_nat (48 + n mod 10) # itoa_text ib"
    using itoa_put_text "1.prems"(3) by blast
  show ?case
  proof (cases "n < 10")
    case True
    with ib1 "1.prems" show ?thesis
      by (simp add: itoa_loop.simps [of n] itoa_loop.simps [of 0] nat_digits.simps [of n] del: of_nat_add)
  next
    case False
    then have digits: "nat_digits n = nat_digits (n div 10) @ [of_nat (48 + n mod 10)]"
      by (simp add: nat_digits.simps [of n])
    then have "length (nat_digits (n div 10)) \<le> ib_pos ib1" "ib_pos ib1 \<le> length (ib_buf ib1)"
      using "1.prems" ib1 by simp_all
    moreover have "n \<noteq> 0" "0 < n div 10" using False by simp_all
    ultimately obtain ib2 where "itoa_loop (n div 10) ib1 = Inr ib2"
      "ib_pos ib2 = ib_pos ib1 - length (nat_digits (n div 10))"
      "length (ib_buf ib2) = length (ib_buf ib1)"
      "itoa_text ib2 = nat_digits (n div 10) @ itoa_text ib1"
      using "1.IH" [of ib1] ib1(1) by blast
    with ib1 digits "1.prems"(1) show ?thesis
      by (simp add: itoa_loop.simps [of n] del: of_nat_add)
  qed
qed

lemma itoa_digits_text:
  assumes "n < 2 ^ 64" and "ib_pos ib = 20" and "length (ib_buf ib) = 20"
  shows "\<exists>ib'. itoa_digits n ib = Inr ib' \<and> ib_pos ib' = 20 - length (nat_digits n) \<and>
    length (ib_buf ib') = 20 \<and> itoa_text ib' = nat_digits n"
proof (cases "n = 0")
  case True
  then show ?thesis
    using itoa_put_text [of ib 48] assms
    by (auto simp: itoa_digits_def nat_digits.simps itoa_text_def)
next
  case False
  have "length (nat_digits n) \<le> 20"
    using length_nat_digits [of n 19] assms(1) by simp
  with False show ?thesis
    using itoa_loop_text [of n ib] assms by (simp add: itoa_digits_def itoa_text_def)
qed

lemma format_usize_text:
  assumes "n \<le> usize_max" and "length (ib_buf ib) = 20"
  shows "format_usize n ib = Inr (nat_digits n)"
  using itoa_digits_text [of n "ib\<lparr>ib_pos := 20\<rparr>"] assms
  by (auto simp: format_usize_def usize_max_def)

lemma format_i64_text:
  assumes "is_i64 n" and "length (ib_buf ib) = 20"
  shows "format_i64 n ib = Inr (i64_to_string n)"
proof -
  define m where "m = nat (if n < 0 then - n else n)"
  have m: "nat ((if n < 0 then - n else n) mod 2 ^ 64) = m" "m < 10 ^ 19" "m < 2 ^ 64"
    using assms(1) by (auto simp: m_def is_i64_def i64_min_def i64_max_def)
  from m(2) have len: "length (nat_digits m) \<le> 19" using length_nat_digits [of m 18] by simp
  obtain ib' where ib': "itoa_digits m (ib\<lparr>ib_pos := 20\<rparr>) = Inr ib'"
    "ib_pos ib' = 20 - length (nat_digits m)" "length (ib_buf ib') = 20" "itoa_text ib' = nat_digits m"
    using itoa_digits_text [of m "ib\<lparr>ib_pos := 20\<rparr>"] m(3) assms(2) by auto
  show ?thesis
  proof (cases "n < 0")
    case True
    then show ?thesis
      using ib' len m(1) itoa_put_text [of ib' 45]
      by (auto simp: format_i64_def i64_to_string_def m_def)
  next
    case False
    then show ?thesis using ib' m(1) by (simp add: format_i64_def i64_to_string_def m_def)
  qed
qed

section \<open>The output limit\<close>

text \<open>
  \<open>OutputLimitState\<close>. The reservation carries the budget it draws on, which
  other reservations share in the program; here it is the budget as this thread
  sees it during the construction of one response.
\<close>

record output_limit_state =
  ol_limit :: nat
  ol_exceeded :: bool
  ol_capacity_exhausted :: bool
  ol_reservation :: "(byte_budget \<times> byte_reservation) option"

record writer =
  w_out :: output_limit_state
  w_buf :: bytes

definition output_unlimited :: output_limit_state where
  "output_unlimited = \<lparr>ol_limit = usize_max, ol_exceeded = False,
     ol_capacity_exhausted = False, ol_reservation = None\<rparr>"

text \<open>
  \<open>limit_output_inner\<close> installs a new state and returns the guard that holds
  the previous one; dropping the guard puts it back.
\<close>

definition limit_output_inner ::
    "nat \<Rightarrow> nat \<Rightarrow> byte_budget option \<Rightarrow> output_limit_state \<Rightarrow> output_limit_state \<times> output_limit_state"
  where
  "limit_output_inner bytes existing_bytes budget current =
     (let (res, capacity_exhausted) =
        (case budget of
           Some budget \<Rightarrow>
             (case byte_try_reserve existing_bytes budget of
                (Some r, budget') \<Rightarrow> (Some (budget', r), False)
              | (None, _) \<Rightarrow> (None, True))
         | None \<Rightarrow> (None, False))
      in (\<lparr>ol_limit = bytes, ol_exceeded = existing_bytes > bytes \<or> capacity_exhausted,
           ol_capacity_exhausted = capacity_exhausted, ol_reservation = res\<rparr>, current))"

definition limit_output :: "nat \<Rightarrow> output_limit_state \<Rightarrow> output_limit_state \<times> output_limit_state" where
  "limit_output bytes = limit_output_inner bytes 0 None"

definition limit_output_with_budget ::
    "nat \<Rightarrow> nat \<Rightarrow> byte_budget \<Rightarrow> output_limit_state \<Rightarrow> output_limit_state \<times> output_limit_state" where
  "limit_output_with_budget bytes existing_bytes budget =
     limit_output_inner bytes existing_bytes (Some budget)"

definition drop_guard :: "output_limit_state \<Rightarrow> output_limit_state \<Rightarrow> output_limit_state" where
  "drop_guard previous current = previous"

definition extend :: "bytes \<Rightarrow> writer \<Rightarrow> writer" where
  "extend bytes w =
     (let current = w_out w in
      if ol_exceeded current then w
      else if length (w_buf w) + length bytes > usize_max \<or>
              length (w_buf w) + length bytes > ol_limit current then
        w\<lparr>w_out := current\<lparr>ol_exceeded := True\<rparr>\<rparr>
      else case ol_reservation current of
        None \<Rightarrow> w\<lparr>w_buf := w_buf w @ bytes\<rparr>
      | Some res \<Rightarrow>
          (case byte_try_grow (length bytes) res of
             (False, res') \<Rightarrow>
               w\<lparr>w_out := current\<lparr>ol_exceeded := True, ol_capacity_exhausted := True,
                   ol_reservation := Some res'\<rparr>\<rparr>
           | (True, res') \<Rightarrow>
               w\<lparr>w_out := current\<lparr>ol_reservation := Some res'\<rparr>,
                 w_buf := w_buf w @ bytes\<rparr>))"

definition write_encoded :: "bytes \<Rightarrow> writer \<Rightarrow> writer" where
  "write_encoded encoded = extend encoded"

section \<open>The RESP fragments\<close>

definition CRLF :: bytes where "CRLF = [13, 10]"
definition OK :: bytes where "OK = ascii ''+OK'' @ CRLF"
definition PONG :: bytes where "PONG = ascii ''+PONG'' @ CRLF"
definition NULL :: bytes where "NULL = ascii ''$-1'' @ CRLF"
definition ZERO :: bytes where "ZERO = ascii '':0'' @ CRLF"
definition ONE :: bytes where "ONE = ascii '':1'' @ CRLF"
definition NEG_ONE :: bytes where "NEG_ONE = ascii '':-1'' @ CRLF"
definition NEG_TWO :: bytes where "NEG_TWO = ascii '':-2'' @ CRLF"
definition EMPTY_ARRAY :: bytes where "EMPTY_ARRAY = ascii ''*0'' @ CRLF"
definition QUEUED :: bytes where "QUEUED = ascii ''+QUEUED'' @ CRLF"
definition NULL_ARRAY :: bytes where "NULL_ARRAY = ascii ''*-1'' @ CRLF"

definition write_ok :: "writer \<Rightarrow> writer" where "write_ok = extend OK"
definition write_pong :: "writer \<Rightarrow> writer" where "write_pong = extend PONG"
definition write_null :: "writer \<Rightarrow> writer" where "write_null = extend NULL"
definition write_queued :: "writer \<Rightarrow> writer" where "write_queued = extend QUEUED"
definition write_null_array :: "writer \<Rightarrow> writer" where "write_null_array = extend NULL_ARRAY"

definition write_simple :: "bytes \<Rightarrow> writer \<Rightarrow> writer" where
  "write_simple s w = extend CRLF (extend s (extend (ascii ''+'') w))"

definition write_error :: "bytes \<Rightarrow> writer \<Rightarrow> writer" where
  "write_error s w = extend CRLF (extend s (extend (ascii ''-'') w))"

text \<open>The formatter can panic, so a writer that formats a number is fallible.\<close>

definition write_integer :: "int \<Rightarrow> writer \<Rightarrow> writer result" where
  "write_integer n w =
     (if n = 0 then Inr (extend ZERO w)
      else if n = 1 then Inr (extend ONE w)
      else if n = - 1 then Inr (extend NEG_ONE w)
      else if n = - 2 then Inr (extend NEG_TWO w)
      else case format_i64 n itoa_new of
        Inl e \<Rightarrow> Inl e
      | Inr s \<Rightarrow> Inr (extend CRLF (extend s (extend (ascii '':'') w))))"

definition write_bulk_raw :: "bytes \<Rightarrow> writer \<Rightarrow> writer result" where
  "write_bulk_raw data w =
     (case format_usize (length data) itoa_new of
        Inl e \<Rightarrow> Inl e
      | Inr s \<Rightarrow> Inr (extend CRLF (extend data (extend CRLF (extend s (extend (ascii ''$'') w))))))"

definition write_bulk :: "bytes \<Rightarrow> writer \<Rightarrow> writer result" where
  "write_bulk s = write_bulk_raw s"

definition write_array_header :: "nat \<Rightarrow> writer \<Rightarrow> writer result" where
  "write_array_header len w =
     (if len = 0 then Inr (extend EMPTY_ARRAY w)
      else case format_usize len itoa_new of
        Inl e \<Rightarrow> Inl e
      | Inr s \<Rightarrow> Inr (extend CRLF (extend s (extend (ascii ''*'') w))))"

fun write_bulk_items :: "bytes list \<Rightarrow> writer \<Rightarrow> writer result" where
  "write_bulk_items [] w = Inr w"
| "write_bulk_items (item # items) w =
     (case write_bulk_raw item w of Inl e \<Rightarrow> Inl e | Inr w' \<Rightarrow> write_bulk_items items w')"

definition write_bulk_array_raw :: "bytes list \<Rightarrow> writer \<Rightarrow> writer result" where
  "write_bulk_array_raw items w =
     (case write_array_header (length items) w of Inl e \<Rightarrow> Inl e | Inr w' \<Rightarrow> write_bulk_items items w')"

definition write_bulk_array :: "bytes list \<Rightarrow> writer \<Rightarrow> writer result" where
  "write_bulk_array items w =
     (case write_array_header (length items) w of Inl e \<Rightarrow> Inl e | Inr w' \<Rightarrow> write_bulk_items items w')"

definition write_optional_bulk_raw :: "bytes option \<Rightarrow> writer \<Rightarrow> writer result" where
  "write_optional_bulk_raw val w =
     (case val of Some s \<Rightarrow> write_bulk_raw s w | None \<Rightarrow> Inr (write_null w))"

section \<open>What a response is\<close>

text \<open>
  The encoding each writer stands for, and the fragments it appends one by one.
\<close>

definition enc_bulk :: "bytes \<Rightarrow> bytes" where
  "enc_bulk data = ascii ''$'' @ nat_digits (length data) @ CRLF @ data @ CRLF"

definition enc_array_header :: "nat \<Rightarrow> bytes" where
  "enc_array_header len = ascii ''*'' @ nat_digits len @ CRLF"

definition enc_bulk_array :: "bytes list \<Rightarrow> bytes" where
  "enc_bulk_array items = enc_array_header (length items) @ concat (map enc_bulk items)"

definition enc_integer :: "int \<Rightarrow> bytes" where
  "enc_integer n = ascii '':'' @ i64_to_string n @ CRLF"

definition bulk_frags :: "bytes \<Rightarrow> bytes list" where
  "bulk_frags data = [ascii ''$'', nat_digits (length data), CRLF, data, CRLF]"

definition header_frags :: "nat \<Rightarrow> bytes list" where
  "header_frags len = (if len = 0 then [EMPTY_ARRAY] else [ascii ''*'', nat_digits len, CRLF])"

lemma concat_bulk_frags [simp]: "concat (bulk_frags data) = enc_bulk data"
  by (simp add: bulk_frags_def enc_bulk_def)

lemma concat_header_frags [simp]: "concat (header_frags len) = enc_array_header len"
  by (simp add: header_frags_def enc_array_header_def EMPTY_ARRAY_def nat_digits.simps [of 0] ascii_def)

lemma itoa_new_length [simp]: "length (ib_buf itoa_new) = 20"
  by (simp add: itoa_new_def)

lemma write_bulk_raw_frags:
  "length data \<le> usize_max \<Longrightarrow> write_bulk_raw data w = Inr (fold extend (bulk_frags data) w)"
  by (simp add: write_bulk_raw_def format_usize_text bulk_frags_def)

lemma write_array_header_frags:
  "len \<le> usize_max \<Longrightarrow> write_array_header len w = Inr (fold extend (header_frags len) w)"
  by (simp add: write_array_header_def format_usize_text header_frags_def)

lemma write_bulk_items_frags:
  "\<forall>d \<in> set items. length d \<le> usize_max \<Longrightarrow>
   write_bulk_items items w = Inr (fold extend (concat (map bulk_frags items)) w)"
  by (induction items arbitrary: w) (auto simp: write_bulk_raw_frags)

lemma write_bulk_array_raw_frags:
  "length items \<le> usize_max \<Longrightarrow> \<forall>d \<in> set items. length d \<le> usize_max \<Longrightarrow>
   write_bulk_array_raw items w =
     Inr (fold extend (header_frags (length items) @ concat (map bulk_frags items)) w)"
  by (simp add: write_bulk_array_raw_def write_array_header_frags write_bulk_items_frags)

lemma concat_array_frags:
  "concat (header_frags (length items) @ concat (map bulk_frags items)) = enc_bulk_array items"
proof -
  have "concat (concat (map bulk_frags items)) = concat (map enc_bulk items)"
    by (induction items) auto
  then show ?thesis by (simp add: enc_bulk_array_def)
qed

section \<open>Passing the limit\<close>

text \<open>
  The budget's accounting of a writer: what the reservation holds is the length
  of the response so far.
\<close>

definition held_bytes :: "writer \<Rightarrow> nat option" where
  "held_bytes w = map_option (\<lambda>(b, r). br_bytes r) (ol_reservation (w_out w))"

definition charged :: "writer \<Rightarrow> bool" where
  "charged w \<longleftrightarrow> (\<forall>n. held_bytes w = Some n \<longrightarrow> n = length (w_buf w))"

lemma extend_result:
  "\<not> ol_exceeded (w_out w) \<and> w_buf (extend bs w) = w_buf w @ bs \<and>
     length (w_buf w) + length bs \<le> ol_limit (w_out w) \<and> \<not> ol_exceeded (w_out (extend bs w))
   \<or> w_buf (extend bs w) = w_buf w \<and> ol_exceeded (w_out (extend bs w))"
  by (cases "ol_reservation (w_out w)")
    (auto simp: extend_def Let_def split: prod.split bool.split)

lemma extend_cases:
  obtains (appended) "\<not> ol_exceeded (w_out w)" "w_buf (extend bs w) = w_buf w @ bs"
      "length (w_buf w) + length bs \<le> ol_limit (w_out w)" "\<not> ol_exceeded (w_out (extend bs w))"
    | (refused) "w_buf (extend bs w) = w_buf w" "ol_exceeded (w_out (extend bs w))"
  using extend_result by blast

lemma extend_limit [simp]: "ol_limit (w_out (extend bs w)) = ol_limit (w_out w)"
  by (auto simp: extend_def Let_def split: option.splits prod.splits bool.splits)

lemma extend_charged: "charged w \<Longrightarrow> charged (extend bs w)"
  by (auto simp: charged_def held_bytes_def extend_def Let_def
      dest: bytes.grow_ok bytes.grow_fail split: option.splits prod.splits bool.splits)

lemma extend_exceeded_noop: "ol_exceeded (w_out w) \<Longrightarrow> extend bs w = w"
  by (simp add: extend_def Let_def)

lemma fold_extend_exceeded: "ol_exceeded (w_out w) \<Longrightarrow> fold extend fs w = w"
  by (induction fs) (auto simp: extend_exceeded_noop)

lemma fold_extend_limit [simp]: "ol_limit (w_out (fold extend fs w)) = ol_limit (w_out w)"
  by (induction fs arbitrary: w) auto

lemma fold_extend_charged: "charged w \<Longrightarrow> charged (fold extend fs w)"
  by (induction fs arbitrary: w) (auto simp: extend_charged)

lemma fold_extend_prefix:
  "\<exists>k \<le> length fs. w_buf (fold extend fs w) = w_buf w @ concat (take k fs) \<and>
     (\<not> ol_exceeded (w_out (fold extend fs w)) \<longrightarrow> k = length fs)"
proof (induction fs arbitrary: w)
  case (Cons f fs)
  show ?case
  proof (cases rule: extend_cases [of w f])
    case appended
    obtain k where "k \<le> length fs"
      "w_buf (fold extend fs (extend f w)) = w_buf (extend f w) @ concat (take k fs)"
      "\<not> ol_exceeded (w_out (fold extend fs (extend f w))) \<longrightarrow> k = length fs"
      using Cons.IH [of "extend f w"] by blast
    with appended show ?thesis by (intro exI [of _ "Suc k"]) simp
  next
    case refused
    then show ?thesis by (intro exI [of _ 0]) (simp add: fold_extend_exceeded)
  qed
qed simp

lemma fold_extend_bound:
  "length (w_buf w) \<le> ol_limit (w_out w) \<Longrightarrow> length (w_buf (fold extend fs w)) \<le> ol_limit (w_out w)"
proof (induction fs arbitrary: w)
  case (Cons f fs)
  then show ?case
    using Cons.IH [of "extend f w"] by (cases rule: extend_cases [of w f]) auto
qed simp

lemma fold_extend_complete:
  assumes "\<not> ol_exceeded (w_out w)" and "ol_reservation (w_out w) = None"
    and "length (w_buf w) + length (concat fs) \<le> min (ol_limit (w_out w)) usize_max"
  shows "w_buf (fold extend fs w) = w_buf w @ concat fs \<and> \<not> ol_exceeded (w_out (fold extend fs w))"
  using assms
proof (induction fs arbitrary: w)
  case (Cons f fs)
  then have "extend f w = w\<lparr>w_buf := w_buf w @ f\<rparr>" by (simp add: extend_def Let_def)
  with Cons show ?case by simp
qed simp

lemma output_unlimited_exceeded [simp]: "\<not> ol_exceeded output_unlimited"
  by (simp add: output_unlimited_def)

lemma fold_extend_unlimited:
  "length buf + length (concat fs) \<le> usize_max \<Longrightarrow>
   fold extend fs \<lparr>w_out = output_unlimited, w_buf = buf\<rparr> =
     \<lparr>w_out = output_unlimited, w_buf = buf @ concat fs\<rparr>"
  by (induction fs arbitrary: buf) (auto simp: extend_def output_unlimited_def)

text \<open>
  A response that is an array of bulk strings is written without
  a panic; the buffer it leaves is the old buffer followed by a prefix of the
  encoding, never longer than the output limit; the prefix is the whole encoding
  unless the writer is marked exceeded; and the reservation, when there is one,
  holds exactly the bytes in the buffer.
\<close>

theorem bulk_array_output_limit:
  assumes "length items \<le> usize_max" and "\<forall>d \<in> set items. length d \<le> usize_max"
    and "length (w_buf w) \<le> ol_limit (w_out w)" and "charged w"
  shows "\<exists>w' sent rest. write_bulk_array_raw items w = Inr w' \<and> w_buf w' = w_buf w @ sent \<and>
    enc_bulk_array items = sent @ rest \<and> (rest \<noteq> [] \<longrightarrow> ol_exceeded (w_out w')) \<and>
    length (w_buf w') \<le> ol_limit (w_out w) \<and> charged w'"
proof -
  let ?fs = "header_frags (length items) @ concat (map bulk_frags items)"
  obtain k where k: "k \<le> length ?fs" "w_buf (fold extend ?fs w) = w_buf w @ concat (take k ?fs)"
    "\<not> ol_exceeded (w_out (fold extend ?fs w)) \<longrightarrow> k = length ?fs"
    using fold_extend_prefix by blast
  have split: "enc_bulk_array items = concat (take k ?fs) @ concat (drop k ?fs)"
    unfolding concat_array_frags [symmetric] by (metis append_take_drop_id concat_append)
  have "write_bulk_array_raw items w = Inr (fold extend ?fs w)"
    by (rule write_bulk_array_raw_frags) (use assms in auto)
  moreover have "concat (drop k ?fs) \<noteq> [] \<longrightarrow> ol_exceeded (w_out (fold extend ?fs w))"
    using k(3) by auto
  ultimately show ?thesis
    using k(2) split fold_extend_bound [OF assms(3)] fold_extend_charged [OF assms(4)] by blast
qed

theorem bulk_array_output_limit_witness:
  "\<exists>w' sent rest. write_bulk_array_raw [ascii ''GET'', ascii ''k'']
       \<lparr>w_out = \<lparr>ol_limit = 10, ol_exceeded = False, ol_capacity_exhausted = False,
                  ol_reservation = Some (\<lparr>bb_limit = 100, bb_used = 7\<rparr>, \<lparr>br_bytes = 0\<rparr>)\<rparr>,
        w_buf = []\<rparr> = Inr w' \<and> w_buf w' = sent \<and>
    enc_bulk_array [ascii ''GET'', ascii ''k''] = sent @ rest \<and>
    (rest \<noteq> [] \<longrightarrow> ol_exceeded (w_out w')) \<and> length (w_buf w') \<le> 10 \<and> charged w'"
  using bulk_array_output_limit [of "[ascii ''GET'', ascii ''k'']"
      "\<lparr>w_out = \<lparr>ol_limit = 10, ol_exceeded = False, ol_capacity_exhausted = False,
                 ol_reservation = Some (\<lparr>bb_limit = 100, bb_used = 7\<rparr>, \<lparr>br_bytes = 0\<rparr>)\<rparr>,
       w_buf = []\<rparr>"]
  by (simp add: usize_max_def ascii_def charged_def held_bytes_def)

text \<open>
  The integer replies: the four cached fragments and the formatted ones are the
  same encoding.
\<close>

definition integer_frags :: "int \<Rightarrow> bytes list" where
  "integer_frags n =
     (if n \<in> {0, 1, - 1, - 2} then [enc_integer n] else [ascii '':'', i64_to_string n, CRLF])"

lemma write_integer_frags:
  "is_i64 n \<Longrightarrow> write_integer n w = Inr (fold extend (integer_frags n) w)"
  by (auto simp: write_integer_def integer_frags_def format_i64_text enc_integer_def i64_to_string_def
      nat_digits.simps ZERO_def ONE_def NEG_ONE_def NEG_TWO_def ascii_def)

lemma concat_integer_frags: "concat (integer_frags n) = enc_integer n"
  by (simp add: integer_frags_def enc_integer_def)

text \<open>
  Every 64-bit integer, the smallest one included, is written as its
  decimal numeral: the formatter never runs out of its 20-byte buffer, and with
  room under the output limit the buffer grows by exactly the RESP integer.
\<close>

theorem write_integer_correct:
  assumes "is_i64 n" and "\<not> ol_exceeded (w_out w)" and "ol_reservation (w_out w) = None"
    and "length (w_buf w) + length (enc_integer n) \<le> min (ol_limit (w_out w)) usize_max"
  shows "\<exists>w'. write_integer n w = Inr w' \<and>
    w_buf w' = w_buf w @ ascii '':'' @ i64_to_string n @ CRLF \<and> \<not> ol_exceeded (w_out w')"
  using assms fold_extend_complete [of w "integer_frags n"]
  by (simp add: write_integer_frags concat_integer_frags enc_integer_def)

lemma i64_min_digits: "i64_to_string (- 9223372036854775808) = ascii ''-9223372036854775808''"
  by (simp add: i64_to_string_def nat_digits.simps ascii_def)

theorem write_integer_correct_witness:
  "\<exists>w'. write_integer (- 9223372036854775808) \<lparr>w_out = output_unlimited, w_buf = OK\<rparr> = Inr w' \<and>
    w_buf w' = OK @ ascii '':-9223372036854775808'' @ CRLF \<and> \<not> ol_exceeded (w_out w')"
  using write_integer_correct [of "- 9223372036854775808" "\<lparr>w_out = output_unlimited, w_buf = OK\<rparr>"]
  by (simp add: is_i64_def i64_min_def i64_max_def output_unlimited_def enc_integer_def
      i64_min_digits OK_def CRLF_def ascii_def usize_max_def)

end
