(* ===== verification/RespParse.thy ===== *)
theory RespParse
  imports RespWrite
begin

text \<open>
  The request parser, the second half of \<^verbatim>\<open>src/src/resp.rs\<close>: \<open>CommandArgs\<close>,
  the incremental \<open>Parser\<close> over a read buffer and \<open>parse_i64_bytes\<close>. A parse
  returns \<open>Ok(None)\<close> (\<open>Inr None\<close>) for more bytes needed; slicing outside the
  buffer is a panic.
\<close>

section \<open>Command arguments\<close>

definition INLINE_ARG_COUNT :: nat where "INLINE_ARG_COUNT = 8"

text \<open>Of the heap vector's capacity the code reads only whether it is positive.\<close>

record command_args =
  ca_inline :: "bytes list"
  ca_len :: nat
  ca_heap :: "bytes list"
  ca_heap_capacity :: nat

definition command_args_new :: "nat \<Rightarrow> command_args" where
  "command_args_new capacity =
     \<lparr>ca_inline = replicate INLINE_ARG_COUNT [], ca_len = 0, ca_heap = [],
      ca_heap_capacity = (if capacity > INLINE_ARG_COUNT then capacity else 0)\<rparr>"

definition command_args_push :: "bytes \<Rightarrow> command_args \<Rightarrow> command_args" where
  "command_args_push arg ca =
     (if ca_heap ca \<noteq> [] \<or> ca_heap_capacity ca > 0 then
        ca\<lparr>ca_heap := ca_heap ca @ [arg]\<rparr>
      else if ca_len ca < INLINE_ARG_COUNT then
        ca\<lparr>ca_inline := (ca_inline ca)[ca_len ca := arg], ca_len := ca_len ca + 1\<rparr>
      else
        ca\<lparr>ca_heap_capacity := INLINE_ARG_COUNT * 2,
           ca_heap := take (ca_len ca) (ca_inline ca) @ [arg]\<rparr>)"

definition command_args_as_slice :: "command_args \<Rightarrow> bytes list" where
  "command_args_as_slice ca =
     (if ca_heap ca = [] then take (ca_len ca) (ca_inline ca) else ca_heap ca)"

definition command_args_is_empty :: "command_args \<Rightarrow> bool" where
  "command_args_is_empty ca \<longleftrightarrow> command_args_as_slice ca = []"

definition command_args_into_vec :: "command_args \<Rightarrow> bytes list" where
  "command_args_into_vec ca =
     (if ca_heap ca = [] then take (ca_len ca) (ca_inline ca) else ca_heap ca)"

section \<open>The parser\<close>

record parser =
  pr_buf :: bytes
  pr_pos :: nat
  pr_max_bulk_len :: nat
  pr_max_array_len :: nat

definition with_limits :: "bytes \<Rightarrow> nat \<Rightarrow> nat \<Rightarrow> parser" where
  "with_limits buf max_bulk_len max_array_len =
     \<lparr>pr_buf = buf, pr_pos = 0, pr_max_bulk_len = max_bulk_len, pr_max_array_len = max_array_len\<rparr>"

definition with_max_bulk_len :: "bytes \<Rightarrow> nat \<Rightarrow> parser" where
  "with_max_bulk_len buf max_bulk_len = with_limits buf max_bulk_len 16384"

definition parser_new :: "bytes \<Rightarrow> parser" where
  "parser_new buf = with_max_bulk_len buf (64 * 1024 * 1024)"

definition slice :: "bytes \<Rightarrow> nat \<Rightarrow> nat \<Rightarrow> bytes result" where
  "slice buf a b = (if a \<le> b \<and> b \<le> length buf then Inr (take (b - a) (drop a buf)) else Inl Panic)"

fun parse_i64_loop :: "bytes \<Rightarrow> int \<Rightarrow> int option" where
  "parse_i64_loop [] v = Some v"
| "parse_i64_loop (b # bs) v =
     (if \<not> is_digit b then None
      else case checked_i64 (v * 10) of
        None \<Rightarrow> None
      | Some v10 \<Rightarrow>
          (case checked_i64 (v10 + int (digit_val b)) of
             None \<Rightarrow> None
           | Some v' \<Rightarrow> parse_i64_loop bs v'))"

definition parse_i64_bytes :: "bytes \<Rightarrow> int option" where
  "parse_i64_bytes line =
     (case line of
        [] \<Rightarrow> None
      | b # bs \<Rightarrow>
          (let (negative, digits) =
             (if b = 45 then (True, bs) else if b = 43 then (False, bs) else (False, line))
           in if digits = [] then None
              else case parse_i64_loop digits 0 of
                None \<Rightarrow> None
              | Some v \<Rightarrow> if negative then checked_i64 (- v) else Some v))"

text \<open>The scan of \<open>read_line_int\<close> for the next CRLF.\<close>

function find_crlf :: "bytes \<Rightarrow> nat \<Rightarrow> nat option" where
  "find_crlf buf pos =
     (if pos < length buf then
        if buf ! pos = 13 \<and> pos + 1 < length buf \<and> buf ! (pos + 1) = 10 then Some pos
        else find_crlf buf (pos + 1)
      else None)"
  by pat_completeness auto
termination
  by (relation "measure (\<lambda>(buf, pos). length buf - pos)") auto

declare find_crlf.simps [simp del]

definition read_line_int :: "parser \<Rightarrow> int option result \<times> parser" where
  "read_line_int p =
     (case find_crlf (pr_buf p) (pr_pos p) of
        None \<Rightarrow> (Inr None, p)
      | Some q \<Rightarrow>
          (case slice (pr_buf p) (pr_pos p) q of
             Inl e \<Rightarrow> (Inl e, p)
           | Inr line \<Rightarrow> (Inr (parse_i64_bytes line), p\<lparr>pr_pos := q + 2\<rparr>)))"

definition parse_bulk_string :: "parser \<Rightarrow> bytes option result \<times> parser" where
  "parse_bulk_string p =
     (if pr_pos p \<ge> length (pr_buf p) then (Inr None, p)
      else if pr_buf p ! pr_pos p \<noteq> 36 then (Inl (Err ''ERR expected bulk string''), p)
      else case read_line_int (p\<lparr>pr_pos := pr_pos p + 1\<rparr>) of
        (Inl e, p) \<Rightarrow> (Inl e, p)
      | (Inr None, p) \<Rightarrow> (Inr None, p)
      | (Inr (Some n), p) \<Rightarrow>
          (if n < 0 then (Inr (Some []), p)
           else let len = nat n in
             if len > pr_max_bulk_len p then (Inl (Err ''ERR RESP bulk length exceeds maximum''), p)
             else if pr_pos p + len > usize_max \<or> pr_pos p + len + 2 > usize_max then
               (Inl (Err ''ERR RESP bulk length exceeds maximum''), p)
             else if pr_pos p + len + 2 > length (pr_buf p) then (Inr None, p)
             else case slice (pr_buf p) (pr_pos p + len) (pr_pos p + len + 2) of
               Inl e \<Rightarrow> (Inl e, p)
             | Inr term \<Rightarrow>
                 (if term \<noteq> [13, 10] then (Inl (Err ''ERR invalid bulk string terminator''), p)
                  else case slice (pr_buf p) (pr_pos p) (pr_pos p + len) of
                    Inl e \<Rightarrow> (Inl e, p)
                  | Inr data \<Rightarrow> (Inr (Some data), p\<lparr>pr_pos := pr_pos p + len + 2\<rparr>))))"

fun multibulk_loop :: "nat \<Rightarrow> command_args \<Rightarrow> parser \<Rightarrow> command_args option result \<times> parser" where
  "multibulk_loop 0 args p = (Inr (Some args), p)"
| "multibulk_loop (Suc n) args p =
     (case parse_bulk_string p of
        (Inl e, p) \<Rightarrow> (Inl e, p)
      | (Inr None, p) \<Rightarrow> (Inr None, p)
      | (Inr (Some s), p) \<Rightarrow> multibulk_loop n (command_args_push s args) p)"

definition parse_multibulk_args :: "parser \<Rightarrow> command_args option result \<times> parser" where
  "parse_multibulk_args p =
     (let saved = pr_pos p in
      case read_line_int (p\<lparr>pr_pos := pr_pos p + 1\<rparr>) of
        (Inl e, p) \<Rightarrow> (Inl e, p)
      | (Inr None, p) \<Rightarrow> (Inr None, p\<lparr>pr_pos := saved\<rparr>)
      | (Inr (Some count), p) \<Rightarrow>
          (if count < 0 then (Inr None, p)
           else if nat count > pr_max_array_len p then
             (Inl (Err ''ERR RESP array count exceeds maximum''), p)
           else case multibulk_loop (nat count) (command_args_new (nat count)) p of
             (Inr None, p) \<Rightarrow> (Inr None, p\<lparr>pr_pos := saved\<rparr>)
           | r \<Rightarrow> r))"

text \<open>\<open>slice::split\<close> on the separators.\<close>

fun split_on :: "('a \<Rightarrow> bool) \<Rightarrow> 'a list \<Rightarrow> 'a list list" where
  "split_on sep [] = [[]]"
| "split_on sep (x # xs) =
     (if sep x then [] # split_on sep xs
      else case split_on sep xs of
        [] \<Rightarrow> [[x]]
      | part # parts \<Rightarrow> (x # part) # parts)"

fun inline_parts :: "nat \<Rightarrow> bytes list \<Rightarrow> nat \<Rightarrow> command_args \<Rightarrow> command_args result" where
  "inline_parts mx [] count args = Inr args"
| "inline_parts mx (part # parts) count args =
     (if part \<noteq> [] then
        if count \<ge> mx then Inl (Err ''ERR RESP argument count exceeds maximum'')
        else inline_parts mx parts (count + 1) (command_args_push part args)
      else inline_parts mx parts count args)"

function find_lf :: "bytes \<Rightarrow> nat \<Rightarrow> nat option" where
  "find_lf buf pos =
     (if pos < length buf then
        if buf ! pos = 10 then Some pos else find_lf buf (pos + 1)
      else None)"
  by pat_completeness auto
termination
  by (relation "measure (\<lambda>(buf, pos). length buf - pos)") auto

declare find_lf.simps [simp del]

definition parse_inline_args :: "parser \<Rightarrow> command_args option result \<times> parser" where
  "parse_inline_args p =
     (let start = pr_pos p in
      case find_lf (pr_buf p) start of
        None \<Rightarrow> (Inr None, p)
      | Some q \<Rightarrow>
          (let e = (if q > start \<and> pr_buf p ! (q - 1) = 13 then q - 1 else q);
               p = p\<lparr>pr_pos := q + 1\<rparr>
           in case slice (pr_buf p) start e of
             Inl err \<Rightarrow> (Inl err, p)
           | Inr line \<Rightarrow>
               (case inline_parts (pr_max_array_len p) (split_on (\<lambda>b. b = 32) line) 0
                       (command_args_new 0) of
                  Inl err \<Rightarrow> (Inl err, p)
                | Inr args \<Rightarrow> (Inr (Some args), p))))"

definition parse_command_args :: "parser \<Rightarrow> command_args option result \<times> parser" where
  "parse_command_args p =
     (if pr_pos p \<ge> length (pr_buf p) then (Inr None, p)
      else if pr_buf p ! pr_pos p = 42 then parse_multibulk_args p
      else parse_inline_args p)"

definition parse_command :: "parser \<Rightarrow> bytes list option result \<times> parser" where
  "parse_command p =
     (case parse_command_args p of
        (Inl e, p) \<Rightarrow> (Inl e, p)
      | (Inr oargs, p) \<Rightarrow> (Inr (map_option command_args_into_vec oargs), p))"

section \<open>Command arguments are a list\<close>

definition command_args_wf :: "command_args \<Rightarrow> bool" where
  "command_args_wf ca \<longleftrightarrow> length (ca_inline ca) = INLINE_ARG_COUNT \<and> ca_len ca \<le> INLINE_ARG_COUNT \<and>
     (ca_heap_capacity ca > 0 \<and> ca_heap ca = [] \<longrightarrow> ca_len ca = 0)"

lemma command_args_new_wf [simp]:
  "command_args_wf (command_args_new n)" "command_args_into_vec (command_args_new n) = []"
  by (simp_all add: command_args_wf_def command_args_new_def command_args_into_vec_def)

lemma command_args_push_wf [simp]:
  assumes "command_args_wf ca"
  shows "command_args_wf (command_args_push a ca)"
    "command_args_into_vec (command_args_push a ca) = command_args_into_vec ca @ [a]"
  using assms
  by (auto simp: command_args_wf_def command_args_push_def command_args_into_vec_def
      take_Suc_conv_app_nth)

lemma fold_command_args_push:
  "command_args_wf ca \<Longrightarrow>
   command_args_wf (fold command_args_push as ca) \<and>
   command_args_into_vec (fold command_args_push as ca) = command_args_into_vec ca @ as"
  by (induction "as" arbitrary: ca) auto

section \<open>Numbers\<close>

lemma digit_val_le: "is_digit b \<Longrightarrow> digit_val b \<le> 9"
  by (auto simp: is_digit_def digit_val_def word_le_nat_alt)

lemma digits_val_mono: "acc \<le> digits_val acc ds"
proof (induction ds arbitrary: acc)
  case (Cons d ds)
  have "acc \<le> acc * 10 + digit_val d" by simp
  also have "\<dots> \<le> digits_val (acc * 10 + digit_val d) ds" by (rule Cons.IH)
  finally show ?case by simp
qed simp

lemma parse_i64_loop_digits:
  "list_all is_digit ds \<Longrightarrow> int v \<le> i64_max \<Longrightarrow>
   parse_i64_loop ds (int v) =
     (if int (digits_val v ds) \<le> i64_max then Some (int (digits_val v ds)) else None)"
proof (induction ds arbitrary: v)
  case (Cons d ds)
  let ?v = "v * 10 + digit_val d"
  show ?case
  proof (cases "int ?v \<le> i64_max")
    case True
    then have "checked_i64 (int v * 10) = Some (int v * 10)"
      "checked_i64 (int v * 10 + int (digit_val d)) = Some (int ?v)"
      by (auto simp: checked_i64_def is_i64_def i64_min_def)
    with Cons.IH [of ?v] Cons.prems True show ?thesis by simp
  next
    case False
    moreover have "int ?v \<le> int (digits_val ?v ds)" by (simp only: of_nat_le_iff digits_val_mono)
    ultimately show ?thesis
      using Cons.prems by (auto simp: checked_i64_def is_i64_def i64_min_def split: option.split)
  qed
qed simp

lemma parse_i64_loop_bad: "\<not> list_all is_digit ds \<Longrightarrow> parse_i64_loop ds v = None"
  by (induction ds arbitrary: v) (auto split: option.split)

lemma parse_i64_bytes_parse:
  "parse_i64_bytes s =
     (case parse_i64 s of None \<Rightarrow> None | Some n \<Rightarrow> if n = i64_min then None else Some n)"
proof -
  have loop: "parse_i64_loop ds 0 =
      (if list_all is_digit ds \<and> int (digits_val 0 ds) \<le> i64_max
       then Some (int (digits_val 0 ds)) else None)" for ds
    using parse_i64_loop_digits [of ds 0] parse_i64_loop_bad [of ds 0]
    by (cases "list_all is_digit ds") (simp_all add: i64_max_def)
  show ?thesis
    by (cases s) (auto simp: parse_i64_bytes_def parse_i64_def loop checked_i64_def is_i64_def
        i64_min_def i64_max_def)
qed

text \<open>
  The parser's own integer reader accepts exactly what
  \<open>str::parse::<i64>\<close> accepts, with the same value, except that it refuses the
  smallest 64-bit integer: it accumulates the magnitude before negating it.
\<close>

theorem parse_i64_bytes_std:
  "parse_i64_bytes s =
     (case parse_i64 s of None \<Rightarrow> None | Some n \<Rightarrow> if n = i64_min then None else Some n)"
  by (rule parse_i64_bytes_parse)

lemma parse_i64_bytes_digits:
  assumes "int n \<le> i64_max"
  shows "parse_i64_bytes (nat_digits n) = Some (int n)"
proof -
  obtain d ds where d: "nat_digits n = d # ds" "is_digit d" by (rule nat_digits_Cons)
  have "parse_i64_loop (d # ds) 0 = Some (int n)"
    using parse_i64_loop_digits [of "nat_digits n" 0] nat_digits_digits [of n] nat_digits_val [of n] assms d
    by (simp add: i64_max_def)
  then show ?thesis
    using d is_digit_not_sign [of d] by (simp add: parse_i64_bytes_def)
qed

section \<open>Lines\<close>

lemma take_append_le: "k \<le> length xs \<Longrightarrow> take k (xs @ ys) = take k xs"
  by simp

lemma slice_append:
  "slice (pre @ mid @ rest) (length pre) (length pre + length mid) = Inr mid"
  by (simp add: slice_def)

lemma find_crlf_found:
  "13 \<notin> set line \<Longrightarrow> find_crlf (pre @ line @ 13 # 10 # rest) (length pre) = Some (length pre + length line)"
proof (induction line arbitrary: pre)
  case Nil
  then show ?case by (simp add: find_crlf.simps nth_append)
next
  case (Cons c line)
  then show ?case using Cons.IH [of "pre @ [c]"] by (simp add: find_crlf.simps [of _ "length pre"] nth_append)
qed

lemma find_crlf_ge: "find_crlf buf pos = Some q \<Longrightarrow> pos \<le> q \<and> q + 2 \<le> length buf"
proof (induction buf pos rule: find_crlf.induct)
  case (1 buf pos)
  from "1.prems" have "pos < length buf" by (subst (asm) find_crlf.simps) (simp split: if_splits)
  with 1 show ?case
    by (cases "buf ! pos = 13 \<and> pos + 1 < length buf \<and> buf ! (pos + 1) = 10")
      (auto simp: find_crlf.simps [of buf pos])
qed

lemma find_crlf_none:
  "(\<And>i. pos \<le> i \<Longrightarrow> i + 1 < length buf \<Longrightarrow> buf ! i \<noteq> 13) \<Longrightarrow> find_crlf buf pos = None"
proof (induction buf pos rule: find_crlf.induct)
  case (1 buf pos)
  then show ?case by (subst find_crlf.simps) (auto dest: Suc_leD)
qed

lemma find_crlf_incomplete:
  assumes "13 \<notin> set line" and "k \<le> length line + 1"
  shows "find_crlf (pre @ take k (line @ CRLF)) (length pre) = None"
proof (rule find_crlf_none)
  fix i
  assume i: "length pre \<le> i" "i + 1 < length (pre @ take k (line @ CRLF))"
  then have "i - length pre < length line" "i - length pre < k" using assms(2) by (auto simp: CRLF_def)
  moreover from this have "(pre @ take k (line @ CRLF)) ! i = (line @ CRLF) ! (i - length pre)"
    using i by (simp add: nth_append)
  moreover from calculation have "line ! (i - length pre) \<in> set line" by simp
  ultimately show "(pre @ take k (line @ CRLF)) ! i \<noteq> 13"
    using assms(1) by (metis nth_append)
qed

lemma read_line_int_line:
  assumes "pr_buf p = pre @ line @ CRLF @ rest" and "pr_pos p = length pre" and "13 \<notin> set line"
  shows "read_line_int p = (Inr (parse_i64_bytes line), p\<lparr>pr_pos := length pre + length line + 2\<rparr>)"
  using find_crlf_found [OF assms(3), of pre rest] slice_append [of pre line "CRLF @ rest"] assms(1,2)
  by (simp add: read_line_int_def CRLF_def)

lemma no_cr_digits [simp]: "13 \<notin> set (nat_digits n)"
  using nat_digits_digits [of n] by (auto simp: list_all_iff is_digit_def)

section \<open>Round trip\<close>

text \<open>The parser's limits and the length of a Rust slice (at most \<open>isize::MAX\<close>).\<close>

definition fits :: "parser \<Rightarrow> bytes \<Rightarrow> bool" where
  "fits p d \<longleftrightarrow> length d \<le> pr_max_bulk_len p"

definition rust_buffer :: "parser \<Rightarrow> bool" where
  "rust_buffer p \<longleftrightarrow> int (length (pr_buf p)) \<le> i64_max - 2"

lemma enc_bulk_Cons: "enc_bulk d = 36 # nat_digits (length d) @ CRLF @ d @ CRLF"
  by (simp add: enc_bulk_def ascii_def)

lemma parse_bulk_string_header:
  assumes "pr_buf p = pre @ [36] @ nat_digits n @ CRLF @ body" and "pr_pos p = length pre"
    and "int n \<le> i64_max" and "n \<le> pr_max_bulk_len p"
    and "q = length pre + length (nat_digits n) + 3" and "q + n + 2 \<le> usize_max"
  shows "parse_bulk_string p =
    (if length body < n + 2 then (Inr None, p\<lparr>pr_pos := q\<rparr>)
     else if take 2 (drop n body) \<noteq> [13, 10] then
       (Inl (Err ''ERR invalid bulk string terminator''), p\<lparr>pr_pos := q\<rparr>)
     else (Inr (Some (take n body)), p\<lparr>pr_pos := q + n + 2\<rparr>))"
proof -
  let ?p = "p\<lparr>pr_pos := pr_pos p + 1\<rparr>"
  have line: "read_line_int ?p = (Inr (Some (int n)), ?p\<lparr>pr_pos := q\<rparr>)"
    using read_line_int_line [of ?p "pre @ [36]" "nat_digits n" body] assms parse_i64_bytes_digits
    by simp
  have at: "pr_buf p ! pr_pos p = 36" using assms(1,2) by (simp add: nth_append)
  have "pr_buf p = (pre @ [36] @ nat_digits n @ CRLF) @ body"
    and "length (pre @ [36] @ nat_digits n @ CRLF) = q"
    using assms(1,5) by (simp_all add: CRLF_def)
  then have len: "length (pr_buf p) = q + length body" and dr: "drop q (pr_buf p) = body"
    by (metis length_append, metis append_eq_conv_conj)
  have "drop (q + n) (pr_buf p) = drop n body"
    using dr by (metis add.commute drop_drop)
  with line len at dr assms show ?thesis
    by (simp add: parse_bulk_string_def slice_def)
qed

lemma parse_bulk_string_complete:
  assumes "pr_buf p = pre @ enc_bulk d @ rest" and "pr_pos p = length pre"
    and "fits p d" and "rust_buffer p"
  shows "parse_bulk_string p = (Inr (Some d), p\<lparr>pr_pos := length pre + length (enc_bulk d)\<rparr>)"
proof -
  have "int (length d) \<le> i64_max" "length pre + length (nat_digits (length d)) + 3 + length d + 2 \<le> usize_max"
    using assms(1,4) by (auto simp: rust_buffer_def enc_bulk_Cons i64_max_def usize_max_def CRLF_def)
  with assms show ?thesis
    using parse_bulk_string_header [of p pre "length d" "d @ CRLF @ rest"]
    by (simp add: fits_def enc_bulk_Cons CRLF_def)
qed

lemma parse_bulk_string_incomplete:
  assumes "pr_buf p = pre @ take k (enc_bulk d)" and "k < length (enc_bulk d)"
    and "pr_pos p = length pre" and "fits p d"
    and "int (length pre + length (enc_bulk d)) \<le> i64_max - 2"
  shows "fst (parse_bulk_string p) = Inr None"
proof (cases "k \<le> length (nat_digits (length d)) + 2")
  case True
  show ?thesis
  proof (cases k)
    case 0
    with assms show ?thesis by (simp add: parse_bulk_string_def)
  next
    case (Suc j)
    have j: "take j (nat_digits (length d) @ CRLF @ d @ CRLF) = take j (nat_digits (length d) @ CRLF)"
      using take_append_le [of j "nat_digits (length d) @ CRLF" "d @ CRLF"] True Suc
      by (simp add: CRLF_def del: take_append)
    have buf: "pr_buf p = (pre @ [36]) @ take j (nat_digits (length d) @ CRLF)"
      using assms(1) Suc j by (simp add: enc_bulk_Cons)
    have "find_crlf (pr_buf p) (Suc (length pre)) = None"
      using find_crlf_incomplete [of "nat_digits (length d)" j "pre @ [36]"] True Suc buf by simp
    then have "read_line_int (p\<lparr>pr_pos := pr_pos p + 1\<rparr>) = (Inr None, p\<lparr>pr_pos := pr_pos p + 1\<rparr>)"
      using assms(3) by (simp add: read_line_int_def)
    then show ?thesis using assms(3) buf by (simp add: parse_bulk_string_def nth_append)
  qed
next
  case False
  define j where "j = k - (length (nat_digits (length d)) + 3)"
  have k: "k = length (36 # nat_digits (length d) @ CRLF) + j" using False by (simp add: j_def CRLF_def)
  have "take k (enc_bulk d) = (36 # nat_digits (length d) @ CRLF) @ take j (d @ CRLF)"
    unfolding enc_bulk_Cons k by simp
  then have "pr_buf p = pre @ [36] @ nat_digits (length d) @ CRLF @ take j (d @ CRLF)"
    using assms(1) by simp
  moreover have "j < length d + 2" using assms(2) k by (simp add: enc_bulk_Cons CRLF_def)
  moreover have "int (length d) \<le> i64_max"
    "length pre + length (nat_digits (length d)) + 3 + length d + 2 \<le> usize_max"
    using assms(5) by (auto simp: enc_bulk_Cons i64_max_def usize_max_def CRLF_def)
  ultimately show ?thesis
    using parse_bulk_string_header [of p pre "length d" "take j (d @ CRLF)"] assms(3,4)
    by (simp add: fits_def)
qed

lemma multibulk_loop_complete:
  assumes "pr_buf p = pre @ concat (map enc_bulk ds) @ rest" and "pr_pos p = length pre"
    and "\<forall>d \<in> set ds. fits p d" and "rust_buffer p" and "command_args_wf args"
  shows "\<exists>args'. multibulk_loop (length ds) args p =
      (Inr (Some args'), p\<lparr>pr_pos := length pre + length (concat (map enc_bulk ds))\<rparr>) \<and>
      command_args_into_vec args' = command_args_into_vec args @ ds"
  using assms
proof (induction ds arbitrary: p pre args)
  case (Cons d ds)
  let ?p = "p\<lparr>pr_pos := length pre + length (enc_bulk d)\<rparr>"
  have "parse_bulk_string p = (Inr (Some d), ?p)"
    using parse_bulk_string_complete [of p pre d "concat (map enc_bulk ds) @ rest"] Cons.prems by simp
  moreover obtain args' where "multibulk_loop (length ds) (command_args_push d args) ?p =
      (Inr (Some args'), ?p\<lparr>pr_pos := length (pre @ enc_bulk d) + length (concat (map enc_bulk ds))\<rparr>)"
    "command_args_into_vec args' = command_args_into_vec (command_args_push d args) @ ds"
    using Cons.IH [of ?p "pre @ enc_bulk d" "command_args_push d args"] Cons.prems
    by (auto simp: fits_def rust_buffer_def)
  ultimately show ?case using Cons.prems(5) by (simp add: add.assoc)
qed simp

lemma multibulk_loop_incomplete:
  assumes "pr_buf p = pre @ take k (concat (map enc_bulk ds))" and "k < length (concat (map enc_bulk ds))"
    and "pr_pos p = length pre" and "\<forall>d \<in> set ds. fits p d"
    and "int (length pre + length (concat (map enc_bulk ds))) \<le> i64_max - 2"
  shows "fst (multibulk_loop (length ds) args p) = Inr None"
  using assms
proof (induction ds arbitrary: p pre k args)
  case (Cons d ds)
  show ?case
  proof (cases "k < length (enc_bulk d)")
    case True
    then have "fst (parse_bulk_string p) = Inr None"
      using parse_bulk_string_incomplete [of p pre k d] Cons.prems by simp
    then show ?thesis by (auto split: prod.split)
  next
    case False
    let ?p = "p\<lparr>pr_pos := length pre + length (enc_bulk d)\<rparr>"
    let ?k = "k - length (enc_bulk d)"
    have buf: "pr_buf p = pre @ enc_bulk d @ take ?k (concat (map enc_bulk ds))"
      using Cons.prems(1) False by simp
    moreover have "rust_buffer p"
      using Cons.prems(2,5) buf by (simp add: rust_buffer_def)
    ultimately have "parse_bulk_string p = (Inr (Some d), ?p)"
      using parse_bulk_string_complete [of p pre d] Cons.prems(3,4) by simp
    moreover have "fst (multibulk_loop (length ds) (command_args_push d args) ?p) = Inr None"
      using Cons.IH [of ?p "pre @ enc_bulk d" ?k] Cons.prems buf False by (auto simp: fits_def)
    ultimately show ?thesis by simp
  qed
qed simp

lemma enc_bulk_array_Cons:
  "enc_bulk_array ds = 42 # nat_digits (length ds) @ CRLF @ concat (map enc_bulk ds)"
  by (simp add: enc_bulk_array_def enc_array_header_def ascii_def)

lemma length_concat_enc_bulk: "length ds \<le> length (concat (map enc_bulk ds))"
  by (induction ds) (auto simp: enc_bulk_Cons)

lemma parse_multibulk_args_header:
  assumes "pr_buf p = pre @ [42] @ nat_digits n @ CRLF @ body" and "pr_pos p = length pre"
    and "int n \<le> i64_max" and "n \<le> pr_max_array_len p"
    and "q = length pre + length (nat_digits n) + 3"
  shows "parse_multibulk_args p =
    (case multibulk_loop n (command_args_new n) (p\<lparr>pr_pos := q\<rparr>) of
       (Inr None, p') \<Rightarrow> (Inr None, p'\<lparr>pr_pos := length pre\<rparr>) | r \<Rightarrow> r)"
proof -
  have "read_line_int (p\<lparr>pr_pos := pr_pos p + 1\<rparr>) = (Inr (Some (int n)), p\<lparr>pr_pos := q\<rparr>)"
    using read_line_int_line [of "p\<lparr>pr_pos := pr_pos p + 1\<rparr>" "pre @ [42]" "nat_digits n" body]
      assms parse_i64_bytes_digits by simp
  with assms(2,4) show ?thesis by (simp add: parse_multibulk_args_def)
qed

lemma multibulk_loop_keeps:
  "multibulk_loop n args p = (r, p') \<Longrightarrow>
   pr_buf p' = pr_buf p \<and> pr_max_bulk_len p' = pr_max_bulk_len p \<and> pr_max_array_len p' = pr_max_array_len p"
proof (induction n arbitrary: args p)
  case (Suc n)
  have keep: "pr_buf p' = pr_buf p \<and> pr_max_bulk_len p' = pr_max_bulk_len p \<and>
      pr_max_array_len p' = pr_max_array_len p" if "parse_bulk_string p = (r, p')" for r p p'
    using that by (auto simp: parse_bulk_string_def read_line_int_def Let_def
        split: if_splits prod.splits option.splits sum.splits)
  from Suc show ?case
    by (auto split: prod.splits sum.splits option.splits dest!: keep)
qed simp

lemma parse_command_multibulk:
  assumes "pr_pos p < length (pr_buf p)" and "pr_buf p ! pr_pos p = 42"
  shows "parse_command p =
    (case parse_multibulk_args p of (Inl e, p) \<Rightarrow> (Inl e, p)
     | (Inr oargs, p) \<Rightarrow> (Inr (map_option command_args_into_vec oargs), p))"
  using assms by (simp add: parse_command_def parse_command_args_def)

lemma parse_command_complete:
  assumes "pr_buf p = pre @ enc_bulk_array items @ rest" and "pr_pos p = length pre"
    and "length items \<le> pr_max_array_len p" and "\<forall>d \<in> set items. fits p d" and "rust_buffer p"
  shows "parse_command p = (Inr (Some items), p\<lparr>pr_pos := length pre + length (enc_bulk_array items)\<rparr>)"
proof -
  define n where "n = length items"
  define q where "q = length pre + length (nat_digits n) + 3"
  have buf: "pr_buf p = pre @ [42] @ nat_digits n @ CRLF @ concat (map enc_bulk items) @ rest"
    using assms(1) by (simp add: enc_bulk_array_Cons n_def)
  then have buf': "pr_buf p = (pre @ [42] @ nat_digits n @ CRLF) @ concat (map enc_bulk items) @ rest"
    by simp
  have "int n \<le> i64_max"
    using assms(5) buf length_concat_enc_bulk [of items] by (auto simp: rust_buffer_def n_def)
  then have multi: "parse_multibulk_args p =
      (case multibulk_loop n (command_args_new n) (p\<lparr>pr_pos := q\<rparr>) of
         (Inr None, p') \<Rightarrow> (Inr None, p'\<lparr>pr_pos := length pre\<rparr>) | r \<Rightarrow> r)"
    using parse_multibulk_args_header [OF buf assms(2)] assms(3) by (simp add: n_def q_def)
  obtain args' where "multibulk_loop n (command_args_new n) (p\<lparr>pr_pos := q\<rparr>) =
      (Inr (Some args'), p\<lparr>pr_pos := q + length (concat (map enc_bulk items))\<rparr>)"
    "command_args_into_vec args' = items"
    using multibulk_loop_complete [of "p\<lparr>pr_pos := q\<rparr>" "pre @ [42] @ nat_digits n @ CRLF" items rest
        "command_args_new n"] buf' assms(4,5)
    by (auto simp: fits_def rust_buffer_def n_def q_def CRLF_def)
  moreover have "q + length (concat (map enc_bulk items)) = length pre + length (enc_bulk_array items)"
    by (simp add: q_def n_def enc_bulk_array_Cons CRLF_def)
  ultimately show ?thesis
    using parse_command_multibulk [of p] buf assms(2) multi by (simp add: nth_append)
qed

lemma written_array:
  assumes "write_bulk_array_raw items \<lparr>w_out = output_unlimited, w_buf = []\<rparr> = Inr w"
    and "\<not> ol_exceeded (w_out w)" and "length items \<le> usize_max" and "\<forall>d \<in> set items. length d \<le> usize_max"
  shows "w_buf w = enc_bulk_array items"
  using fold_extend_prefix [of "header_frags (length items) @ concat (map bulk_frags items)"
      "\<lparr>w_out = output_unlimited, w_buf = []\<rparr>"] assms concat_array_frags [of items]
  by (auto simp: write_bulk_array_raw_frags)

text \<open>
  Claim C8. Round trip. A command written as an array of bulk strings is read
  back by the parser, argument by argument and byte for byte, wherever it starts
  in the read buffer and whatever follows it, and the cursor ends right after it:
  pipelined commands are read one after another.
\<close>

theorem resp_round_trip:
  assumes "write_bulk_array_raw items \<lparr>w_out = output_unlimited, w_buf = []\<rparr> = Inr w"
    and "\<not> ol_exceeded (w_out w)"
    and "pr_buf p = pre @ w_buf w @ rest" and "pr_pos p = length pre"
    and "length items \<le> pr_max_array_len p" and "\<forall>d \<in> set items. length d \<le> pr_max_bulk_len p"
    and "pr_max_array_len p \<le> usize_max" and "pr_max_bulk_len p \<le> usize_max" and "rust_buffer p"
  shows "parse_command p = (Inr (Some items), p\<lparr>pr_pos := length pre + length (w_buf w)\<rparr>)"
proof -
  have "w_buf w = enc_bulk_array items"
    using written_array [OF assms(1,2)] assms(5-8) by (meson order_trans)
  with assms show ?thesis
    using parse_command_complete [of p pre items rest] by (simp add: fits_def)
qed

definition demo_request :: bytes where
  "demo_request = ascii ''*2'' @ CRLF @ ascii ''$3'' @ CRLF @ ascii ''GET'' @ CRLF @
     ascii ''$1'' @ CRLF @ ascii ''k'' @ CRLF"

lemma demo_request_enc: "enc_bulk_array [ascii ''GET'', ascii ''k''] = demo_request"
  by (simp add: demo_request_def enc_bulk_array_Cons enc_bulk_Cons nat_digits.simps ascii_def)

lemma demo_lengths: "length demo_request = 20" "length OK = 5"
  by (simp_all add: demo_request_def OK_def CRLF_def ascii_def)

lemma demo_written:
  "write_bulk_array_raw [ascii ''GET'', ascii ''k''] \<lparr>w_out = output_unlimited, w_buf = []\<rparr> =
     Inr \<lparr>w_out = output_unlimited, w_buf = demo_request\<rparr>"
proof -
  let ?items = "[ascii ''GET'', ascii ''k'']"
  have "write_bulk_array_raw ?items \<lparr>w_out = output_unlimited, w_buf = []\<rparr> =
      Inr (fold RespWrite.extend (header_frags (length ?items) @ concat (map bulk_frags ?items))
        \<lparr>w_out = output_unlimited, w_buf = []\<rparr>)"
    by (rule write_bulk_array_raw_frags) (simp_all add: ascii_def usize_max_def)
  also have "\<dots> = Inr \<lparr>w_out = output_unlimited, w_buf = demo_request\<rparr>"
    using fold_extend_unlimited [of "[]" "header_frags (length ?items) @ concat (map bulk_frags ?items)"]
    unfolding concat_array_frags demo_request_enc by (simp add: demo_lengths usize_max_def)
  finally show ?thesis .
qed

theorem resp_round_trip_witness:
  "parse_command \<lparr>pr_buf = OK @ demo_request @ OK, pr_pos = 5, pr_max_bulk_len = 100, pr_max_array_len = 4\<rparr> =
    (Inr (Some [ascii ''GET'', ascii ''k'']),
     \<lparr>pr_buf = OK @ demo_request @ OK, pr_pos = 25, pr_max_bulk_len = 100, pr_max_array_len = 4\<rparr>)"
  using resp_round_trip [of "[ascii ''GET'', ascii ''k'']" "\<lparr>w_out = output_unlimited, w_buf = demo_request\<rparr>"
      "\<lparr>pr_buf = OK @ demo_request @ OK, pr_pos = 5, pr_max_bulk_len = 100, pr_max_array_len = 4\<rparr>" OK OK]
  by (simp add: demo_written demo_lengths usize_max_def rust_buffer_def i64_max_def) (simp add: ascii_def)

lemma parser_pos_eq:
  fixes p p' :: parser
  shows "pr_buf p' = pr_buf p \<Longrightarrow> pr_max_bulk_len p' = pr_max_bulk_len p \<Longrightarrow>
   pr_max_array_len p' = pr_max_array_len p \<Longrightarrow> pr_pos p = n \<Longrightarrow> p'\<lparr>pr_pos := n\<rparr> = p"
  by (cases p; cases p') simp

lemma parse_multibulk_no_line:
  assumes "find_crlf (pr_buf p) (pr_pos p + 1) = None"
  shows "parse_multibulk_args p = (Inr None, p)"
  using assms by (simp add: parse_multibulk_args_def read_line_int_def)

text \<open>
  Claim C9. Incremental parsing. Any strict prefix of a command's encoding is
  answered with "need more bytes" and leaves the cursor at the start of the
  command: no prefix is taken for a complete command or for a protocol error, and
  the parse can be repeated when more input arrives.
\<close>

theorem resp_incremental:
  assumes "pr_buf p = pre @ take k (enc_bulk_array items)" and "k < length (enc_bulk_array items)"
    and "pr_pos p = length pre" and "length items \<le> pr_max_array_len p"
    and "\<forall>d \<in> set items. length d \<le> pr_max_bulk_len p"
    and "int (length pre + length (enc_bulk_array items)) \<le> i64_max - 2"
  shows "parse_command p = (Inr None, p)"
proof (cases k)
  case 0
  then show ?thesis using assms(1,3) by (simp add: parse_command_def parse_command_args_def)
next
  case (Suc j)
  define n where "n = length items"
  have first: "pr_pos p < length (pr_buf p)" "pr_buf p ! pr_pos p = 42"
    using assms(1,3) Suc by (simp_all add: enc_bulk_array_Cons nth_append)
  show ?thesis
  proof (cases "j \<le> length (nat_digits n) + 1")
    case True
    have "pr_buf p = (pre @ [42]) @ take j (nat_digits n @ CRLF)"
      using assms(1) Suc True take_append_le [of j "nat_digits n @ CRLF" "concat (map enc_bulk items)"]
      by (simp add: enc_bulk_array_Cons n_def CRLF_def del: take_append)
    then have "find_crlf (pr_buf p) (pr_pos p + 1) = None"
      using find_crlf_incomplete [of "nat_digits n" j "pre @ [42]"] True assms(3) by simp
    then show ?thesis using first by (simp add: parse_command_multibulk parse_multibulk_no_line)
  next
    case False
    define i where "i = j - (length (nat_digits n) + 2)"
    define q where "q = length pre + length (nat_digits n) + 3"
    have k: "k = length (42 # nat_digits n @ CRLF) + i" using False Suc by (simp add: i_def CRLF_def)
    have "take k (enc_bulk_array items) = (42 # nat_digits n @ CRLF) @ take i (concat (map enc_bulk items))"
      unfolding enc_bulk_array_Cons k n_def by simp
    then have buf: "pr_buf p = pre @ [42] @ nat_digits n @ CRLF @ take i (concat (map enc_bulk items))"
      using assms(1) by simp
    have len: "i < length (concat (map enc_bulk items))" "int n \<le> i64_max"
      using assms(2,6) k length_concat_enc_bulk [of items]
      by (simp_all add: enc_bulk_array_Cons n_def CRLF_def)
    obtain p' where loop: "multibulk_loop n (command_args_new n) (p\<lparr>pr_pos := q\<rparr>) = (Inr None, p')"
      using multibulk_loop_incomplete [of "p\<lparr>pr_pos := q\<rparr>" "pre @ [42] @ nat_digits n @ CRLF" i items
          "command_args_new n"] buf len assms(5,6)
      by (cases "multibulk_loop n (command_args_new n) (p\<lparr>pr_pos := q\<rparr>)")
        (auto simp: fits_def q_def n_def CRLF_def enc_bulk_array_Cons)
    have "p'\<lparr>pr_pos := length pre\<rparr> = p"
      using multibulk_loop_keeps [OF loop] assms(3) by (intro parser_pos_eq) auto
    with loop show ?thesis
      using parse_multibulk_args_header [OF buf assms(3) len(2)] first assms(4)
      by (simp add: parse_command_multibulk n_def q_def)
  qed
qed

theorem resp_incremental_witness:
  "parse_command \<lparr>pr_buf = OK @ take 13 demo_request, pr_pos = 5, pr_max_bulk_len = 100, pr_max_array_len = 4\<rparr> =
    (Inr None, \<lparr>pr_buf = OK @ take 13 demo_request, pr_pos = 5, pr_max_bulk_len = 100, pr_max_array_len = 4\<rparr>)"
  using resp_incremental [of
      "\<lparr>pr_buf = OK @ take 13 demo_request, pr_pos = 5, pr_max_bulk_len = 100, pr_max_array_len = 4\<rparr>"
      OK 13 "[ascii ''GET'', ascii ''k'']", unfolded demo_request_enc]
  by (simp add: demo_lengths ascii_def i64_max_def)

text \<open>
  A malformed count stalls the connection. When the line after the
  array marker is not a number the parser accepts, the answer is "need more
  bytes" and the cursor stays in front of the line, whatever follows: the line is
  never reported as a protocol error and no further input gets past it.
\<close>

theorem malformed_count_stalls:
  assumes "13 \<notin> set line" and "parse_i64 line = None \<or> parse_i64 line = Some i64_min"
    and "pr_buf p = pre @ [42] @ line @ CRLF @ rest" and "pr_pos p = length pre"
  shows "parse_command p = (Inr None, p)"
proof -
  have "parse_i64_bytes line = None" using assms(2) by (auto simp: parse_i64_bytes_parse)
  then have "parse_multibulk_args p = (Inr None, p)"
    using read_line_int_line [of "p\<lparr>pr_pos := pr_pos p + 1\<rparr>" "pre @ [42]" line rest] assms
    by (simp add: parse_multibulk_args_def)
  then show ?thesis using assms(3,4) by (simp add: parse_command_multibulk nth_append)
qed

theorem malformed_count_stalls_witness:
  "parse_command \<lparr>pr_buf = ascii ''*x'' @ CRLF @ demo_request, pr_pos = 0, pr_max_bulk_len = 100, pr_max_array_len = 4\<rparr> =
    (Inr None, \<lparr>pr_buf = ascii ''*x'' @ CRLF @ demo_request, pr_pos = 0, pr_max_bulk_len = 100, pr_max_array_len = 4\<rparr>)"
  using malformed_count_stalls [of "ascii ''x''"
      "\<lparr>pr_buf = ascii ''*x'' @ CRLF @ demo_request, pr_pos = 0, pr_max_bulk_len = 100, pr_max_array_len = 4\<rparr>"
      "[]" demo_request]
  by (simp add: ascii_def parse_i64_def is_digit_def)

section \<open>Safety\<close>

definition in_buffer :: "parser \<Rightarrow> bool" where
  "in_buffer p \<longleftrightarrow> pr_pos p \<le> length (pr_buf p)"

definition same_parser :: "parser \<Rightarrow> parser \<Rightarrow> bool" where
  "same_parser p p' \<longleftrightarrow> pr_buf p' = pr_buf p \<and> pr_max_bulk_len p' = pr_max_bulk_len p \<and>
     pr_max_array_len p' = pr_max_array_len p"

lemma read_line_int_safe:
  assumes "read_line_int p = (r, p')" and "in_buffer p"
  shows "(\<forall>e. r \<noteq> Inl e) \<and> in_buffer p' \<and> pr_pos p \<le> pr_pos p' \<and> same_parser p p'"
  using assms find_crlf_ge [of "pr_buf p" "pr_pos p"]
  by (auto simp: read_line_int_def slice_def in_buffer_def same_parser_def split: option.splits)

lemma parse_bulk_string_safe:
  assumes "parse_bulk_string p = (r, p')" and "in_buffer p"
  shows "r \<noteq> Inl Panic" "in_buffer p'" "pr_pos p \<le> pr_pos p'" "same_parser p p'"
    "r = Inr (Some s) \<Longrightarrow> length s \<le> pr_max_bulk_len p"
proof -
  have "r \<noteq> Inl Panic \<and> in_buffer p' \<and> pr_pos p \<le> pr_pos p' \<and> same_parser p p' \<and>
    (r = Inr (Some s) \<longrightarrow> length s \<le> pr_max_bulk_len p)"
  proof (cases "pr_pos p < length (pr_buf p) \<and> pr_buf p ! pr_pos p = 36")
    case False
    then show ?thesis using assms by (auto simp: parse_bulk_string_def same_parser_def split: if_splits)
  next
    case True
    obtain rl q where line: "read_line_int (p\<lparr>pr_pos := pr_pos p + 1\<rparr>) = (rl, q)" by fastforce
    have q: "\<And>e. rl \<noteq> Inl e" "in_buffer q" "pr_pos p \<le> pr_pos q" "same_parser p q"
      using read_line_int_safe [OF line] True by (auto simp: in_buffer_def same_parser_def)
    with True line assms(1) show ?thesis
      by (auto simp: parse_bulk_string_def slice_def in_buffer_def same_parser_def Let_def
          split: if_splits option.splits sum.splits)
  qed
  then show "r \<noteq> Inl Panic" "in_buffer p'" "pr_pos p \<le> pr_pos p'" "same_parser p p'"
    "r = Inr (Some s) \<Longrightarrow> length s \<le> pr_max_bulk_len p" by auto
qed

lemma multibulk_loop_safe:
  assumes "multibulk_loop n args p = (r, p')" and "in_buffer p" and "command_args_wf args"
  shows "r \<noteq> Inl Panic \<and> in_buffer p' \<and> pr_pos p \<le> pr_pos p' \<and> same_parser p p' \<and>
    (\<forall>args'. r = Inr (Some args') \<longrightarrow> (\<exists>ds. length ds = n \<and> (\<forall>d \<in> set ds. length d \<le> pr_max_bulk_len p) \<and>
       command_args_into_vec args' = command_args_into_vec args @ ds))"
  using assms
proof (induction n arbitrary: args p)
  case (Suc n)
  obtain rb q where bulk: "parse_bulk_string p = (rb, q)" by fastforce
  note safe = parse_bulk_string_safe [OF bulk Suc.prems(2)]
  have keep: "pr_max_bulk_len q = pr_max_bulk_len p" using safe(4) by (simp add: same_parser_def)
  show ?case
  proof (cases "\<exists>s. rb = Inr (Some s)")
    case True
    then obtain s where s: "rb = Inr (Some s)" by blast
    have step: "multibulk_loop n (command_args_push s args) q = (r, p')"
      using Suc.prems(1) bulk s by simp
    note ih = Suc.IH [OF step safe(2) command_args_push_wf(1) [OF Suc.prems(3)],
        unfolded keep command_args_push_wf(2) [OF Suc.prems(3)]]
    have "same_parser p p'"
      using ih safe(4) by (simp add: same_parser_def)
    moreover have "\<exists>ds. length ds = Suc n \<and> (\<forall>d \<in> set ds. length d \<le> pr_max_bulk_len p) \<and>
        command_args_into_vec args' = command_args_into_vec args @ ds" if some: "r = Inr (Some args')" for args'
    proof -
      obtain ds where "length ds = n" "\<forall>d \<in> set ds. length d \<le> pr_max_bulk_len p"
        "command_args_into_vec args' = command_args_into_vec args @ s # ds"
        using ih some by auto
      then show ?thesis using safe(5) [OF s] by (intro exI [of _ "s # ds"]) simp
    qed
    ultimately show ?thesis using ih safe(3) by auto
  next
    case False
    with bulk Suc.prems(1) have "p' = q" "r \<noteq> Inr (Some args')" "r = Inl Panic \<Longrightarrow> rb = Inl Panic" for args'
      by (auto split: sum.splits option.splits)
    then show ?thesis using safe by auto
  qed
qed (auto simp: in_buffer_def same_parser_def)

lemma parse_multibulk_args_safe:
  assumes "parse_multibulk_args p = (r, p')" and "pr_pos p < length (pr_buf p)"
  shows "r \<noteq> Inl Panic \<and> in_buffer p' \<and> same_parser p p' \<and>
    (\<forall>args'. r = Inr (Some args') \<longrightarrow> pr_pos p < pr_pos p' \<and>
       length (command_args_into_vec args') \<le> pr_max_array_len p \<and>
       (\<forall>d \<in> set (command_args_into_vec args'). length d \<le> pr_max_bulk_len p))"
proof -
  obtain rl q where line: "read_line_int (p\<lparr>pr_pos := pr_pos p + 1\<rparr>) = (rl, q)" by fastforce
  have q: "\<And>e. rl \<noteq> Inl e" "in_buffer q" "pr_pos p < pr_pos q" "same_parser p q"
    using read_line_int_safe [OF line] assms(2) by (auto simp: in_buffer_def same_parser_def)
  then have keep: "pr_buf q = pr_buf p" "pr_max_bulk_len q = pr_max_bulk_len p"
    "pr_max_array_len q = pr_max_array_len p" by (simp_all add: same_parser_def)
  show ?thesis
  proof (cases "\<exists>n. rl = Inr (Some (int n)) \<and> n \<le> pr_max_array_len p")
    case True
    then obtain n where n: "rl = Inr (Some (int n))" "n \<le> pr_max_array_len p" by blast
    obtain rm m where loop: "multibulk_loop n (command_args_new n) q = (rm, m)" by fastforce
    note safe = multibulk_loop_safe [OF loop q(2) command_args_new_wf(1)]
    then show ?thesis
      using assms line loop n safe q(3) keep
      by (auto simp: parse_multibulk_args_def in_buffer_def same_parser_def split: sum.splits option.splits)
  next
    case False
    have "rl = Inr None \<or> (\<exists>c. rl = Inr (Some c) \<and> (c < 0 \<or> pr_max_array_len p < nat c))"
    proof (cases rl)
      case (Inr oc)
      with False show ?thesis by (cases oc) (auto, metis int_nat_eq not_less)
    qed (use q(1) in blast)
    then show ?thesis
      using assms line q keep
      by (auto simp: parse_multibulk_args_def in_buffer_def same_parser_def split: if_splits)
  qed
qed

lemma find_lf_ge: "find_lf buf pos = Some q \<Longrightarrow> pos \<le> q \<and> q < length buf"
proof (induction buf pos rule: find_lf.induct)
  case (1 buf pos)
  from "1.prems" have "pos < length buf" by (subst (asm) find_lf.simps) (simp split: if_splits)
  with 1 show ?case by (cases "buf ! pos = 10") (auto simp: find_lf.simps [of buf pos])
qed

lemma inline_parts_result:
  "count \<le> mx \<Longrightarrow> inline_parts mx parts count args =
     (if count + length (filter (\<lambda>w. w \<noteq> []) parts) \<le> mx
      then Inr (fold command_args_push (filter (\<lambda>w. w \<noteq> []) parts) args)
      else Inl (Err ''ERR RESP argument count exceeds maximum''))"
  by (induction parts arbitrary: count args) auto

lemma parse_inline_args_safe:
  assumes "parse_inline_args p = (r, p')" and "in_buffer p"
  shows "r \<noteq> Inl Panic \<and> in_buffer p' \<and> same_parser p p' \<and>
    (\<forall>args'. r = Inr (Some args') \<longrightarrow> pr_pos p < pr_pos p' \<and>
       length (command_args_into_vec args') \<le> pr_max_array_len p)"
  using assms find_lf_ge [of "pr_buf p" "pr_pos p"]
  by (auto simp: parse_inline_args_def inline_parts_result fold_command_args_push slice_def Let_def
      in_buffer_def same_parser_def split: option.splits if_splits)



section \<open>Inline commands\<close>

fun join_words :: "bytes list \<Rightarrow> bytes" where
  "join_words [] = []"
| "join_words [w] = w"
| "join_words (w # ws) = w @ [32] @ join_words ws"

lemma split_on_free: "\<forall>x \<in> set xs. \<not> sep x \<Longrightarrow> split_on sep xs = [xs]"
  by (induction xs) auto

lemma split_on_append_sep:
  "\<forall>x \<in> set xs. \<not> sep x \<Longrightarrow> sep s \<Longrightarrow> split_on sep (xs @ s # ys) = xs # split_on sep ys"
  by (induction xs) auto

lemma split_join_words:
  "ws \<noteq> [] \<Longrightarrow> \<forall>w \<in> set ws. 32 \<notin> set w \<Longrightarrow> split_on (\<lambda>b. b = 32) (join_words ws) = ws"
proof (induction ws rule: join_words.induct)
  case (2 w)
  then show ?case by (auto intro!: split_on_free)
next
  case (3 w v ws)
  have "split_on (\<lambda>b. b = 32) (w @ 32 # join_words (v # ws)) =
      w # split_on (\<lambda>b. b = 32) (join_words (v # ws))"
    using "3.prems" by (intro split_on_append_sep) auto
  then show ?case using 3 by simp
qed simp

lemma find_lf_found:
  "10 \<notin> set line \<Longrightarrow> find_lf (pre @ line @ 10 # rest) (length pre) = Some (length pre + length line)"
proof (induction line arbitrary: pre)
  case Nil
  then show ?case by (simp add: find_lf.simps nth_append)
next
  case (Cons c line)
  then show ?case using Cons.IH [of "pre @ [c]"] by (simp add: find_lf.simps [of _ "length pre"] nth_append)
qed

lemma join_words_no_lf: "\<forall>w \<in> set ws. 10 \<notin> set w \<Longrightarrow> 10 \<notin> set (join_words ws)"
  by (induction ws rule: join_words.induct) auto

lemma join_words_first: "ws \<noteq> [] \<Longrightarrow> hd ws \<noteq> [] \<Longrightarrow> \<exists>tl. join_words ws = hd (hd ws) # tl"
  by (cases ws rule: join_words.cases) (auto simp: neq_Nil_conv)

text \<open>
  Inline commands. Non-empty words typed on one line, separated by
  single spaces and ended by CR LF, are read as exactly these arguments, and the
  cursor ends after the line, provided the first byte is not the array marker.
\<close>

theorem inline_command_round_trip:
  assumes "ws \<noteq> []" and "\<forall>w \<in> set ws. w \<noteq> [] \<and> 32 \<notin> set w \<and> 10 \<notin> set w" and "hd (hd ws) \<noteq> 42"
    and "length ws \<le> pr_max_array_len p"
    and "pr_buf p = pre @ join_words ws @ CRLF @ rest" and "pr_pos p = length pre"
  shows "parse_command p = (Inr (Some ws), p\<lparr>pr_pos := length pre + length (join_words ws) + 2\<rparr>)"
proof -
  let ?line = "join_words ws"
  obtain tl where tl: "?line = hd (hd ws) # tl"
    using join_words_first [of ws] assms(1,2) by auto
  have lf: "find_lf (pr_buf p) (length pre) = Some (length pre + length ?line + 1)"
    using find_lf_found [of "?line @ [13]" pre rest] join_words_no_lf [of ws] assms(2,5)
    by (simp add: CRLF_def)
  have cr: "pr_buf p ! (length pre + length ?line) = 13"
    using assms(5) by (simp add: CRLF_def nth_append)
  have line: "slice (pr_buf p) (length pre) (length pre + length ?line) = Inr ?line"
    using slice_append [of pre ?line] assms(5) by simp
  have "filter (\<lambda>w. w \<noteq> []) ws = ws" using assms(2) by (simp add: filter_id_conv)
  moreover have "split_on (\<lambda>b. b = 32) ?line = ws" using split_join_words assms(1,2) by blast
  ultimately have inl: "parse_inline_args p =
      (Inr (Some (fold command_args_push ws (command_args_new 0))), p\<lparr>pr_pos := length pre + length ?line + 2\<rparr>)"
    using lf cr line assms(4,6) by (simp add: parse_inline_args_def inline_parts_result Let_def)
  have "pr_pos p < length (pr_buf p)" "pr_buf p ! pr_pos p = hd (hd ws)"
    using assms(5,6) tl by (simp_all add: nth_append)
  with inl assms(3) show ?thesis
    by (simp add: parse_command_def parse_command_args_def fold_command_args_push)
qed

theorem inline_command_round_trip_witness:
  "parse_command (with_limits (ascii ''SET k v'' @ CRLF @ OK) 100 4) =
    (Inr (Some [ascii ''SET'', ascii ''k'', ascii ''v'']),
     (with_limits (ascii ''SET k v'' @ CRLF @ OK) 100 4)\<lparr>pr_pos := 9\<rparr>)"
  using inline_command_round_trip [of "[ascii ''SET'', ascii ''k'', ascii ''v'']"
      "with_limits (ascii ''SET k v'' @ CRLF @ OK) 100 4" "[]" OK]
  by (simp add: with_limits_def ascii_def)

end
