(* ===== verification/StreamId.thy ===== *)
theory StreamId
  imports Text "HOL-Library.List_Lexorder"
begin

text \<open>
  The identifiers of stream entries: \<open>StreamId\<close> of \<^verbatim>\<open>src/src/store/mod.rs\<close> with
  its derived order, \<open>parse\<close>, \<open>zero\<close> and \<open>Display\<close>; and the ordered maps
  (\<^verbatim>\<open>BTreeMap\<close>) that the values of the store are built from, as association lists
  sorted by a key.
\<close>

section \<open>Identifiers\<close>

datatype stream_id = StreamId (sid_ms: u64) (sid_seq: u64)

instantiation stream_id :: linorder
begin

definition less_eq_stream_id :: "stream_id \<Rightarrow> stream_id \<Rightarrow> bool" where
  "less_eq_stream_id a b \<longleftrightarrow> sid_ms a < sid_ms b \<or> sid_ms a = sid_ms b \<and> sid_seq a \<le> sid_seq b"

definition less_stream_id :: "stream_id \<Rightarrow> stream_id \<Rightarrow> bool" where
  "less_stream_id a b \<longleftrightarrow> sid_ms a < sid_ms b \<or> sid_ms a = sid_ms b \<and> sid_seq a < sid_seq b"

instance
  by standard (auto simp: less_eq_stream_id_def less_stream_id_def stream_id.expand)

end

text \<open>\<open>splitn(2, '-')\<close>: the text before the first dash and, where there is one, the text behind it.\<close>

definition split_dash :: "bytes \<Rightarrow> bytes \<times> bytes option" where
  "split_dash s =
     (let before = takeWhile (\<lambda>b. b \<noteq> 45) s in
      (before, if length before < length s then Some (drop (Suc (length before)) s) else None))"

definition stream_id_parse :: "bytes \<Rightarrow> stream_id option" where
  "stream_id_parse s =
     (case split_dash s of (p0, p1) \<Rightarrow>
       (case parse_u64 p0 of
          None \<Rightarrow> None
        | Some ms \<Rightarrow>
            (case p1 of
               None \<Rightarrow> Some (StreamId (of_nat ms) 0)
             | Some p \<Rightarrow> (case parse_u64 p of None \<Rightarrow> None | Some seq \<Rightarrow> Some (StreamId (of_nat ms) (of_nat seq))))))"

definition stream_id_zero :: stream_id where
  "stream_id_zero = StreamId 0 0"

definition stream_id_to_string :: "stream_id \<Rightarrow> bytes" where
  "stream_id_to_string i = nat_digits (unat (sid_ms i)) @ 45 # nat_digits (unat (sid_seq i))"

lemma parse_u64_digits: "n \<le> usize_max \<Longrightarrow> parse_u64 (nat_digits n) = Some n"
proof -
  assume n: "n \<le> usize_max"
  obtain d ds where d: "nat_digits n = d # ds" "is_digit d" by (rule nat_digits_Cons)
  moreover have "list_all is_digit (d # ds)" using nat_digits_digits [of n] d by simp
  moreover have "digits_val 0 (d # ds) = n" using nat_digits_val [of n] d by simp
  ultimately show ?thesis using n is_digit_not_sign [of d] by (simp only: parse_u64_def list.case Let_def) simp
qed

lemma unat_u64_le: "unat (x :: u64) \<le> usize_max"
  using unsigned_less [of x, where ?'a = nat] by (simp add: usize_max_def)

lemma takeWhile_digits: "takeWhile (\<lambda>b. b \<noteq> 45) (nat_digits n @ 45 # s) = nat_digits n"
  using nat_digits_digits [of n] is_digit_not_sign by (auto simp: takeWhile_append list_all_iff)

text \<open>A stream identifier survives being printed and parsed, so no two of them print alike.\<close>

lemma stream_id_parse_print [simp]: "stream_id_parse (stream_id_to_string i) = Some i"
  by (simp add: stream_id_parse_def split_dash_def stream_id_to_string_def takeWhile_digits parse_u64_digits
      unat_u64_le)

lemma inj_stream_id_to_string: "inj stream_id_to_string"
  by (rule injI) (metis option.inject stream_id_parse_print)

section \<open>Ordered maps\<close>

text \<open>
  \<^verbatim>\<open>BTreeMap\<close>: an association list whose keys increase strictly along \<open>f\<close>. As in
  the library, inserting at an equal key keeps the old key and replaces the value.
\<close>

fun bt_insert :: "('k \<Rightarrow> 'o :: linorder) \<Rightarrow> 'k \<Rightarrow> 'v \<Rightarrow> ('k \<times> 'v) list \<Rightarrow> ('k \<times> 'v) list" where
  "bt_insert f k v [] = [(k, v)]"
| "bt_insert f k v ((k', v') # m) =
     (if f k < f k' then (k, v) # (k', v') # m
      else if f k = f k' then (k', v) # m
      else (k', v') # bt_insert f k v m)"

fun bt_get :: "('k \<Rightarrow> 'o :: linorder) \<Rightarrow> ('k \<times> 'v) list \<Rightarrow> 'k \<Rightarrow> 'v option" where
  "bt_get f [] k = None"
| "bt_get f ((k', v') # m) k = (if f k = f k' then Some v' else bt_get f m k)"

definition bt_wf :: "('k \<Rightarrow> 'o :: linorder) \<Rightarrow> ('k \<times> 'v) list \<Rightarrow> bool" where
  "bt_wf f m \<longleftrightarrow> sorted_wrt (<) (map (\<lambda>(k, _). f k) m)"

definition bt_collect :: "('k \<Rightarrow> 'o :: linorder) \<Rightarrow> ('k \<times> 'v) list \<Rightarrow> ('k \<times> 'v) list" where
  "bt_collect f kvs = foldl (\<lambda>m (k, v). bt_insert f k v m) [] kvs"

lemma bt_insert_keys: "(\<lambda>(k, _). f k) ` set (bt_insert f k v m) = insert (f k) ((\<lambda>(k, _). f k) ` set m)"
  by (induction f k v m rule: bt_insert.induct) auto

lemma bt_wf_Nil [simp]: "bt_wf f []"
  by (simp add: bt_wf_def)

lemma bt_wf_Cons: "bt_wf f ((k, v) # m) \<longleftrightarrow> bt_wf f m \<and> (\<forall>x \<in> (\<lambda>(k, _). f k) ` set m. f k < x)"
  by (auto simp: bt_wf_def)

lemma bt_wf_insert [wf_intros]: "bt_wf f m \<Longrightarrow> bt_wf f (bt_insert f k v m)"
  by (induction f k v m rule: bt_insert.induct) (auto simp: bt_wf_Cons bt_insert_keys)

lemma bt_get_insert: "bt_wf f m \<Longrightarrow> bt_get f (bt_insert f k v m) k' = (if f k' = f k then Some v else bt_get f m k')"
  by (induction f k v m rule: bt_insert.induct) (auto simp: bt_wf_Cons)

lemma bt_insert_last: "\<forall>x \<in> (\<lambda>(k, _). f k) ` set m. x < f k \<Longrightarrow> bt_insert f k v m = m @ [(k, v)]"
  by (induction f k v m rule: bt_insert.induct) auto

lemma bt_wf_snoc: "bt_wf f (m @ [(k, v)]) \<longleftrightarrow> bt_wf f m \<and> (\<forall>x \<in> (\<lambda>(k, _). f k) ` set m. x < f k)"
  by (auto simp: bt_wf_def sorted_wrt_append)

text \<open>Rebuilding a map from its own entries, in their order, gives the map back.\<close>

lemma bt_collect_id: "bt_wf f m \<Longrightarrow> bt_collect f m = m"
  by (induction m rule: rev_induct) (auto simp: bt_collect_def bt_wf_snoc bt_insert_last)

lemma bt_wf_collect [wf_intros]: "bt_wf f (bt_collect f kvs)"
  by (induction kvs rule: rev_induct) (auto simp: bt_collect_def bt_wf_insert)

lemma bt_insert_set:
  assumes "f k \<notin> (\<lambda>(k, _). f k) ` set m"
  shows "set (bt_insert f k v m) = insert (k, v) (set m)"
  using assms by (induction f k v m rule: bt_insert.induct) auto

lemma bt_collect_set:
  "distinct (map (\<lambda>(k, _). f k) kvs) \<Longrightarrow> set (bt_collect f kvs) = set kvs"
proof (induction kvs rule: rev_induct)
  case (snoc p kvs)
  then show ?case by (cases p) (auto simp: bt_collect_def bt_insert_set)
qed (simp add: bt_collect_def)

lemma bt_wf_unique:
  assumes "bt_wf f m" "bt_wf f m'" "set m = set m'"
  shows "m = m'"
  using assms
proof (induction m arbitrary: m')
  case (Cons p m)
  obtain p' m'' where m': "m' = p' # m''" using Cons.prems(3) by (cases m') auto
  have hd: "p = p'"
  proof (rule ccontr)
    assume "p \<noteq> p'"
    with Cons.prems(3) m' have "p \<in> set m''" "p' \<in> set m" by auto
    with Cons.prems(1,2) m' show False by (cases p; cases p') (force simp: bt_wf_Cons)
  qed
  have "p \<notin> set m" "p \<notin> set m''" using Cons.prems(1,2) m' hd by (cases p; force simp: bt_wf_Cons)+
  with Cons.prems(3) m' hd have "set m = set m''" by auto
  with Cons m' hd show ?case by (cases p) (auto simp: bt_wf_Cons)
qed simp

section \<open>Hash maps rebuilt from their entries\<close>

definition hm_collect :: "('k \<times> 'v) list \<Rightarrow> ('k, 'v) hash_map" where
  "hm_collect kvs = foldl (\<lambda>m (k, v). hm_insert k v m) [] kvs"

lemma hm_insert_new: "hm_get m k = None \<Longrightarrow> hm_insert k v m = m @ [(k, v)]"
  by (induction m) (auto simp: hm_insert_def hm_get_def split: if_splits)

lemma hm_wf_snoc: "hm_wf (m @ [(k, v)]) \<longleftrightarrow> hm_wf m \<and> hm_get m k = None"
  by (auto simp: hm_wf_def hm_get_None_iff)

lemma hm_collect_id: "hm_wf m \<Longrightarrow> hm_collect m = m"
  by (induction m rule: rev_induct) (auto simp: hm_collect_def hm_wf_snoc hm_insert_new)

lemma hm_wf_collect [wf_intros]: "hm_wf (hm_collect kvs)"
  by (induction kvs rule: rev_induct) (auto simp: hm_collect_def)

end
