(* ===== verification/HashData.thy ===== *)
theory HashData
  imports StreamId
begin

text \<open>
  The representation of a hash value: \<open>HashData\<close> of \<^verbatim>\<open>src/src/store/mod.rs\<close>,
  the fields with an optional deadline for each of them, in milliseconds of the
  epoch.
\<close>

section \<open>Operations\<close>

record hash_data =
  hd_fields :: "(bytes, bytes) hash_map"
  hd_expiries :: "(bytes, int) hash_map"

definition hash_default :: hash_data where
  "hash_default = \<lparr>hd_fields = [], hd_expiries = []\<rparr>"

definition from_fields :: "(bytes, bytes) hash_map \<Rightarrow> hash_data" where
  "from_fields fs = \<lparr>hd_fields = fs, hd_expiries = []\<rparr>"

definition field_expired :: "bytes \<Rightarrow> int \<Rightarrow> hash_data \<Rightarrow> bool" where
  "field_expired field now_ms h =
     (case hm_get (hd_expiries h) field of None \<Rightarrow> False | Some e \<Rightarrow> e \<le> now_ms)"

definition get_live :: "bytes \<Rightarrow> int \<Rightarrow> hash_data \<Rightarrow> bytes option" where
  "get_live field now_ms h = (if field_expired field now_ms h then None else hm_get (hd_fields h) field)"

definition contains_live :: "bytes \<Rightarrow> int \<Rightarrow> hash_data \<Rightarrow> bool" where
  "contains_live field now_ms h \<longleftrightarrow> hm_contains (hd_fields h) field \<and> \<not> field_expired field now_ms h"

definition live_iter :: "int \<Rightarrow> hash_data \<Rightarrow> (bytes \<times> bytes) list" where
  "live_iter now_ms h = filter (\<lambda>(k, _). \<not> field_expired k now_ms h) (hd_fields h)"

definition live_len :: "int \<Rightarrow> hash_data \<Rightarrow> nat" where
  "live_len now_ms h = length (filter (\<lambda>k. \<not> field_expired k now_ms h) (map fst (hd_fields h)))"

fun purge_fields :: "bytes list \<Rightarrow> nat \<Rightarrow> hash_data \<Rightarrow> nat \<times> hash_data" where
  "purge_fields [] freed h = (freed, h)"
| "purge_fields (f # fs) freed h =
     purge_fields fs
       (case hm_get (hd_fields h) f of None \<Rightarrow> freed | Some v \<Rightarrow> freed + (length f + length v + 64))
       (h\<lparr>hd_fields := hm_remove f (hd_fields h), hd_expiries := hm_remove f (hd_expiries h)\<rparr>)"

definition purge_expired :: "int \<Rightarrow> hash_data \<Rightarrow> (nat \<times> bool) \<times> hash_data" where
  "purge_expired now_ms h =
     (if hd_expiries h = [] then ((0, hd_fields h = []), h)
      else let expired = map fst (filter (\<lambda>(_, e). e \<le> now_ms) (hd_expiries h)) in
        (case purge_fields expired 0 h of (freed, h) \<Rightarrow> ((freed, hd_fields h = []), h)))"

section \<open>Correctness\<close>

definition hash_wf :: "hash_data \<Rightarrow> bool" where
  "hash_wf h \<longleftrightarrow> hm_wf (hd_fields h) \<and> hm_wf (hd_expiries h)"

abbreviation field_mem :: "bytes \<Rightarrow> bytes \<Rightarrow> nat" where
  "field_mem k v \<equiv> length k + length v + 64"

lemma hash_default_wf [simp]: "hash_wf hash_default"
  by (simp add: hash_wf_def hash_default_def)

lemma hash_wf_update:
  "hash_wf h \<Longrightarrow> hash_wf (h\<lparr>hd_fields := hm_insert f v (hd_fields h)\<rparr>)"
  "hash_wf h \<Longrightarrow> hash_wf (h\<lparr>hd_fields := hm_remove f (hd_fields h)\<rparr>)"
  "hash_wf h \<Longrightarrow> hash_wf (h\<lparr>hd_expiries := hm_insert f e (hd_expiries h)\<rparr>)"
  "hash_wf h \<Longrightarrow> hash_wf (h\<lparr>hd_expiries := hm_remove f (hd_expiries h)\<rparr>)"
  by (simp_all add: hash_wf_def)

declare hash_wf_update [simp, wf_intros]

lemma get_live_Some_iff: "contains_live f t h \<longleftrightarrow> get_live f t h \<noteq> None"
  by (simp add: contains_live_def get_live_def hm_contains_iff)

lemma live_iter_iff: "hash_wf h \<Longrightarrow> (f, v) \<in> set (live_iter t h) \<longleftrightarrow> get_live f t h = Some v"
  by (auto simp: live_iter_def get_live_def hash_wf_def hm_get_Some_iff)

lemma live_len_iter: "live_len t h = length (live_iter t h)"
  by (simp add: live_len_def live_iter_def filter_map o_def split_def)

lemma purge_fields_result:
  assumes "hash_wf h" and "purge_fields fs freed h = (freed', h')"
  shows "hash_wf h'
    \<and> hm_get (hd_fields h') f = (if f \<in> set fs then None else hm_get (hd_fields h) f)
    \<and> hm_get (hd_expiries h') f = (if f \<in> set fs then None else hm_get (hd_expiries h) f)
    \<and> freed' + hm_sum field_mem (hd_fields h') = freed + hm_sum field_mem (hd_fields h)"
  using assms
proof (induction fs freed h rule: purge_fields.induct)
  case (2 g fs freed h)
  let ?h = "h\<lparr>hd_fields := hm_remove g (hd_fields h), hd_expiries := hm_remove g (hd_expiries h)\<rparr>"
  have wf: "hash_wf ?h" using "2.prems"(1) by (simp add: hash_wf_def)
  note IH = "2.IH" [OF wf "2.prems"(2) [unfolded purge_fields.simps]]
  have "hm_sum field_mem (hd_fields ?h) + opt_weight field_mem g (hm_get (hd_fields h) g)
      = hm_sum field_mem (hd_fields h)"
    using "2.prems"(1) hm_sum_remove [of "hd_fields h" field_mem g] by (simp add: hash_wf_def)
  with IH show ?case by (auto split: option.splits)
qed auto

text \<open>
  Purging drops exactly the fields whose deadline has passed, keeps the deadlines
  of the others, and reports the bytes these fields were accounted with.
\<close>

lemma purge_expired_result:
  assumes "hash_wf h" and "purge_expired t h = ((freed, none_left), h')"
  shows "hash_wf h'"
    and "hm_get (hd_fields h') f = get_live f t h"
    and "hm_get (hd_expiries h') f = (if field_expired f t h then None else hm_get (hd_expiries h) f)"
    and "freed + hm_sum field_mem (hd_fields h') = hm_sum field_mem (hd_fields h)"
    and "none_left \<longleftrightarrow> hd_fields h' = []"
proof -
  let ?fs = "map fst (filter (\<lambda>(_, e). e \<le> t) (hd_expiries h))"
  have mem: "f \<in> set ?fs \<longleftrightarrow> field_expired f t h" for f
  proof -
    have "f \<in> set ?fs \<longleftrightarrow> (\<exists>e. hm_get (hd_expiries h) f = Some e \<and> e \<le> t)"
      using assms(1) by (force simp: hash_wf_def hm_get_Some_iff)
    then show ?thesis by (auto simp: field_expired_def split: option.splits)
  qed
  have none: "hd_expiries h = [] \<Longrightarrow> \<not> field_expired f t h" for f by (simp add: field_expired_def)
  obtain fr h'' where p: "purge_fields ?fs 0 h = (fr, h'')" by (cases "purge_fields ?fs 0 h")
  note P = purge_fields_result [OF assms(1) p]
  have "(freed, none_left, h') = (if hd_expiries h = [] then (0, hd_fields h = [], h) else (fr, hd_fields h'' = [], h''))"
    using assms(2) p by (auto simp: purge_expired_def split: if_splits)
  with P mem none assms(1) show "hash_wf h'" "hm_get (hd_fields h') f = get_live f t h"
    "hm_get (hd_expiries h') f = (if field_expired f t h then None else hm_get (hd_expiries h) f)"
    "freed + hm_sum field_mem (hd_fields h') = hm_sum field_mem (hd_fields h)"
    "none_left \<longleftrightarrow> hd_fields h' = []"
    by (auto simp: get_live_def split: if_splits)
qed

end
