(* ===== verification/SetData.thy ===== *)
theory SetData
  imports Text
begin

text \<open>
  The representation of a set value: \<open>SetData\<close> of \<^verbatim>\<open>src/src/store/mod.rs\<close>, a
  vector of members with an index from member to position, kept dense by
  \<open>swap_remove\<close>. An access outside the vector is a panic.
\<close>

section \<open>Operations\<close>

record set_data =
  sd_members :: "bytes list"
  sd_index :: "(bytes \<times> nat) list"

definition set_new :: set_data where
  "set_new = \<lparr>sd_members = [], sd_index = []\<rparr>"

definition set_insert :: "bytes \<Rightarrow> set_data \<Rightarrow> bool \<times> set_data" where
  "set_insert member s =
     (case hm_get (sd_index s) member of
        Some _ \<Rightarrow> (False, s)
      | None \<Rightarrow>
          (let idx = length (sd_members s) in
           (True, \<lparr>sd_members = sd_members s @ [member], sd_index = hm_insert member idx (sd_index s)\<rparr>)))"

fun set_from_members :: "bytes list \<Rightarrow> set_data \<Rightarrow> set_data" where
  "set_from_members [] s = s"
| "set_from_members (m # ms) s = set_from_members ms (snd (set_insert m s))"

definition from_members :: "bytes list \<Rightarrow> set_data" where
  "from_members members = set_from_members members set_new"

text \<open>\<open>Vec::swap_remove\<close>: the last element takes the place of the removed one.\<close>

definition swap_remove :: "nat \<Rightarrow> 'a list \<Rightarrow> 'a list result" where
  "swap_remove i xs = (if i < length xs then Inr (butlast (xs[i := last xs])) else Inl Panic)"

definition set_remove :: "bytes \<Rightarrow> set_data \<Rightarrow> (bool \<times> set_data) result" where
  "set_remove member s =
     (case hm_get (sd_index s) member of
        None \<Rightarrow> Inr (False, s)
      | Some idx \<Rightarrow>
          (let index = hm_remove member (sd_index s) in
           case swap_remove idx (sd_members s) of
             Inl e \<Rightarrow> Inl e
           | Inr members \<Rightarrow>
               Inr (True, \<lparr>sd_members = members,
                 sd_index = (if idx < length members then hm_insert (members ! idx) idx index else index)\<rparr>)))"

definition set_pop :: "set_data \<Rightarrow> bytes option \<times> set_data" where
  "set_pop s =
     (if sd_members s = [] then (None, s)
      else let member = last (sd_members s) in
        (Some member, \<lparr>sd_members = butlast (sd_members s), sd_index = hm_remove member (sd_index s)\<rparr>))"

definition set_contains :: "bytes \<Rightarrow> set_data \<Rightarrow> bool" where
  "set_contains member s = hm_contains (sd_index s) member"

definition set_size :: "set_data \<Rightarrow> nat" where
  "set_size s = length (sd_members s)"

definition set_is_empty :: "set_data \<Rightarrow> bool" where
  "set_is_empty s \<longleftrightarrow> sd_members s = []"

definition set_iter :: "set_data \<Rightarrow> bytes list" where
  "set_iter s = sd_members s"

section \<open>The invariant\<close>

text \<open>The index maps exactly the members to their positions.\<close>

definition set_wf :: "set_data \<Rightarrow> bool" where
  "set_wf s \<longleftrightarrow> hm_wf (sd_index s) \<and>
     (\<forall>m i. hm_get (sd_index s) m = Some i \<longleftrightarrow> i < length (sd_members s) \<and> sd_members s ! i = m)"

definition members_of :: "set_data \<Rightarrow> bytes set" where
  "members_of s = set (sd_members s)"

lemma set_wf_distinct: "set_wf s \<Longrightarrow> distinct (sd_members s)"
  unfolding set_wf_def distinct_conv_nth by (metis option.inject)

lemma set_wf_get: "set_wf s \<Longrightarrow> hm_get (sd_index s) m \<noteq> None \<longleftrightarrow> m \<in> members_of s"
  unfolding set_wf_def members_of_def in_set_conv_nth by (metis not_None_eq)

lemma set_contains_iff: "set_wf s \<Longrightarrow> set_contains m s \<longleftrightarrow> m \<in> members_of s"
  using set_wf_get [of s m] by (simp add: set_contains_def hm_contains_def hm_get_def)

lemma set_new_wf [simp, wf_intros]: "set_wf set_new"
  by (simp add: set_wf_def set_new_def hm_wf_def hm_get_def)

lemma members_of_new [simp]: "members_of set_new = {}"
  by (simp add: members_of_def set_new_def)

lemma set_wfI:
  assumes "hm_wf (sd_index s)" and "distinct (sd_members s)"
    and "\<And>j. j < length (sd_members s) \<Longrightarrow> hm_get (sd_index s) (sd_members s ! j) = Some j"
    and "\<And>k. k \<notin> set (sd_members s) \<Longrightarrow> hm_get (sd_index s) k = None"
  shows "set_wf s"
proof -
  have "hm_get (sd_index s) m = Some i \<longleftrightarrow> i < length (sd_members s) \<and> sd_members s ! i = m" for m i
  proof (cases "m \<in> set (sd_members s)")
    case True
    then obtain j where "j < length (sd_members s)" "sd_members s ! j = m" by (auto simp: in_set_conv_nth)
    then show ?thesis using assms(2,3) nth_eq_iff_index_eq by fastforce
  next
    case False
    then show ?thesis using assms(4) nth_mem by fastforce
  qed
  with assms(1) show ?thesis by (simp add: set_wf_def)
qed

lemma set_wf_nth: "set_wf s \<Longrightarrow> j < length (sd_members s) \<Longrightarrow> hm_get (sd_index s) (sd_members s ! j) = Some j"
  by (simp add: set_wf_def)

lemma set_wf_absent: "set_wf s \<Longrightarrow> k \<notin> set (sd_members s) \<Longrightarrow> hm_get (sd_index s) k = None"
  using set_wf_get [of s k] by (simp add: members_of_def)

lemma set_insert_spec:
  assumes "set_wf s" and "set_insert m s = (added, s')"
  shows "set_wf s' \<and> members_of s' = insert m (members_of s) \<and> (added \<longleftrightarrow> m \<notin> members_of s) \<and>
    set_size s' = set_size s + (if added then 1 else 0) \<and> sd_members s' = sd_members s @ (if added then [m] else [])"
proof (cases "hm_get (sd_index s) m")
  case (Some i)
  then have "m \<in> members_of s" using set_wf_get [OF assms(1), of m] by simp
  with Some assms show ?thesis by (auto simp: set_insert_def)
next
  case None
  then have new: "m \<notin> set (sd_members s)" using set_wf_get [OF assms(1), of m] by (simp add: members_of_def)
  have s': "added" "s' = \<lparr>sd_members = sd_members s @ [m], sd_index = hm_insert m (length (sd_members s)) (sd_index s)\<rparr>"
    using None assms(2) by (auto simp: set_insert_def Let_def)
  have "set_wf s'"
  proof (rule set_wfI)
    show "hm_wf (sd_index s')" using assms(1) by (simp add: s' set_wf_def hm_wf_insert)
    show "distinct (sd_members s')" using new set_wf_distinct [OF assms(1)] by (simp add: s')
    show "hm_get (sd_index s') (sd_members s' ! j) = Some j" if "j < length (sd_members s')" for j
      using that new set_wf_nth [OF assms(1), of j] by (auto simp: s' nth_append less_Suc_eq)
    show "hm_get (sd_index s') k = None" if "k \<notin> set (sd_members s')" for k
      using that set_wf_absent [OF assms(1)] by (simp add: s')
  qed
  with s' new show ?thesis by (auto simp: members_of_def set_size_def)
qed

text \<open>The vector after \<open>swap_remove\<close>.\<close>

lemma swap_remove_vector:
  assumes "i < length xs" and "distinct xs"
  defines "ys \<equiv> butlast (xs[i := last xs])"
  shows "swap_remove i xs = Inr ys" "length ys = length xs - 1" "distinct ys" "set ys = set xs - {xs ! i}"
    "\<And>j. j < length ys \<Longrightarrow> j \<noteq> i \<Longrightarrow> ys ! j = xs ! j"
proof -
  show "swap_remove i xs = Inr ys" "length ys = length xs - 1" using assms(1) by (simp_all add: swap_remove_def ys_def)
  show "ys ! j = xs ! j" if "j < length ys" "j \<noteq> i" for j
    using that assms(1) by (simp add: ys_def nth_butlast)
  obtain zs z where xs: "xs = zs @ [z]" using assms(1) by (cases xs rule: rev_cases) auto
  have "distinct ys \<and> set ys = set xs - {xs ! i}"
  proof (cases "i < length zs")
    case True
    then have "ys = zs[i := z]" using xs by (simp add: ys_def list_update_append)
    moreover have "set (zs[i := z]) = insert z (set zs - {zs ! i})"
      using True assms(2) xs by (intro set_update_distinct) auto
    moreover have "distinct (zs[i := z])" using assms(2) xs by (auto intro: distinct_list_update)
    moreover have "z \<noteq> zs ! i" using True assms(2) xs nth_mem [of i zs] by auto
    ultimately show ?thesis using True xs by (auto simp: nth_append)
  next
    case False
    then have "i = length zs" using assms(1) xs by simp
    then show ?thesis using xs assms(2) by (auto simp: ys_def)
  qed
  then show "distinct ys" "set ys = set xs - {xs ! i}" by auto
qed

lemma set_remove_spec:
  assumes "set_wf s"
  shows "\<exists>s'. set_remove m s = Inr (m \<in> members_of s, s') \<and> set_wf s' \<and>
    members_of s' = members_of s - {m} \<and>
    set_size s' = set_size s - (if m \<in> members_of s then 1 else 0)"
proof (cases "hm_get (sd_index s) m")
  case None
  then have "m \<notin> members_of s" using set_wf_get [OF assms, of m] by simp
  with None assms show ?thesis by (simp add: set_remove_def)
next
  case (Some i)
  let ?xs = "sd_members s"
  define ys where "ys = butlast (?xs[i := last ?xs])"
  define s' where "s' = \<lparr>sd_members = ys, sd_index = (if i < length ys
    then hm_insert (ys ! i) i (hm_remove m (sd_index s)) else hm_remove m (sd_index s))\<rparr>"
  have i: "i < length ?xs" "?xs ! i = m" and mem: "m \<in> members_of s"
    using Some assms set_wf_get [OF assms, of m] by (auto simp: set_wf_def)
  note sr = swap_remove_vector [OF i(1) set_wf_distinct [OF assms], folded ys_def]
  have "set_wf s'"
  proof (rule set_wfI)
    show "hm_wf (sd_index s')" using assms by (simp add: s'_def set_wf_def hm_wf_insert hm_wf_remove)
    show "distinct (sd_members s')" using sr(3) by (simp add: s'_def)
    show "hm_get (sd_index s') (sd_members s' ! j) = Some j" if "j < length (sd_members s')" for j
    proof -
      have j: "j < length ys" using that by (simp add: s'_def)
      then have "ys ! j \<noteq> m" using sr(4) i(2) nth_mem by fastforce
      moreover have "ys ! j = ys ! i \<longleftrightarrow> j = i" if "i < length ys"
        using that j sr(3) by (simp add: nth_eq_iff_index_eq)
      moreover have "hm_get (sd_index s) (ys ! j) = Some j" if "j \<noteq> i"
        using that sr(2) sr(5) [of j] j set_wf_nth [OF assms, of j] by simp
      ultimately show ?thesis using j by (auto simp: s'_def)
    qed
    show "hm_get (sd_index s') k = None" if "k \<notin> set (sd_members s')" for k
    proof -
      have k: "k \<notin> set ys" using that by (simp add: s'_def)
      then have "k = m \<or> hm_get (sd_index s) k = None" using sr(4) i(2) set_wf_absent [OF assms] by auto
      with k show ?thesis by (auto simp: s'_def)
    qed
  qed
  moreover have "set_remove m s = Inr (True, s')"
    using Some sr(1) by (simp add: set_remove_def Let_def s'_def)
  ultimately show ?thesis using mem sr(2,4) i(2) by (auto simp: set_size_def members_of_def s'_def)
qed

lemma set_pop_spec:
  assumes "set_wf s" and "set_pop s = (om, s')"
  shows "set_wf s' \<and> (case om of None \<Rightarrow> members_of s = {} \<and> s' = s
    | Some m \<Rightarrow> m \<in> members_of s \<and> members_of s' = members_of s - {m} \<and> set_size s = Suc (set_size s'))"
proof (cases "sd_members s" rule: rev_cases)
  case Nil
  then show ?thesis using assms by (auto simp: set_pop_def members_of_def)
next
  case (snoc ys m)
  have dist: "distinct ys" "m \<notin> set ys" using set_wf_distinct [OF assms(1)] snoc by auto
  have s': "om = Some m" "s' = \<lparr>sd_members = ys, sd_index = hm_remove m (sd_index s)\<rparr>"
    using assms(2) snoc by (auto simp: set_pop_def Let_def)
  have "set_wf s'"
  proof (rule set_wfI)
    show "hm_wf (sd_index s')" using assms(1) by (simp add: s' set_wf_def hm_wf_remove)
    show "distinct (sd_members s')" using dist by (simp add: s')
    show "hm_get (sd_index s') (sd_members s' ! j) = Some j" if "j < length (sd_members s')" for j
      using that dist set_wf_nth [OF assms(1), of j] snoc nth_mem [of j ys] by (auto simp: s' nth_append)
    show "hm_get (sd_index s') k = None" if "k \<notin> set (sd_members s')" for k
      using that set_wf_absent [OF assms(1), of k] snoc by (auto simp: s')
  qed
  with s' snoc dist show ?thesis by (auto simp: members_of_def set_size_def)
qed

lemma set_from_members_spec:
  "set_wf s \<Longrightarrow> set_wf (set_from_members ms s) \<and> members_of (set_from_members ms s) = members_of s \<union> set ms"
proof (induction ms arbitrary: s)
  case (Cons m ms)
  obtain added s' where "set_insert m s = (added, s')" by fastforce
  with Cons set_insert_spec [of s m added s'] show ?case by auto
qed simp

lemma from_members_spec [simp]: "set_wf (from_members ms)" "members_of (from_members ms) = set ms"
  using set_from_members_spec [of set_new ms] by (simp_all add: from_members_def)

lemma set_size_card: "set_wf s \<Longrightarrow> set_size s = card (members_of s)"
  by (simp add: set_size_def members_of_def distinct_card set_wf_distinct)

section \<open>Refinement\<close>

text \<open>The operations as a program, for sequences of them.\<close>

datatype set_op = Insert bytes | Remove bytes | Pop

fun run_set_op :: "set_op \<Rightarrow> set_data \<Rightarrow> set_data result" where
  "run_set_op (Insert m) s = Inr (snd (set_insert m s))"
| "run_set_op (Remove m) s = (case set_remove m s of Inl e \<Rightarrow> Inl e | Inr (_, s') \<Rightarrow> Inr s')"
| "run_set_op Pop s = Inr (snd (set_pop s))"

fun run_set_ops :: "set_op list \<Rightarrow> set_data \<Rightarrow> set_data result" where
  "run_set_ops [] s = Inr s"
| "run_set_ops (op # ops) s = (case run_set_op op s of Inl e \<Rightarrow> Inl e | Inr s' \<Rightarrow> run_set_ops ops s')"

lemma run_set_op_ok: "set_wf s \<Longrightarrow> \<exists>s'. run_set_op op s = Inr s' \<and> set_wf s'"
proof (cases op)
  case (Remove m)
  assume "set_wf s"
  from set_remove_spec [OF this, of m] Remove show ?thesis by auto
next
  case (Insert m)
  assume "set_wf s"
  with Insert show ?thesis using set_insert_spec [of s m] by (cases "set_insert m s") auto
next
  case Pop
  assume "set_wf s"
  with Pop show ?thesis using set_pop_spec [of s] by (cases "set_pop s") auto
qed

text \<open>
  The member vector and its index never disagree. Any sequence of
  inserts, removals and pops on a new set runs without a panic and leaves a
  representation in which the members are distinct, the index gives every
  member's position, membership in the index is membership in the vector, and the
  length is the number of members.
\<close>

theorem set_data_consistent:
  "\<exists>s. run_set_ops ops set_new = Inr s \<and> distinct (sd_members s) \<and>
     (\<forall>m i. hm_get (sd_index s) m = Some i \<longleftrightarrow> i < length (sd_members s) \<and> sd_members s ! i = m) \<and>
     (\<forall>m. set_contains m s \<longleftrightarrow> m \<in> set (set_iter s)) \<and> set_size s = card (set (set_iter s))"
proof -
  have "\<exists>s'. run_set_ops ops s = Inr s' \<and> set_wf s'" if "set_wf s" for s
    using that
  proof (induction ops arbitrary: s)
    case (Cons op ops)
    then obtain s1 where "run_set_op op s = Inr s1" "set_wf s1" using run_set_op_ok by blast
    with Cons.IH show ?case by simp
  qed simp
  then obtain s where s: "run_set_ops ops set_new = Inr s" "set_wf s" using set_new_wf by blast
  then show ?thesis
    using set_wf_distinct [OF s(2)] set_contains_iff [OF s(2)] set_size_card [OF s(2)]
    by (auto simp: set_wf_def members_of_def set_iter_def)
qed



end
