(* ===== verification/Codec.thy ===== *)
theory Codec
  imports Text
begin

text \<open>
  The little-endian primitives of \<^verbatim>\<open>src/src/disk.rs\<close>: \<open>write_u32\<close>,
  \<open>write_bytes\<close>, \<open>read_u32\<close>, \<open>read_string\<close> and the like. A writer is the bytes
  it appends; a reader takes the remaining input and returns a value with what it
  leaves. The locale \<open>codec\<close> is what the formats built from them rely on.
\<close>

section \<open>Words as bytes\<close>

definition le_bytes :: "nat \<Rightarrow> 'a::len word \<Rightarrow> bytes" where
  "le_bytes n w = map (\<lambda>i. ucast (drop_bit (8 * i) w)) [0..<n]"

fun from_le_bytes :: "bytes \<Rightarrow> 'a::len word" where
  "from_le_bytes [] = 0"
| "from_le_bytes (b # bs) = ucast b OR push_bit 8 (from_le_bytes bs)"

lemma length_le_bytes [simp]: "length (le_bytes n w) = n"
  by (simp add: le_bytes_def)

lemma le_bytes_Suc: "le_bytes (Suc n) w = ucast w # le_bytes n (drop_bit 8 w)"
proof -
  have "le_bytes (Suc n) w = ucast w # map (\<lambda>i. ucast (drop_bit (8 * Suc i) w)) [0..<n]"
    by (simp add: le_bytes_def upt_conv_Cons map_Suc_upt [symmetric] del: upt_Suc)
  then show ?thesis by (simp add: le_bytes_def drop_bit_drop_bit add.commute)
qed

lemma from_le_le_bytes:
  fixes w :: "'a::len word"
  assumes "LENGTH('a) \<le> 8 * n"
  shows "from_le_bytes (le_bytes n w) = w"
proof -
  have "from_le_bytes (le_bytes n v) = v"
    if "\<And>i. bit v i \<Longrightarrow> i < 8 * n" for v :: "'a word"
    using that
  proof (induction n arbitrary: v)
    case 0
    then show ?case by (auto simp: le_bytes_def intro!: bit_word_eqI)
  next
    case (Suc n)
    have ih: "from_le_bytes (le_bytes n (drop_bit 8 v)) = drop_bit 8 v"
      using Suc.prems by (intro Suc.IH) (auto simp: bit_simps dest!: Suc.prems)
    show ?case
      by (auto simp: le_bytes_Suc ih bit_simps intro!: bit_word_eqI)
  qed
  moreover have "i < 8 * n" if "bit w i" for i
    using bit_imp_le_length [OF that] assms by simp
  ultimately show ?thesis by blast
qed

lemma ucast_low_byte:
  fixes v :: "'a::len word"
  assumes "8 \<le> LENGTH('a)"
  shows "ucast (ucast b OR push_bit 8 v) = (b :: byte)"
  using assms by (auto intro!: bit_word_eqI simp: bit_simps)

lemma drop_low_byte:
  fixes v :: "'a::len word"
  assumes "\<And>i. bit v i \<Longrightarrow> i + 8 < LENGTH('a)"
  shows "drop_bit 8 (ucast (b :: byte) OR push_bit 8 v) = v"
  by (rule bit_word_eqI) (auto simp: bit_simps dest: assms bit_imp_le_length)

lemma le_from_le_bytes:
  assumes "length bs = n" and "8 * n \<le> LENGTH('a::len)"
  shows "le_bytes n (from_le_bytes bs :: 'a word) = bs \<and>
    (\<forall>i. bit (from_le_bytes bs :: 'a word) i \<longrightarrow> i < 8 * n)"
  using assms
proof (induction bs arbitrary: n)
  case Nil
  then show ?case by (simp add: le_bytes_def)
next
  case (Cons b bs)
  then obtain m where m: "n = Suc m" "length bs = m" by (cases n) auto
  let ?v = "from_le_bytes bs :: 'a word"
  have ih: "le_bytes m ?v = bs" "\<And>i. bit ?v i \<Longrightarrow> i < 8 * m"
    using Cons.IH [of m] Cons.prems m by auto
  have "drop_bit 8 (ucast b OR push_bit 8 ?v) = ?v"
    using ih(2) Cons.prems m by (intro drop_low_byte) fastforce
  moreover have "ucast (ucast b OR push_bit 8 ?v) = b"
    using Cons.prems m by (intro ucast_low_byte) simp
  moreover have "i < 8 * n" if "bit (ucast b OR push_bit 8 ?v) i" for i
    using that ih(2) [of "i - 8"] m by (auto simp: bit_simps dest: bit_imp_le_length)
  ultimately show ?case using ih(1) m(1) by (simp add: le_bytes_Suc)
qed

lemma write_u32_from_le: "length bs = 4 \<Longrightarrow> le_bytes 4 (from_le_bytes bs :: 32 word) = bs"
  using le_from_le_bytes [of bs 4, where 'a = 32] by simp

section \<open>Writers and readers\<close>

definition write_u32 :: "u32 \<Rightarrow> bytes" where
  "write_u32 v = le_bytes 4 v"

definition write_i64 :: "int \<Rightarrow> bytes" where
  "write_i64 v = le_bytes 8 (word_of_int v :: u64)"

text \<open>A float is its bit pattern.\<close>

definition write_f64 :: "u64 \<Rightarrow> bytes" where
  "write_f64 v = le_bytes 8 v"

definition write_bytes :: "bytes \<Rightarrow> bytes" where
  "write_bytes data = le_bytes 4 (of_nat (length data) :: u32) @ data"

definition unexpected_eof :: failure where
  "unexpected_eof = Err ''UnexpectedEof''"

text \<open>\<open>read_exact\<close> into a buffer of \<open>n\<close> bytes.\<close>

definition read_exact :: "nat \<Rightarrow> bytes \<Rightarrow> (bytes \<times> bytes) result" where
  "read_exact n r = (if length r < n then Inl unexpected_eof else Inr (take n r, drop n r))"

definition read_u32 :: "bytes \<Rightarrow> (u32 \<times> bytes) result" where
  "read_u32 r = (case read_exact 4 r of Inl e \<Rightarrow> Inl e | Inr (buf, r) \<Rightarrow> Inr (from_le_bytes buf, r))"

definition read_i64 :: "bytes \<Rightarrow> (int \<times> bytes) result" where
  "read_i64 r =
     (case read_exact 8 r of Inl e \<Rightarrow> Inl e | Inr (buf, r) \<Rightarrow> Inr (sint (from_le_bytes buf :: u64), r))"

definition read_f64 :: "bytes \<Rightarrow> (u64 \<times> bytes) result" where
  "read_f64 r = (case read_exact 8 r of Inl e \<Rightarrow> Inl e | Inr (buf, r) \<Rightarrow> Inr (from_le_bytes buf, r))"

text \<open>\<open>read_bytes\<close> takes at most the announced number of bytes and checks that it got them.\<close>

definition read_bytes :: "bytes \<Rightarrow> (bytes \<times> bytes) result" where
  "read_bytes r =
     (case read_u32 r of
        Inl e \<Rightarrow> Inl e
      | Inr (n, r) \<Rightarrow>
          (let len = unat n; buf = take len r in
           if length buf \<noteq> len then Inl unexpected_eof else Inr (buf, drop len r)))"

definition read_string :: "bytes \<Rightarrow> (bytes \<times> bytes) result" where
  "read_string r =
     (case read_bytes r of
        Inl e \<Rightarrow> Inl e
      | Inr (raw, r) \<Rightarrow> if utf8_valid raw then Inr (raw, r) else Inl (Err ''invalid utf-8''))"

text \<open>A counted loop of reads that stops at the first error.\<close>

fun read_many :: "(bytes \<Rightarrow> ('a \<times> bytes) result) \<Rightarrow> nat \<Rightarrow> bytes \<Rightarrow> ('a list \<times> bytes) result" where
  "read_many rd 0 r = Inr ([], r)"
| "read_many rd (Suc n) r =
     (case rd r of
        Inl e \<Rightarrow> Inl e
      | Inr (x, r) \<Rightarrow>
          (case read_many rd n r of Inl e \<Rightarrow> Inl e | Inr (xs, r) \<Rightarrow> Inr (x # xs, r)))"

section \<open>The contract of a format\<close>

text \<open>
  A self-delimiting format on the values that satisfy \<open>ok\<close>: reading what was
  written gives the value back and leaves what follows, and a truncated encoding
  is an error.
\<close>

locale codec =
  fixes ok :: "'a \<Rightarrow> bool" and enc :: "'a \<Rightarrow> bytes" and dec :: "bytes \<Rightarrow> ('a \<times> bytes) result"
  assumes round: "ok x \<Longrightarrow> dec (enc x @ rest) = Inr (x, rest)"
    and truncated: "ok x \<Longrightarrow> k < length (enc x) \<Longrightarrow> \<exists>e. dec (take k (enc x)) = Inl e"
begin

lemma many_round:
  "\<forall>x \<in> set xs. ok x \<Longrightarrow> read_many dec (length xs) (concat (map enc xs) @ rest) = Inr (xs, rest)"
  by (induction xs) (auto simp: round)

lemma many_truncated:
  "\<forall>x \<in> set xs. ok x \<Longrightarrow> k < length (concat (map enc xs)) \<Longrightarrow>
   \<exists>e. read_many dec (length xs) (take k (concat (map enc xs))) = Inl e"
proof (induction xs arbitrary: k)
  case (Cons x xs)
  show ?case
  proof (cases "k < length (enc x)")
    case True
    then show ?thesis using truncated [of x k] Cons.prems by auto
  next
    case False
    then have "k - length (enc x) < length (concat (map enc xs))" using Cons.prems(2) by auto
    with Cons obtain e where "read_many dec (length xs) (take (k - length (enc x)) (concat (map enc xs))) = Inl e"
      by auto
    with False Cons.prems show ?thesis by (simp add: round)
  qed
qed simp

end

text \<open>A format that prefixes the count of its items.\<close>

definition enc_counted :: "('a \<Rightarrow> bytes) \<Rightarrow> 'a list \<Rightarrow> bytes" where
  "enc_counted enc xs = write_u32 (of_nat (length xs)) @ concat (map enc xs)"

definition dec_counted :: "(bytes \<Rightarrow> ('a \<times> bytes) result) \<Rightarrow> bytes \<Rightarrow> ('a list \<times> bytes) result" where
  "dec_counted dec r = (case read_u32 r of Inl e \<Rightarrow> Inl e | Inr (n, r) \<Rightarrow> read_many dec (unat n) r)"

lemma read_u32_round [codec_simps, simp]: "read_u32 (write_u32 v @ rest) = Inr (v, rest)"
  by (simp add: read_u32_def read_exact_def write_u32_def from_le_le_bytes)

lemma read_u32_le_bytes [simp]: "read_u32 (le_bytes 4 v @ rest) = Inr (v, rest)"
  using read_u32_round [of v rest] by (simp add: write_u32_def)

lemma read_u32_short [simp]: "length r < 4 \<Longrightarrow> read_u32 r = Inl unexpected_eof"
  by (simp add: read_u32_def read_exact_def)

lemma length_write_u32 [simp]: "length (write_u32 v) = 4"
  by (simp add: write_u32_def)

definition u32_sized :: "'a list \<Rightarrow> bool" where
  "u32_sized xs \<longleftrightarrow> length xs < 2 ^ 32"

lemma unat_length_u32 [simp]: "u32_sized xs \<Longrightarrow> unat (of_nat (length xs) :: u32) = length xs"
  by (simp add: u32_sized_def unat_of_nat)

lemma read_bytes_round [codec_simps]: "u32_sized d \<Longrightarrow> read_bytes (write_bytes d @ rest) = Inr (d, rest)"
  by (simp add: read_bytes_def write_bytes_def)

lemma read_bytes_truncated:
  assumes "u32_sized d" and "k < length (write_bytes d)"
  shows "read_bytes (take k (write_bytes d)) = Inl unexpected_eof"
proof (cases "k < 4")
  case True
  then show ?thesis by (simp add: read_bytes_def)
next
  case False
  then have "take k (write_bytes d) = le_bytes 4 (of_nat (length d) :: u32) @ take (k - 4) d"
    by (simp add: write_bytes_def)
  moreover have "k - 4 < length d" using False assms(2) by (simp add: write_bytes_def)
  ultimately show ?thesis using assms(1) by (simp add: read_bytes_def Let_def)
qed

interpretation u32_codec: codec "\<lambda>_. True" write_u32 read_u32
  by unfold_locales auto

interpretation bytes_codec: codec u32_sized write_bytes read_bytes
  by unfold_locales (auto simp: read_bytes_round read_bytes_truncated)

interpretation string_codec: codec "\<lambda>s. u32_sized s \<and> utf8_valid s" write_bytes read_string
  by unfold_locales (auto simp: read_string_def read_bytes_round read_bytes_truncated)

interpretation f64_codec: codec "\<lambda>_. True" write_f64 read_f64
  by unfold_locales (auto simp: read_f64_def write_f64_def read_exact_def from_le_le_bytes)

interpretation i64_codec: codec is_i64 write_i64 read_i64
  by unfold_locales
    (auto simp: read_i64_def write_i64_def read_exact_def from_le_le_bytes sint_sbintrunc'
      is_i64_def i64_min_def i64_max_def signed_take_bit_int_eq_self)

context codec
begin

lemma counted_round:
  "u32_sized xs \<Longrightarrow> \<forall>x \<in> set xs. ok x \<Longrightarrow>
   dec_counted dec (enc_counted enc xs @ rest) = Inr (xs, rest)"
  by (simp add: dec_counted_def enc_counted_def many_round)

lemma counted_truncated:
  assumes "u32_sized xs" and "\<forall>x \<in> set xs. ok x" and "k < length (enc_counted enc xs)"
  shows "\<exists>e. dec_counted dec (take k (enc_counted enc xs)) = Inl e"
proof (cases "k < 4")
  case True
  then show ?thesis by (simp add: dec_counted_def)
next
  case False
  then have "take k (enc_counted enc xs) =
      write_u32 (of_nat (length xs)) @ take (k - 4) (concat (map enc xs))"
    by (simp add: enc_counted_def)
  with False assms show ?thesis
    using many_truncated [of xs "k - 4"] by (simp add: dec_counted_def enc_counted_def)
qed

end

lemma codec_counted:
  "codec ok enc dec \<Longrightarrow>
   codec (\<lambda>xs. u32_sized xs \<and> (\<forall>x \<in> set xs. ok x)) (enc_counted enc) (dec_counted dec)"
  by (intro codec.intro) (auto intro: codec.counted_round codec.counted_truncated)

text \<open>Two fields in a row.\<close>

definition enc_pair :: "('a \<Rightarrow> bytes) \<Rightarrow> ('b \<Rightarrow> bytes) \<Rightarrow> 'a \<times> 'b \<Rightarrow> bytes" where
  "enc_pair enc1 enc2 p = enc1 (fst p) @ enc2 (snd p)"

definition dec_pair ::
    "(bytes \<Rightarrow> ('a \<times> bytes) result) \<Rightarrow> (bytes \<Rightarrow> ('b \<times> bytes) result) \<Rightarrow> bytes \<Rightarrow> (('a \<times> 'b) \<times> bytes) result"
  where
  "dec_pair dec1 dec2 r =
     (case dec1 r of
        Inl e \<Rightarrow> Inl e
      | Inr (x, r) \<Rightarrow> (case dec2 r of Inl e \<Rightarrow> Inl e | Inr (y, r) \<Rightarrow> Inr ((x, y), r)))"

lemma codec_pair:
  assumes "codec ok1 enc1 dec1" and "codec ok2 enc2 dec2"
  shows "codec (\<lambda>p. ok1 (fst p) \<and> ok2 (snd p)) (enc_pair enc1 enc2) (dec_pair dec1 dec2)"
proof
  fix p rest
  assume "ok1 (fst p) \<and> ok2 (snd p)"
  then show "dec_pair dec1 dec2 (enc_pair enc1 enc2 p @ rest) = Inr (p, rest)"
    using codec.round [OF assms(1)] codec.round [OF assms(2)] by (simp add: dec_pair_def enc_pair_def)
next
  fix p k
  assume ok: "ok1 (fst p) \<and> ok2 (snd p)" and k: "k < length (enc_pair enc1 enc2 p)"
  show "\<exists>e. dec_pair dec1 dec2 (take k (enc_pair enc1 enc2 p)) = Inl e"
  proof (cases "k < length (enc1 (fst p))")
    case True
    then show ?thesis
      using codec.truncated [OF assms(1), of "fst p" k] ok by (auto simp: dec_pair_def enc_pair_def)
  next
    case False
    then have "k - length (enc1 (fst p)) < length (enc2 (snd p))" using k by (auto simp: enc_pair_def)
    then obtain e where "dec2 (take (k - length (enc1 (fst p))) (enc2 (snd p))) = Inl e"
      using codec.truncated [OF assms(2)] ok by blast
    with False ok show ?thesis
      using codec.round [OF assms(1)] by (simp add: dec_pair_def enc_pair_def)
  qed
qed

end
