(* ===== verification/Hll.thy ===== *)
theory Hll
  imports Codec
begin

text \<open>
  HyperLogLog registers: \<^verbatim>\<open>src/src/hll.rs\<close>. The estimate \<open>hll_count\<close> is
  floating-point arithmetic with a logarithm; it is a parameter of the operations
  that use it.
\<close>

section \<open>Operations\<close>

definition HLL_REGISTERS :: nat where "HLL_REGISTERS = 16384"
definition HLL_P :: nat where "HLL_P = 14"

definition read_registers :: "bytes \<Rightarrow> nat \<Rightarrow> (bytes \<times> bytes) result" where
  "read_registers r len =
     (if len \<noteq> HLL_REGISTERS then Inl (Err ''invalid HyperLogLog register count'')
      else case read_exact HLL_REGISTERS r of
        Inl e \<Rightarrow> Inl e
      | Inr (registers, r) \<Rightarrow>
          (if list_ex (\<lambda>v. v > of_nat (64 - HLL_P + 1)) registers then
             Inl (Err ''invalid HyperLogLog register value'')
           else Inr (registers, r)))"

definition murmur_m :: u64 where "murmur_m = 0xc6a4a7935bd1e995"

definition murmur_block :: "u64 \<Rightarrow> u64" where
  "murmur_block k = (let k = k * murmur_m; k = k XOR drop_bit 47 k in k * murmur_m)"

fun murmur_blocks :: "nat \<Rightarrow> bytes \<Rightarrow> u64 \<Rightarrow> u64" where
  "murmur_blocks 0 data h = h"
| "murmur_blocks (Suc n) data h =
     murmur_blocks n (drop 8 data) ((h XOR murmur_block (from_le_bytes (take 8 data))) * murmur_m)"

definition murmur_tail :: "bytes \<Rightarrow> u64 \<Rightarrow> u64" where
  "murmur_tail tail h =
     (let remaining = length tail;
          h = (if remaining \<ge> 7 then h XOR push_bit 48 (ucast (tail ! 6)) else h);
          h = (if remaining \<ge> 6 then h XOR push_bit 40 (ucast (tail ! 5)) else h);
          h = (if remaining \<ge> 5 then h XOR push_bit 32 (ucast (tail ! 4)) else h);
          h = (if remaining \<ge> 4 then h XOR push_bit 24 (ucast (tail ! 3)) else h);
          h = (if remaining \<ge> 3 then h XOR push_bit 16 (ucast (tail ! 2)) else h);
          h = (if remaining \<ge> 2 then h XOR push_bit 8 (ucast (tail ! 1)) else h)
      in if remaining \<ge> 1 then (h XOR ucast (tail ! 0)) * murmur_m else h)"

definition murmur_hash_64a :: "bytes \<Rightarrow> u64" where
  "murmur_hash_64a data =
     (let n_blocks = length data div 8;
          h = 0xadc83b19 XOR (of_nat (length data) * murmur_m);
          h = murmur_blocks n_blocks data h;
          h = murmur_tail (drop (n_blocks * 8) data) h;
          h = h XOR drop_bit 47 h;
          h = h * murmur_m
      in h XOR drop_bit 47 h)"

definition trailing_zeros :: "u64 \<Rightarrow> nat" where
  "trailing_zeros w = length (takeWhile (\<lambda>i. \<not> bit w i) [0..<64])"

text \<open>The register an element belongs to and the rank it proposes.\<close>

definition hll_index :: "bytes \<Rightarrow> nat" where
  "hll_index element = unat (murmur_hash_64a element AND (push_bit HLL_P 1 - 1))"

definition hll_rank :: "bytes \<Rightarrow> byte" where
  "hll_rank element =
     (let bits = drop_bit HLL_P (murmur_hash_64a element) in
      if bits = 0 then of_nat (64 - HLL_P) + 1 else of_nat (trailing_zeros bits + 1))"

definition hll_add :: "bytes \<Rightarrow> bytes \<Rightarrow> (bool \<times> bytes) result" where
  "hll_add registers element =
     (let index = hll_index element; count = hll_rank element in
      if index \<ge> length registers then Inl Panic
      else if count > registers ! index then Inr (True, registers[index := count])
      else Inr (False, registers))"

definition hll_merge :: "bytes \<Rightarrow> bytes \<Rightarrow> bytes result" where
  "hll_merge dest src =
     (if length src < HLL_REGISTERS \<or> length dest < HLL_REGISTERS then Inl Panic
      else Inr (map (\<lambda>i. if i < HLL_REGISTERS \<and> src ! i > dest ! i then src ! i else dest ! i)
                 [0..<length dest]))"

section \<open>Register files\<close>

definition hll_wf :: "bytes \<Rightarrow> bool" where
  "hll_wf registers \<longleftrightarrow> length registers = HLL_REGISTERS \<and> (\<forall>v \<in> set registers. v \<le> 51)"

definition hll_empty :: bytes where
  "hll_empty = replicate HLL_REGISTERS 0"

lemma hll_empty_wf [simp]: "hll_wf hll_empty"
  by (simp add: hll_wf_def hll_empty_def)

lemma hll_index_lt: "hll_index e < HLL_REGISTERS"
proof -
  have "murmur_hash_64a e AND (push_bit HLL_P 1 - 1) \<le> push_bit HLL_P 1 - 1" by (rule word_and_le1)
  also have "(push_bit HLL_P 1 - 1 :: u64) = 16383" by (simp add: HLL_P_def push_bit_eq_mult)
  finally show ?thesis by (simp add: hll_index_def HLL_REGISTERS_def word_le_nat_alt)
qed

lemma trailing_zeros_le:
  assumes "bit w i" and "i < 64"
  shows "trailing_zeros w \<le> i"
proof (rule ccontr)
  let ?t = "takeWhile (\<lambda>i. \<not> bit w i) [0..<64]"
  assume "\<not> trailing_zeros w \<le> i"
  then have i: "i < length ?t" by (simp add: trailing_zeros_def)
  then have "?t ! i = [0..<64] ! i" by (rule takeWhile_nth)
  then have "?t ! i = i" using assms(2) by simp
  moreover have "?t ! i \<in> set ?t" using i by (rule nth_mem)
  ultimately show False using assms(1) set_takeWhileD by force
qed

lemma hll_rank_le: "hll_rank e \<le> 51"
proof -
  let ?bits = "drop_bit HLL_P (murmur_hash_64a e)"
  show ?thesis
  proof (cases "?bits = 0")
    case True
    then show ?thesis by (simp add: hll_rank_def HLL_P_def)
  next
    case False
    then obtain i where "bit ?bits i" by (auto simp: bit_eq_iff)
    moreover from this have "i < 50" by (auto simp: bit_simps HLL_P_def dest: bit_imp_le_length)
    ultimately have "trailing_zeros ?bits \<le> 49" using trailing_zeros_le [of ?bits i] by simp
    then have "(of_nat (trailing_zeros ?bits + 1) :: byte) \<le> of_nat 50"
      by (simp add: word_le_nat_alt unat_of_nat del: of_nat_add of_nat_Suc)
    with False show ?thesis
      by (simp add: hll_rank_def Let_def word_le_nat_alt del: of_nat_add of_nat_Suc)
  qed
qed

lemma hll_add_result:
  assumes "hll_wf regs"
  shows "hll_add regs e = Inr (hll_rank e > regs ! hll_index e,
    regs[hll_index e := max (regs ! hll_index e) (hll_rank e)])"
  using assms hll_index_lt [of e]
  by (auto simp: hll_add_def hll_wf_def Let_def max_def list_update_id not_le)

definition hll_insert :: "bytes \<Rightarrow> bytes \<Rightarrow> bytes" where
  "hll_insert e regs = regs[hll_index e := max (regs ! hll_index e) (hll_rank e)]"

lemma hll_insert_wf [simp]: "hll_wf regs \<Longrightarrow> hll_wf (hll_insert e regs)"
  using hll_rank_le [of e] hll_index_lt [of e]
  by (auto simp: hll_wf_def hll_insert_def dest!: set_update_subset_insert [THEN subsetD])

text \<open>Adding elements one after another, as \<open>PFADD\<close> does.\<close>

fun hll_add_all :: "bytes list \<Rightarrow> bytes \<Rightarrow> bytes result" where
  "hll_add_all [] regs = Inr regs"
| "hll_add_all (e # es) regs =
     (case hll_add regs e of Inl err \<Rightarrow> Inl err | Inr (_, regs') \<Rightarrow> hll_add_all es regs')"

text \<open>The highest rank the elements of a register propose.\<close>

fun rank_max :: "bytes list \<Rightarrow> nat \<Rightarrow> byte" where
  "rank_max [] i = 0"
| "rank_max (e # es) i = (if hll_index e = i then max (hll_rank e) (rank_max es i) else rank_max es i)"

lemma rank_max_append [simp]: "rank_max (es @ es') i = max (rank_max es i) (rank_max es' i)"
  by (induction es) (auto simp: max.assoc)

lemma hll_add_all_result:
  "hll_wf regs \<Longrightarrow>
   hll_add_all es regs = Inr (map (\<lambda>i. max (regs ! i) (rank_max es i)) [0..<HLL_REGISTERS])"
proof (induction es arbitrary: regs)
  case Nil
  then show ?case using map_nth [of regs] by (simp add: hll_wf_def)
next
  case (Cons e es)
  have "hll_add_all (e # es) regs = hll_add_all es (hll_insert e regs)"
    using Cons.prems by (simp add: hll_add_result hll_insert_def)
  also have "\<dots> = Inr (map (\<lambda>i. max (hll_insert e regs ! i) (rank_max es i)) [0..<HLL_REGISTERS])"
    using Cons by simp
  also have "map (\<lambda>i. max (hll_insert e regs ! i) (rank_max es i)) [0..<HLL_REGISTERS] =
      map (\<lambda>i. max (regs ! i) (rank_max (e # es) i)) [0..<HLL_REGISTERS]"
    using Cons.prems by (auto simp: hll_insert_def hll_wf_def nth_list_update max.assoc)
  finally show ?case .
qed

lemma hll_merge_result:
  "hll_wf a \<Longrightarrow> hll_wf b \<Longrightarrow> hll_merge a b = Inr (map (\<lambda>i. max (a ! i) (b ! i)) [0..<HLL_REGISTERS])"
  by (auto simp: hll_merge_def hll_wf_def max_def not_less)

lemma rank_max_cong: "set es = set es' \<Longrightarrow> rank_max es i = rank_max es' i"
proof -
  have "rank_max es i = Max (insert 0 (hll_rank ` {e \<in> set es. hll_index e = i}))" for es
  proof (induction es)
    case (Cons e es)
    show ?case
    proof (cases "hll_index e = i")
      case True
      then have "{x \<in> set (e # es). hll_index x = i} = insert e {x \<in> set es. hll_index x = i}" by auto
      then show ?thesis using Cons True by (simp add: insert_commute [of 0])
    next
      case False
      then have "{x \<in> set (e # es). hll_index x = i} = {x \<in> set es. hll_index x = i}" by auto
      then show ?thesis using Cons False by simp
    qed
  qed simp
  then show "set es = set es' \<Longrightarrow> rank_max es i = rank_max es' i" by simp
qed

lemma hll_add_all_empty:
  "hll_add_all es hll_empty = Inr (map (rank_max es) [0..<HLL_REGISTERS])"
  using hll_add_all_result [OF hll_empty_wf, of es] by (auto simp: hll_empty_def max_def)

text \<open>
  HyperLogLog union. The sketch of a sequence of elements depends only
  on the set of elements, not on order or repetition; and merging the sketches of
  two sequences gives the sketch of both together.
\<close>

theorem hll_merge_is_union:
  assumes "hll_add_all xs hll_empty = Inr a" and "hll_add_all ys hll_empty = Inr b"
    and "set zs = set xs \<union> set ys"
  shows "hll_merge a b = hll_add_all zs hll_empty"
proof -
  have wf: "hll_wf (map (rank_max es) [0..<HLL_REGISTERS])" for es
  proof -
    have "rank_max es i \<le> 51" for i by (induction es) (auto simp: hll_rank_le)
    then show ?thesis by (auto simp: hll_wf_def)
  qed
  have "rank_max zs i = max (rank_max xs i) (rank_max ys i)" for i
    using rank_max_cong [of zs "xs @ ys" i] assms(3) by simp
  then show ?thesis
    using assms(1,2) wf [of xs] wf [of ys] by (auto simp: hll_add_all_empty hll_merge_result)
qed

theorem hll_merge_is_union_witness:
  "\<exists>a b. hll_add_all [ascii ''x'', ascii ''y'', ascii ''x''] hll_empty = Inr a \<and>
     hll_add_all [ascii ''z''] hll_empty = Inr b \<and>
     hll_merge a b = hll_add_all [ascii ''z'', ascii ''y'', ascii ''x''] hll_empty"
proof -
  let ?xs = "[ascii ''x'', ascii ''y'', ascii ''x'']" and ?ys = "[ascii ''z'']"
  obtain a b where ab: "hll_add_all ?xs hll_empty = Inr a" "hll_add_all ?ys hll_empty = Inr b"
    using hll_add_all_empty by blast
  moreover have "hll_merge a b = hll_add_all [ascii ''z'', ascii ''y'', ascii ''x''] hll_empty"
    by (rule hll_merge_is_union [OF ab]) auto
  ultimately show ?thesis by blast
qed

end
