(* ===== verification/DiskEntry.thy ===== *)
theory DiskEntry
  imports Hll
begin

text \<open>
  The dump of a value and its encoding: \<open>DumpValue\<close> and \<open>DumpEntry\<close> of
  \<^verbatim>\<open>src/src/store/mod.rs\<close>, \<open>write_single_entry\<close> and \<open>read_single_entry\<close> of
  \<^verbatim>\<open>src/src/disk.rs\<close>, the format of the cold data file and of \<open>DUMP\<close>.
  Floats are their bit patterns.
\<close>

section \<open>Dump values\<close>

type_synonym stream_dump_entry = "bytes \<times> (bytes \<times> bytes) list"
type_synonym stream_consumer_dump = "bytes \<times> bytes list"
type_synonym stream_pending_dump = "bytes \<times> bytes \<times> nat"
type_synonym stream_group_dump =
  "bytes \<times> bytes \<times> stream_consumer_dump list \<times> stream_pending_dump list"

datatype dump_value =
    DStr bytes
  | DList "bytes list"
  | DHash "(bytes \<times> bytes) list" "(bytes \<times> int) list"
  | DSet "bytes list"
  | DSortedSet "(bytes \<times> u64) list"
  | DStream "stream_dump_entry list" bytes "stream_group_dump list"
  | DVector "u32 list" "bytes option" bool
  | DHyperLogLog bytes nat
  | DTimeSeries "(int \<times> u64) list" nat "(bytes \<times> bytes) list"

record dump_entry =
  de_key :: bytes
  de_value :: dump_value
  de_ttl_ms :: int

section \<open>Encoding\<close>

definition write_delivery_count :: "nat \<Rightarrow> bytes" where
  "write_delivery_count n = write_u32 (of_nat (min n 4294967295))"

definition write_stream_groups :: "stream_group_dump list \<Rightarrow> bytes" where
  "write_stream_groups groups =
     enc_counted
       (enc_pair write_bytes (enc_pair write_bytes
         (enc_pair (enc_counted (enc_pair write_bytes (enc_counted write_bytes)))
           (enc_counted (enc_pair write_bytes (enc_pair write_bytes write_delivery_count))))))
       groups"

definition type_byte :: "dump_value \<Rightarrow> byte" where
  "type_byte v =
     (case v of
        DStr _ \<Rightarrow> 83
      | DList _ \<Rightarrow> 76
      | DHash _ e \<Rightarrow> if e \<noteq> [] then 104 else 72
      | DSet _ \<Rightarrow> 84
      | DSortedSet _ \<Rightarrow> 90
      | DStream _ _ _ \<Rightarrow> 88
      | DVector _ _ _ \<Rightarrow> 86
      | DHyperLogLog _ _ \<Rightarrow> 80
      | DTimeSeries _ _ _ \<Rightarrow> 73)"

definition write_value :: "dump_value \<Rightarrow> bytes" where
  "write_value v =
     (case v of
        DStr s \<Rightarrow> write_bytes s
      | DList items \<Rightarrow> enc_counted write_bytes items
      | DHash pairs expiries \<Rightarrow>
          enc_counted (enc_pair write_bytes write_bytes) pairs @
          (if expiries \<noteq> [] then enc_counted (enc_pair write_bytes write_i64) expiries else [])
      | DSet members \<Rightarrow> enc_counted write_bytes members
      | DSortedSet members \<Rightarrow> enc_counted (enc_pair write_bytes write_f64) members
      | DStream entries last_id groups \<Rightarrow>
          write_bytes last_id @
          enc_counted (enc_pair write_bytes (enc_counted (enc_pair write_bytes write_bytes))) entries @
          write_stream_groups groups
      | DVector data metadata _ \<Rightarrow>
          enc_counted write_u32 data @
          (case metadata of Some m \<Rightarrow> 1 # write_bytes m | None \<Rightarrow> [0])
      | DHyperLogLog regs _ \<Rightarrow> write_u32 (of_nat (length regs)) @ regs
      | DTimeSeries samples retention labels \<Rightarrow>
          enc_counted (enc_pair write_i64 write_f64) samples @
          write_i64 (wrap_i64 (int retention)) @
          enc_counted (enc_pair write_bytes write_bytes) labels)"

definition write_single_entry :: "dump_entry \<Rightarrow> bytes" where
  "write_single_entry entry =
     [type_byte (de_value entry)] @ write_bytes (de_key entry) @
     write_i64 (if de_ttl_ms entry > 0 then de_ttl_ms entry else - 1) @
     write_value (de_value entry)"

section \<open>Decoding\<close>

definition read_delivery_count :: "bytes \<Rightarrow> (nat \<times> bytes) result" where
  "read_delivery_count r = (case read_u32 r of Inl e \<Rightarrow> Inl e | Inr (n, r) \<Rightarrow> Inr (unat n, r))"

text \<open>An input that ends before the group count is an old encoding without groups.\<close>

definition read_stream_groups :: "bytes \<Rightarrow> (stream_group_dump list \<times> bytes) result" where
  "read_stream_groups r =
     (if r = [] then Inr ([], [])
      else dec_counted
        (dec_pair read_string (dec_pair read_string
          (dec_pair (dec_counted (dec_pair read_string (dec_counted read_string)))
            (dec_counted (dec_pair read_string (dec_pair read_string read_delivery_count)))))) r)"

definition read_metadata :: "bytes \<Rightarrow> (bytes option \<times> bytes) result" where
  "read_metadata r =
     (case read_exact 1 r of
        Inl e \<Rightarrow> Inl e
      | Inr (flag, r) \<Rightarrow>
          (if flag ! 0 = 1 then
             (case read_string r of Inl e \<Rightarrow> Inl e | Inr (m, r) \<Rightarrow> Inr (Some m, r))
           else Inr (None, r)))"

text \<open>The value after its type byte, key and TTL; \<open>hll_count\<close> is the estimate.\<close>

definition read_value :: "(bytes \<Rightarrow> nat) \<Rightarrow> byte \<Rightarrow> bytes \<Rightarrow> (dump_value \<times> bytes) result" where
  "read_value hll_count t r =
     (if t = 83 then map_sum id (map_prod DStr id) (read_bytes r)
      else if t = 76 then map_sum id (map_prod DList id) (dec_counted read_bytes r)
      else if t = 72 \<or> t = 104 then
        (case dec_counted (dec_pair read_string read_bytes) r of
           Inl e \<Rightarrow> Inl e
         | Inr (pairs, r) \<Rightarrow>
             (if t = 104 then
                map_sum id (map_prod (DHash pairs) id) (dec_counted (dec_pair read_string read_i64) r)
              else Inr (DHash pairs [], r)))
      else if t = 84 then map_sum id (map_prod DSet id) (dec_counted read_string r)
      else if t = 90 then
        map_sum id (map_prod DSortedSet id) (dec_counted (dec_pair read_string read_f64) r)
      else if t = 88 then
        (case read_string r of
           Inl e \<Rightarrow> Inl e
         | Inr (last_id, r) \<Rightarrow>
             (case dec_counted (dec_pair read_string (dec_counted (dec_pair read_string read_bytes))) r of
                Inl e \<Rightarrow> Inl e
              | Inr (entries, r) \<Rightarrow>
                  map_sum id (map_prod (DStream entries last_id) id) (read_stream_groups r)))
      else if t = 86 then
        (case dec_counted read_u32 r of
           Inl e \<Rightarrow> Inl e
         | Inr (data, r) \<Rightarrow> map_sum id (map_prod (\<lambda>m. DVector data m False) id) (read_metadata r))
      else if t = 80 then
        (case read_u32 r of
           Inl e \<Rightarrow> Inl e
         | Inr (len, r) \<Rightarrow>
             map_sum id (map_prod (\<lambda>regs. DHyperLogLog regs (hll_count regs)) id)
               (read_registers r (unat len)))
      else if t = 73 then
        (case dec_counted (dec_pair read_i64 read_f64) r of
           Inl e \<Rightarrow> Inl e
         | Inr (samples, r) \<Rightarrow>
             (case read_i64 r of
                Inl e \<Rightarrow> Inl e
              | Inr (retention, r) \<Rightarrow>
                  map_sum id (map_prod (DTimeSeries samples (i64_as_usize retention)) id)
                    (dec_counted (dec_pair read_string read_string) r)))
      else Inl (Err ''unknown type byte''))"

definition read_single_entry ::
    "(bytes \<Rightarrow> nat) \<Rightarrow> bytes \<Rightarrow> ((bytes \<times> dump_value \<times> int) \<times> bytes) result" where
  "read_single_entry hll_count r =
     (case read_exact 1 r of
        Inl e \<Rightarrow> Inl e
      | Inr (type_buf, r) \<Rightarrow>
          (case read_string r of
             Inl e \<Rightarrow> Inl e
           | Inr (key, r) \<Rightarrow>
               (case read_i64 r of
                  Inl e \<Rightarrow> Inl e
                | Inr (ttl_ms, r) \<Rightarrow>
                    (case read_value hll_count (type_buf ! 0) r of
                       Inl e \<Rightarrow> Inl e
                     | Inr (value, r) \<Rightarrow> Inr ((key, value, ttl_ms), r)))))"

section \<open>Round trip\<close>

text \<open>What the store dumps: valid UTF-8 names and 32-bit lengths.\<close>

definition str_ok :: "bytes \<Rightarrow> bool" where
  "str_ok s \<longleftrightarrow> u32_sized s \<and> utf8_valid s"

definition counted_ok :: "('a \<Rightarrow> bool) \<Rightarrow> 'a list \<Rightarrow> bool" where
  "counted_ok ok xs \<longleftrightarrow> u32_sized xs \<and> (\<forall>x \<in> set xs. ok x)"

definition pair_ok :: "('a \<Rightarrow> bool) \<Rightarrow> ('b \<Rightarrow> bool) \<Rightarrow> 'a \<times> 'b \<Rightarrow> bool" where
  "pair_ok ok1 ok2 p \<longleftrightarrow> ok1 (fst p) \<and> ok2 (snd p)"

definition group_ok :: "stream_group_dump \<Rightarrow> bool" where
  "group_ok = pair_ok str_ok (pair_ok str_ok (pair_ok (counted_ok (pair_ok str_ok (counted_ok str_ok)))
     (counted_ok (pair_ok str_ok (pair_ok str_ok (\<lambda>n. n < 2 ^ 32))))))"

definition value_ok :: "dump_value \<Rightarrow> bool" where
  "value_ok v \<longleftrightarrow>
     (case v of
        DStr s \<Rightarrow> u32_sized s
      | DList items \<Rightarrow> counted_ok u32_sized items
      | DHash pairs expiries \<Rightarrow>
          counted_ok (pair_ok str_ok u32_sized) pairs \<and> counted_ok (pair_ok str_ok is_i64) expiries
      | DSet members \<Rightarrow> counted_ok str_ok members
      | DSortedSet members \<Rightarrow> counted_ok (pair_ok str_ok (\<lambda>_. True)) members
      | DStream entries last_id groups \<Rightarrow>
          counted_ok (pair_ok str_ok (counted_ok (pair_ok str_ok u32_sized))) entries \<and>
          str_ok last_id \<and> counted_ok group_ok groups
      | DVector data metadata _ \<Rightarrow> u32_sized data \<and> (\<forall>m. metadata = Some m \<longrightarrow> str_ok m)
      | DHyperLogLog regs _ \<Rightarrow> hll_wf regs
      | DTimeSeries samples retention labels \<Rightarrow>
          counted_ok (pair_ok is_i64 (\<lambda>_. True)) samples \<and> retention \<le> usize_max \<and>
          counted_ok (pair_ok str_ok str_ok) labels)"

text \<open>
  What a value reads back as: a vector loses its encryption mark (vectors are never
  written to the cold tier) and the cached cardinality is recomputed.
\<close>

definition restored :: "(bytes \<Rightarrow> nat) \<Rightarrow> dump_value \<Rightarrow> dump_value" where
  "restored hll_count v =
     (case v of
        DVector data metadata _ \<Rightarrow> DVector data metadata False
      | DHyperLogLog regs _ \<Rightarrow> DHyperLogLog regs (hll_count regs)
      | v \<Rightarrow> v)"

lemma bytes_is_codec: "codec u32_sized write_bytes read_bytes"
  by (rule bytes_codec.codec_axioms)

lemma string_is_codec: "codec str_ok write_bytes read_string"
  using string_codec.codec_axioms by (simp add: str_ok_def [abs_def])

lemma counted_is_codec:
  "codec ok enc dec \<Longrightarrow> codec (counted_ok ok) (enc_counted enc) (dec_counted dec)"
  using codec_counted [of ok enc dec] by (simp add: counted_ok_def [abs_def])

lemma pair_is_codec:
  "codec ok1 enc1 dec1 \<Longrightarrow> codec ok2 enc2 dec2 \<Longrightarrow>
   codec (pair_ok ok1 ok2) (enc_pair enc1 enc2) (dec_pair dec1 dec2)"
  using codec_pair [of ok1 enc1 dec1 ok2 enc2 dec2] by (simp add: pair_ok_def [abs_def])

lemma delivery_is_codec: "codec (\<lambda>n. n < 2 ^ 32) write_delivery_count read_delivery_count"
proof
  fix n :: nat and rest
  assume "n < 2 ^ 32"
  then have "min n 4294967295 = n" "unat (of_nat n :: u32) = n" by (simp_all add: unat_of_nat)
  then show "read_delivery_count (write_delivery_count n @ rest) = Inr (n, rest)"
    by (simp add: read_delivery_count_def write_delivery_count_def)
qed (simp add: read_delivery_count_def write_delivery_count_def)

lemmas codec_parts =
  bytes_is_codec string_is_codec counted_is_codec pair_is_codec delivery_is_codec
  u32_codec.codec_axioms i64_codec.codec_axioms f64_codec.codec_axioms

lemma groups_round:
  assumes "counted_ok group_ok groups"
  shows "read_stream_groups (write_stream_groups groups @ rest) = Inr (groups, rest)"
proof -
  have "codec (counted_ok group_ok) write_stream_groups
    (dec_counted (dec_pair read_string (dec_pair read_string
      (dec_pair (dec_counted (dec_pair read_string (dec_counted read_string)))
        (dec_counted (dec_pair read_string (dec_pair read_string read_delivery_count)))))))"
    unfolding group_ok_def write_stream_groups_def [abs_def] by (intro codec_parts)
  from codec.round [OF this assms] show ?thesis
    by (auto simp: read_stream_groups_def write_stream_groups_def enc_counted_def write_u32_def le_bytes_def)
qed

lemma i64_as_usize_wrap: "n \<le> usize_max \<Longrightarrow> i64_as_usize (wrap_i64 (int n)) = n"
  by (simp add: i64_as_usize_def wrap_i64_def usize_max_def mod_simps)

lemma is_i64_wrap: "is_i64 (wrap_i64 n)"
  by (simp add: is_i64_def wrap_i64_def i64_min_def i64_max_def)

text \<open>The fields of the format.\<close>

lemmas part_rounds =
  codec.round [OF bytes_is_codec]
  codec.round [OF string_is_codec]
  codec.round [OF i64_codec.codec_axioms]
  codec.round [OF counted_is_codec [OF bytes_is_codec]]
  codec.round [OF counted_is_codec [OF string_is_codec]]
  codec.round [OF counted_is_codec [OF u32_codec.codec_axioms]]
  codec.round [OF counted_is_codec [OF pair_is_codec [OF string_is_codec bytes_is_codec]]]
  codec.round [OF counted_is_codec [OF pair_is_codec [OF string_is_codec string_is_codec]]]
  codec.round [OF counted_is_codec [OF pair_is_codec [OF string_is_codec i64_codec.codec_axioms]]]
  codec.round [OF counted_is_codec [OF pair_is_codec [OF string_is_codec f64_codec.codec_axioms]]]
  codec.round [OF counted_is_codec [OF pair_is_codec [OF i64_codec.codec_axioms f64_codec.codec_axioms]]]
  codec.round [OF counted_is_codec [OF pair_is_codec [OF string_is_codec
        counted_is_codec [OF pair_is_codec [OF string_is_codec bytes_is_codec]]]]]

lemma metadata_round:
  "(\<forall>m. metadata = Some m \<longrightarrow> str_ok m) \<Longrightarrow>
   read_metadata ((case metadata of Some m \<Rightarrow> 1 # write_bytes m | None \<Rightarrow> [0]) @ rest) = Inr (metadata, rest)"
  by (cases metadata) (simp_all add: read_metadata_def read_exact_def part_rounds)

lemma registers_round:
  "hll_wf regs \<Longrightarrow> read_registers (regs @ rest) HLL_REGISTERS = Inr (regs, rest)"
  by (auto simp: read_registers_def read_exact_def hll_wf_def list_ex_iff HLL_P_def not_less)

lemma unat_registers: "hll_wf regs \<Longrightarrow> unat (of_nat (length regs) :: u32) = HLL_REGISTERS"
  by (simp add: hll_wf_def HLL_REGISTERS_def)

lemma value_round:
  assumes "value_ok v"
  shows "read_value hll_count (type_byte v) (write_value v @ rest) = Inr (restored hll_count v, rest)"
proof (cases v)
  case (DVector data metadata enc)
  then have "counted_ok (\<lambda>_. True) data" "\<forall>m. metadata = Some m \<longrightarrow> str_ok m"
    using assms by (auto simp: value_ok_def counted_ok_def)
  with DVector show ?thesis
    by (simp add: read_value_def type_byte_def write_value_def restored_def part_rounds metadata_round)
next
  case (DHash pairs expiries)
  then show ?thesis using assms
    by (simp add: read_value_def type_byte_def write_value_def restored_def value_ok_def part_rounds)
next
  case (DHyperLogLog regs n)
  then show ?thesis using assms
    by (simp add: read_value_def type_byte_def write_value_def restored_def value_ok_def
        registers_round unat_registers)
next
  case (DStream entries last_id groups)
  then show ?thesis using assms
    by (simp add: read_value_def type_byte_def write_value_def restored_def value_ok_def part_rounds groups_round)
next
  case (DTimeSeries samples retention labels)
  then show ?thesis using assms
    by (simp add: read_value_def type_byte_def write_value_def restored_def value_ok_def part_rounds
        i64_as_usize_wrap is_i64_wrap)
qed (use assms in \<open>simp_all add: read_value_def type_byte_def write_value_def restored_def value_ok_def part_rounds\<close>)

definition stored_ttl :: "int \<Rightarrow> int" where
  "stored_ttl ttl_ms = (if ttl_ms > 0 then ttl_ms else - 1)"

lemma entry_round:
  assumes "str_ok (de_key e)" and "is_i64 (de_ttl_ms e)" and "value_ok (de_value e)"
  shows "read_single_entry hll_count (write_single_entry e @ rest) =
    Inr ((de_key e, restored hll_count (de_value e), stored_ttl (de_ttl_ms e)), rest)"
proof -
  have "is_i64 (stored_ttl (de_ttl_ms e))"
    using assms(2) by (simp add: stored_ttl_def is_i64_def i64_min_def i64_max_def)
  then show ?thesis
    using assms value_round [of "de_value e"]
    by (simp add: read_single_entry_def write_single_entry_def read_exact_def part_rounds stored_ttl_def)
qed

text \<open>
  Claim C12. Entries survive the cold tier. Every value the store can hold, of all
  nine types, written by \<open>write_single_entry\<close> is read back by \<open>read_single_entry\<close>
  with its key and remaining TTL, and the reader stops exactly at its end; only a
  vector's encryption mark is dropped and the cached cardinality of a
  HyperLogLog recomputed.
\<close>

theorem disk_entry_round_trip:
  assumes "str_ok (de_key e)" and "is_i64 (de_ttl_ms e)" and "value_ok (de_value e)"
  shows "read_single_entry hll_count (write_single_entry e @ rest) =
    Inr ((de_key e, restored hll_count (de_value e), (if de_ttl_ms e > 0 then de_ttl_ms e else - 1)), rest)"
  using entry_round [OF assms] by (simp add: stored_ttl_def)

theorem disk_entry_round_trip_witness:
  "read_single_entry (\<lambda>_. 0)
     (write_single_entry \<lparr>de_key = ascii ''h'', de_value = DHash [(ascii ''f'', [255])] [(ascii ''f'', 7)],
        de_ttl_ms = 1500\<rparr> @ [9]) =
   Inr ((ascii ''h'', DHash [(ascii ''f'', [255])] [(ascii ''f'', 7)], 1500), [9])"
proof -
  have "utf8_valid (ascii ''h'')" "utf8_valid (ascii ''f'')"
    by (rule utf8_valid_ascii; simp add: ascii_def)+
  then show ?thesis
    using disk_entry_round_trip [of "\<lparr>de_key = ascii ''h'',
        de_value = DHash [(ascii ''f'', [255])] [(ascii ''f'', 7)], de_ttl_ms = 1500\<rparr>" "\<lambda>_. 0" "[9]"]
    by (simp add: str_ok_def value_ok_def counted_ok_def pair_ok_def u32_sized_def is_i64_def
        i64_min_def i64_max_def restored_def ascii_def)
qed

end
