(* ===== verification/Values.thy ===== *)
theory Values
  imports HashData SetData DiskEntry "HOL-Library.Product_Lexorder"
begin

text \<open>
  The values of the store: \<open>StoreValue\<close>, \<open>Entry\<close>, the hash that places keys, the
  memory estimate, and the conversions to and from the dump format
  (\<open>store_value_to_dump_value\<close> and the first half of \<open>load_entry\<close>) of
  \<^verbatim>\<open>src/src/store/mod.rs\<close>. A \<open>HashSet\<close> of identifiers is a finite set, since
  the code only ever sorts what it iterates.
\<close>

section \<open>Data\<close>

record pending_entry =
  pe_consumer :: bytes
  pe_delivery_time :: instant
  pe_delivery_count :: nat

record consumer =
  co_pel :: "stream_id set"
  co_seen_time :: instant

record consumer_group =
  cg_last_delivered_id :: stream_id
  cg_consumers :: "(bytes, consumer) hash_map"
  cg_pel :: "(stream_id \<times> pending_entry) list"

record stream_data =
  st_entries :: "(stream_id \<times> (bytes \<times> bytes) list) list"
  st_last_id :: stream_id
  st_groups :: "(bytes, consumer_group) hash_map"

record vector_data =
  vd_dims :: u32
  vd_data :: "u32 list"
  vd_metadata :: "bytes option"
  vd_encrypted :: bool

record time_series_data =
  ts_samples :: "(int \<times> u64) list"
  ts_retention :: nat
  ts_labels :: "(bytes \<times> bytes) list"

datatype store_value =
    Str bytes
  | StrBuf bytes
  | List "bytes list"
  | Hash hash_data
  | Set set_data
  | SortedSet "((u64 \<times> bytes) \<times> unit) list" "(bytes, u64) hash_map"
  | Stream stream_data
  | Vector vector_data
  | HyperLogLog bytes nat
  | TimeSeries time_series_data

definition type_name :: "store_value \<Rightarrow> string" where
  "type_name v =
     (case v of
        Str _ \<Rightarrow> ''string''
      | StrBuf _ \<Rightarrow> ''string''
      | List _ \<Rightarrow> ''list''
      | Hash _ \<Rightarrow> ''hash''
      | Set _ \<Rightarrow> ''set''
      | SortedSet _ _ \<Rightarrow> ''zset''
      | Stream _ \<Rightarrow> ''stream''
      | Vector _ \<Rightarrow> ''vector''
      | HyperLogLog _ _ \<Rightarrow> ''string''
      | TimeSeries _ \<Rightarrow> ''timeseries'')"

fun string_bytes :: "store_value \<Rightarrow> bytes option" where
  "string_bytes (Str s) = Some s"
| "string_bytes (StrBuf s) = Some s"
| "string_bytes _ = None"

fun string_to_bytes :: "store_value \<Rightarrow> bytes option" where
  "string_to_bytes (Str s) = Some s"
| "string_to_bytes (StrBuf s) = Some s"
| "string_to_bytes _ = None"

lemma string_to_bytes_eq: "string_to_bytes v = string_bytes v"
  by (cases v) auto

record entry =
  en_value :: store_value
  en_expires_at :: "instant option"
  en_lru_clock :: u32

definition is_expired_at :: "entry \<Rightarrow> instant \<Rightarrow> bool" where
  "is_expired_at e now = (case en_expires_at e of None \<Rightarrow> False | Some exp \<Rightarrow> now > exp)"

definition fx_hash :: "bytes \<Rightarrow> u64" where
  "fx_hash bs = foldl (\<lambda>hash b. (hash XOR ucast b) * 0x100000001b3) 0xcbf29ce484222325 bs"

section \<open>Memory estimate\<close>

definition stream_entry_memory :: "(bytes \<times> bytes) list \<Rightarrow> nat" where
  "stream_entry_memory fs = 16 + sum_list (map (\<lambda>(k, v). length k + length v + 32) fs)"

definition value_size :: "store_value \<Rightarrow> nat" where
  "value_size v =
     (case v of
        Str s \<Rightarrow> length s
      | StrBuf s \<Rightarrow> length s
      | List l \<Rightarrow> sum_list (map (\<lambda>b. length b + 32) l)
      | Hash h \<Rightarrow> sum_list (map (\<lambda>(k, v). length k + length v + 64) (hd_fields h))
      | Set s \<Rightarrow> sum_list (map (\<lambda>m. length m + 32) (set_iter s))
      | SortedSet _ scores \<Rightarrow> sum_list (map (\<lambda>(m, _). length m + 48) scores)
      | Vector v \<Rightarrow> 16 + length (vd_data v) * 4 + (case vd_metadata v of None \<Rightarrow> 0 | Some m \<Rightarrow> length m)
      | HyperLogLog regs _ \<Rightarrow> length regs
      | TimeSeries ts \<Rightarrow> length (ts_samples ts) * 16 +
          sum_list (map (\<lambda>(k, v). length k + length v + 32) (ts_labels ts))
      | Stream s \<Rightarrow> sum_list (map (\<lambda>(_, fs). stream_entry_memory fs) (st_entries s)))"

definition estimate_entry_memory :: "bytes \<Rightarrow> store_value \<Rightarrow> nat" where
  "estimate_entry_memory key v = length key + 64 + value_size v"

section \<open>Dumping a value\<close>

definition dump_group :: "bytes \<times> consumer_group \<Rightarrow> stream_group_dump" where
  "dump_group g =
     (case g of (name, grp) \<Rightarrow>
       (name, stream_id_to_string (cg_last_delivered_id grp),
        map (\<lambda>(consumer, data). (consumer, sorted_list_of_set (stream_id_to_string ` co_pel data))) (cg_consumers grp),
        map (\<lambda>(i, pe). (stream_id_to_string i, pe_consumer pe, pe_delivery_count pe)) (cg_pel grp)))"

definition store_value_to_dump_value :: "store_value \<Rightarrow> dump_value" where
  "store_value_to_dump_value v =
     (case v of
        Str s \<Rightarrow> DStr s
      | StrBuf s \<Rightarrow> DStr s
      | List l \<Rightarrow> DList l
      | Hash h \<Rightarrow> DHash (hd_fields h) (hd_expiries h)
      | Set s \<Rightarrow> DSet (set_iter s)
      | SortedSet _ scores \<Rightarrow> DSortedSet scores
      | Stream s \<Rightarrow>
          DStream (map (\<lambda>(i, fs). (stream_id_to_string i, fs)) (st_entries s))
            (stream_id_to_string (st_last_id s)) (map dump_group (st_groups s))
      | Vector v \<Rightarrow> DVector (vd_data v) (vd_metadata v) (vd_encrypted v)
      | HyperLogLog regs cached \<Rightarrow> DHyperLogLog regs cached
      | TimeSeries ts \<Rightarrow> DTimeSeries (ts_samples ts) (ts_retention ts) (ts_labels ts))"

section \<open>Loading a value\<close>

text \<open>
  The order of \<open>OrderedFloat\<close> on the bit pattern of an \<open>f64\<close>: by value, both zeros
  equal, and every NaN equal and above all numbers.
\<close>

definition ordered_float :: "u64 \<Rightarrow> int" where
  "ordered_float w =
     (let magnitude = uint (take_bit 63 w) in
      if magnitude > 0x7FF0000000000000 then 0x8000000000000000
      else if bit w 63 then - magnitude else magnitude)"

definition score_order :: "u64 \<times> bytes \<Rightarrow> int \<times> bytes" where
  "score_order p = (ordered_float (fst p), snd p)"

definition load_sorted_set :: "(bytes \<times> u64) list \<Rightarrow> store_value" where
  "load_sorted_set members =
     SortedSet (bt_collect score_order (map (\<lambda>(m, s). ((s, m), ())) members)) (hm_collect members)"

definition parse_or_zero :: "bytes \<Rightarrow> stream_id" where
  "parse_or_zero s = (case stream_id_parse s of None \<Rightarrow> stream_id_zero | Some i \<Rightarrow> i)"

definition load_consumer :: "instant \<Rightarrow> stream_consumer_dump \<Rightarrow> bytes \<times> consumer" where
  "load_consumer inst_now c =
     (case c of (name, ids) \<Rightarrow>
       (name, \<lparr>co_pel = set (List.map_filter stream_id_parse ids), co_seen_time = inst_now\<rparr>))"

definition or_insert_consumer :: "instant \<Rightarrow> bytes \<Rightarrow> (bytes, consumer) hash_map \<Rightarrow> (bytes, consumer) hash_map" where
  "or_insert_consumer inst_now name cs =
     (if hm_contains cs name then cs else hm_insert name \<lparr>co_pel = {}, co_seen_time = inst_now\<rparr> cs)"

fun load_pending ::
    "instant \<Rightarrow> stream_pending_dump list \<Rightarrow> (bytes, consumer) hash_map \<times> (stream_id \<times> pending_entry) list \<Rightarrow>
     (bytes, consumer) hash_map \<times> (stream_id \<times> pending_entry) list" where
  "load_pending inst_now [] (cs, pel) = (cs, pel)"
| "load_pending inst_now ((id_str, name, n) # ps) (cs, pel) =
     (case stream_id_parse id_str of
        None \<Rightarrow> load_pending inst_now ps (cs, pel)
      | Some i \<Rightarrow>
          load_pending inst_now ps
            (or_insert_consumer inst_now name cs,
             bt_insert id i \<lparr>pe_consumer = name, pe_delivery_time = inst_now, pe_delivery_count = n\<rparr> pel))"

fun link_pending :: "(stream_id \<times> pending_entry) list \<Rightarrow> (bytes, consumer) hash_map \<Rightarrow> (bytes, consumer) hash_map" where
  "link_pending [] cs = cs"
| "link_pending ((i, pe) # pel) cs =
     link_pending pel
       (case hm_get cs (pe_consumer pe) of
          None \<Rightarrow> cs
        | Some c \<Rightarrow> hm_insert (pe_consumer pe) (c\<lparr>co_pel := insert i (co_pel c)\<rparr>) cs)"

definition load_group :: "instant \<Rightarrow> stream_group_dump \<Rightarrow> bytes \<times> consumer_group" where
  "load_group inst_now g =
     (case g of (name, last_delivered, consumers_data, pending_data) \<Rightarrow>
       (case load_pending inst_now pending_data (hm_collect (map (load_consumer inst_now) consumers_data), []) of
          (cs, pel) \<Rightarrow>
            (name, \<lparr>cg_last_delivered_id = parse_or_zero last_delivered, cg_consumers = link_pending pel cs,
                    cg_pel = pel\<rparr>)))"

definition load_stream_entries :: "stream_dump_entry list \<Rightarrow> (stream_id \<times> (bytes \<times> bytes) list) list" where
  "load_stream_entries es =
     bt_collect id (List.map_filter (\<lambda>(id_str, fs). map_option (\<lambda>i. (i, fs)) (stream_id_parse id_str)) es)"

definition load_value :: "instant \<Rightarrow> dump_value \<Rightarrow> store_value" where
  "load_value inst_now d =
     (case d of
        DStr s \<Rightarrow> Str s
      | DList l \<Rightarrow> List l
      | DHash h expiries \<Rightarrow> Hash ((from_fields (hm_collect h))\<lparr>hd_expiries := hm_collect expiries\<rparr>)
      | DSet s \<Rightarrow> Set (from_members s)
      | DSortedSet members \<Rightarrow> load_sorted_set members
      | DStream entries_data last_id groups_data \<Rightarrow>
          Stream \<lparr>st_entries = load_stream_entries entries_data, st_last_id = parse_or_zero last_id,
                  st_groups = hm_collect (map (load_group inst_now) groups_data)\<rparr>
      | DVector data metadata encrypted \<Rightarrow>
          Vector \<lparr>vd_dims = of_nat (length data), vd_data = data, vd_metadata = metadata, vd_encrypted = encrypted\<rparr>
      | DHyperLogLog regs cached \<Rightarrow> HyperLogLog regs cached
      | DTimeSeries samples retention labels \<Rightarrow>
          TimeSeries \<lparr>ts_samples = samples, ts_retention = retention, ts_labels = labels\<rparr>)"

section \<open>Round trip\<close>

definition group_wf :: "consumer_group \<Rightarrow> bool" where
  "group_wf g \<longleftrightarrow> hm_wf (cg_consumers g) \<and> bt_wf id (cg_pel g) \<and>
     (\<forall>(_, c) \<in> set (cg_consumers g). finite (co_pel c)) \<and>
     (\<forall>(i, pe) \<in> set (cg_pel g). \<exists>c. hm_get (cg_consumers g) (pe_consumer pe) = Some c \<and> i \<in> co_pel c)"

definition value_wf :: "store_value \<Rightarrow> bool" where
  "value_wf v \<longleftrightarrow>
     (case v of
        Hash h \<Rightarrow> hash_wf h
      | Set s \<Rightarrow> set_wf s
      | SortedSet tree scores \<Rightarrow> hm_wf scores \<and> bt_wf score_order tree \<and>
          set tree = (\<lambda>(m, s). ((s, m), ())) ` set scores
      | Stream s \<Rightarrow> bt_wf id (st_entries s) \<and> hm_wf (st_groups s) \<and> (\<forall>(_, g) \<in> set (st_groups s). group_wf g)
      | Vector v \<Rightarrow> vd_dims v = of_nat (length (vd_data v))
      | HyperLogLog regs _ \<Rightarrow> hll_wf regs
      | _ \<Rightarrow> True)"

text \<open>
  Values that cannot be told apart by a client: the two string representations, the
  index of a set, and the times of a consumer group, which are not persisted.
\<close>

definition retime :: "instant \<Rightarrow> consumer_group \<Rightarrow> consumer_group" where
  "retime t g =
     g\<lparr>cg_consumers := map (\<lambda>(n, c). (n, c\<lparr>co_seen_time := t\<rparr>)) (cg_consumers g),
       cg_pel := map (\<lambda>(i, pe). (i, pe\<lparr>pe_delivery_time := t\<rparr>)) (cg_pel g)\<rparr>"

definition norm_value :: "store_value \<Rightarrow> store_value" where
  "norm_value v =
     (case v of
        StrBuf s \<Rightarrow> Str s
      | Set s \<Rightarrow> Set (from_members (sd_members s))
      | Stream s \<Rightarrow> Stream (s\<lparr>st_groups := map (\<lambda>(n, g). (n, retime 0 g)) (st_groups s)\<rparr>)
      | v \<Rightarrow> v)"

lemma set_map_filter: "set (List.map_filter f xs) = {y. \<exists>x \<in> set xs. f x = Some y}"
  by (induction xs) (auto simp: List.map_filter_simps split: option.splits)

lemma map_filter_Some: "(\<And>x. x \<in> set xs \<Longrightarrow> f x = Some (g x)) \<Longrightarrow> List.map_filter f xs = map g xs"
  by (induction xs) (auto simp: List.map_filter_simps)

lemma hm_wf_map: "(\<And>p. fst (f p) = fst p) \<Longrightarrow> hm_wf (map f m) = hm_wf m"
  by (simp add: hm_wf_def o_def)

lemma bt_wf_map: "(\<And>p. fst (g p) = fst p) \<Longrightarrow> bt_wf f (map g m) = bt_wf f m"
  by (simp add: bt_wf_def o_def split_def)

lemma hm_get_map: "hm_get (map (\<lambda>(n, c). (n, f c)) m) k = map_option f (hm_get m k)"
  by (simp add: hm_get_def map_of_map)

lemma hm_insert_same: "hm_get m k = Some v \<Longrightarrow> hm_insert k v m = m"
  by (induction m) (auto simp: hm_get_def hm_insert_def)

lemma load_consumers_dump:
  assumes "hm_wf cs" and "\<forall>(_, c) \<in> set cs. finite (co_pel c)"
  shows "hm_collect (map (load_consumer t)
      (map (\<lambda>(n, c). (n, sorted_list_of_set (stream_id_to_string ` co_pel c))) cs)) =
    map (\<lambda>(n, c). (n, c\<lparr>co_seen_time := t\<rparr>)) cs"
proof -
  have "load_consumer t (n, sorted_list_of_set (stream_id_to_string ` co_pel c)) = (n, c\<lparr>co_seen_time := t\<rparr>)"
    if "finite (co_pel c)" for n and c :: consumer
    using that by (cases c) (auto simp: load_consumer_def set_map_filter)
  then have "map (load_consumer t) (map (\<lambda>(n, c). (n, sorted_list_of_set (stream_id_to_string ` co_pel c))) cs) =
      map (\<lambda>(n, c). (n, c\<lparr>co_seen_time := t\<rparr>)) cs"
    using assms(2) by auto
  moreover have "hm_wf (map (\<lambda>(n, c). (n, c\<lparr>co_seen_time := t\<rparr>)) cs)"
    using assms(1) by (subst hm_wf_map) auto
  ultimately show ?thesis by (simp only: hm_collect_id)
qed

lemma load_pending_dump:
  assumes "\<forall>(i, pe) \<in> set ps. hm_contains cs (pe_consumer pe)"
  shows "load_pending t (map (\<lambda>(i, pe). (stream_id_to_string i, pe_consumer pe, pe_delivery_count pe)) ps) (cs, pel) =
    (cs, foldl (\<lambda>m (k, v). bt_insert id k v m) pel (map (\<lambda>(i, pe). (i, pe\<lparr>pe_delivery_time := t\<rparr>)) ps))"
  using assms
proof (induction ps arbitrary: pel)
  case (Cons p ps)
  obtain i pe where p: "p = (i, pe)" by (cases p)
  have eq: "\<lparr>pe_consumer = pe_consumer pe, pe_delivery_time = t, pe_delivery_count = pe_delivery_count pe\<rparr>
      = pe\<lparr>pe_delivery_time := t\<rparr>" by (cases pe) simp
  with Cons p show ?case by (simp add: or_insert_consumer_def eq id_def)
qed simp

lemma link_pending_linked:
  assumes "\<forall>(i, pe) \<in> set pel. \<exists>c. hm_get cs (pe_consumer pe) = Some c \<and> i \<in> co_pel c"
  shows "link_pending pel cs = cs"
  using assms
proof (induction pel)
  case (Cons p pel)
  obtain i pe where p: "p = (i, pe)" by (cases p)
  then obtain c where c: "hm_get cs (pe_consumer pe) = Some c" "i \<in> co_pel c" using Cons.prems by auto
  then have "c\<lparr>co_pel := insert i (co_pel c)\<rparr> = c" by (cases c) (simp add: insert_absorb)
  with Cons p c show ?case by (simp add: hm_insert_same)
qed simp

lemma load_group_dump:
  assumes "group_wf g"
  shows "load_group t (dump_group (n, g)) = (n, retime t g)"
proof -
  let ?cs = "map (\<lambda>(n, c). (n, c\<lparr>co_seen_time := t\<rparr>)) (cg_consumers g)"
  let ?pel = "map (\<lambda>(i, pe). (i, pe\<lparr>pe_delivery_time := t\<rparr>)) (cg_pel g)"
  have linked: "\<forall>(i, pe) \<in> set (cg_pel g). \<exists>c. hm_get ?cs (pe_consumer pe) = Some c \<and> i \<in> co_pel c"
    using assms by (fastforce simp: group_wf_def hm_get_map)
  have "bt_wf id ?pel" using assms by (subst bt_wf_map) (auto simp: group_wf_def)
  then have pel: "foldl (\<lambda>m (k, v). bt_insert id k v m) [] ?pel = ?pel"
    using bt_collect_id [of id ?pel] by (simp add: bt_collect_def)
  have "\<forall>(i, pe) \<in> set (cg_pel g). hm_contains ?cs (pe_consumer pe)"
    using linked by (fastforce simp: hm_contains_iff)
  note load = load_pending_dump [OF this, of t "[]", unfolded pel]
  have "link_pending ?pel ?cs = ?cs" using linked by (intro link_pending_linked) auto
  then show ?thesis using assms load
    by (simp add: load_group_def dump_group_def retime_def load_consumers_dump group_wf_def parse_or_zero_def
        del: map_map)
qed

lemma sd_members_from_members:
  assumes "distinct ms" and "set_wf s" and "set ms \<inter> members_of s = {}"
  shows "sd_members (set_from_members ms s) = sd_members s @ ms"
  using assms
proof (induction ms arbitrary: s)
  case (Cons m ms)
  have "hm_get (sd_index s) m = None"
    using Cons.prems set_wf_absent [of s m] by (auto simp: members_of_def)
  then have "set_insert m s = (True, \<lparr>sd_members = sd_members s @ [m],
      sd_index = hm_insert m (length (sd_members s)) (sd_index s)\<rparr>)"
    by (simp add: set_insert_def)
  moreover from this have "set_wf (snd (set_insert m s)) \<and> members_of (snd (set_insert m s)) = insert m (members_of s)"
    using set_insert_spec [OF Cons.prems(2)] by fastforce
  ultimately show ?case using Cons.IH [of "snd (set_insert m s)"] Cons.prems by auto
qed simp

lemma from_members_members: "distinct ms \<Longrightarrow> sd_members (from_members ms) = ms"
  using sd_members_from_members [of ms set_new] set_new_wf members_of_new
  by (simp add: from_members_def) (simp add: set_new_def)

lemma load_sorted_set_dump:
  assumes "hm_wf scores" "bt_wf score_order tree" "set tree = (\<lambda>(m, s). ((s, m), ())) ` set scores"
  shows "load_sorted_set scores = SortedSet tree scores"
proof -
  let ?kvs = "map (\<lambda>(m, s). ((s, m), ())) scores"
  have "distinct (map (\<lambda>(k, _). score_order k) ?kvs)"
  proof -
    have "distinct (map snd (map (\<lambda>(k, _). score_order k) ?kvs))"
      using assms(1) by (simp add: hm_wf_def score_order_def o_def split_def)
    then show ?thesis unfolding distinct_map by blast
  qed
  then have "set (bt_collect score_order ?kvs) = set tree" using assms(3) by (simp add: bt_collect_set)
  then have "bt_collect score_order ?kvs = tree" by (intro bt_wf_unique [OF bt_wf_collect assms(2)])
  with assms(1) show ?thesis by (simp add: load_sorted_set_def hm_collect_id)
qed

lemma load_stream_entries_dump:
  assumes "bt_wf id es"
  shows "load_stream_entries (map (\<lambda>(i, fs). (stream_id_to_string i, fs)) es) = es"
proof -
  have "List.map_filter (\<lambda>(id_str, fs). map_option (\<lambda>i. (i, fs)) (stream_id_parse id_str))
      (map (\<lambda>(i, fs). (stream_id_to_string i, fs)) es) = es"
    by (induction es) (auto simp: List.map_filter_simps)
  with assms show ?thesis by (simp add: load_stream_entries_def bt_collect_id)
qed

lemma load_groups_dump:
  assumes "hm_wf gs" and "\<forall>(_, g) \<in> set gs. group_wf g"
  shows "hm_collect (map (load_group t) (map dump_group gs)) = map (\<lambda>(n, g). (n, retime t g)) gs"
proof -
  have "map (load_group t) (map dump_group gs) = map (\<lambda>(n, g). (n, retime t g)) gs"
    using assms(2) by (auto simp: load_group_dump)
  moreover have "hm_wf (map (\<lambda>(n, g). (n, retime t g)) gs)" using assms(1) by (subst hm_wf_map) auto
  ultimately show ?thesis by (simp only: hm_collect_id)
qed

lemma retime_retime [simp]: "retime t (retime t' g) = retime t g"
  by (simp add: retime_def o_def split_def)

text \<open>
  A value is dumped and loaded without a loss: every well-formed value comes back
  as one that no client can tell from it, and well-formed.
\<close>

lemma load_value_dump:
  assumes "value_wf v"
  shows "norm_value (load_value t (store_value_to_dump_value v)) = norm_value v"
proof (cases v)
  case (Hash h)
  then show ?thesis using assms
    by (cases h) (simp add: store_value_to_dump_value_def load_value_def value_wf_def hash_wf_def
        hm_collect_id from_fields_def norm_value_def)
next
  case (Set s)
  then show ?thesis using assms
    by (simp add: store_value_to_dump_value_def load_value_def value_wf_def norm_value_def set_iter_def
        from_members_members set_wf_distinct)
next
  case (SortedSet tree scores)
  then show ?thesis using assms
    by (simp add: store_value_to_dump_value_def load_value_def value_wf_def load_sorted_set_dump
        [where tree = tree and scores = scores])
next
  case (Stream s)
  then have wf: "bt_wf id (st_entries s)" "hm_wf (st_groups s)" "\<forall>(_, g) \<in> set (st_groups s). group_wf g"
    using assms by (simp_all add: value_wf_def)
  have "load_value t (store_value_to_dump_value v) =
      Stream (s\<lparr>st_groups := map (\<lambda>(n, g). (n, retime t g)) (st_groups s)\<rparr>)"
    using load_stream_entries_dump [OF wf(1)] load_groups_dump [OF wf(2,3), of t] Stream
    by (cases s) (simp add: store_value_to_dump_value_def load_value_def parse_or_zero_def del: map_map)
  with Stream show ?thesis by (simp add: norm_value_def o_def split_def)
qed (use assms in \<open>auto simp: store_value_to_dump_value_def load_value_def value_wf_def norm_value_def\<close>)

end
