(* ===== verification/Crc.thy ===== *)
theory Crc
  imports Prelude
begin

text \<open>
  The checksum of the journal and of the cold data file: \<open>crc32\<close> of
  \<^verbatim>\<open>src/src/disk.rs\<close>, table driven, with the bit-serial definition it
  implements and the errors it detects.
\<close>

definition crc_step :: "u32 \<Rightarrow> u32" where
  "crc_step crc = (if crc AND 1 \<noteq> 0 then drop_bit 1 crc XOR 0xEDB88320 else drop_bit 1 crc)"

definition crc_table :: "u32 list" where
  "crc_table = map (\<lambda>i. (crc_step ^^ 8) (of_nat i)) [0..<256]"

definition crc_byte :: "u32 \<Rightarrow> byte \<Rightarrow> u32" where
  "crc_byte crc b = crc_table ! unat ((crc XOR ucast b) AND 0xFF) XOR drop_bit 8 crc"

definition crc32 :: "bytes \<Rightarrow> u32" where
  "crc32 data = foldl crc_byte 0xFFFFFFFF data XOR 0xFFFFFFFF"

text \<open>The definition by polynomial division, one bit at a time.\<close>

definition crc32_bitwise :: "bytes \<Rightarrow> u32" where
  "crc32_bitwise data = foldl (\<lambda>crc b. (crc_step ^^ 8) (crc XOR ucast b)) 0xFFFFFFFF data XOR 0xFFFFFFFF"

lemma xor_cancel:
  fixes a b c :: u32
  shows "a XOR c = b XOR c \<longleftrightarrow> a = b" "c XOR a = c XOR b \<longleftrightarrow> a = b"
proof -
  show right: "a XOR c = b XOR c \<longleftrightarrow> a = b" for a b c :: u32
  proof
    assume "a XOR c = b XOR c"
    then have "(a XOR c) XOR c = (b XOR c) XOR c" by (simp only:)
    then show "a = b" by (simp only: xor.assoc xor_self_eq xor.right_neutral)
  qed simp
  show "c XOR a = c XOR b \<longleftrightarrow> a = b" using right [of a c b] by (simp only: xor.commute [of c])
qed

lemma and_one_bit: "(x AND 1 \<noteq> 0) \<longleftrightarrow> bit x 0" for x :: u32
  by (simp add: and_one_eq bit_0 odd_iff_mod_2_eq_one)

lemma crc_step_bit: "crc_step x = drop_bit 1 x XOR (if bit x 0 then 0xEDB88320 else 0)"
  by (simp add: crc_step_def and_one_bit)

lemma shift_xor:
  fixes x y p :: u32
  shows "drop_bit 1 (x XOR y) XOR (if bit (x XOR y) 0 then p else 0) =
    (drop_bit 1 x XOR (if bit x 0 then p else 0)) XOR (drop_bit 1 y XOR (if bit y 0 then p else 0))"
  by (rule bit_word_eqI) (auto simp: bit_simps)

lemma crc_step_xor: "crc_step (x XOR y) = crc_step x XOR crc_step y"
  unfolding crc_step_bit by (rule shift_xor)

lemma crc_steps_xor: "(crc_step ^^ n) (x XOR y) = (crc_step ^^ n) x XOR (crc_step ^^ n) y"
  by (induction n arbitrary: x y) (simp_all add: crc_step_xor)

text \<open>The top bit of the polynomial records the bit shifted out, so a step loses nothing.\<close>

lemma crc_step_top: "bit (crc_step x) 31 \<longleftrightarrow> bit x 0"
proof -
  have "\<not> bit x 32" by (simp add: impossible_bit)
  moreover have "bit (0xEDB88320 :: u32) 31" by simp
  ultimately show ?thesis by (auto simp: crc_step_bit bit_simps)
qed

lemma inj_crc_step: "inj crc_step"
proof (rule injI)
  fix x y
  assume eq: "crc_step x = crc_step y"
  then have 0: "bit x 0 = bit y 0" using crc_step_top [of x] crc_step_top [of y] by simp
  then have "drop_bit 1 x = drop_bit 1 y"
    using eq by (simp add: crc_step_bit xor_cancel)
  then have "bit x (Suc n) = bit y (Suc n)" for n
    by (metis bit_drop_bit_eq comp_apply plus_1_eq_Suc)
  with 0 show "x = y" by (intro bit_word_eqI) (metis not0_implies_Suc)
qed

lemma inj_crc_steps: "inj (crc_step ^^ n)"
  by (induction n) (auto simp: inj_def dest: injD [OF inj_crc_step])

lemma crc_steps_shift:
  "n \<le> 8 \<Longrightarrow> (\<And>i. i < 8 \<Longrightarrow> \<not> bit x i) \<Longrightarrow> (crc_step ^^ n) x = drop_bit n x"
proof (induction n)
  case (Suc n)
  then have "(crc_step ^^ n) x = drop_bit n x" by simp
  moreover have "\<not> bit (drop_bit n x) 0" using Suc.prems by (simp add: bit_simps)
  ultimately have "crc_step ((crc_step ^^ n) x) = drop_bit 1 (drop_bit n x)"
    by (simp add: crc_step_bit [of "drop_bit n x"])
  then show ?case by (simp add: drop_bit_drop_bit)
qed simp

lemma low_byte_mask: "(0xFF :: u32) = mask 8"
  by (simp add: mask_eq_exp_minus_1)

text \<open>One table lookup is eight steps.\<close>

lemma crc_byte_steps: "crc_byte crc b = (crc_step ^^ 8) (crc XOR ucast b)"
proof -
  let ?x = "crc XOR ucast b :: u32"
  let ?hi = "?x AND NOT 0xFF"
  have hi: "(crc_step ^^ 8) ?hi = drop_bit 8 crc"
  proof -
    have "\<not> bit ?hi i" if "i < 8" for i
      using that by (simp add: bit_simps low_byte_mask)
    then have "(crc_step ^^ 8) ?hi = drop_bit 8 ?hi" by (intro crc_steps_shift) auto
    moreover have "drop_bit 8 ?hi = drop_bit 8 crc"
      by (rule bit_word_eqI) (auto simp: bit_simps low_byte_mask dest: bit_imp_le_length)
    ultimately show ?thesis by simp
  qed
  have lt: "unat (?x AND 0xFF) < 256"
  proof -
    have "?x AND 0xFF \<le> 0xFF" by (rule word_and_le1)
    then have "unat (?x AND 0xFF) \<le> unat (0xFF :: u32)" by (simp add: word_le_nat_alt)
    then show ?thesis by simp
  qed
  then have "crc_table ! unat (?x AND 0xFF) = (crc_step ^^ 8) (?x AND 0xFF)"
    by (simp add: crc_table_def)
  then have "crc_byte crc b = (crc_step ^^ 8) (?x AND 0xFF) XOR (crc_step ^^ 8) ?hi"
    unfolding crc_byte_def hi by simp
  also have "\<dots> = (crc_step ^^ 8) ((?x AND 0xFF) XOR ?hi)" by (simp only: crc_steps_xor)
  also have "(?x AND 0xFF) XOR ?hi = ?x"
    by (rule bit_word_eqI) (auto simp: bit_simps)
  finally show ?thesis .
qed

text \<open>
  Claim C28. The table-driven checksum is the CRC-32 of the standard: one table
  lookup per byte gives the value of the division done bit by bit.
\<close>

theorem crc32_is_bitwise: "crc32 data = crc32_bitwise data"
  by (simp add: crc32_def crc32_bitwise_def crc_byte_steps [abs_def])

lemma crc_byte_inj_crc: "crc_byte c b = crc_byte c' b \<longleftrightarrow> c = c'"
  by (simp only: crc_byte_steps inj_eq [OF inj_crc_steps] xor_cancel)

lemma crc_byte_inj_byte: "crc_byte c b = crc_byte c b' \<longleftrightarrow> b = b'"
proof -
  have "crc_byte c b = crc_byte c b' \<longleftrightarrow> (ucast b :: u32) = ucast b'"
    by (simp only: crc_byte_steps inj_eq [OF inj_crc_steps] xor_cancel)
  also have "\<dots> \<longleftrightarrow> b = b'"
  proof
    assume "(ucast b :: u32) = ucast b'"
    then have "uint (ucast b :: u32) = uint (ucast b' :: u32)" by simp
    then have "uint b = uint b'" by (simp add: uint_up_ucast is_up)
    then show "b = b'" by (metis word_of_int_uint)
  qed simp
  finally show ?thesis .
qed

lemma foldl_crc_byte_inj: "foldl crc_byte c data = foldl crc_byte c' data \<longleftrightarrow> c = c'"
  by (induction data arbitrary: c c') (simp_all add: crc_byte_inj_crc)

lemma crc32_one_byte:
  assumes "b \<noteq> b'"
  shows "crc32 (pre @ b # suf) \<noteq> crc32 (pre @ b' # suf)"
proof -
  have "foldl crc_byte (crc_byte c b) suf \<noteq> foldl crc_byte (crc_byte c b') suf" for c
    using assms by (simp add: foldl_crc_byte_inj crc_byte_inj_byte)
  then show ?thesis by (simp add: crc32_def xor_cancel)
qed

end
