(* ===== verification/Wal.thy ===== *)
theory Wal
  imports Codec Crc
begin

text \<open>
  The mutation journal, \<open>Wal\<close> of \<^verbatim>\<open>src/src/disk.rs\<close>: headers, the three frame
  formats, appending of single commands, batches and checked commands, replay
  with removal of a torn tail, checkpoints and rotation.

  The journal file is its bytes. The handle's position is the end of the file
  between operations (every operation of the source ends with a seek to the end,
  and the file is opened for appending), so only reads carry a position. Write
  failures are an argument of the appending operations; the path checks of
  \<open>file_security\<close>, directory syncs and read errors of the operating system are not
  modelled. The texts of errors are shortened.
\<close>

section \<open>Data\<close>

type_synonym command = "bytes list"

definition WAL_MAGIC_V1 :: bytes where "WAL_MAGIC_V1 = ascii ''LXW1''"
definition WAL_MAGIC_V2 :: bytes where "WAL_MAGIC_V2 = ascii ''LXW2''"
definition WAL_MAGIC :: bytes where "WAL_MAGIC = ascii ''LXW3''"
definition WAL_GENERATION_LEN :: nat where "WAL_GENERATION_LEN = 16"
definition WAL_HEADER_V2_LEN :: nat where "WAL_HEADER_V2_LEN = 20"
definition WAL_HEADER_LEN :: nat where "WAL_HEADER_LEN = WAL_HEADER_V2_LEN + 4"
definition WAL_FRAME_MAGIC :: bytes where "WAL_FRAME_MAGIC = ascii ''LXF1''"
definition LEGACY_WAL_GENERATION :: bytes where "LEGACY_WAL_GENERATION = replicate WAL_GENERATION_LEN 0"
definition MAX_WAL_FRAME_BYTES :: nat where "MAX_WAL_FRAME_BYTES = 512 * 1024 * 1024"
definition WAL_BATCH_MARKER :: bytes where "WAL_BATCH_MARKER = 0 # ascii ''LUX:BATCH''"
definition WAL_CHECKED_MARKER :: bytes where "WAL_CHECKED_MARKER = 0 # ascii ''LUX:CHECKED''"

datatype wal_frame_format = Legacy | Checksummed | Guarded

record wal =
  wal_file :: bytes
  wal_format :: wal_frame_format
  wal_header_len :: nat
  wal_generation :: bytes

record wal_checkpoint =
  ck_generation :: bytes
  ck_offset :: nat
  ck_successor :: "bytes option"

record wal_replay =
  rp_commands :: "command list"
  rp_checked_tail_offset :: "nat option"

section \<open>Headers and generations\<close>

definition wal_header_crc :: "bytes \<Rightarrow> u32" where
  "wal_header_crc generation = crc32 (WAL_MAGIC @ generation)"

definition wal_header_bytes :: "bytes \<Rightarrow> bytes" where
  "wal_header_bytes generation = WAL_MAGIC @ generation @ write_u32 (wal_header_crc generation)"

text \<open>
  The random source is the list of the 16-byte arrays it will produce; \<open>None\<close> is
  a loop that has not found an acceptable one among them.
\<close>

fun new_wal_generation :: "bytes list \<Rightarrow> (bytes \<times> bytes list) option" where
  "new_wal_generation [] = None"
| "new_wal_generation (generation # rng) =
     (if generation \<noteq> LEGACY_WAL_GENERATION then Some (generation, rng) else new_wal_generation rng)"

lemma new_wal_generation_shorter: "new_wal_generation rng = Some (g, rng') \<Longrightarrow> length rng' < length rng"
  by (induction rng) (auto split: if_splits)

function new_wal_generation_except :: "bytes \<Rightarrow> bytes list \<Rightarrow> bytes option" where
  "new_wal_generation_except current rng =
     (case new_wal_generation rng of
        None \<Rightarrow> None
      | Some (generation, rng') \<Rightarrow>
          if generation \<noteq> current then Some generation else new_wal_generation_except current rng')"
  by pat_completeness auto
termination
  by (relation "measure (\<lambda>(c, rng). length rng)") (auto dest: new_wal_generation_shorter)

declare new_wal_generation_except.simps [simp del]

definition detached :: "bytes list \<Rightarrow> wal_checkpoint option" where
  "detached rng =
     (case new_wal_generation rng of
        None \<Rightarrow> None
      | Some (generation, rng) \<Rightarrow>
          map_option (\<lambda>s. \<lparr>ck_generation = generation, ck_offset = WAL_HEADER_LEN, ck_successor = Some s\<rparr>)
            (new_wal_generation_except generation rng))"

text \<open>\<open>open_in\<close> on the contents of the file, empty when it was just created.\<close>

definition open_in :: "bytes \<Rightarrow> bool \<Rightarrow> bytes option \<Rightarrow> bytes list \<Rightarrow> wal result option" where
  "open_in file create initial_generation rng =
     (if file = [] then
        if \<not> create then Some (Inl (Err ''journal is empty''))
        else
          map_option (\<lambda>generation. Inr \<lparr>wal_file = wal_header_bytes generation, wal_format = Guarded,
              wal_header_len = WAL_HEADER_LEN, wal_generation = generation\<rparr>)
            (case initial_generation of
               Some g \<Rightarrow> Some g
             | None \<Rightarrow> map_option fst (new_wal_generation rng))
      else Some
        (case read_exact 4 file of
           Inl e \<Rightarrow> Inl e
         | Inr (magic, r) \<Rightarrow>
             (if magic = WAL_MAGIC then
                case read_exact WAL_GENERATION_LEN r of
                  Inl e \<Rightarrow> Inl (Err ''truncated LXW3 WAL header'')
                | Inr (generation, r) \<Rightarrow>
                    (case read_u32 r of
                       Inl e \<Rightarrow> Inl (Err ''truncated LXW3 WAL header checksum'')
                     | Inr (stored_crc, r) \<Rightarrow>
                         (if stored_crc \<noteq> wal_header_crc generation then
                            Inl (Err ''LXW3 WAL header checksum mismatch'')
                          else Inr \<lparr>wal_file = file, wal_format = Guarded,
                                 wal_header_len = WAL_HEADER_LEN, wal_generation = generation\<rparr>))
              else if magic = WAL_MAGIC_V2 then
                case read_exact WAL_GENERATION_LEN r of
                  Inl e \<Rightarrow> Inl (Err ''truncated LXW2 WAL header'')
                | Inr (generation, r) \<Rightarrow>
                    Inr \<lparr>wal_file = file, wal_format = Checksummed,
                         wal_header_len = WAL_HEADER_V2_LEN, wal_generation = generation\<rparr>
              else if magic = WAL_MAGIC_V1 then
                Inr \<lparr>wal_file = file, wal_format = Checksummed, wal_header_len = 4,
                     wal_generation = LEGACY_WAL_GENERATION\<rparr>
              else
                Inr \<lparr>wal_file = file, wal_format = Legacy, wal_header_len = 0,
                     wal_generation = LEGACY_WAL_GENERATION\<rparr>)))"

section \<open>Appending\<close>

definition encode_guarded_payload :: "bytes \<Rightarrow> bytes" where
  "encode_guarded_payload payload =
     (let frame_len = of_nat (length payload) :: u32 in
      WAL_FRAME_MAGIC @ write_u32 frame_len @ write_u32 (NOT frame_len) @
      write_u32 (crc32 (write_u32 frame_len @ payload)) @ payload)"

definition command_payload :: "command \<Rightarrow> bytes" where
  "command_payload args =
     write_u32 (of_nat (length args)) @ concat (map (\<lambda>arg. write_u32 (of_nat (length arg)) @ arg) args)"

definition encode_command_frame :: "wal_frame_format \<Rightarrow> command \<Rightarrow> bytes" where
  "encode_command_frame format args =
     (let payload = command_payload args in
      case format of
        Guarded \<Rightarrow> encode_guarded_payload payload
      | Checksummed \<Rightarrow>
          write_u32 (of_nat (4 + length payload)) @ write_u32 (crc32 payload) @ payload
      | Legacy \<Rightarrow> write_u32 (of_nat (length payload)) @ payload)"

fun encode_batch_args :: "command \<Rightarrow> bytes result" where
  "encode_batch_args [] = Inr []"
| "encode_batch_args (arg # args) =
     (if \<not> u32_sized arg then Inl (Err ''WAL argument is too large'')
      else map_sum id (\<lambda>out. write_u32 (of_nat (length arg)) @ arg @ out) (encode_batch_args args))"

fun encode_batch_commands :: "command list \<Rightarrow> bytes result" where
  "encode_batch_commands [] = Inr []"
| "encode_batch_commands (command # commands) =
     (if \<not> u32_sized command then Inl (Err ''too many WAL arguments'')
      else case encode_batch_args command of
        Inl e \<Rightarrow> Inl e
      | Inr args \<Rightarrow>
          map_sum id (\<lambda>out. write_u32 (of_nat (length command)) @ args @ out)
            (encode_batch_commands commands))"

definition encode_command_batch :: "command list \<Rightarrow> bytes result" where
  "encode_command_batch commands =
     (if \<not> u32_sized commands then Inl (Err ''too many WAL commands'')
      else map_sum id (\<lambda>out. write_u32 (of_nat (length commands)) @ out) (encode_batch_commands commands))"

text \<open>
  The outcome of \<open>write_all\<close> and \<open>flush\<close>: success, or an error after some bytes
  have reached the file, with the result of the ignored \<open>set_len\<close> that removes them.
\<close>

datatype write_outcome = Written | WriteError nat bool

definition append_encoded_frames :: "bytes \<Rightarrow> write_outcome \<Rightarrow> wal \<Rightarrow> unit result \<times> wal" where
  "append_encoded_frames frames io w =
     (let pos_before = length (wal_file w) in
      case io of
        Written \<Rightarrow> (Inr (), w\<lparr>wal_file := wal_file w @ frames\<rparr>)
      | WriteError n truncated \<Rightarrow>
          (let file = wal_file w @ take n frames in
           (Inl (Err ''write error''),
            w\<lparr>wal_file := (if truncated then take pos_before file else file)\<rparr>)))"

definition append_commands :: "command list \<Rightarrow> write_outcome \<Rightarrow> wal \<Rightarrow> unit result \<times> wal" where
  "append_commands commands io w =
     (if commands = [] then (Inr (), w)
      else if length commands = 1 then
        append_encoded_frames (encode_command_frame (wal_format w) (commands ! 0)) io w
      else case encode_command_batch commands of
        Inl e \<Rightarrow> (Inl e, w)
      | Inr payload \<Rightarrow>
          append_encoded_frames (encode_command_frame (wal_format w) [WAL_BATCH_MARKER, payload]) io w)"

definition append_checked_command :: "command \<Rightarrow> write_outcome \<Rightarrow> wal \<Rightarrow> unit result \<times> wal" where
  "append_checked_command args io w =
     (case encode_command_batch [args] of
        Inl e \<Rightarrow> (Inl e, w)
      | Inr payload \<Rightarrow>
          append_encoded_frames (encode_command_frame (wal_format w) [WAL_CHECKED_MARKER, payload]) io w)"

definition end_offset :: "wal \<Rightarrow> nat" where
  "end_offset w = length (wal_file w)"

text \<open>\<open>set_len\<close> cuts the file or fills it with zeros.\<close>

definition set_len :: "nat \<Rightarrow> bytes \<Rightarrow> bytes" where
  "set_len n file = take n file @ replicate (n - length file) 0"

definition rollback_to :: "nat \<Rightarrow> wal \<Rightarrow> wal" where
  "rollback_to offset w = w\<lparr>wal_file := set_len offset (wal_file w)\<rparr>"

definition checkpoint :: "bytes list \<Rightarrow> wal \<Rightarrow> wal_checkpoint option" where
  "checkpoint rng w =
     map_option (\<lambda>s. \<lparr>ck_generation = wal_generation w, ck_offset = end_offset w, ck_successor = Some s\<rparr>)
       (new_wal_generation_except (wal_generation w) rng)"

section \<open>Reading\<close>

fun decode_batch_commands :: "nat \<Rightarrow> bytes \<Rightarrow> (command list \<times> bytes) result" where
  "decode_batch_commands 0 input = Inr ([], input)"
| "decode_batch_commands (Suc n) input =
     (case read_u32 input of
        Inl e \<Rightarrow> Inl e
      | Inr (argc, input) \<Rightarrow>
          (if unat argc = 0 then Inl (Err ''empty command in WAL batch'')
           else case read_many read_bytes (unat argc) input of
             Inl e \<Rightarrow> Inl e
           | Inr (command, input) \<Rightarrow>
               (case decode_batch_commands n input of
                  Inl e \<Rightarrow> Inl e
                | Inr (commands, input) \<Rightarrow> Inr (command # commands, input))))"

definition decode_command_batch :: "bytes \<Rightarrow> command list result" where
  "decode_command_batch input =
     (case read_u32 input of
        Inl e \<Rightarrow> Inl e
      | Inr (command_count, input) \<Rightarrow>
          (case decode_batch_commands (unat command_count) input of
             Inl e \<Rightarrow> Inl e
           | Inr (commands, input) \<Rightarrow>
               if input \<noteq> [] then Inl (Err ''trailing bytes in WAL batch'') else Inr commands))"

definition decode_wal_payload :: "bytes \<Rightarrow> command list \<Rightarrow> (bool \<times> command list) result" where
  "decode_wal_payload payload commands =
     (case read_u32 payload of
        Inl e \<Rightarrow> Inl (Err ''WAL frame has no argument count'')
      | Inr (argc, cursor) \<Rightarrow>
          (if unat argc = 0 then Inl (Err ''WAL frame contains an empty command'')
           else case read_many read_bytes (unat argc) cursor of
             Inl e \<Rightarrow> Inl (Err ''WAL frame contains a malformed argument'')
           | Inr (args, cursor) \<Rightarrow>
               (if cursor \<noteq> [] then Inl (Err ''WAL frame contains trailing bytes'')
                else if length args = 2 \<and> args ! 0 = WAL_BATCH_MARKER then
                  (case decode_command_batch (args ! 1) of
                     Inl e \<Rightarrow> Inl e
                   | Inr batch \<Rightarrow> Inr (False, commands @ batch))
                else if length args = 2 \<and> args ! 0 = WAL_CHECKED_MARKER then
                  (case decode_command_batch (args ! 1) of
                     Inl e \<Rightarrow> Inl e
                   | Inr checked \<Rightarrow>
                       (if length checked \<noteq> 1 then
                          Inl (Err ''checked WAL frame must contain exactly one command'')
                        else Inr (True, commands @ [last checked])))
                else Inr (False, commands @ [args]))))"

text \<open>The end of the input in the header of a guarded frame is an incomplete write.\<close>

definition eof_none :: "failure \<Rightarrow> 'a option result" where
  "eof_none e = (if e = unexpected_eof then Inr None else Inl e)"

text \<open>
  The payload of the frame at a position and the position after it;
  \<open>Inr None\<close> is \<open>Ok(None)\<close>.
\<close>

definition read_next_frame_payload_from ::
    "bytes \<Rightarrow> nat \<Rightarrow> nat \<Rightarrow> wal_frame_format \<Rightarrow> (bytes \<times> nat) option result" where
  "read_next_frame_payload_from file pos file_len frame_format =
     (if pos \<ge> file_len then Inr None
      else let r = drop pos file in
      if frame_format = Guarded then
        case read_exact 4 r of
          Inl e \<Rightarrow> eof_none e
        | Inr (magic, r) \<Rightarrow>
            (if magic \<noteq> WAL_FRAME_MAGIC then Inl (Err ''WAL frame boundary marker is corrupt'')
             else case read_u32 r of
               Inl e \<Rightarrow> eof_none e
             | Inr (frame_len, r) \<Rightarrow>
                 (case read_u32 r of
                    Inl e \<Rightarrow> eof_none e
                  | Inr (complement, r) \<Rightarrow>
                      (case read_u32 r of
                         Inl e \<Rightarrow> eof_none e
                       | Inr (stored_crc, r) \<Rightarrow>
                           (let payload_start = pos + 16 in
                            if complement \<noteq> NOT frame_len then
                              Inl (Err ''WAL frame length guard is corrupt'')
                            else if unat frame_len > MAX_WAL_FRAME_BYTES then
                              Inl (Err ''WAL frame length exceeds maximum'')
                            else if payload_start + unat frame_len > usize_max \<or>
                                    payload_start + unat frame_len > file_len then Inr None
                            else case read_exact (unat frame_len) r of
                              Inl e \<Rightarrow> Inl e
                            | Inr (payload, r) \<Rightarrow>
                                (if stored_crc \<noteq> crc32 (write_u32 frame_len @ payload) then
                                   Inl (Err ''WAL frame checksum mismatch'')
                                 else Inr (Some (payload, payload_start + unat frame_len)))))))
      else
        case read_u32 r of
          Inl e \<Rightarrow> eof_none e
        | Inr (frame_len, r) \<Rightarrow>
            (let payload_start = pos + 4 in
             if unat frame_len > MAX_WAL_FRAME_BYTES then Inl (Err ''WAL frame length exceeds maximum'')
             else if payload_start + unat frame_len > usize_max \<or>
                     payload_start + unat frame_len > file_len then
               Inl (Err ''legacy WAL ends inside a frame'')
             else case read_exact (unat frame_len) r of
               Inl e \<Rightarrow> Inl e
             | Inr (frame, r) \<Rightarrow>
                 (if frame_format = Legacy then Inr (Some (frame, payload_start + unat frame_len))
                  else if length frame < 4 then Inl (Err ''WAL frame is too short for its checksum'')
                  else if from_le_bytes (take 4 frame) \<noteq> crc32 (drop 4 frame) then
                    Inl (Err ''WAL frame checksum mismatch'')
                  else Inr (Some (drop 4 frame, payload_start + unat frame_len)))))"

lemma read_next_frame_advances:
  "read_next_frame_payload_from file pos file_len fmt = Inr (Some (payload, pos')) \<Longrightarrow>
   pos < pos' \<and> pos' \<le> file_len"
  by (auto simp: read_next_frame_payload_from_def eof_none_def Let_def split: if_splits sum.splits)

section \<open>Replay, checkpoints and rotation\<close>

text \<open>
  The scan of \<open>replay_from\<close>: the commands, the start of a final checked frame, and
  the start of an incomplete final frame, where the file is cut.
\<close>

function replay_loop ::
    "bytes \<Rightarrow> wal_frame_format \<Rightarrow> nat \<Rightarrow> nat \<Rightarrow> command list \<Rightarrow> nat option \<Rightarrow>
     (command list \<times> nat option \<times> nat option) result" where
  "replay_loop file fmt file_len pos commands checked_tail =
     (if pos < file_len then
        case read_next_frame_payload_from file pos file_len fmt of
          Inl e \<Rightarrow> Inl e
        | Inr None \<Rightarrow> Inr (commands, None, Some pos)
        | Inr (Some (payload, pos')) \<Rightarrow>
            (case decode_wal_payload payload commands of
               Inl e \<Rightarrow> Inl e
             | Inr (checked, commands') \<Rightarrow>
                 replay_loop file fmt file_len pos' commands' (if checked then Some pos else None))
      else Inr (commands, checked_tail, None))"
  by pat_completeness auto
termination
  by (relation "measure (\<lambda>(file, fmt, file_len, pos, c, t). file_len - pos)")
    (auto dest!: read_next_frame_advances)

declare replay_loop.simps [simp del]

function validate_loop :: "bytes \<Rightarrow> wal_frame_format \<Rightarrow> nat \<Rightarrow> nat \<Rightarrow> nat \<Rightarrow> unit result" where
  "validate_loop file fmt file_len offset position =
     (if position < offset then
        case read_next_frame_payload_from file position file_len fmt of
          Inl e \<Rightarrow> Inl e
        | Inr None \<Rightarrow> Inl (Err ''snapshot WAL checkpoint does not fall on a frame boundary'')
        | Inr (Some (_, position')) \<Rightarrow>
            (if position' > offset then
               Inl (Err ''snapshot WAL checkpoint does not fall on a frame boundary'')
             else validate_loop file fmt file_len offset position')
      else Inr ())"
  by pat_completeness auto
termination
  by (relation "measure (\<lambda>(file, fmt, file_len, offset, pos). offset - pos)")
    (auto dest!: read_next_frame_advances)

declare validate_loop.simps [simp del]

definition validate_checkpoint_offset :: "nat \<Rightarrow> nat \<Rightarrow> wal \<Rightarrow> unit result" where
  "validate_checkpoint_offset offset file_len w =
     (if offset < wal_header_len w \<or> offset > file_len then
        Inl (Err ''snapshot WAL checkpoint is outside the journal'')
      else validate_loop (wal_file w) (wal_format w) file_len offset (wal_header_len w))"

definition replay_offset :: "wal_checkpoint option \<Rightarrow> wal \<Rightarrow> nat result" where
  "replay_offset ckpt w =
     (case ckpt of
        None \<Rightarrow> Inr (wal_header_len w)
      | Some ck \<Rightarrow>
          (if ck_generation ck = wal_generation w then
             map_sum id (\<lambda>_. ck_offset ck)
               (validate_checkpoint_offset (ck_offset ck) (length (wal_file w)) w)
           else if ck_successor ck = Some (wal_generation w) then Inr (wal_header_len w)
           else if ck_successor ck \<noteq> None then Inl (Err ''journal generation does not match'')
           else Inr (wal_header_len w)))"

definition replay_from :: "wal_checkpoint option \<Rightarrow> wal \<Rightarrow> wal_replay result \<times> wal" where
  "replay_from ckpt w =
     (let file_len = length (wal_file w) in
      if file_len = 0 then (Inr \<lparr>rp_commands = [], rp_checked_tail_offset = None\<rparr>, w)
      else case replay_offset ckpt w of
        Inl e \<Rightarrow> (Inl e, w)
      | Inr offset \<Rightarrow>
          (case replay_loop (wal_file w) (wal_format w) file_len offset [] None of
             Inl e \<Rightarrow> (Inl e, w)
           | Inr (commands, checked_tail, torn) \<Rightarrow>
               (Inr \<lparr>rp_commands = commands, rp_checked_tail_offset = checked_tail\<rparr>,
                (case torn of None \<Rightarrow> w | Some frame_start \<Rightarrow> rollback_to frame_start w))))"

text \<open>The frames retained by a rotation, encoded anew in the current format.\<close>

function retain_loop :: "bytes \<Rightarrow> wal_frame_format \<Rightarrow> nat \<Rightarrow> nat \<Rightarrow> bytes result" where
  "retain_loop file fmt file_len pos =
     (if pos < file_len then
        case read_next_frame_payload_from file pos file_len fmt of
          Inl e \<Rightarrow> Inl e
        | Inr None \<Rightarrow> Inl (Err ''WAL ends inside a frame after the snapshot checkpoint'')
        | Inr (Some (payload, pos')) \<Rightarrow>
            map_sum id (\<lambda>frames. encode_guarded_payload payload @ frames)
              (retain_loop file fmt file_len pos')
      else Inr [])"
  by pat_completeness auto
termination
  by (relation "measure (\<lambda>(file, fmt, file_len, pos). file_len - pos)")
    (auto dest!: read_next_frame_advances)

declare retain_loop.simps [simp del]

text \<open>
  What the file system does with the replacement: everything works, an operation
  up to the rename fails and the temporary file is removed, or one after the
  rename fails, when the handle already writes to the new file.
\<close>

datatype replace_outcome = Replaced | FailsBeforeRename | FailsAfterRename

definition replace_with ::
    "bytes \<Rightarrow> (nat \<times> nat) option \<Rightarrow> replace_outcome \<Rightarrow> wal \<Rightarrow> unit result \<times> wal" where
  "replace_with generation retained_range io w =
     (if generation = LEGACY_WAL_GENERATION \<or> generation = wal_generation w then
        (Inl (Err ''replacement WAL generation must be non-zero and new''), w)
      else case (case retained_range of
                   None \<Rightarrow> Inr []
                 | Some (offset, file_len) \<Rightarrow>
                     retain_loop (wal_file w) (wal_format w) file_len offset) of
        Inl e \<Rightarrow> (Inl e, w)
      | Inr frames \<Rightarrow>
          (case io of
             FailsBeforeRename \<Rightarrow> (Inl (Err ''io error''), w)
           | _ \<Rightarrow>
               ((if io = Replaced then Inr () else Inl (Err ''io error'')),
                \<lparr>wal_file = wal_header_bytes generation @ frames, wal_format = Guarded,
                 wal_header_len = WAL_HEADER_LEN, wal_generation = generation\<rparr>)))"

definition rotate_after :: "wal_checkpoint \<Rightarrow> replace_outcome \<Rightarrow> wal \<Rightarrow> unit result \<times> wal" where
  "rotate_after ckpt io w =
     (if ck_generation ckpt \<noteq> wal_generation w then
        (Inl (Err ''WAL changed generation before checkpoint rotation''), w)
      else case ck_successor ckpt of
        None \<Rightarrow> (Inl (Err ''checkpoint has no authorized successor WAL generation''), w)
      | Some generation \<Rightarrow>
          (let file_len = length (wal_file w) in
           if ck_offset ckpt < wal_header_len w \<or> ck_offset ckpt > file_len then
             (Inl (Err ''snapshot WAL checkpoint is outside the journal''), w)
           else replace_with generation (Some (ck_offset ckpt, file_len)) io w))"

section \<open>What a journal holds\<close>

text \<open>
  An entry is one call of \<open>append_commands\<close> or \<open>append_checked_command\<close>. \<open>entry_ok\<close>
  is what recovery can read: commands with a name, lengths that fit 32 bits, a
  frame within the maximum, and no client command in the shape of the journal's
  own markers.
\<close>

datatype journal_entry = Batch "command list" | Checked command

fun entry_commands :: "journal_entry \<Rightarrow> command list" where
  "entry_commands (Batch cs) = cs"
| "entry_commands (Checked c) = [c]"

definition command_ok :: "command \<Rightarrow> bool" where
  "command_ok c \<longleftrightarrow> c \<noteq> [] \<and> u32_sized c \<and> (\<forall>a \<in> set c. u32_sized a)"

definition marker_free :: "command \<Rightarrow> bool" where
  "marker_free c \<longleftrightarrow> \<not> (length c = 2 \<and> c ! 0 \<in> {WAL_BATCH_MARKER, WAL_CHECKED_MARKER})"

definition batch_bytes :: "command list \<Rightarrow> bytes" where
  "batch_bytes cs = enc_counted (enc_counted write_bytes) cs"

fun entry_payload :: "journal_entry \<Rightarrow> bytes" where
  "entry_payload (Batch [c]) = command_payload c"
| "entry_payload (Batch cs) = command_payload [WAL_BATCH_MARKER, batch_bytes cs]"
| "entry_payload (Checked c) = command_payload [WAL_CHECKED_MARKER, batch_bytes [c]]"

definition entry_ok :: "journal_entry \<Rightarrow> bool" where
  "entry_ok e \<longleftrightarrow> entry_commands e \<noteq> [] \<and> u32_sized (entry_commands e) \<and>
     (\<forall>c \<in> set (entry_commands e). command_ok c \<and> marker_free c) \<and>
     length (entry_payload e) \<le> MAX_WAL_FRAME_BYTES"

lemmas entry_cases = entry_payload.cases [case_names Single Empty Many Checked]

fun append_entry :: "journal_entry \<Rightarrow> write_outcome \<Rightarrow> wal \<Rightarrow> unit result \<times> wal" where
  "append_entry (Batch cs) io w = append_commands cs io w"
| "append_entry (Checked c) io w = append_checked_command c io w"

definition entry_frame :: "journal_entry \<Rightarrow> bytes" where
  "entry_frame e = encode_guarded_payload (entry_payload e)"

fun is_checked :: "journal_entry \<Rightarrow> bool" where
  "is_checked (Batch _) \<longleftrightarrow> False"
| "is_checked (Checked _) \<longleftrightarrow> True"

subsection \<open>Payloads\<close>

lemma command_payload_counted: "command_payload args = enc_counted write_bytes args"
proof -
  have "(\<lambda>arg. write_u32 (of_nat (length arg)) @ arg) = write_bytes"
    by (auto simp: write_bytes_def write_u32_def)
  then show ?thesis by (simp add: command_payload_def enc_counted_def)
qed

lemma encode_batch_args_ok:
  "\<forall>a \<in> set args. u32_sized a \<Longrightarrow> encode_batch_args args = Inr (concat (map write_bytes args))"
  by (induction args) (auto simp: write_bytes_def write_u32_def)

lemma encode_batch_commands_ok:
  "\<forall>c \<in> set cs. command_ok c \<Longrightarrow>
   encode_batch_commands cs = Inr (concat (map (enc_counted write_bytes) cs))"
  by (induction cs) (auto simp: command_ok_def encode_batch_args_ok enc_counted_def)

lemma encode_command_batch_ok:
  "u32_sized cs \<Longrightarrow> \<forall>c \<in> set cs. command_ok c \<Longrightarrow> encode_command_batch cs = Inr (batch_bytes cs)"
  by (simp add: encode_command_batch_def encode_batch_commands_ok batch_bytes_def
      enc_counted_def [of "enc_counted write_bytes"])

lemma decode_batch_commands_ok:
  "\<forall>c \<in> set cs. command_ok c \<Longrightarrow>
   decode_batch_commands (length cs) (concat (map (enc_counted write_bytes) cs) @ rest) = Inr (cs, rest)"
proof (induction cs)
  case (Cons c cs)
  then have "c \<noteq> []" "u32_sized c" "\<forall>a \<in> set c. u32_sized a" by (auto simp: command_ok_def)
  with Cons show ?case
    using bytes_codec.many_round [of c] by (simp add: enc_counted_def [of write_bytes])
qed simp

lemma decode_command_batch_ok:
  "u32_sized cs \<Longrightarrow> \<forall>c \<in> set cs. command_ok c \<Longrightarrow> decode_command_batch (batch_bytes cs) = Inr cs"
  using decode_batch_commands_ok [of cs "[]"]
  by (simp add: decode_command_batch_def batch_bytes_def enc_counted_def [of "enc_counted write_bytes"])

lemma read_command_payload:
  assumes "command_ok args"
  shows "read_u32 (command_payload args) = Inr (of_nat (length args), concat (map write_bytes args))"
    "read_many read_bytes (length args) (concat (map write_bytes args)) = Inr (args, [])"
  using assms bytes_codec.many_round [of args "[]"]
  by (simp_all add: command_payload_counted enc_counted_def command_ok_def)

lemma decode_args:
  assumes "command_ok args"
  shows "decode_wal_payload (command_payload args) cmds =
    (if length args = 2 \<and> args ! 0 = WAL_BATCH_MARKER then
       (case decode_command_batch (args ! 1) of Inl e \<Rightarrow> Inl e | Inr batch \<Rightarrow> Inr (False, cmds @ batch))
     else if length args = 2 \<and> args ! 0 = WAL_CHECKED_MARKER then
       (case decode_command_batch (args ! 1) of Inl e \<Rightarrow> Inl e
        | Inr checked \<Rightarrow> (if length checked \<noteq> 1 then
              Inl (Err ''checked WAL frame must contain exactly one command'')
            else Inr (True, cmds @ [last checked])))
     else Inr (False, cmds @ [args]))"
proof -
  have "unat (of_nat (length args) :: u32) = length args" "length args \<noteq> 0"
    using assms by (auto simp: command_ok_def)
  then show ?thesis
    by (simp only: decode_wal_payload_def read_command_payload [OF assms] sum.case prod.case if_False simp_thms)
qed

lemma decode_plain:
  "command_ok c \<Longrightarrow> marker_free c \<Longrightarrow> decode_wal_payload (command_payload c) cmds = Inr (False, cmds @ [c])"
  by (auto simp: decode_args marker_free_def)

lemma marker_command_ok:
  "length (command_payload [m, b]) \<le> MAX_WAL_FRAME_BYTES \<Longrightarrow> u32_sized m \<Longrightarrow> command_ok [m, b]"
  by (auto simp: command_ok_def command_payload_counted enc_counted_def u32_sized_def write_bytes_def
      MAX_WAL_FRAME_BYTES_def)

lemma marker_sized [simp]: "u32_sized WAL_BATCH_MARKER" "u32_sized WAL_CHECKED_MARKER"
  by (simp_all add: u32_sized_def WAL_BATCH_MARKER_def WAL_CHECKED_MARKER_def ascii_def)

lemma markers_differ [simp]: "WAL_BATCH_MARKER \<noteq> WAL_CHECKED_MARKER" "WAL_CHECKED_MARKER \<noteq> WAL_BATCH_MARKER"
  by (simp_all add: WAL_BATCH_MARKER_def WAL_CHECKED_MARKER_def ascii_def)

lemma decode_marked:
  assumes "command_ok [m, b]"
  shows "decode_wal_payload (command_payload [m, b]) cmds =
    (if m = WAL_BATCH_MARKER then
       (case decode_command_batch b of Inl e \<Rightarrow> Inl e | Inr batch \<Rightarrow> Inr (False, cmds @ batch))
     else if m = WAL_CHECKED_MARKER then
       (case decode_command_batch b of Inl e \<Rightarrow> Inl e
        | Inr checked \<Rightarrow> (if length checked \<noteq> 1 then
              Inl (Err ''checked WAL frame must contain exactly one command'')
            else Inr (True, cmds @ [last checked])))
     else Inr (False, cmds @ [[m, b]]))"
  by (simp add: decode_args [OF assms])

lemma decode_entry:
  assumes "entry_ok e"
  shows "decode_wal_payload (entry_payload e) cmds = Inr (is_checked e, cmds @ entry_commands e)"
proof (cases e rule: entry_cases)
  case (Single c)
  then show ?thesis using assms by (simp add: entry_ok_def decode_plain)
next
  case Empty
  then show ?thesis using assms by (simp add: entry_ok_def)
next
  case (Many c c' cs)
  let ?b = "batch_bytes (c # c' # cs)"
  have "command_ok [WAL_BATCH_MARKER, ?b]"
    using assms Many by (intro marker_command_ok) (simp_all add: entry_ok_def)
  moreover have "decode_command_batch ?b = Inr (c # c' # cs)"
    using assms Many by (intro decode_command_batch_ok) (auto simp: entry_ok_def)
  ultimately show ?thesis using Many by (simp add: decode_marked)
next
  case (Checked c)
  let ?b = "batch_bytes [c]"
  have "command_ok [WAL_CHECKED_MARKER, ?b]"
    using assms Checked by (intro marker_command_ok) (simp_all add: entry_ok_def)
  moreover have "decode_command_batch ?b = Inr [c]"
    using assms Checked by (intro decode_command_batch_ok) (auto simp: entry_ok_def)
  ultimately show ?thesis using Checked by (simp add: decode_marked)
qed

lemma append_entry_encoded:
  assumes "entry_ok e" and "wal_format w = Guarded"
  shows "append_entry e io w = append_encoded_frames (entry_frame e) io w"
proof (cases e rule: entry_cases)
  case (Single c)
  then show ?thesis using assms(2)
    by (simp add: append_commands_def encode_command_frame_def entry_frame_def)
next
  case Empty
  then show ?thesis using assms(1) by (simp add: entry_ok_def)
next
  case (Many c c' cs)
  then have "encode_command_batch (c # c' # cs) = Inr (batch_bytes (c # c' # cs))"
    using assms(1) by (intro encode_command_batch_ok) (auto simp: entry_ok_def)
  with Many assms(2) show ?thesis
    by (simp add: append_commands_def encode_command_frame_def entry_frame_def)
next
  case (Checked c)
  then have "encode_command_batch [c] = Inr (batch_bytes [c])"
    using assms(1) by (intro encode_command_batch_ok) (auto simp: entry_ok_def)
  with Checked assms(2) show ?thesis
    by (simp add: append_checked_command_def encode_command_frame_def entry_frame_def)
qed

lemma append_entry_frame:
  "entry_ok e \<Longrightarrow> wal_format w = Guarded \<Longrightarrow>
   append_entry e Written w = (Inr (), w\<lparr>wal_file := wal_file w @ entry_frame e\<rparr>)"
  by (simp add: append_entry_encoded append_encoded_frames_def)

subsection \<open>Frames\<close>

lemma frame_magic_length [simp]: "length WAL_FRAME_MAGIC = 4"
  by (simp add: WAL_FRAME_MAGIC_def ascii_def)

lemma read_exact_append [simp]: "length xs = n \<Longrightarrow> read_exact n (xs @ rest) = Inr (xs, rest)"
  by (simp add: read_exact_def)

lemma read_guarded_frame:
  assumes "file = pre @ WAL_FRAME_MAGIC @ write_u32 l @ write_u32 c @ write_u32 crc @ body"
    and "length file \<le> usize_max"
  shows "read_next_frame_payload_from file (length pre) (length file) Guarded =
    (if c \<noteq> NOT l then Inl (Err ''WAL frame length guard is corrupt'')
     else if unat l > MAX_WAL_FRAME_BYTES then Inl (Err ''WAL frame length exceeds maximum'')
     else if length body < unat l then Inr None
     else if crc \<noteq> crc32 (write_u32 l @ take (unat l) body) then Inl (Err ''WAL frame checksum mismatch'')
     else Inr (Some (take (unat l) body, length pre + 16 + unat l)))"
proof -
  have "drop (length pre) file = WAL_FRAME_MAGIC @ write_u32 l @ write_u32 c @ write_u32 crc @ body"
    and len: "length file = length pre + 16 + length body"
    using assms(1) by simp_all
  then show ?thesis
    using assms(2)
    by (auto simp: read_next_frame_payload_from_def Let_def read_exact_def [of "unat l"])
qed

lemma length_encode_guarded [simp]: "length (encode_guarded_payload p) = 16 + length p"
  by (simp add: encode_guarded_payload_def Let_def)

lemma unat_frame_len:
  "length p \<le> MAX_WAL_FRAME_BYTES \<Longrightarrow> unat (of_nat (length p) :: u32) = length p"
  by (simp add: MAX_WAL_FRAME_BYTES_def unat_of_nat)

lemma read_frame:
  assumes "file = pre @ encode_guarded_payload p @ rest" and "length p \<le> MAX_WAL_FRAME_BYTES"
    and "length file \<le> usize_max"
  shows "read_next_frame_payload_from file (length pre) (length file) Guarded =
    Inr (Some (p, length pre + length (encode_guarded_payload p)))"
  using read_guarded_frame [of "file" pre "of_nat (length p)" "NOT (of_nat (length p))"
      "crc32 (write_u32 (of_nat (length p)) @ p)" "p @ rest"] assms
  by (simp add: encode_guarded_payload_def Let_def unat_frame_len)

lemma read_exact_short [simp]: "length r < n \<Longrightarrow> read_exact n r = Inl unexpected_eof"
  by (simp add: read_exact_def)

lemma eof_none_eof [simp]: "eof_none unexpected_eof = Inr None"
  by (simp add: eof_none_def)

lemma read_torn_header:
  assumes "k < 16"
  shows "read_next_frame_payload_from (pre @ take k (encode_guarded_payload p)) (length pre)
    (length (pre @ take k (encode_guarded_payload p))) Guarded = Inr None"
proof -
  consider "k < 4" | "4 \<le> k" "k < 8" | "8 \<le> k" "k < 12" | "12 \<le> k" "k < 16"
    using assms by linarith
  then show ?thesis
    by cases (simp_all add: read_next_frame_payload_from_def encode_guarded_payload_def Let_def)
qed

lemma read_torn_frame:
  assumes "file = pre @ take k (encode_guarded_payload p)" and "k < length (encode_guarded_payload p)"
    and "length p \<le> MAX_WAL_FRAME_BYTES" and "length file \<le> usize_max"
  shows "read_next_frame_payload_from file (length pre) (length file) Guarded = Inr None"
proof (cases "k < 16")
  case True
  then show ?thesis using read_torn_header [of k pre p] assms(1) by simp
next
  case False
  let ?l = "of_nat (length p) :: u32"
  have "file = pre @ WAL_FRAME_MAGIC @ write_u32 ?l @ write_u32 (NOT ?l) @
      write_u32 (crc32 (write_u32 ?l @ p)) @ take (k - 16) p"
    using assms(1) False by (simp add: encode_guarded_payload_def Let_def)
  from read_guarded_frame [OF this assms(4)] show ?thesis
    using assms(2,3) False by (simp add: unat_frame_len less_diff_conv2)
qed

subsection \<open>Scans\<close>

fun tail_offset :: "nat \<Rightarrow> nat option \<Rightarrow> journal_entry list \<Rightarrow> nat option" where
  "tail_offset pos tail [] = tail"
| "tail_offset pos tail (e # es) =
     tail_offset (pos + length (entry_frame e)) (if is_checked e then Some pos else None) es"

definition frames :: "journal_entry list \<Rightarrow> bytes" where
  "frames es = concat (map entry_frame es)"

lemma frames_simps [simp]:
  "frames [] = []" "frames (e # es) = entry_frame e @ frames es" "frames (es @ es') = frames es @ frames es'"
  by (simp_all add: frames_def)

lemma entry_frame_length [simp]: "length (entry_frame e) = 16 + length (entry_payload e)"
  by (simp add: entry_frame_def)

lemma entry_ok_size: "entry_ok e \<Longrightarrow> length (entry_payload e) \<le> MAX_WAL_FRAME_BYTES"
  by (simp add: entry_ok_def)

lemma read_entry:
  assumes "file = pre @ entry_frame e @ rest" and "entry_ok e" and "length file \<le> usize_max"
  shows "read_next_frame_payload_from file (length pre) (length file) Guarded =
    Inr (Some (entry_payload e, length (pre @ entry_frame e)))"
  using read_frame [of "file" pre "entry_payload e" rest] assms entry_ok_size
  by (simp add: entry_frame_def)

lemma replay_loop_entries:
  assumes "file = pre @ frames es @ rest" and "\<forall>e \<in> set es. entry_ok e" and "length file \<le> usize_max"
  shows "replay_loop file Guarded (length file) (length pre) cmds tail =
    replay_loop file Guarded (length file) (length (pre @ frames es))
      (cmds @ concat (map entry_commands es)) (tail_offset (length pre) tail es)"
  using assms
proof (induction es arbitrary: pre cmds tail)
  case (Cons e es)
  have "read_next_frame_payload_from file (length pre) (length file) Guarded =
      Inr (Some (entry_payload e, length (pre @ entry_frame e)))"
    using Cons.prems by (intro read_entry) auto
  moreover have "length pre < length file" using Cons.prems(1) by simp
  ultimately have "replay_loop file Guarded (length file) (length pre) cmds tail =
      replay_loop file Guarded (length file) (length (pre @ entry_frame e)) (cmds @ entry_commands e)
        (if is_checked e then Some (length pre) else None)"
    using decode_entry [of e cmds] Cons.prems(2) by (subst replay_loop.simps) simp
  also have "\<dots> = replay_loop file Guarded (length file) (length ((pre @ entry_frame e) @ frames es))
      ((cmds @ entry_commands e) @ concat (map entry_commands es))
      (tail_offset (length (pre @ entry_frame e)) (if is_checked e then Some (length pre) else None) es)"
    using Cons.prems by (intro Cons.IH) auto
  finally show ?case by simp
qed simp

lemma replay_loop_end:
  "replay_loop file fmt (length file) (length file) cmds tail = Inr (cmds, tail, None)"
  by (simp add: replay_loop.simps)

lemma replay_loop_torn:
  assumes "file = pre @ take k (entry_frame e)" and "0 < k" and "k < length (entry_frame e)"
    and "entry_ok e" and "length file \<le> usize_max"
  shows "replay_loop file Guarded (length file) (length pre) cmds tail = Inr (cmds, None, Some (length pre))"
proof -
  have "read_next_frame_payload_from file (length pre) (length file) Guarded = Inr None"
    using read_torn_frame [of "file" pre k "entry_payload e"] assms by (simp add: entry_frame_def entry_ok_size)
  moreover have "length pre < length file" using assms(1,2) by simp
  ultimately show ?thesis by (subst replay_loop.simps) simp
qed

lemma validate_loop_entries:
  assumes "file = pre @ frames es @ rest" and "\<forall>e \<in> set es. entry_ok e" and "length file \<le> usize_max"
  shows "validate_loop file Guarded (length file) (length (pre @ frames es)) (length pre) = Inr ()"
  using assms
proof (induction es arbitrary: pre)
  case Nil
  then show ?case by (simp add: validate_loop.simps)
next
  case (Cons e es)
  have "read_next_frame_payload_from file (length pre) (length file) Guarded =
      Inr (Some (entry_payload e, length (pre @ entry_frame e)))"
    using Cons.prems by (intro read_entry) auto
  then show ?case
    using Cons.IH [of "pre @ entry_frame e"] Cons.prems by (subst validate_loop.simps) simp
qed

lemma retain_loop_entries:
  assumes "file = pre @ frames es" and "\<forall>e \<in> set es. entry_ok e" and "length file \<le> usize_max"
  shows "retain_loop file Guarded (length file) (length pre) = Inr (frames es)"
  using assms
proof (induction es arbitrary: pre)
  case Nil
  then show ?case by (simp add: retain_loop.simps)
next
  case (Cons e es)
  have "read_next_frame_payload_from file (length pre) (length file) Guarded =
      Inr (Some (entry_payload e, length (pre @ entry_frame e)))"
    using Cons.prems by (intro read_entry) auto
  moreover have "length pre < length file" using Cons.prems(1) by simp
  ultimately show ?case
    using Cons.IH [of "pre @ entry_frame e"] Cons.prems
    by (subst retain_loop.simps) (simp add: entry_frame_def)
qed

section \<open>Recovery\<close>

definition journal :: "wal \<Rightarrow> journal_entry list \<Rightarrow> bool" where
  "journal w es \<longleftrightarrow> wal_format w = Guarded \<and> wal_header_len w = WAL_HEADER_LEN \<and>
     length (wal_generation w) = WAL_GENERATION_LEN \<and>
     wal_file w = wal_header_bytes (wal_generation w) @ frames es \<and>
     (\<forall>e \<in> set es. entry_ok e) \<and> length (wal_file w) \<le> usize_max"

lemma header_length [simp]:
  "length g = WAL_GENERATION_LEN \<Longrightarrow> length (wal_header_bytes g) = WAL_HEADER_LEN"
  by (simp add: wal_header_bytes_def WAL_MAGIC_def ascii_def WAL_GENERATION_LEN_def WAL_HEADER_LEN_def
      WAL_HEADER_V2_LEN_def)

lemma header_len_pos [simp]: "0 < WAL_HEADER_LEN"
  by (simp add: WAL_HEADER_LEN_def)

lemma tail_offset_snoc:
  "tail_offset pos tail (es @ [e]) = (if is_checked e then Some (pos + length (frames es)) else None)"
  by (induction es arbitrary: pos tail) (auto simp: add.assoc)

lemma replay_from_end:
  assumes "journal w es" and "replay_offset ckpt w = Inr (length (wal_header_bytes (wal_generation w) @ frames es1))"
    and "es = es1 @ es2"
  shows "replay_from ckpt w = (Inr \<lparr>rp_commands = concat (map entry_commands es2),
    rp_checked_tail_offset = tail_offset (WAL_HEADER_LEN + length (frames es1)) None es2\<rparr>, w)"
proof -
  let ?pre = "wal_header_bytes (wal_generation w) @ frames es1"
  have fl: "wal_file w = ?pre @ frames es2 @ []" and len: "length (wal_file w) \<le> usize_max"
    and ok: "\<forall>e \<in> set es2. entry_ok e" and fmt: "wal_format w = Guarded"
    and header: "length (wal_header_bytes (wal_generation w)) = WAL_HEADER_LEN"
    using assms(1,3) by (auto simp: journal_def)
  have fe: "length (wal_file w) = length (?pre @ frames es2)" using fl by simp
  have "replay_loop (wal_file w) Guarded (length (wal_file w)) (length ?pre) [] None =
      Inr (concat (map entry_commands es2), tail_offset (length ?pre) None es2, None)"
    unfolding replay_loop_entries [OF fl ok len] fe [symmetric] by (simp add: replay_loop_end)
  moreover have "wal_file w \<noteq> []" using fl header header_len_pos by (metis append_is_Nil_conv less_not_refl list.size(3))
  ultimately show ?thesis using assms(2) fmt header by (simp add: replay_from_def)
qed

fun append_all :: "journal_entry list \<Rightarrow> wal \<Rightarrow> wal" where
  "append_all [] w = w"
| "append_all (e # es) w = append_all es (snd (append_entry e Written w))"

lemma append_all_journal:
  assumes "journal w es" and "\<forall>e \<in> set es'. entry_ok e" and "length (wal_file w @ frames es') \<le> usize_max"
  shows "journal (append_all es' w) (es @ es') \<and> wal_generation (append_all es' w) = wal_generation w"
  using assms
proof (induction es' arbitrary: w es)
  case (Cons e es')
  let ?w = "w\<lparr>wal_file := wal_file w @ entry_frame e\<rparr>"
  have "append_entry e Written w = (Inr (), ?w)"
    using Cons.prems by (intro append_entry_frame) (auto simp: journal_def)
  moreover have "journal ?w (es @ [e])" using Cons.prems by (auto simp: journal_def)
  ultimately show ?case using Cons.IH [of ?w "es @ [e]"] Cons.prems by simp
qed simp

lemma fresh_journal:
  "length g = WAL_GENERATION_LEN \<Longrightarrow> open_in [] True (Some g) rng = Some (Inr w) \<Longrightarrow>
   journal w [] \<and> wal_generation w = g"
  by (auto simp: open_in_def journal_def WAL_HEADER_LEN_def WAL_HEADER_V2_LEN_def usize_max_def)

subsection \<open>A sample journal\<close>

definition demo_generation :: bytes where
  "demo_generation = replicate 16 1"

definition demo_entries :: "journal_entry list" where
  "demo_entries = [Batch [[ascii ''SET'', ascii ''k'', ascii ''v''], [ascii ''DEL'', ascii ''x'']],
     Checked [ascii ''RENAME'', ascii ''a'', ascii ''b'']]"

definition demo_wal :: wal where
  "demo_wal = \<lparr>wal_file = wal_header_bytes demo_generation @ frames demo_entries, wal_format = Guarded,
     wal_header_len = WAL_HEADER_LEN, wal_generation = demo_generation\<rparr>"

lemma demo_entries_ok: "\<forall>e \<in> set demo_entries. entry_ok e"
  by (simp add: demo_entries_def entry_ok_def command_ok_def marker_free_def u32_sized_def
      command_payload_def batch_bytes_def enc_counted_def write_bytes_def
      MAX_WAL_FRAME_BYTES_def WAL_BATCH_MARKER_def WAL_CHECKED_MARKER_def ascii_def)

lemma demo_payload_length: "map (\<lambda>e. length (entry_payload e)) demo_entries = [63, 52]"
  by (simp add: demo_entries_def command_payload_def batch_bytes_def enc_counted_def write_bytes_def
      WAL_BATCH_MARKER_def WAL_CHECKED_MARKER_def ascii_def)

lemma demo_frames_length: "length (frames demo_entries) = 147"
  using demo_payload_length by (simp add: demo_entries_def)

lemma demo_generation_length [simp]: "length demo_generation = WAL_GENERATION_LEN"
  by (simp add: demo_generation_def WAL_GENERATION_LEN_def)

lemma demo_journal: "journal demo_wal demo_entries"
  using demo_entries_ok demo_frames_length
  by (simp add: journal_def demo_wal_def WAL_HEADER_LEN_def WAL_HEADER_V2_LEN_def usize_max_def)

text \<open>
  Claim C3. The journal round trip. Whatever sequence of batches and checked
  commands is appended to a fresh journal, replay returns all their commands in
  order, leaves the file alone, and points at the last frame exactly when it is a
  checked one.
\<close>

theorem journal_round_trip:
  assumes "length g = WAL_GENERATION_LEN" and "open_in [] True (Some g) rng = Some (Inr w)"
    and "\<forall>e \<in> set es. entry_ok e" and "WAL_HEADER_LEN + length (frames es) \<le> usize_max"
  shows "replay_from None (append_all es w) =
    (Inr \<lparr>rp_commands = concat (map entry_commands es),
          rp_checked_tail_offset =
            (if es \<noteq> [] \<and> is_checked (last es) then Some (WAL_HEADER_LEN + length (frames (butlast es)))
             else None)\<rparr>, append_all es w)"
proof -
  have w: "journal w []" using fresh_journal [OF assms(1,2)] by simp
  then have "length (wal_file w) = WAL_HEADER_LEN" by (simp add: journal_def)
  with w assms(3,4) have j: "journal (append_all es w) es"
    using append_all_journal [of w "[]" es] by simp
  have "tail_offset WAL_HEADER_LEN None es =
      (if es \<noteq> [] \<and> is_checked (last es) then Some (WAL_HEADER_LEN + length (frames (butlast es))) else None)"
    by (cases es rule: rev_cases) (simp_all add: tail_offset_snoc)
  then show ?thesis
    using replay_from_end [OF j, of None "[]" es] j by (simp add: replay_offset_def journal_def)
qed

text \<open>Where a cut of the file falls.\<close>

lemma cut_frames:
  assumes "k \<le> length (frames es)"
  shows "\<exists>m \<le> length es. length (frames (take m es)) \<le> k \<and>
    (m = length es \<and> take k (frames es) = frames es \<or>
     m < length es \<and> k < length (frames (take (Suc m) es)) \<and>
       take k (frames es) = frames (take m es) @ take (k - length (frames (take m es))) (entry_frame (es ! m)))"
  using assms
proof (induction es arbitrary: k)
  case (Cons e es)
  show ?case
  proof (cases "k < length (entry_frame e)")
    case True
    then show ?thesis by (intro exI [of _ 0]) simp
  next
    case False
    have "k - length (entry_frame e) \<le> length (frames es)" using Cons.prems by simp
    from Cons.IH [OF this] obtain m where m: "m \<le> length es"
      "length (frames (take m es)) \<le> k - length (entry_frame e)"
      "m = length es \<and> take (k - length (entry_frame e)) (frames es) = frames es \<or>
       m < length es \<and> k - length (entry_frame e) < length (frames (take (Suc m) es)) \<and>
       take (k - length (entry_frame e)) (frames es) = frames (take m es) @
         take (k - length (entry_frame e) - length (frames (take m es))) (entry_frame (es ! m))"
      by blast
    with False show ?thesis by (intro exI [of _ "Suc m"]) (auto simp del: entry_frame_length)
  qed
qed simp

lemma replay_torn_entry:
  assumes "journal w es" and "entry_ok e" and "0 < j" and "j < length (entry_frame e)"
    and "length (wal_file w) + j \<le> usize_max"
  shows "replay_from None (w\<lparr>wal_file := wal_file w @ take j (entry_frame e)\<rparr>) =
    (Inr \<lparr>rp_commands = concat (map entry_commands es), rp_checked_tail_offset = None\<rparr>, w)"
proof -
  let ?h = "wal_header_bytes (wal_generation w)" and ?file = "wal_file w @ take j (entry_frame e)"
  have h: "length ?h = WAL_HEADER_LEN" and hl: "wal_header_len w = WAL_HEADER_LEN"
    and ok: "\<forall>e \<in> set es. entry_ok e" and fmt: "wal_format w = Guarded" and wf: "wal_file w = ?h @ frames es"
    using assms(1) by (auto simp: journal_def)
  have len: "length ?file \<le> usize_max" using assms(4,5) by simp
  have "?file = ?h @ frames es @ take j (entry_frame e)" using wf by simp
  from replay_loop_entries [OF this ok len, of "[]" None]
  have "replay_loop ?file Guarded (length ?file) (length ?h) [] None =
      replay_loop ?file Guarded (length ?file) (length (wal_file w)) (concat (map entry_commands es))
        (tail_offset (length ?h) None es)"
    by (simp only: wf append_Nil)
  also have "\<dots> = Inr (concat (map entry_commands es), None, Some (length (wal_file w)))"
    by (rule replay_loop_torn [OF refl assms(3,4,2) len])
  finally have loop: "replay_loop ?file Guarded (length ?file) WAL_HEADER_LEN [] None =
      Inr (concat (map entry_commands es), None, Some (length (wal_file w)))" by (simp only: h)
  have "wal_file w \<noteq> []" using h header_len_pos wf by (metis append_is_Nil_conv less_not_refl list.size(3))
  moreover have "set_len (length (wal_file w)) ?file = wal_file w" by (simp add: set_len_def)
  ultimately show ?thesis
    using loop fmt hl by (simp add: replay_from_def replay_offset_def rollback_to_def)
qed

lemma replay_whole:
  "journal w es \<Longrightarrow> replay_from None w =
     (Inr \<lparr>rp_commands = concat (map entry_commands es),
           rp_checked_tail_offset = tail_offset WAL_HEADER_LEN None es\<rparr>, w)"
  using replay_from_end [of w es None "[]" es] by (auto simp: replay_offset_def journal_def)

lemma journal_take:
  assumes "journal w es"
  shows "journal (w\<lparr>wal_file := wal_header_bytes (wal_generation w) @ frames (take m es)\<rparr>) (take m es)"
proof -
  have "length (frames es) = length (frames (take m es)) + length (frames (drop m es))"
    using arg_cong [OF frames_simps(3) [of "take m es" "drop m es"], of length] by simp
  moreover have "\<forall>e \<in> set (take m es). entry_ok e" using assms set_take_subset by (fastforce simp: journal_def)
  ultimately show ?thesis using assms by (auto simp: journal_def)
qed

text \<open>
  Claim C4. Crash atomicity. When only the first \<open>k\<close> bytes of the journal
  survive a crash, recovery replays exactly the entries whose frames lie
  completely within them, each with all of its commands, and cuts the file right
  behind the last of them, so that the journal holds these entries and can be
  appended to again.
\<close>

theorem journal_crash_atomic:
  assumes "journal w es" and "WAL_HEADER_LEN \<le> k" and "k \<le> length (wal_file w)"
  shows "\<exists>m tail. m \<le> length es \<and>
    replay_from None (w\<lparr>wal_file := take k (wal_file w)\<rparr>) =
      (Inr \<lparr>rp_commands = concat (map entry_commands (take m es)), rp_checked_tail_offset = tail\<rparr>,
       w\<lparr>wal_file := wal_header_bytes (wal_generation w) @ frames (take m es)\<rparr>) \<and>
    journal (w\<lparr>wal_file := wal_header_bytes (wal_generation w) @ frames (take m es)\<rparr>) (take m es) \<and>
    WAL_HEADER_LEN + length (frames (take m es)) \<le> k \<and>
    (m < length es \<longrightarrow> k < WAL_HEADER_LEN + length (frames (take (Suc m) es)))"
proof -
  let ?h = "wal_header_bytes (wal_generation w)"
  have h: "length ?h = WAL_HEADER_LEN" and len: "length (wal_file w) \<le> usize_max"
    and ok: "\<forall>e \<in> set es. entry_ok e" and wf: "wal_file w = ?h @ frames es"
    using assms(1) by (auto simp: journal_def)
  have "k - WAL_HEADER_LEN \<le> length (frames es)" using assms(3) wf h by simp
  from cut_frames [OF this] obtain m where m: "m \<le> length es"
    "length (frames (take m es)) \<le> k - WAL_HEADER_LEN"
    and cut: "m = length es \<and> take (k - WAL_HEADER_LEN) (frames es) = frames es \<or>
      m < length es \<and> k - WAL_HEADER_LEN < length (frames (take (Suc m) es)) \<and>
      take (k - WAL_HEADER_LEN) (frames es) = frames (take m es) @
        take (k - WAL_HEADER_LEN - length (frames (take m es))) (entry_frame (es ! m))" by blast
  define j where "j = k - WAL_HEADER_LEN - length (frames (take m es))"
  let ?w = "w\<lparr>wal_file := ?h @ frames (take m es)\<rparr>"
  note jr = journal_take [OF assms(1), of m]
  have fl: "take k (wal_file w) = ?h @ take (k - WAL_HEADER_LEN) (frames es)"
    using wf h assms(2) by simp
  have "\<exists>tail. replay_from None (w\<lparr>wal_file := take k (wal_file w)\<rparr>) =
      (Inr \<lparr>rp_commands = concat (map entry_commands (take m es)), rp_checked_tail_offset = tail\<rparr>, ?w)"
  proof (cases "m < length es \<and> 0 < j")
    case True
    then have step: "length (frames (take (Suc m) es)) = length (frames (take m es)) + length (entry_frame (es ! m))"
      by (simp add: take_Suc_conv_app_nth)
    with cut True have lt: "j < length (entry_frame (es ! m))" by (auto simp: j_def)
    have fk: "take k (wal_file w) = wal_file ?w @ take j (entry_frame (es ! m))"
      using fl cut True by (auto simp: j_def)
    have "length (wal_file ?w) + j \<le> usize_max"
      using len arg_cong [OF fk, of length] lt by simp
    then show ?thesis
      using replay_torn_entry [OF jr, of "es ! m" j] ok True lt fk by auto
  next
    case False
    then have "take (k - WAL_HEADER_LEN) (frames es) = frames (take m es)"
      using cut by (auto simp: j_def)
    then show ?thesis using replay_whole [OF jr] fl by auto
  qed
  then show ?thesis using m cut assms(2) jr by auto
qed

theorem journal_round_trip_witness:
  "replay_from None (append_all demo_entries
     \<lparr>wal_file = wal_header_bytes demo_generation, wal_format = Guarded,
      wal_header_len = WAL_HEADER_LEN, wal_generation = demo_generation\<rparr>) =
   (Inr \<lparr>rp_commands = [[ascii ''SET'', ascii ''k'', ascii ''v''], [ascii ''DEL'', ascii ''x''],
           [ascii ''RENAME'', ascii ''a'', ascii ''b'']],
         rp_checked_tail_offset = Some 103\<rparr>,
    append_all demo_entries
     \<lparr>wal_file = wal_header_bytes demo_generation, wal_format = Guarded,
      wal_header_len = WAL_HEADER_LEN, wal_generation = demo_generation\<rparr>)"
  using journal_round_trip [of demo_generation "[]"
      "\<lparr>wal_file = wal_header_bytes demo_generation, wal_format = Guarded,
        wal_header_len = WAL_HEADER_LEN, wal_generation = demo_generation\<rparr>" demo_entries]
    demo_entries_ok demo_frames_length demo_payload_length
  by (simp add: open_in_def usize_max_def WAL_HEADER_LEN_def WAL_HEADER_V2_LEN_def)
    (simp add: demo_entries_def)

theorem journal_crash_atomic_witness:
  "\<exists>m tail. m \<le> length demo_entries \<and>
    replay_from None (demo_wal\<lparr>wal_file := take 150 (wal_file demo_wal)\<rparr>) =
      (Inr \<lparr>rp_commands = concat (map entry_commands (take m demo_entries)), rp_checked_tail_offset = tail\<rparr>,
       demo_wal\<lparr>wal_file := wal_header_bytes (wal_generation demo_wal) @ frames (take m demo_entries)\<rparr>) \<and>
    journal (demo_wal\<lparr>wal_file := wal_header_bytes (wal_generation demo_wal) @ frames (take m demo_entries)\<rparr>)
      (take m demo_entries) \<and>
    WAL_HEADER_LEN + length (frames (take m demo_entries)) \<le> 150 \<and>
    (m < length demo_entries \<longrightarrow> 150 < WAL_HEADER_LEN + length (frames (take (Suc m) demo_entries)))"
  by (rule journal_crash_atomic [OF demo_journal])
    (simp_all add: demo_wal_def demo_frames_length WAL_HEADER_LEN_def WAL_HEADER_V2_LEN_def)

subsection \<open>Checkpoints\<close>

lemma new_wal_generation_result:
  "new_wal_generation rng = Some (g, rng') \<Longrightarrow> g \<noteq> LEGACY_WAL_GENERATION \<and> g \<in> set rng \<and> set rng' \<subseteq> set rng"
  by (induction rng) (auto split: if_splits)

lemma new_wal_generation_except_result:
  "new_wal_generation_except current rng = Some g \<Longrightarrow>
   g \<noteq> LEGACY_WAL_GENERATION \<and> g \<noteq> current \<and> g \<in> set rng"
proof (induction current rng rule: new_wal_generation_except.induct)
  case (1 current rng)
  from "1.prems" obtain h rng' where h: "new_wal_generation rng = Some (h, rng')"
    by (subst (asm) new_wal_generation_except.simps) (auto split: option.splits)
  with "1.prems" have "if h \<noteq> current then g = h else new_wal_generation_except current rng' = Some g"
    by (subst (asm) new_wal_generation_except.simps) (auto split: if_splits)
  with "1.IH" [OF h refl] new_wal_generation_result [OF h] show ?case by (auto split: if_splits)
qed

lemma replay_checkpointed:
  assumes "journal w (es1 @ es2)" and "ck_generation ck = wal_generation w"
    and "ck_offset ck = WAL_HEADER_LEN + length (frames es1)"
  shows "replay_from (Some ck) w = (Inr \<lparr>rp_commands = concat (map entry_commands es2),
    rp_checked_tail_offset = tail_offset (ck_offset ck) None es2\<rparr>, w)"
proof -
  let ?h = "wal_header_bytes (wal_generation w)"
  have h: "length ?h = WAL_HEADER_LEN" and hl: "wal_header_len w = WAL_HEADER_LEN"
    and wf: "wal_file w = ?h @ frames es1 @ frames es2" and fmt: "wal_format w = Guarded"
    and len: "length (wal_file w) \<le> usize_max" and ok: "\<forall>e \<in> set es1. entry_ok e"
    using assms(1) by (auto simp: journal_def)
  have "validate_checkpoint_offset (ck_offset ck) (length (wal_file w)) w = Inr ()"
    using validate_loop_entries [OF wf ok len] assms(3) h hl fmt wf
    by (simp add: validate_checkpoint_offset_def)
  then have "replay_offset (Some ck) w = Inr (length (?h @ frames es1))"
    using assms(2,3) h by (simp add: replay_offset_def)
  from replay_from_end [OF assms(1) this refl] show ?thesis using assms(3) by simp
qed

lemma rotate_journal:
  assumes "journal w (es1 @ es2)" and "ck_generation ck = wal_generation w"
    and "ck_offset ck = WAL_HEADER_LEN + length (frames es1)" and "ck_successor ck = Some g"
    and "length g = WAL_GENERATION_LEN" and "g \<noteq> LEGACY_WAL_GENERATION" and "g \<noteq> wal_generation w"
  shows "\<exists>r w'. rotate_after ck io w = (r, w') \<and> (io = Replaced \<longrightarrow> r = Inr ()) \<and>
    (if io = FailsBeforeRename then w' = w else wal_generation w' = g \<and> journal w' es2)"
proof -
  let ?h = "wal_header_bytes (wal_generation w)"
  have h: "length ?h = WAL_HEADER_LEN" and hl: "wal_header_len w = WAL_HEADER_LEN"
    and wf: "wal_file w = (?h @ frames es1) @ frames es2" and fmt: "wal_format w = Guarded"
    and len: "length (wal_file w) \<le> usize_max" and ok: "\<forall>e \<in> set es2. entry_ok e"
    using assms(1) by (auto simp: journal_def)
  have "retain_loop (wal_file w) Guarded (length (wal_file w)) (ck_offset ck) = Inr (frames es2)"
    using retain_loop_entries [OF wf ok len] assms(3) h by simp
  moreover have "\<not> ck_offset ck < wal_header_len w" "\<not> length (wal_file w) < ck_offset ck"
    using assms(3) hl wf h by simp_all
  ultimately have rot: "rotate_after ck io w =
      (case io of FailsBeforeRename \<Rightarrow> (Inl (Err ''io error''), w)
       | _ \<Rightarrow> ((if io = Replaced then Inr () else Inl (Err ''io error'')),
           \<lparr>wal_file = wal_header_bytes g @ frames es2, wal_format = Guarded,
            wal_header_len = WAL_HEADER_LEN, wal_generation = g\<rparr>))"
    using assms(2,4,6,7) fmt by (simp add: rotate_after_def replace_with_def Let_def)
  have "journal \<lparr>wal_file = wal_header_bytes g @ frames es2, wal_format = Guarded,
      wal_header_len = WAL_HEADER_LEN, wal_generation = g\<rparr> es2"
    using assms(5) ok len wf h by (simp add: journal_def)
  with rot show ?thesis by (cases io) auto
qed

text \<open>
  Claim C6. Snapshot and rotation. A snapshot records the journal's checkpoint
  after the entries \<open>es1\<close>; the entries \<open>es2\<close> are appended meanwhile. Recovery with
  that checkpoint replays exactly the commands of \<open>es2\<close>, before the journal is
  rotated and after it, and also when the rotation fails at any point: nothing is
  lost and nothing is applied twice.
\<close>

theorem rotation_preserves_suffix:
  assumes "journal w1 es1" and "checkpoint rng w1 = Some ck" and "\<forall>g \<in> set rng. length g = WAL_GENERATION_LEN"
    and "w2 = append_all es2 w1" and "\<forall>e \<in> set es2. entry_ok e"
    and "length (wal_file w1 @ frames es2) \<le> usize_max"
    and "rotate_after ck io w2 = (r, w3)"
  shows "map_sum id rp_commands (fst (replay_from (Some ck) w2)) = Inr (concat (map entry_commands es2)) \<and>
    map_sum id rp_commands (fst (replay_from (Some ck) w3)) = Inr (concat (map entry_commands es2)) \<and>
    (io = Replaced \<longrightarrow> r = Inr () \<and> journal w3 es2)"
proof -
  obtain g where ck: "ck = \<lparr>ck_generation = wal_generation w1, ck_offset = length (wal_file w1), ck_successor = Some g\<rparr>"
    and g: "g \<noteq> LEGACY_WAL_GENERATION" "g \<noteq> wal_generation w1" "g \<in> set rng"
    using assms(2) new_wal_generation_except_result by (auto simp: checkpoint_def end_offset_def)
  have w2: "journal w2 (es1 @ es2)" "wal_generation w2 = wal_generation w1"
    using append_all_journal [OF assms(1,5,6)] assms(4) by auto
  have off: "ck_offset ck = WAL_HEADER_LEN + length (frames es1)"
    using assms(1) ck by (auto simp: journal_def)
  have before: "replay_from (Some ck) w2 = (Inr \<lparr>rp_commands = concat (map entry_commands es2),
      rp_checked_tail_offset = tail_offset (ck_offset ck) None es2\<rparr>, w2)"
    using replay_checkpointed [OF w2(1)] w2(2) off ck by simp
  have "(io = Replaced \<longrightarrow> r = Inr ()) \<and>
      (if io = FailsBeforeRename then w3 = w2 else wal_generation w3 = g \<and> journal w3 es2)"
    using rotate_journal [OF w2(1), of ck g io] w2(2) off ck g assms(3,7) by auto
  moreover have "map_sum id rp_commands (fst (replay_from (Some ck) w3)) = Inr (concat (map entry_commands es2))"
    if w3: "wal_generation w3 = g" "journal w3 es2"
  proof -
    have "length (wal_header_bytes (wal_generation w3)) = WAL_HEADER_LEN" "wal_header_len w3 = WAL_HEADER_LEN"
      using w3(2) by (auto simp: journal_def)
    then have "replay_offset (Some ck) w3 = Inr (length (wal_header_bytes (wal_generation w3) @ frames []))"
      using ck w3(1) g(2) by (simp add: replay_offset_def)
    from replay_from_end [OF w3(2) this, of es2] show ?thesis by simp
  qed
  ultimately show ?thesis using before by (cases io) auto
qed

theorem rotation_preserves_suffix_witness:
  "map_sum id rp_commands (fst (replay_from
     (Some \<lparr>ck_generation = demo_generation, ck_offset = 171, ck_successor = Some (replicate 16 2)\<rparr>)
     (snd (rotate_after
       \<lparr>ck_generation = demo_generation, ck_offset = 171, ck_successor = Some (replicate 16 2)\<rparr>
       FailsAfterRename (append_all [Batch [[ascii ''FLUSHDB'']]] demo_wal))))) = Inr [[ascii ''FLUSHDB'']]"
proof -
  let ?ck = "\<lparr>ck_generation = demo_generation, ck_offset = 171, ck_successor = Some (replicate 16 2)\<rparr>"
  have ck: "checkpoint [replicate 16 0, demo_generation, replicate 16 2] demo_wal = Some ?ck"
    by (simp add: checkpoint_def end_offset_def demo_wal_def demo_frames_length new_wal_generation_except.simps
        LEGACY_WAL_GENERATION_def WAL_GENERATION_LEN_def demo_generation_def WAL_HEADER_LEN_def
        WAL_HEADER_V2_LEN_def header_length)
  have "entry_ok (Batch [[ascii ''FLUSHDB'']])"
    by (simp add: entry_ok_def command_ok_def marker_free_def u32_sized_def command_payload_def
        MAX_WAL_FRAME_BYTES_def ascii_def)
  moreover have "length (wal_file demo_wal @ frames [Batch [[ascii ''FLUSHDB'']]]) \<le> usize_max"
    by (simp add: demo_wal_def demo_frames_length command_payload_def usize_max_def ascii_def
        WAL_HEADER_LEN_def WAL_HEADER_V2_LEN_def)
  ultimately show ?thesis
    using rotation_preserves_suffix [OF demo_journal ck _ refl, of "[Batch [[ascii ''FLUSHDB'']]]" FailsAfterRename
        "fst (rotate_after ?ck FailsAfterRename (append_all [Batch [[ascii ''FLUSHDB'']]] demo_wal))"
        "snd (rotate_after ?ck FailsAfterRename (append_all [Batch [[ascii ''FLUSHDB'']]] demo_wal))"]
    by (simp add: WAL_GENERATION_LEN_def)
qed

subsection \<open>Corruption\<close>

lemma write_u32_update:
  assumes "j < 4" and "b \<noteq> write_u32 v ! j"
  shows "\<exists>v'. v' \<noteq> v \<and> (write_u32 v)[j := b] = write_u32 v'"
proof -
  let ?bs = "(write_u32 v)[j := b]"
  have eq: "?bs = write_u32 (from_le_bytes ?bs)"
    using write_u32_from_le [of ?bs] by (simp add: write_u32_def)
  have "?bs ! j \<noteq> write_u32 v ! j" using assms by simp
  then have "from_le_bytes ?bs \<noteq> v" using eq by metis
  with eq show ?thesis by blast
qed

lemma corrupt_frame_read:
  assumes "file = pre @ (encode_guarded_payload p)[i := b] @ rest"
    and "i < length (encode_guarded_payload p)" and "b \<noteq> encode_guarded_payload p ! i"
    and "length p \<le> MAX_WAL_FRAME_BYTES" and "length file \<le> usize_max"
  shows "\<exists>err. read_next_frame_payload_from file (length pre) (length file) Guarded = Inl err"
proof -
  define l where "l = (of_nat (length p) :: u32)"
  define c where "c = crc32 (write_u32 l @ p)"
  have frame: "encode_guarded_payload p = WAL_FRAME_MAGIC @ write_u32 l @ write_u32 (NOT l) @ write_u32 c @ p"
    by (simp add: encode_guarded_payload_def Let_def l_def c_def)
  have l: "unat l = length p" using assms(4) by (simp add: l_def unat_frame_len)
  consider "i < 4" | j where "i = 4 + j" "j < 4" | j where "i = 8 + j" "j < 4"
    | j where "i = 12 + j" "j < 4" | j where "i = 16 + j" "j < length p"
  proof -
    have "i < 16 + length p" using assms(2) by simp
    then consider "i < 4" | "4 \<le> i" "i < 8" | "8 \<le> i" "i < 12" | "12 \<le> i" "i < 16" | "16 \<le> i" "i - 16 < length p"
      by linarith
    then show thesis
      using that(1) that(2) [of "i - 4"] that(3) [of "i - 8"] that(4) [of "i - 12"] that(5) [of "i - 16"]
      by cases auto
  qed
  then show ?thesis
  proof cases
    case 1
    let ?m = "WAL_FRAME_MAGIC[i := b]"
    have "?m \<noteq> WAL_FRAME_MAGIC"
      using 1 assms(3) frame by (metis frame_magic_length nth_append nth_list_update_eq)
    moreover have "drop (length pre) file = ?m @ write_u32 l @ write_u32 (NOT l) @ write_u32 c @ p @ rest"
      using assms(1) frame 1 by (simp add: list_update_append)
    moreover have "length pre < length file" using assms(1) by simp
    ultimately show ?thesis by (simp add: read_next_frame_payload_from_def Let_def)
  next
    case (2 j)
    obtain l' where l': "l' \<noteq> l" "(write_u32 l)[j := b] = write_u32 l'"
      using write_u32_update [of j b l] 2 assms(3) frame by (auto simp: nth_append)
    have "file = pre @ WAL_FRAME_MAGIC @ write_u32 l' @ write_u32 (NOT l) @ write_u32 c @ p @ rest"
      using assms(1) frame 2 l'(2) by (simp add: list_update_append)
    from read_guarded_frame [OF this assms(5)] l'(1) show ?thesis by simp
  next
    case (3 j)
    obtain n' where n': "n' \<noteq> NOT l" "(write_u32 (NOT l))[j := b] = write_u32 n'"
      using write_u32_update [of j b "NOT l"] 3 assms(3) frame by (auto simp: nth_append)
    have "file = pre @ WAL_FRAME_MAGIC @ write_u32 l @ write_u32 n' @ write_u32 c @ p @ rest"
      using assms(1) frame 3 n'(2) by (simp add: list_update_append)
    from read_guarded_frame [OF this assms(5)] n'(1) show ?thesis by simp
  next
    case (4 j)
    obtain c' where c': "c' \<noteq> c" "(write_u32 c)[j := b] = write_u32 c'"
      using write_u32_update [of j b c] 4 assms(3) frame by (auto simp: nth_append)
    have "file = pre @ WAL_FRAME_MAGIC @ write_u32 l @ write_u32 (NOT l) @ write_u32 c' @ p @ rest"
      using assms(1) frame 4 c'(2) by (simp add: list_update_append)
    from read_guarded_frame [OF this assms(5)] c'(1) l assms(4) show ?thesis by (simp add: c_def)
  next
    case (5 j)
    have p: "p = take j p @ p ! j # drop (Suc j) p" using 5(2) by (rule id_take_nth_drop)
    have "b \<noteq> p ! j" using assms(3) frame 5 by (auto simp: nth_append)
    then have "crc32 ((write_u32 l @ take j p) @ b # drop (Suc j) p) \<noteq>
        crc32 ((write_u32 l @ take j p) @ p ! j # drop (Suc j) p)"
      by (rule crc32_one_byte)
    then have "crc32 (write_u32 l @ p[j := b]) \<noteq> c"
      using p by (simp add: c_def upd_conv_take_nth_drop [OF 5(2)])
    moreover have "file = pre @ WAL_FRAME_MAGIC @ write_u32 l @ write_u32 (NOT l) @ write_u32 c @ p[j := b] @ rest"
      using assms(1) frame 5 by (simp add: list_update_append)
    ultimately show ?thesis using read_guarded_frame [of "file" pre l "NOT l" c "p[j := b] @ rest"] assms(4,5) l
      by simp
  qed
qed

text \<open>
  Claim C7. Corruption is detected. Changing any one byte of any complete frame
  of the journal, in its marker, its length, the length guard, the checksum or
  the payload, makes recovery fail with an error: the change is neither replayed
  nor taken for a torn tail.
\<close>

theorem journal_detects_corruption:
  assumes "journal w (es1 @ e # es2)" and "i < length (entry_frame e)" and "b \<noteq> entry_frame e ! i"
  shows "\<exists>err. fst (replay_from None
    (w\<lparr>wal_file := (wal_file w)[WAL_HEADER_LEN + length (frames es1) + i := b]\<rparr>)) = Inl err"
proof -
  let ?h = "wal_header_bytes (wal_generation w)"
  let ?file = "(wal_file w)[WAL_HEADER_LEN + length (frames es1) + i := b]"
  have h: "length ?h = WAL_HEADER_LEN" and hl: "wal_header_len w = WAL_HEADER_LEN"
    and wf: "wal_file w = ?h @ frames es1 @ entry_frame e @ frames es2" and fmt: "wal_format w = Guarded"
    and ok: "\<forall>e \<in> set es1. entry_ok e" "entry_ok e" and len: "length ?file \<le> usize_max"
    using assms(1) by (auto simp: journal_def)
  have fl: "?file = ?h @ frames es1 @ ((entry_frame e)[i := b] @ frames es2)"
    using wf h assms(2) by (simp add: list_update_append)
  then have fl': "?file = (?h @ frames es1) @ (entry_frame e)[i := b] @ frames es2" by simp
  obtain err where err: "read_next_frame_payload_from ?file (length (?h @ frames es1)) (length ?file) Guarded = Inl err"
    using corrupt_frame_read [of ?file "?h @ frames es1" "entry_payload e" i b "frames es2"]
      fl' assms(2,3) ok(2) len by (auto simp: entry_frame_def entry_ok_size)
  moreover have "length (?h @ frames es1) < length ?file" using fl' assms(2) by simp
  ultimately have "replay_loop ?file Guarded (length ?file) (length (?h @ frames es1)) cmds tail = Inl err" for cmds tail
    by (subst replay_loop.simps) simp
  then have "replay_loop ?file Guarded (length ?file) WAL_HEADER_LEN [] None = Inl err"
    using replay_loop_entries [OF fl ok(1) len, of "[]" None] h by simp
  moreover have "wal_file w \<noteq> []" using wf h header_len_pos by (metis append_is_Nil_conv less_not_refl list.size(3))
  ultimately show ?thesis using fmt hl by (simp add: replay_from_def replay_offset_def)
qed

theorem journal_detects_corruption_witness:
  "\<exists>err. fst (replay_from None (demo_wal\<lparr>wal_file := (wal_file demo_wal)[24 := 0]\<rparr>)) = Inl err"
proof -
  obtain e es where es: "demo_entries = [] @ e # es" by (simp add: demo_entries_def)
  have "0 < length (entry_frame e)" by simp
  moreover have "0 \<noteq> entry_frame e ! 0"
    by (simp add: entry_frame_def encode_guarded_payload_def Let_def WAL_FRAME_MAGIC_def ascii_def)
  ultimately show ?thesis
    using journal_detects_corruption [of demo_wal "[]" e es 0 0] demo_journal es
    by (simp add: WAL_HEADER_LEN_def WAL_HEADER_V2_LEN_def)
qed

subsection \<open>Failed and oversized appends\<close>

text \<open>
  An append that fails and whose bytes are cut off again leaves the
  journal as it was, for every entry and however many bytes had been written.
\<close>

theorem failed_append_restores:
  "snd (append_entry e (WriteError n True) w) = w \<and>
   (fst (append_entry e (WriteError n True) w) = Inr () \<longleftrightarrow> e = Batch [])"
  by (cases e) (auto simp: append_commands_def append_checked_command_def append_encoded_frames_def Let_def
      split: sum.splits)

lemma append_single:
  "wal_format w = Guarded \<Longrightarrow> append_commands [c] Written w =
     (Inr (), w\<lparr>wal_file := wal_file w @ encode_guarded_payload (command_payload c)\<rparr>)"
  by (simp add: append_commands_def append_encoded_frames_def encode_command_frame_def)



end
