(* ===== verification/DiskShard.thy ===== *)
theory DiskShard
  imports DiskEntry Wal "HOL-Library.List_Lexorder"
begin

text \<open>
  The cold tier of one shard: \<open>DiskShard\<close> of \<^verbatim>\<open>src/src/disk.rs\<close>, an append-only
  data file with an index in memory. The clock is an argument of the operations
  that read it. Directory operations, path checks and the names of temporary files
  are not modelled; their success or failure is an argument where the outcome
  depends on it.
\<close>

section \<open>Data\<close>

definition DATA_MAGIC :: bytes where "DATA_MAGIC = ascii ''LXD1''"

record disk_entry =
  dk_offset :: nat
  dk_length :: nat
  dk_ttl_ms :: int
  dk_created_at :: instant

record disk_shard =
  ds_index :: "(bytes \<times> disk_entry) list"
  ds_data_file :: bytes
  ds_dead_bytes :: nat
  ds_total_bytes :: nat
  ds_has_checksums :: bool
  ds_corrupted :: "nat list"
  ds_parse_errors :: "nat list"
  ds_compaction_safe :: bool

definition elapsed_ms :: "disk_entry \<Rightarrow> instant \<Rightarrow> int" where
  "elapsed_ms de now = wrap_i64 (int (as_millis (now - dk_created_at de)))"

definition disk_is_expired :: "disk_entry \<Rightarrow> instant \<Rightarrow> bool" where
  "disk_is_expired de now = (if dk_ttl_ms de \<le> 0 then False else elapsed_ms de now \<ge> dk_ttl_ms de)"

definition remaining_ttl_ms :: "disk_entry \<Rightarrow> instant \<Rightarrow> int" where
  "remaining_ttl_ms de now =
     (if dk_ttl_ms de \<le> 0 then - 1
      else let remaining = wrap_i64 (dk_ttl_ms de - elapsed_ms de now) in
        if remaining \<le> 0 then 0 else remaining)"

section \<open>Operations\<close>

definition entry_envelope :: "bytes \<Rightarrow> bytes" where
  "entry_envelope entry_data =
     write_u32 (of_nat (length entry_data)) @ write_u32 (crc32 entry_data) @ entry_data"

definition ds_put :: "bytes \<Rightarrow> dump_entry \<Rightarrow> instant \<Rightarrow> write_outcome \<Rightarrow> disk_shard \<Rightarrow> unit result \<times> disk_shard"
  where
  "ds_put key dump now io s =
     (let file_offset = ds_total_bytes s;
          entry_data = write_single_entry dump;
          total_on_disk = 4 + 4 + length entry_data;
          buf = entry_envelope entry_data
      in case io of
        WriteError n truncated \<Rightarrow>
          (let data = ds_data_file s @ take n buf in
           (Inl (Err ''write error''),
            s\<lparr>ds_data_file := (if truncated then set_len file_offset data else data)\<rparr>))
      | Written \<Rightarrow>
          (let de = \<lparr>dk_offset = file_offset, dk_length = unat (of_nat total_on_disk :: u32),
                     dk_ttl_ms = (if de_ttl_ms dump > 0 then de_ttl_ms dump else - 1), dk_created_at = now\<rparr>;
               dead = (case hm_get (ds_index s) key of None \<Rightarrow> 0 | Some old \<Rightarrow> dk_length old)
           in (Inr (), s\<lparr>ds_data_file := ds_data_file s @ buf,
                         ds_index := hm_insert key de (ds_index s),
                         ds_dead_bytes := ds_dead_bytes s + dead,
                         ds_total_bytes := file_offset + total_on_disk\<rparr>)))"

definition read_indexed_entry ::
    "(bytes \<Rightarrow> nat) \<Rightarrow> bytes \<Rightarrow> disk_entry \<Rightarrow> disk_shard \<Rightarrow> (bytes \<times> dump_value \<times> int) result" where
  "read_indexed_entry hll_count key de s =
     (case read_exact (dk_length de) (drop (dk_offset de) (ds_data_file s)) of
        Inl e \<Rightarrow> Inl e
      | Inr (buf, _) \<Rightarrow>
          (case (if ds_has_checksums s then
                   if length buf < 8 then Inl (Err ''disk entry too short for checksum envelope'')
                   else if unat (from_le_bytes (take 4 buf) :: u32) \<noteq> length buf - 8 then
                     Inl (Err ''disk entry length mismatch'')
                   else if (from_le_bytes (take 4 (drop 4 buf)) :: u32) \<noteq> crc32 (drop 8 buf) then
                     Inl (Err ''disk entry checksum mismatch'')
                   else Inr (drop 8 buf)
                 else Inr buf) of
             Inl e \<Rightarrow> Inl e
           | Inr entry_data \<Rightarrow>
               (case read_single_entry hll_count entry_data of
                  Inl e \<Rightarrow> Inl e
                | Inr ((stored_key, value, ttl_ms), cursor) \<Rightarrow>
                    (if stored_key \<noteq> key \<or> cursor \<noteq> [] then
                       Inl (Err ''disk index does not match the complete record'')
                     else Inr (entry_data, value, ttl_ms)))))"

definition ds_get ::
    "(bytes \<Rightarrow> nat) \<Rightarrow> bytes \<Rightarrow> instant \<Rightarrow> disk_shard \<Rightarrow> (dump_value \<times> duration option) option result \<times> disk_shard"
  where
  "ds_get hll_count key now s =
     (case hm_get (ds_index s) key of
        None \<Rightarrow> (Inr None, s)
      | Some de \<Rightarrow>
          (if disk_is_expired de now then
             (Inr None, s\<lparr>ds_index := hm_remove key (ds_index s),
                          ds_dead_bytes := ds_dead_bytes s + dk_length de\<rparr>)
           else
             (let remaining = remaining_ttl_ms de now in
              case read_indexed_entry hll_count key de s of
                Inl e \<Rightarrow> (Inl e, s)
              | Inr (_, value, _) \<Rightarrow>
                  (Inr (Some (value, if remaining > 0 then Some (from_millis (nat remaining)) else None)), s))))"

definition ds_remove :: "bytes \<Rightarrow> disk_shard \<Rightarrow> disk_shard" where
  "ds_remove key s =
     (case hm_get (ds_index s) key of
        None \<Rightarrow> s
      | Some de \<Rightarrow> s\<lparr>ds_index := hm_remove key (ds_index s), ds_dead_bytes := ds_dead_bytes s + dk_length de\<rparr>)"

definition ds_contains :: "bytes \<Rightarrow> disk_shard \<Rightarrow> bool" where
  "ds_contains key s \<longleftrightarrow> hm_contains (ds_index s) key"

definition ds_contains_valid :: "bytes \<Rightarrow> instant \<Rightarrow> disk_shard \<Rightarrow> bool" where
  "ds_contains_valid key now s \<longleftrightarrow>
     (case hm_get (ds_index s) key of Some de \<Rightarrow> \<not> disk_is_expired de now | None \<Rightarrow> False)"

definition ds_keys :: "disk_shard \<Rightarrow> bytes list" where
  "ds_keys s = map fst (ds_index s)"

definition ds_len :: "disk_shard \<Rightarrow> nat" where
  "ds_len s = length (ds_index s)"

definition ds_total_size :: "disk_shard \<Rightarrow> nat" where
  "ds_total_size s = ds_total_bytes s"

text \<open>The copying loop of a compaction: the new file, its index and its length.\<close>

fun compact_loop ::
    "(bytes \<Rightarrow> nat) \<Rightarrow> disk_shard \<Rightarrow> bytes list \<Rightarrow> bytes \<Rightarrow> (bytes \<times> disk_entry) list \<Rightarrow> nat \<Rightarrow>
     (bytes \<times> (bytes \<times> disk_entry) list \<times> nat) result" where
  "compact_loop hll_count s [] out new_index new_total = Inr (out, new_index, new_total)"
| "compact_loop hll_count s (key # keys) out new_index new_total =
     (case hm_get (ds_index s) key of
        None \<Rightarrow> Inl (Err ''tiered index changed'')
      | Some old_entry \<Rightarrow>
          (case read_indexed_entry hll_count key old_entry s of
             Inl e \<Rightarrow> Inl e
           | Inr (entry_data, _, stored_ttl_ms) \<Rightarrow>
               (let total_on_disk = 8 + length entry_data in
                if \<not> length entry_data < 2 ^ 32 then Inl (Err ''tiered entry is too large'')
                else if total_on_disk > usize_max then Inl (Err ''tiered size overflow'')
                else if \<not> total_on_disk < 2 ^ 32 then Inl (Err ''tiered entry is too large'')
                else if new_total + total_on_disk > usize_max then Inl (Err ''tiered size overflow'')
                else compact_loop hll_count s keys (out @ entry_envelope entry_data)
                       (hm_insert key
                          \<lparr>dk_offset = new_total, dk_length = total_on_disk, dk_ttl_ms = stored_ttl_ms,
                           dk_created_at = dk_created_at old_entry\<rparr> new_index)
                       (new_total + total_on_disk))))"

definition ds_compact :: "(bytes \<Rightarrow> nat) \<Rightarrow> replace_outcome \<Rightarrow> disk_shard \<Rightarrow> unit result \<times> disk_shard" where
  "ds_compact hll_count io s =
     (if \<not> ds_compaction_safe s then
        (Inl (Err ''refusing to compact a tiered shard that opened with rejected records''), s)
      else case compact_loop hll_count s (sort (ds_keys s)) DATA_MAGIC [] (length DATA_MAGIC) of
        Inl e \<Rightarrow> (Inl e, s)
      | Inr (data, new_index, new_total) \<Rightarrow>
          (if io = FailsBeforeRename then (Inl (Err ''io error''), s)
           else ((if io = Replaced then Inr () else Inl (Err ''io error'')),
                 s\<lparr>ds_data_file := data, ds_index := new_index, ds_total_bytes := new_total,
                   ds_dead_bytes := 0, ds_has_checksums := True, ds_compaction_safe := True\<rparr>)))"

fun dump_loop ::
    "(bytes \<Rightarrow> nat) \<Rightarrow> instant \<Rightarrow> bytes list \<Rightarrow> disk_shard \<Rightarrow> dump_entry list \<Rightarrow> dump_entry list result \<times> disk_shard"
  where
  "dump_loop hll_count now [] s entries = (Inr entries, s)"
| "dump_loop hll_count now (key # keys) s entries =
     (case ds_get hll_count key now s of
        (Inl e, s) \<Rightarrow> (Inl e, s)
      | (Inr None, s) \<Rightarrow> dump_loop hll_count now keys s entries
      | (Inr (Some (value, _)), s) \<Rightarrow>
          (case hm_get (ds_index s) key of
             None \<Rightarrow> (Inl Panic, s)
           | Some de \<Rightarrow>
               dump_loop hll_count now keys s
                 (entries @ [\<lparr>de_key = key, de_value = value, de_ttl_ms = remaining_ttl_ms de now\<rparr>])))"

definition ds_dump_all :: "(bytes \<Rightarrow> nat) \<Rightarrow> instant \<Rightarrow> disk_shard \<Rightarrow> dump_entry list result \<times> disk_shard" where
  "ds_dump_all hll_count now s = dump_loop hll_count now (ds_keys s) s []"

section \<open>Opening\<close>

text \<open>One record of the scan of a checksummed file, at the position \<open>start\<close>.\<close>

definition index_record :: "bytes \<Rightarrow> disk_entry \<Rightarrow> nat \<Rightarrow> disk_shard \<Rightarrow> disk_shard" where
  "index_record key de total_on_disk s =
     s\<lparr>ds_index := hm_insert key de (ds_index s),
       ds_dead_bytes := ds_dead_bytes s +
         (case hm_get (ds_index s) key of None \<Rightarrow> 0 | Some old \<Rightarrow> dk_length old),
       ds_total_bytes := ds_total_bytes s + total_on_disk\<rparr>"

function rebuild_loop :: "(bytes \<Rightarrow> nat) \<Rightarrow> instant \<Rightarrow> nat \<Rightarrow> disk_shard \<Rightarrow> disk_shard" where
  "rebuild_loop hll_count now start s =
     (if start \<ge> length (ds_data_file s) then s
      else case read_u32 (drop start (ds_data_file s)) of
        Inl _ \<Rightarrow> s
      | Inr (entry_len, r) \<Rightarrow>
          (case read_u32 r of
             Inl _ \<Rightarrow> s
           | Inr (stored_crc, r) \<Rightarrow>
               (if start + 8 + unat entry_len > length (ds_data_file s) then s
                else case read_exact (unat entry_len) r of
                  Inl _ \<Rightarrow> s
                | Inr (entry_data, _) \<Rightarrow>
                    (let total_on_disk = 4 + 4 + unat entry_len;
                         skipped = s\<lparr>ds_dead_bytes := ds_dead_bytes s + total_on_disk,
                                     ds_total_bytes := ds_total_bytes s + total_on_disk\<rparr>
                     in rebuild_loop hll_count now (start + total_on_disk)
                       (if stored_crc \<noteq> crc32 entry_data then
                          skipped\<lparr>ds_corrupted := ds_corrupted s @ [start]\<rparr>
                        else case read_single_entry hll_count entry_data of
                          Inl _ \<Rightarrow> skipped\<lparr>ds_parse_errors := ds_parse_errors s @ [start]\<rparr>
                        | Inr ((key, _, ttl_ms), _) \<Rightarrow>
                            index_record key
                              \<lparr>dk_offset = start, dk_length = unat (of_nat total_on_disk :: u32),
                               dk_ttl_ms = ttl_ms, dk_created_at = now\<rparr> total_on_disk s)))))"
  by pat_completeness auto
termination
  by (relation "measure (\<lambda>(h, now, start, s). length (ds_data_file s) - start)")
    (auto simp: index_record_def Let_def split: sum.splits)

declare rebuild_loop.simps [simp del]

text \<open>A reader never gives back more than it was given.\<close>

definition shrinks :: "(bytes \<Rightarrow> ('a \<times> bytes) result) \<Rightarrow> bool" where
  "shrinks dec \<longleftrightarrow> (\<forall>r x r'. dec r = Inr (x, r') \<longrightarrow> length r' \<le> length r)"

named_theorems shrink_intros

lemma shrinksD: "shrinks dec \<Longrightarrow> dec r = Inr (x, r') \<Longrightarrow> length r' \<le> length r"
  by (auto simp: shrinks_def)

lemma shrinks_primitive [shrink_intros]:
  "shrinks read_u32" "shrinks read_i64" "shrinks read_f64" "shrinks read_bytes" "shrinks read_string"
  by (auto simp: shrinks_def read_u32_def read_i64_def read_f64_def read_bytes_def read_string_def
      read_exact_def Let_def split: if_splits sum.splits)

lemma shrinks_pair [shrink_intros]: "shrinks d1 \<Longrightarrow> shrinks d2 \<Longrightarrow> shrinks (dec_pair d1 d2)"
  by (auto simp: shrinks_def dec_pair_def split: sum.splits) (meson order_trans)

lemma shrinks_many: "shrinks dec \<Longrightarrow> shrinks (read_many dec n)"
proof (induction n)
  case (Suc n)
  then show ?case by (auto simp: shrinks_def split: sum.splits) (meson order_trans)
qed (simp add: shrinks_def)

lemma shrinks_counted [shrink_intros]: "shrinks dec \<Longrightarrow> shrinks (dec_counted dec)"
  using shrinks_primitive(1) shrinks_many [of dec]
  by (fastforce simp: shrinks_def dec_counted_def split: sum.splits)

lemma shrinks_delivery [shrink_intros]: "shrinks read_delivery_count"
  using shrinks_primitive(1) by (fastforce simp: shrinks_def read_delivery_count_def split: sum.splits)

lemma shrinks_metadata [shrink_intros]: "shrinks read_metadata"
  using shrinks_primitive(5)
  by (fastforce simp: shrinks_def read_metadata_def read_exact_def split: sum.splits if_splits)

lemma shrinks_groups [shrink_intros]: "shrinks read_stream_groups"
proof -
  have "shrinks (dec_counted (dec_pair read_string (dec_pair read_string
      (dec_pair (dec_counted (dec_pair read_string (dec_counted read_string)))
        (dec_counted (dec_pair read_string (dec_pair read_string read_delivery_count)))))))"
    by (intro shrink_intros)
  then show ?thesis by (simp add: shrinks_def read_stream_groups_def)
qed

lemma shrinks_registers [shrink_intros]: "shrinks (\<lambda>r. read_registers r n)"
  by (auto simp: shrinks_def read_registers_def read_exact_def split: if_splits)

lemma shrinks_map [shrink_intros]:
  assumes "shrinks d"
  shows "shrinks (\<lambda>r. map_sum id (map_prod f id) (d r))"
  unfolding shrinks_def
proof (intro allI impI)
  fix r x r'
  assume "map_sum id (map_prod f id) (d r) = Inr (x, r')"
  then obtain y where "d r = Inr (y, r')" by (cases "d r") auto
  then show "length r' \<le> length r" by (rule shrinksD [OF assms])
qed

lemma shrinks_then [shrink_intros]:
  "shrinks d \<Longrightarrow> (\<And>x. shrinks (f x)) \<Longrightarrow>
   shrinks (\<lambda>r. case d r of Inl e \<Rightarrow> Inl e | Inr (x, r') \<Rightarrow> f x r')"
  by (auto simp: shrinks_def split: sum.splits) (meson order_trans)

lemma shrinks_const [shrink_intros]: "shrinks (\<lambda>r. Inr (x, r))" "shrinks (\<lambda>r. Inl e)"
  by (simp_all add: shrinks_def)

lemma shrinks_if [shrink_intros]: "shrinks d \<Longrightarrow> shrinks d' \<Longrightarrow> shrinks (\<lambda>r. if b then d r else d' r)"
  by (cases b) simp_all

lemma shrinks_value: "shrinks (read_value hll_count t)"
  unfolding read_value_def [abs_def] by (intro shrink_intros)

lemma read_single_entry_shrinks:
  assumes "read_single_entry hll_count r = Inr (x, r')"
  shows "length r' < length r"
proof -
  obtain t r1 where t: "read_exact 1 r = Inr (t, r1)"
    using assms by (auto simp: read_single_entry_def split: sum.splits)
  then have "length r1 < length r" by (auto simp: read_exact_def split: if_splits)
  moreover have "shrinks (\<lambda>r. case read_string r of Inl e \<Rightarrow> Inl e | Inr (key, r) \<Rightarrow>
      (case read_i64 r of Inl e \<Rightarrow> Inl e | Inr (ttl_ms, r) \<Rightarrow>
        (case read_value hll_count (t ! 0) r of Inl e \<Rightarrow> Inl e
         | Inr (value, r) \<Rightarrow> Inr ((key, value, ttl_ms), r))))"
    by (intro shrink_intros shrinks_value)
  from shrinksD [OF this, of r1 x r'] have "length r' \<le> length r1"
    using assms t by (simp add: read_single_entry_def)
  ultimately show ?thesis by simp
qed

text \<open>
  The scan of a file in the old format, without envelopes. An error other than
  the end of the input is passed on.
\<close>

function rebuild_legacy :: "(bytes \<Rightarrow> nat) \<Rightarrow> instant \<Rightarrow> nat \<Rightarrow> disk_shard \<Rightarrow> disk_shard result" where
  "rebuild_legacy hll_count now start s =
     (if start \<ge> length (ds_data_file s) then Inr s
      else case read_single_entry hll_count (drop start (ds_data_file s)) of
        Inl e \<Rightarrow> if e = unexpected_eof then Inr s else Inl e
      | Inr ((key, _, ttl_ms), r) \<Rightarrow>
          (let end_pos = length (ds_data_file s) - length r;
               len = unat (of_nat (end_pos - start) :: u32)
           in rebuild_legacy hll_count now end_pos
             (index_record key \<lparr>dk_offset = start, dk_length = len, dk_ttl_ms = ttl_ms, dk_created_at = now\<rparr>
                len s)))"
  by pat_completeness auto
termination
  by (relation "measure (\<lambda>(h, now, start, s). length (ds_data_file s) - start)")
    (auto simp: index_record_def Let_def dest: read_single_entry_shrinks)

declare rebuild_legacy.simps [simp del]

definition rebuild_index :: "(bytes \<Rightarrow> nat) \<Rightarrow> instant \<Rightarrow> disk_shard \<Rightarrow> disk_shard result" where
  "rebuild_index hll_count now s =
     (let header_size = (if ds_has_checksums s then 4 else 0);
          s = s\<lparr>ds_total_bytes := header_size\<rparr>
      in if length (ds_data_file s) \<le> header_size then Inr s
         else if ds_has_checksums s then Inr (rebuild_loop hll_count now header_size s)
         else rebuild_legacy hll_count now header_size s)"

text \<open>
  \<open>open\<close> on what it finds in the directory: the data file, the backup left by an
  interrupted compaction, and whether a temporary file is there.
\<close>

definition ds_open ::
    "(bytes \<Rightarrow> nat) \<Rightarrow> bytes option \<Rightarrow> bytes option \<Rightarrow> bool \<Rightarrow> instant \<Rightarrow> disk_shard result" where
  "ds_open hll_count target backup has_compaction_temp now =
     (if target = None \<and> backup = None \<and> has_compaction_temp then
        Inl (Err ''tiered data file is missing beside an interrupted compaction'')
      else let backup_exists = (backup \<noteq> None);
               data = (case target of Some d \<Rightarrow> d | None \<Rightarrow> (case backup of Some d \<Rightarrow> d | None \<Rightarrow> []))
      in if data = [] \<and> backup_exists then
           Inl (Err ''tiered canonical generation is empty; previous generation preserved'')
         else let has_checksums = (data = [] \<or> length data \<ge> 4 \<and> take 4 data = DATA_MAGIC);
                  data = (if data = [] then DATA_MAGIC else data);
                  ds = \<lparr>ds_index = [], ds_data_file = data, ds_dead_bytes = 0, ds_total_bytes = 0,
                        ds_has_checksums = has_checksums, ds_corrupted = [], ds_parse_errors = [],
                        ds_compaction_safe = False\<rparr>
         in case rebuild_index hll_count now ds of
           Inl e \<Rightarrow> Inl e
         | Inr ds \<Rightarrow>
             (if ds_total_bytes ds \<noteq> length data \<and> backup_exists then
                Inl (Err ''tiered canonical generation is incomplete; previous generation preserved'')
              else let ds = (if ds_total_bytes ds \<noteq> length data then
                               ds\<lparr>ds_data_file := set_len (ds_total_bytes ds) data,
                                  ds_parse_errors := ds_parse_errors ds @ [ds_total_bytes ds]\<rparr>
                             else ds)
              in Inr (ds\<lparr>ds_compaction_safe := (ds_corrupted ds = [] \<and> ds_parse_errors ds = [])\<rparr>)))"

section \<open>The cold tier as a map\<close>

text \<open>
  What the tiered store relies on: a put changes the entry of its key only, a
  removal deletes it, and membership agrees with lookup.
\<close>

locale cold_tier =
  fixes inv :: "'s \<Rightarrow> bool" and lookup :: "'s \<Rightarrow> bytes \<Rightarrow> 'v option"
    and storable :: "'e \<Rightarrow> bool" and key_of :: "'e \<Rightarrow> bytes" and image :: "'e \<Rightarrow> instant \<Rightarrow> 'v"
    and put :: "'e \<Rightarrow> instant \<Rightarrow> 's \<Rightarrow> 's" and remove :: "bytes \<Rightarrow> 's \<Rightarrow> 's"
    and contains :: "bytes \<Rightarrow> 's \<Rightarrow> bool"
  assumes put_inv: "inv s \<Longrightarrow> storable e \<Longrightarrow> inv (put e now s)"
    and put_lookup: "inv s \<Longrightarrow> storable e \<Longrightarrow>
      lookup (put e now s) = (lookup s)(key_of e \<mapsto> image e now)"
    and remove_inv: "inv s \<Longrightarrow> inv (remove k s)"
    and remove_lookup: "inv s \<Longrightarrow> lookup (remove k s) = (lookup s)(k := None)"
    and contains_iff: "inv s \<Longrightarrow> contains k s \<longleftrightarrow> lookup s k \<noteq> None"
begin

text \<open>A key that was evicted and promoted again leaves no trace of its stay.\<close>

lemma evict_promote:
  "inv s \<Longrightarrow> storable e \<Longrightarrow> lookup (remove (key_of e) (put e now s)) = (lookup s)(key_of e := None)"
  by (simp add: remove_lookup put_inv put_lookup)

text \<open>The last eviction of a key wins.\<close>

lemma put_again:
  "inv s \<Longrightarrow> storable e \<Longrightarrow> storable e' \<Longrightarrow> key_of e = key_of e' \<Longrightarrow>
   lookup (put e' now' (put e now s)) = lookup (put e' now' s)"
  by (simp add: put_inv put_lookup)

lemma contains_put: "inv s \<Longrightarrow> storable e \<Longrightarrow> contains k (put e now s) \<longleftrightarrow> k = key_of e \<or> contains k s"
  by (simp add: contains_iff put_inv put_lookup)

end

definition storable :: "dump_entry \<Rightarrow> bool" where
  "storable e \<longleftrightarrow> str_ok (de_key e) \<and> is_i64 (de_ttl_ms e) \<and> value_ok (de_value e) \<and>
     length (write_single_entry e) + 8 < 2 ^ 32"

definition record_at :: "bytes \<Rightarrow> disk_entry \<Rightarrow> dump_entry \<Rightarrow> bool" where
  "record_at data de e \<longleftrightarrow> dk_length de = 8 + length (write_single_entry e) \<and>
     dk_offset de + dk_length de \<le> length data \<and>
     take (dk_length de) (drop (dk_offset de) data) = entry_envelope (write_single_entry e) \<and>
     dk_ttl_ms de = stored_ttl (de_ttl_ms e)"

definition shard_wf :: "disk_shard \<Rightarrow> bool" where
  "shard_wf s \<longleftrightarrow> ds_has_checksums s \<and> hm_wf (ds_index s) \<and> ds_total_bytes s = length (ds_data_file s) \<and>
     (\<forall>k de. hm_get (ds_index s) k = Some de \<longrightarrow>
        (\<exists>e. storable e \<and> de_key e = k \<and> record_at (ds_data_file s) de e)) \<and>
     ds_total_bytes s = 4 + ds_dead_bytes s + hm_sum (\<lambda>_. dk_length) (ds_index s)"

text \<open>The value, TTL and eviction time a key is found with.\<close>

definition ds_lookup :: "(bytes \<Rightarrow> nat) \<Rightarrow> disk_shard \<Rightarrow> bytes \<Rightarrow> (dump_value \<times> int \<times> instant) option" where
  "ds_lookup hll_count s k =
     (case hm_get (ds_index s) k of
        None \<Rightarrow> None
      | Some de \<Rightarrow>
          (case read_indexed_entry hll_count k de s of
             Inl _ \<Rightarrow> None
           | Inr (_, v, ttl) \<Rightarrow> Some (v, ttl, dk_created_at de)))"

lemma length_envelope [simp]: "length (entry_envelope d) = 8 + length d"
  by (simp add: entry_envelope_def)

lemma read_record:
  assumes "record_at (ds_data_file s) de e" and "storable e" and "ds_has_checksums s"
  shows "read_indexed_entry hll_count (de_key e) de s =
    Inr (write_single_entry e, restored hll_count (de_value e), stored_ttl (de_ttl_ms e))"
proof -
  let ?d = "write_single_entry e"
  have buf: "read_exact (dk_length de) (drop (dk_offset de) (ds_data_file s)) =
      Inr (entry_envelope ?d, drop (dk_length de) (drop (dk_offset de) (ds_data_file s)))"
    using assms(1) by (auto simp: record_at_def read_exact_def)
  have len: "unat (of_nat (length ?d) :: u32) = length ?d"
    using assms(2) by (simp add: storable_def unat_of_nat)
  have "take 4 (entry_envelope ?d) = write_u32 (of_nat (length ?d))"
    "take 4 (drop 4 (entry_envelope ?d)) = write_u32 (crc32 ?d)" "drop 8 (entry_envelope ?d) = ?d"
    by (simp_all add: entry_envelope_def)
  moreover have "read_single_entry hll_count ?d =
      Inr ((de_key e, restored hll_count (de_value e), stored_ttl (de_ttl_ms e)), [])"
    using entry_round [of e hll_count "[]"] assms(2) by (simp add: storable_def)
  ultimately show ?thesis
    using buf len assms(3)
    by (simp add: read_indexed_entry_def write_u32_def from_le_le_bytes)
qed

lemma record_at_append: "record_at data de e \<Longrightarrow> record_at (data @ ext) de e"
  by (auto simp: record_at_def)

lemma lookup_record:
  assumes "shard_wf s" and "hm_get (ds_index s) k = Some de"
  obtains e where "storable e" "de_key e = k" "record_at (ds_data_file s) de e"
    "ds_lookup hll_count s k = Some (restored hll_count (de_value e), stored_ttl (de_ttl_ms e), dk_created_at de)"
proof -
  obtain e where e: "storable e" "de_key e = k" "record_at (ds_data_file s) de e"
    using assms by (auto simp: shard_wf_def)
  moreover have "ds_has_checksums s" using assms(1) by (simp add: shard_wf_def)
  ultimately show thesis
    using that [OF e] read_record [of s de e hll_count] assms(2) by (simp add: ds_lookup_def)
qed

lemma lookup_None: "shard_wf s \<Longrightarrow> ds_lookup hll_count s k = None \<longleftrightarrow> hm_get (ds_index s) k = None"
proof (cases "hm_get (ds_index s) k")
  case (Some de)
  assume "shard_wf s"
  from lookup_record [OF this Some, of hll_count] Some show ?thesis by (metis option.distinct(1))
qed (simp add: ds_lookup_def)

definition cold_image :: "(bytes \<Rightarrow> nat) \<Rightarrow> dump_entry \<Rightarrow> instant \<Rightarrow> dump_value \<times> int \<times> instant" where
  "cold_image hll_count e now = (restored hll_count (de_value e), stored_ttl (de_ttl_ms e), now)"

definition put_entry :: "dump_entry \<Rightarrow> instant \<Rightarrow> disk_shard \<Rightarrow> disk_shard" where
  "put_entry e now s = snd (ds_put (de_key e) e now Written s)"

lemma ds_put_written:
  assumes "storable e"
  shows "ds_put (de_key e) e now Written s =
    (Inr (), s\<lparr>ds_data_file := ds_data_file s @ entry_envelope (write_single_entry e),
       ds_index := hm_insert (de_key e) \<lparr>dk_offset = ds_total_bytes s,
          dk_length = 8 + length (write_single_entry e), dk_ttl_ms = stored_ttl (de_ttl_ms e),
          dk_created_at = now\<rparr> (ds_index s),
       ds_dead_bytes := ds_dead_bytes s + opt_weight (\<lambda>_. dk_length) (de_key e) (hm_get (ds_index s) (de_key e)),
       ds_total_bytes := ds_total_bytes s + (8 + length (write_single_entry e))\<rparr>)"
  using assms
  by (auto simp: ds_put_def Let_def storable_def stored_ttl_def opt_weight_def unat_of_nat
      split: option.splits)

lemma put_entry_wf:
  assumes "shard_wf s" and "storable e"
  shows "shard_wf (put_entry e now s)"
proof -
  let ?d = "write_single_entry e"
  let ?de = "\<lparr>dk_offset = ds_total_bytes s, dk_length = 8 + length ?d,
     dk_ttl_ms = stored_ttl (de_ttl_ms e), dk_created_at = now\<rparr>"
  let ?data = "ds_data_file s @ entry_envelope ?d"
  have wf: "hm_wf (ds_index s)" and tot: "ds_total_bytes s = length (ds_data_file s)"
    and acc: "ds_total_bytes s = 4 + ds_dead_bytes s + hm_sum (\<lambda>_. dk_length) (ds_index s)"
    using assms(1) by (auto simp: shard_wf_def)
  have new: "record_at ?data ?de e" using tot by (simp add: record_at_def)
  have "\<exists>e'. storable e' \<and> de_key e' = k \<and> record_at ?data de e'"
    if "hm_get (hm_insert (de_key e) ?de (ds_index s)) k = Some de" for k de
    using that new assms record_at_append by (fastforce simp: shard_wf_def split: if_splits)
  moreover have "hm_sum (\<lambda>_. dk_length) (hm_insert (de_key e) ?de (ds_index s)) +
      opt_weight (\<lambda>_. dk_length) (de_key e) (hm_get (ds_index s) (de_key e)) =
      hm_sum (\<lambda>_. dk_length) (ds_index s) + (8 + length ?d)"
    using hm_sum_insert [OF wf, of "\<lambda>_. dk_length" "de_key e" ?de] by simp
  ultimately show ?thesis
    using assms(1) wf tot acc by (simp add: put_entry_def ds_put_written [OF assms(2)] shard_wf_def hm_wf_insert)
qed

lemma put_entry_lookup:
  assumes "shard_wf s" and "storable e"
  shows "ds_lookup hll_count (put_entry e now s) =
    (ds_lookup hll_count s)(de_key e \<mapsto> cold_image hll_count e now)"
proof
  fix k
  note wf = put_entry_wf [OF assms, of now]
  let ?s = "put_entry e now s"
  show "ds_lookup hll_count ?s k = ((ds_lookup hll_count s)(de_key e \<mapsto> cold_image hll_count e now)) k"
  proof (cases "k = de_key e")
    case True
    have "record_at (ds_data_file ?s) \<lparr>dk_offset = ds_total_bytes s,
        dk_length = 8 + length (write_single_entry e), dk_ttl_ms = stored_ttl (de_ttl_ms e),
        dk_created_at = now\<rparr> e"
      using assms by (simp add: put_entry_def ds_put_written record_at_def shard_wf_def)
    from read_record [OF this assms(2), of hll_count] True wf show ?thesis
      by (simp add: ds_lookup_def put_entry_def ds_put_written [OF assms(2)] cold_image_def shard_wf_def)
  next
    case False
    then have get: "hm_get (ds_index ?s) k = hm_get (ds_index s) k"
      by (simp add: put_entry_def ds_put_written [OF assms(2)])
    show ?thesis
    proof (cases "hm_get (ds_index s) k")
      case None
      then show ?thesis using get False by (simp add: ds_lookup_def)
    next
      case (Some de)
      obtain e' where e': "storable e'" "de_key e' = k" "record_at (ds_data_file s) de e'"
        "ds_lookup hll_count s k =
           Some (restored hll_count (de_value e'), stored_ttl (de_ttl_ms e'), dk_created_at de)"
        by (rule lookup_record [OF assms(1) Some])
      have "record_at (ds_data_file ?s) de e'"
        using record_at_append [OF e'(3)] by (simp add: put_entry_def ds_put_written [OF assms(2)])
      from read_record [OF this e'(1), of hll_count] wf get Some e' False show ?thesis
        by (simp add: ds_lookup_def shard_wf_def)
    qed
  qed
qed

lemma read_indexed_entry_cong:
  "ds_data_file s' = ds_data_file s \<Longrightarrow> ds_has_checksums s' = ds_has_checksums s \<Longrightarrow>
   read_indexed_entry hll_count k de s' = read_indexed_entry hll_count k de s"
  unfolding read_indexed_entry_def by (simp only:)

lemma drop_index_wf:
  assumes "shard_wf s" and "hm_get (ds_index s) k = Some de"
  shows "shard_wf (s\<lparr>ds_index := hm_remove k (ds_index s), ds_dead_bytes := ds_dead_bytes s + dk_length de\<rparr>)"
  using assms hm_sum_remove [of "ds_index s" "\<lambda>_. dk_length" k]
  by (auto simp: shard_wf_def hm_wf_remove opt_weight_def split: if_splits)

lemma ds_remove_wf: "shard_wf s \<Longrightarrow> shard_wf (ds_remove k s)"
  using drop_index_wf by (auto simp: ds_remove_def split: option.split)

lemma drop_index_lookup:
  assumes "shard_wf s"
  shows "ds_lookup hll_count (s\<lparr>ds_index := hm_remove k (ds_index s), ds_dead_bytes := n\<rparr>) =
    (ds_lookup hll_count s)(k := None)"
proof
  fix k'
  have "read_indexed_entry hll_count k' de (s\<lparr>ds_index := hm_remove k (ds_index s), ds_dead_bytes := n\<rparr>) =
      read_indexed_entry hll_count k' de s" for de
    by (rule read_indexed_entry_cong) simp_all
  then show "ds_lookup hll_count (s\<lparr>ds_index := hm_remove k (ds_index s), ds_dead_bytes := n\<rparr>) k' =
      ((ds_lookup hll_count s)(k := None)) k'"
    by (cases "hm_get (ds_index s) k'") (simp_all add: ds_lookup_def)
qed

lemma ds_remove_lookup:
  assumes "shard_wf s"
  shows "ds_lookup hll_count (ds_remove k s) = (ds_lookup hll_count s)(k := None)"
proof (cases "hm_get (ds_index s) k")
  case None
  then have "ds_lookup hll_count s k = None" by (simp add: ds_lookup_def)
  then have "ds_lookup hll_count s = (ds_lookup hll_count s)(k := None)" by (simp add: fun_upd_idem)
  with None show ?thesis by (simp add: ds_remove_def)
next
  case (Some de)
  then show ?thesis using drop_index_lookup [OF assms] by (simp add: ds_remove_def)
qed

interpretation disk_tier: cold_tier shard_wf "ds_lookup hll_count" storable de_key "cold_image hll_count"
  put_entry ds_remove ds_contains for hll_count
  by unfold_locales
    (auto simp: put_entry_wf put_entry_lookup ds_remove_wf ds_remove_lookup ds_contains_def hm_contains_def hm_get_def lookup_None)

text \<open>
  What \<open>get\<close> answers for a well-formed shard: the stored value with the rest of its
  TTL, or nothing once the TTL has run out, when the key is dropped.
\<close>

lemma wrap_i64_id: "is_i64 n \<Longrightarrow> wrap_i64 n = n"
  by (simp add: is_i64_def wrap_i64_def i64_min_def i64_max_def)

lemma ds_get_lookup:
  assumes "shard_wf s"
  shows "ds_get hll_count k now s =
    (case hm_get (ds_index s) k of
       None \<Rightarrow> (Inr None, s)
     | Some de \<Rightarrow>
         if disk_is_expired de now then (Inr None, ds_remove k s)
         else (Inr (map_option (\<lambda>(v, _, _). (v, if remaining_ttl_ms de now > 0
             then Some (from_millis (nat (remaining_ttl_ms de now))) else None)) (ds_lookup hll_count s k)), s))"
proof (cases "hm_get (ds_index s) k")
  case (Some de)
  obtain e where e: "storable e" "de_key e = k" "record_at (ds_data_file s) de e"
    by (rule lookup_record [OF assms Some])
  moreover have "ds_has_checksums s" using assms by (simp add: shard_wf_def)
  ultimately show ?thesis
    using Some read_record [of s de e hll_count]
    by (auto simp: ds_get_def ds_remove_def ds_lookup_def Let_def)
qed (simp add: ds_get_def)

lemma ds_get_put:
  assumes "shard_wf s" and "storable e" and "int (as_millis (now - t0)) \<le> i64_max"
    and "put_entry e t0 s = s'"
  shows "fst (ds_get hll_count (de_key e) now s') =
      Inr (if 0 < de_ttl_ms e \<and> de_ttl_ms e \<le> int (as_millis (now - t0)) then None
           else Some (restored hll_count (de_value e),
             if 0 < de_ttl_ms e
             then Some (from_millis (nat (de_ttl_ms e - int (as_millis (now - t0))))) else None))"
    and "snd (ds_get hll_count (de_key e) now s') =
      (if 0 < de_ttl_ms e \<and> de_ttl_ms e \<le> int (as_millis (now - t0)) then ds_remove (de_key e) s' else s')"
proof -
  define de where "de = \<lparr>dk_offset = ds_total_bytes s, dk_length = 8 + length (write_single_entry e),
     dk_ttl_ms = stored_ttl (de_ttl_ms e), dk_created_at = t0\<rparr>"
  have wf: "shard_wf s'" and look: "ds_lookup hll_count s' = (ds_lookup hll_count s)(de_key e \<mapsto> cold_image hll_count e t0)"
    using put_entry_wf put_entry_lookup assms(1,2,4) by auto
  have get: "hm_get (ds_index s') (de_key e) = Some de"
    using assms(4) by (auto simp: put_entry_def ds_put_written [OF assms(2)] de_def)
  have el: "elapsed_ms de now = int (as_millis (now - t0))"
    using assms(3) by (simp add: elapsed_ms_def de_def wrap_i64_id is_i64_def i64_min_def)
  have ttl: "is_i64 (de_ttl_ms e)" using assms(2) by (simp add: storable_def)
  then have rem: "wrap_i64 (de_ttl_ms e - int (as_millis (now - t0))) = de_ttl_ms e - int (as_millis (now - t0))"
    if "0 < de_ttl_ms e"
    using that assms(3) by (intro wrap_i64_id) (simp add: is_i64_def i64_min_def i64_max_def)
  show "fst (ds_get hll_count (de_key e) now s') =
      Inr (if 0 < de_ttl_ms e \<and> de_ttl_ms e \<le> int (as_millis (now - t0)) then None
           else Some (restored hll_count (de_value e),
             if 0 < de_ttl_ms e
             then Some (from_millis (nat (de_ttl_ms e - int (as_millis (now - t0))))) else None))"
    using get look el rem
    by (auto simp: ds_get_lookup [OF wf] disk_is_expired_def remaining_ttl_ms_def cold_image_def Let_def
        de_def stored_ttl_def)
  show "snd (ds_get hll_count (de_key e) now s') =
      (if 0 < de_ttl_ms e \<and> de_ttl_ms e \<le> int (as_millis (now - t0)) then ds_remove (de_key e) s' else s')"
    using get el by (auto simp: ds_get_lookup [OF wf] disk_is_expired_def de_def stored_ttl_def)
qed

text \<open>
  Claim C13. The cold tier keeps what was evicted. After an entry has been put, a
  get of its key at a later time returns its value, and the TTL that is left,
  as long as less than the TTL has passed, and nothing afterwards; the entries of
  other keys and the shard's invariant, with every byte of the file accounted for
  as header, dead or live, are untouched by both.
\<close>

theorem cold_put_get:
  assumes "shard_wf s" and "storable e" and "int (as_millis (now - t0)) \<le> i64_max"
    and "put_entry e t0 s = s'"
  shows "shard_wf s' \<and>
    fst (ds_get hll_count (de_key e) now s') =
      Inr (if 0 < de_ttl_ms e \<and> de_ttl_ms e \<le> int (as_millis (now - t0)) then None
           else Some (restored hll_count (de_value e),
             if 0 < de_ttl_ms e
             then Some (from_millis (nat (de_ttl_ms e - int (as_millis (now - t0))))) else None)) \<and>
    (\<forall>k. k \<noteq> de_key e \<longrightarrow>
      ds_lookup hll_count (snd (ds_get hll_count (de_key e) now s')) k = ds_lookup hll_count s k) \<and>
    shard_wf (snd (ds_get hll_count (de_key e) now s'))"
proof -
  have wf: "shard_wf s'" and look: "ds_lookup hll_count s' = (ds_lookup hll_count s)(de_key e \<mapsto> cold_image hll_count e t0)"
    using put_entry_wf put_entry_lookup assms(1,2,4) by auto
  show ?thesis
    using ds_get_put [OF assms, of hll_count] wf look ds_remove_wf [OF wf] ds_remove_lookup [OF wf] by auto
qed

section \<open>Compaction\<close>

definition live_length :: "disk_shard \<Rightarrow> bytes \<Rightarrow> nat" where
  "live_length s k = (case hm_get (ds_index s) k of None \<Rightarrow> 0 | Some de \<Rightarrow> dk_length de)"

text \<open>Every record copied so far is the record of the same key in the old file.\<close>

definition copied :: "disk_shard \<Rightarrow> bytes \<Rightarrow> (bytes \<times> disk_entry) list \<Rightarrow> bool" where
  "copied s out idx \<longleftrightarrow> hm_wf idx \<and>
     (\<forall>k de'. hm_get idx k = Some de' \<longrightarrow>
        (\<exists>de e. hm_get (ds_index s) k = Some de \<and> storable e \<and> de_key e = k \<and>
           record_at (ds_data_file s) de e \<and> record_at out de' e \<and> dk_created_at de' = dk_created_at de))"

lemma compact_step:
  assumes "shard_wf s" and "hm_get (ds_index s) k = Some de" and "length out + dk_length de \<le> usize_max"
  shows "\<exists>e. storable e \<and> de_key e = k \<and> record_at (ds_data_file s) de e \<and>
    (let new = \<lparr>dk_offset = length out, dk_length = dk_length de, dk_ttl_ms = dk_ttl_ms de,
                dk_created_at = dk_created_at de\<rparr>;
         out' = out @ entry_envelope (write_single_entry e)
     in compact_loop hll_count s (k # keys) out idx (length out) =
          compact_loop hll_count s keys out' (hm_insert k new idx) (length out') \<and>
        record_at out' new e)"
proof -
  obtain e where e: "storable e" "de_key e = k" "record_at (ds_data_file s) de e"
    by (rule lookup_record [OF assms(1,2)])
  have "read_indexed_entry hll_count k de s =
      Inr (write_single_entry e, restored hll_count (de_value e), stored_ttl (de_ttl_ms e))"
    using read_record [OF e(3,1)] e(2) assms(1) by (simp add: shard_wf_def)
  moreover have "dk_length de = 8 + length (write_single_entry e)" "dk_ttl_ms de = stored_ttl (de_ttl_ms e)"
    using e(3) by (auto simp: record_at_def)
  ultimately show ?thesis
    using e assms(2,3) by (intro exI [of _ e]) (simp add: Let_def storable_def record_at_def add.commute)
qed

lemma compact_loop_copies:
  assumes "shard_wf s" and "distinct keys" and "\<forall>k \<in> set keys. hm_get (ds_index s) k \<noteq> None"
    and "\<forall>k \<in> set keys. hm_get idx k = None" and "copied s out idx"
    and "length out + sum_list (map (live_length s) keys) \<le> usize_max"
    and "length out = 4 + hm_sum (\<lambda>_. dk_length) idx"
  shows "\<exists>out' idx'. compact_loop hll_count s keys out idx (length out) = Inr (out', idx', length out') \<and>
    copied s out' idx' \<and> (\<forall>k. hm_get idx' k \<noteq> None \<longleftrightarrow> hm_get idx k \<noteq> None \<or> k \<in> set keys) \<and>
    length out' = 4 + hm_sum (\<lambda>_. dk_length) idx'"
  using assms
proof (induction keys arbitrary: out idx)
  case (Cons k keys)
  obtain de where de: "hm_get (ds_index s) k = Some de" using Cons.prems(3) by auto
  define new where "new = \<lparr>dk_offset = length out, dk_length = dk_length de, dk_ttl_ms = dk_ttl_ms de,
      dk_created_at = dk_created_at de\<rparr>"
  have "length out + dk_length de \<le> usize_max" using Cons.prems(6) de by (simp add: live_length_def)
  from compact_step [OF Cons.prems(1) de this, of hll_count keys idx]
  obtain e where e: "storable e" "de_key e = k" "record_at (ds_data_file s) de e"
    and step: "compact_loop hll_count s (k # keys) out idx (length out) =
      compact_loop hll_count s keys (out @ entry_envelope (write_single_entry e)) (hm_insert k new idx)
        (length (out @ entry_envelope (write_single_entry e)))"
    and rec: "record_at (out @ entry_envelope (write_single_entry e)) new e"
    by (auto simp: Let_def new_def)
  let ?out = "out @ entry_envelope (write_single_entry e)" and ?idx = "hm_insert k new idx"
  have cp: "copied s ?out ?idx"
    using Cons.prems(5) e de rec record_at_append
    by (fastforce simp: copied_def hm_wf_insert new_def)
  have len: "length ?out = length out + dk_length de" using e(3) by (simp add: record_at_def)
  have none: "hm_get idx k = None" using Cons.prems(4) by simp
  have sum: "hm_sum (\<lambda>_. dk_length) ?idx = hm_sum (\<lambda>_. dk_length) idx + dk_length de"
    using hm_sum_insert [of idx "\<lambda>_. dk_length" k new] Cons.prems(5) none
    by (simp add: copied_def opt_weight_def new_def)
  have "\<exists>out' idx'. compact_loop hll_count s keys ?out ?idx (length ?out) = Inr (out', idx', length out') \<and>
    copied s out' idx' \<and> (\<forall>k. hm_get idx' k \<noteq> None \<longleftrightarrow> hm_get ?idx k \<noteq> None \<or> k \<in> set keys) \<and>
    length out' = 4 + hm_sum (\<lambda>_. dk_length) idx'"
    using Cons.prems cp sum len de none
    by (intro Cons.IH) (auto simp: live_length_def)
  then show ?case unfolding step by (auto simp: split: if_splits)
qed auto

lemma copied_lookup:
  assumes "shard_wf s" and "copied s out idx" and "\<forall>k. hm_get idx k \<noteq> None \<longleftrightarrow> hm_get (ds_index s) k \<noteq> None"
    and "ds_index s' = idx" and "ds_data_file s' = out" and "ds_has_checksums s'"
  shows "ds_lookup hll_count s' k = ds_lookup hll_count s k"
proof (cases "hm_get idx k")
  case None
  then have "hm_get (ds_index s) k = None" using assms(3) by metis
  with None show ?thesis using assms(4) by (simp add: ds_lookup_def)
next
  case (Some de')
  then obtain de e where e: "hm_get (ds_index s) k = Some de" "storable e" "de_key e = k"
    "record_at (ds_data_file s) de e" "record_at out de' e" "dk_created_at de' = dk_created_at de"
    using assms(2) unfolding copied_def by blast
  have "ds_has_checksums s" using assms(1) by (simp add: shard_wf_def)
  then show ?thesis
    using Some e assms(4,5,6) read_record [of s' de' e hll_count] read_record [of s de e hll_count]
    by (simp add: ds_lookup_def)
qed

lemma live_lengths: "hm_wf (ds_index s) \<Longrightarrow>
  sum_list (map (live_length s) (sort (ds_keys s))) = hm_sum (\<lambda>_. dk_length) (ds_index s)"
proof -
  assume wf: "hm_wf (ds_index s)"
  have "sum_list (map (live_length s) (sort (ds_keys s))) = sum_list (map (live_length s) (ds_keys s))"
    using wf sum_list_distinct_conv_sum_set [of "sort (ds_keys s)" "live_length s"]
      sum_list_distinct_conv_sum_set [of "ds_keys s" "live_length s"]
    by (simp add: ds_keys_def hm_wf_def)
  also have "\<dots> = hm_sum (\<lambda>_. dk_length) (ds_index s)"
  proof -
    have "live_length s k = dk_length de" if "(k, de) \<in> set (ds_index s)" for k de
      using that wf hm_get_Some_iff [of "ds_index s" k de] by (simp add: live_length_def)
    then show ?thesis
      by (auto simp: ds_keys_def hm_sum_def comp_def intro!: arg_cong [of _ _ sum_list] map_cong)
  qed
  finally show ?thesis .
qed

text \<open>
  Claim C14. Compaction reclaims space and loses nothing. On a well-formed shard
  that opened cleanly, a compaction succeeds unless the file system fails; in
  every outcome each key is found with the same value, TTL and eviction time as
  before and the shard stays well formed, and once the new file is installed it
  has no dead bytes.
\<close>

theorem compaction_preserves:
  assumes "shard_wf s" and "ds_compaction_safe s" and "length (ds_data_file s) \<le> usize_max"
    and "ds_compact hll_count io s = (r, s')"
  shows "(io = Replaced \<longrightarrow> r = Inr ()) \<and> shard_wf s' \<and> ds_lookup hll_count s' = ds_lookup hll_count s \<and>
    (if io = FailsBeforeRename then s' = s
     else ds_dead_bytes s' = 0 \<and> length (ds_data_file s') = 4 + hm_sum (\<lambda>_. dk_length) (ds_index s'))"
proof -
  have wf: "hm_wf (ds_index s)"
    and tot: "length (ds_data_file s) = 4 + ds_dead_bytes s + hm_sum (\<lambda>_. dk_length) (ds_index s)"
    using assms(1) by (auto simp: shard_wf_def)
  have keys: "set (sort (ds_keys s)) = {k. hm_get (ds_index s) k \<noteq> None}" "distinct (sort (ds_keys s))"
    using wf by (auto simp: ds_keys_def hm_get_None_iff hm_wf_def)
  have "\<exists>out idx. compact_loop hll_count s (sort (ds_keys s)) DATA_MAGIC [] (length DATA_MAGIC) =
      Inr (out, idx, length out) \<and> copied s out idx \<and>
      (\<forall>k. hm_get idx k \<noteq> None \<longleftrightarrow> hm_get [] k \<noteq> (None :: disk_entry option) \<or> k \<in> set (sort (ds_keys s))) \<and>
      length out = 4 + hm_sum (\<lambda>_. dk_length) idx"
    using assms(1,3) keys live_lengths [OF wf] tot
    by (intro compact_loop_copies)
      (auto simp: copied_def hm_get_def hm_wf_def DATA_MAGIC_def ascii_def)
  then obtain out idx where loop: "compact_loop hll_count s (sort (ds_keys s)) DATA_MAGIC [] (length DATA_MAGIC) =
      Inr (out, idx, length out)" and cp: "copied s out idx"
    and dom: "\<forall>k. hm_get idx k \<noteq> None \<longleftrightarrow> hm_get (ds_index s) k \<noteq> None"
    and len: "length out = 4 + hm_sum (\<lambda>_. dk_length) idx"
    using keys(1) by (auto simp: hm_get_def)
  let ?new = "s\<lparr>ds_data_file := out, ds_index := idx, ds_total_bytes := length out,
     ds_dead_bytes := 0, ds_has_checksums := True, ds_compaction_safe := True\<rparr>"
  have s': "s' = (if io = FailsBeforeRename then s else ?new)" and r: "io = Replaced \<longrightarrow> r = Inr ()"
    using assms(2,4) loop by (auto simp: ds_compact_def split: if_splits)
  have "shard_wf ?new" using cp len by (fastforce simp: shard_wf_def copied_def)
  moreover have "ds_lookup hll_count ?new = ds_lookup hll_count s"
    using copied_lookup [OF assms(1) cp dom, of ?new hll_count] by (intro ext) simp
  ultimately show ?thesis using assms(1) s' r len by auto
qed

section \<open>Files in the old format\<close>

lemma low_byte_of_nat: "ucast (of_nat n :: u32) = (of_nat n :: byte)"
  by (rule bit_word_eqI) (auto simp: bit_simps)

lemma unknown_type_unreadable:
  assumes "t \<notin> {83, 76, 72, 104, 84, 90, 88, 86, 80, 73}"
  shows "\<exists>err. read_single_entry hll_count (t # r) = Inl err"
  using assms by (auto simp: read_single_entry_def read_value_def read_exact_def split: sum.splits)

text \<open>
  Evicting into a data file of the old format loses the entry. A put
  always writes the checksum envelope, but a shard opened on an old file reads
  records without one: unless the low byte of the record's length happens to be a
  type byte, every get of the entry fails while it has not expired.
\<close>

theorem legacy_put_unreadable:
  assumes "storable e" and "\<not> ds_has_checksums s" and "ds_total_bytes s = length (ds_data_file s)"
    and "de_ttl_ms e \<le> 0"
    and "of_nat (length (write_single_entry e)) \<notin> ({83, 76, 72, 104, 84, 90, 88, 86, 80, 73} :: byte set)"
  shows "\<exists>err. fst (ds_get hll_count (de_key e) now (put_entry e t0 s)) = Inl err"
proof -
  let ?d = "write_single_entry e"
  define de where "de = \<lparr>dk_offset = ds_total_bytes s, dk_length = 8 + length ?d,
     dk_ttl_ms = stored_ttl (de_ttl_ms e), dk_created_at = t0\<rparr>"
  obtain rest where env: "entry_envelope ?d = of_nat (length ?d) # rest"
    using le_bytes_Suc [of 3 "of_nat (length ?d) :: u32"]
    by (simp add: entry_envelope_def write_u32_def low_byte_of_nat)
  have "drop (ds_total_bytes s) (ds_data_file (put_entry e t0 s)) = entry_envelope ?d"
    using assms(3) by (simp add: put_entry_def ds_put_written [OF assms(1)])
  then have buf: "read_exact (dk_length de) (drop (dk_offset de) (ds_data_file (put_entry e t0 s))) =
      Inr (entry_envelope ?d, [])"
    by (simp add: de_def read_exact_def)
  obtain err where "read_single_entry hll_count (entry_envelope ?d) = Inl err"
    using unknown_type_unreadable [OF assms(5)] env by metis
  moreover have "\<not> ds_has_checksums (put_entry e t0 s)"
    using assms(2) by (simp add: put_entry_def ds_put_written [OF assms(1)])
  ultimately have "read_indexed_entry hll_count (de_key e) de (put_entry e t0 s) = Inl err"
    using buf by (simp add: read_indexed_entry_def)
  moreover have "hm_get (ds_index (put_entry e t0 s)) (de_key e) = Some de"
    by (simp add: put_entry_def ds_put_written [OF assms(1)] de_def)
  moreover have "\<not> disk_is_expired de now"
    using assms(4) by (simp add: disk_is_expired_def de_def stored_ttl_def)
  ultimately show ?thesis by (simp add: ds_get_def Let_def)
qed

section \<open>Witnesses\<close>

definition demo_shard :: disk_shard where
  "demo_shard = \<lparr>ds_index = [], ds_data_file = DATA_MAGIC, ds_dead_bytes = 0, ds_total_bytes = 4,
     ds_has_checksums = True, ds_corrupted = [], ds_parse_errors = [], ds_compaction_safe = True\<rparr>"

definition demo_entry :: dump_entry where
  "demo_entry = \<lparr>de_key = ascii ''k'', de_value = DStr (ascii ''v''), de_ttl_ms = 100\<rparr>"

lemma demo_shard_wf: "shard_wf demo_shard"
  by (simp add: shard_wf_def demo_shard_def hm_wf_def hm_get_def DATA_MAGIC_def ascii_def)

lemma demo_storable: "storable demo_entry"
proof -
  have "utf8_valid (ascii ''k'')" by (rule utf8_valid_ascii) (simp add: ascii_def)
  then show ?thesis
    by (simp add: storable_def demo_entry_def str_ok_def u32_sized_def is_i64_def i64_min_def i64_max_def
        value_ok_def write_single_entry_def write_value_def write_bytes_def write_i64_def ascii_def)
qed

theorem cold_put_get_witness:
  "fst (ds_get (\<lambda>_. 0) (ascii ''k'') 60000000 (put_entry demo_entry 0 demo_shard)) =
     Inr (Some (DStr (ascii ''v''), Some 40000000)) \<and>
   fst (ds_get (\<lambda>_. 0) (ascii ''k'') 100000000 (put_entry demo_entry 0 demo_shard)) = Inr None"
proof -
  have e: "de_key demo_entry = ascii ''k''" "de_value demo_entry = DStr (ascii ''v'')" "de_ttl_ms demo_entry = 100"
    by (simp_all add: demo_entry_def)
  show ?thesis
    using cold_put_get [OF demo_shard_wf demo_storable _ refl, where now = 60000000 and ?t0.0 = 0 and hll_count = "\<lambda>_. 0"]
      cold_put_get [OF demo_shard_wf demo_storable _ refl, where now = 100000000 and ?t0.0 = 0 and hll_count = "\<lambda>_. 0"]
    by (simp add: e as_millis_def from_millis_def i64_max_def restored_def)
qed

theorem compaction_preserves_witness:
  "ds_lookup (\<lambda>_. 0) (snd (ds_compact (\<lambda>_. 0) Replaced (ds_remove (ascii ''k'') (put_entry demo_entry 0 demo_shard)))) =
   ds_lookup (\<lambda>_. 0) (ds_remove (ascii ''k'') (put_entry demo_entry 0 demo_shard))"
proof -
  let ?s = "ds_remove (ascii ''k'') (put_entry demo_entry 0 demo_shard)"
  have wf: "shard_wf ?s" by (intro ds_remove_wf put_entry_wf demo_shard_wf demo_storable)
  have "ds_compaction_safe ?s" "length (ds_data_file ?s) \<le> usize_max"
    using demo_storable
    by (auto simp: ds_remove_def put_entry_def ds_put_written demo_shard_def storable_def usize_max_def
        DATA_MAGIC_def ascii_def split: option.split)
  with compaction_preserves [OF wf, of "\<lambda>_. 0" Replaced "fst (ds_compact (\<lambda>_. 0) Replaced ?s)"
      "snd (ds_compact (\<lambda>_. 0) Replaced ?s)"] show ?thesis by simp
qed

theorem legacy_put_unreadable_witness:
  "\<exists>err. fst (ds_get (\<lambda>_. 0) (ascii ''k'') 5
     (put_entry (demo_entry\<lparr>de_ttl_ms := 0\<rparr>) 0
       (demo_shard\<lparr>ds_data_file := [], ds_total_bytes := 0, ds_has_checksums := False\<rparr>))) = Inl err"
proof -
  let ?e = "demo_entry\<lparr>de_ttl_ms := 0\<rparr>"
  have "length (write_single_entry ?e) = 19"
    by (simp add: demo_entry_def write_single_entry_def write_value_def write_bytes_def write_i64_def ascii_def)
  moreover have "storable ?e"
    using demo_storable
    by (simp add: storable_def demo_entry_def write_single_entry_def write_i64_def is_i64_def i64_min_def i64_max_def
        write_value_def write_bytes_def)
  ultimately show ?thesis
    using legacy_put_unreadable [of ?e "demo_shard\<lparr>ds_data_file := [], ds_total_bytes := 0, ds_has_checksums := False\<rparr>"
        "\<lambda>_. 0" 5 0]
    by (simp add: demo_entry_def)
qed

end
