(* ===== verification/Store.thy ===== *)
theory Store
  imports Values DiskShard
begin

text \<open>
  The sharded store of \<^verbatim>\<open>src/src/store/mod.rs\<close>: shards, counters, the placement
  of keys, and the invariant that every operation of the later theories keeps.

  An operation on one key locks that key's shard for its whole duration, so each
  is one state transition. Memory and key counters are natural numbers: they
  saturate at zero as in the source, and reaching \<open>2 ^ 64\<close> bytes of data is out of
  scope. The vector indexes are a component of their own; the store records the
  calls it makes to them.
\<close>

section \<open>State\<close>

record shard =
  sh_data :: "(bytes, entry) hash_map"
  sh_version :: u64
  sh_used_memory :: nat

datatype vector_call = InsertVector bytes u32 "u32 list" | RemoveVector bytes u32 | ClearVectors

record store =
  shards :: "shard list"
  disk_shards :: "disk_shard list option"
  used_memory :: nat
  lru_clock :: u32
  key_count :: nat
  disk_write_errors :: nat
  journal_poisoned :: bool
  vector_calls :: "vector_call list"

definition WRONGTYPE :: string where
  "WRONGTYPE = ''WRONGTYPE Operation against a key holding the wrong kind of value''"

text \<open>The encryption keyring, a parameter of the operations that consult it.\<close>

record keyring =
  kr_is_encrypted_value :: "bytes \<Rightarrow> bool"
  kr_encrypt :: "string \<Rightarrow> bytes \<Rightarrow> bytes \<Rightarrow> bytes \<Rightarrow> bytes result"
  kr_decrypt :: "string \<Rightarrow> bytes \<Rightarrow> bytes \<Rightarrow> bytes \<Rightarrow> bytes result"

definition is_table_storage_key :: "bytes \<Rightarrow> bool" where
  "is_table_storage_key key \<longleftrightarrow> take 3 key = ascii ''_t:''"

section \<open>Placement\<close>

definition shard_index :: "store \<Rightarrow> bytes \<Rightarrow> nat" where
  "shard_index st key = unat (fx_hash key) mod length (shards st)"

definition disk_shard_index :: "store \<Rightarrow> bytes \<Rightarrow> nat" where
  "disk_shard_index st key =
     (case disk_shards st of Some ds \<Rightarrow> unat (fx_hash key) mod length ds | None \<Rightarrow> 0)"

definition is_tiered :: "store \<Rightarrow> bool" where
  "is_tiered st \<longleftrightarrow> disk_shards st \<noteq> None"

definition shard_at :: "store \<Rightarrow> bytes \<Rightarrow> shard" where
  "shard_at st key = shards st ! shard_index st key"

definition modify_shard :: "bytes \<Rightarrow> (shard \<Rightarrow> shard) \<Rightarrow> store \<Rightarrow> store" where
  "modify_shard key f st = st\<lparr>shards := (shards st)[shard_index st key := f (shard_at st key)]\<rparr>"

section \<open>Counters\<close>

definition mem_sub :: "nat \<Rightarrow> store \<Rightarrow> store" where
  "mem_sub amount st = st\<lparr>used_memory := used_memory st - amount\<rparr>"

definition mem_add :: "nat \<Rightarrow> store \<Rightarrow> store" where
  "mem_add amount st = st\<lparr>used_memory := used_memory st + amount\<rparr>"

definition key_added :: "store \<Rightarrow> store" where
  "key_added st = st\<lparr>key_count := key_count st + 1\<rparr>"

definition key_removed :: "store \<Rightarrow> store" where
  "key_removed st = st\<lparr>key_count := key_count st - 1\<rparr>"

definition record_disk_write_error :: "store \<Rightarrow> store" where
  "record_disk_write_error st = st\<lparr>disk_write_errors := disk_write_errors st + 1\<rparr>"

definition poison_journal :: "store \<Rightarrow> store" where
  "poison_journal st = st\<lparr>journal_poisoned := True\<rparr>"

section \<open>The data of a shard\<close>

definition data_get :: "store \<Rightarrow> bytes \<Rightarrow> entry option" where
  "data_get st key = hm_get (sh_data (shard_at st key)) key"

definition data_insert :: "bytes \<Rightarrow> entry \<Rightarrow> store \<Rightarrow> store" where
  "data_insert key e = modify_shard key (\<lambda>s. s\<lparr>sh_data := hm_insert key e (sh_data s)\<rparr>)"

definition data_remove :: "bytes \<Rightarrow> store \<Rightarrow> store" where
  "data_remove key = modify_shard key (\<lambda>s. s\<lparr>sh_data := hm_remove key (sh_data s)\<rparr>)"

definition bump_version :: "bytes \<Rightarrow> store \<Rightarrow> store" where
  "bump_version key = modify_shard key (\<lambda>s. s\<lparr>sh_version := sh_version s + 1\<rparr>)"

definition shard_mem_sub :: "bytes \<Rightarrow> nat \<Rightarrow> store \<Rightarrow> store" where
  "shard_mem_sub key amount = modify_shard key (\<lambda>s. s\<lparr>sh_used_memory := sh_used_memory s - amount\<rparr>)"

definition shard_mem_add :: "bytes \<Rightarrow> nat \<Rightarrow> store \<Rightarrow> store" where
  "shard_mem_add key amount = modify_shard key (\<lambda>s. s\<lparr>sh_used_memory := sh_used_memory s + amount\<rparr>)"

text \<open>
  The accounting that follows an insertion: the difference to the replaced entry,
  or the whole entry and a new key.
\<close>

definition account_insert :: "bytes \<Rightarrow> nat \<Rightarrow> entry option \<Rightarrow> store \<Rightarrow> store" where
  "account_insert key mem old_entry st =
     (case old_entry of
        Some oe \<Rightarrow>
          (let old_mem = estimate_entry_memory key (en_value oe) in
           if mem \<ge> old_mem then mem_add (mem - old_mem) st else mem_sub (old_mem - mem) st)
      | None \<Rightarrow> key_added (mem_add mem st))"

text \<open>The accounting that follows a removal.\<close>

definition account_remove :: "bytes \<Rightarrow> entry \<Rightarrow> store \<Rightarrow> store" where
  "account_remove key e st =
     (let mem = estimate_entry_memory key (en_value e) in
      mem_sub mem (shard_mem_sub key mem (key_removed st)))"

definition insert_accounted :: "bytes \<Rightarrow> entry \<Rightarrow> store \<Rightarrow> store" where
  "insert_accounted key e st =
     account_insert key (estimate_entry_memory key (en_value e)) (data_get st key) (data_insert key e st)"

definition new_store :: "nat \<Rightarrow> disk_shard list option \<Rightarrow> store" where
  "new_store n ds =
     \<lparr>shards = replicate n \<lparr>sh_data = [], sh_version = 0, sh_used_memory = 0\<rparr>, disk_shards = ds,
      used_memory = 0, lru_clock = 0, key_count = 0, disk_write_errors = 0, journal_poisoned = False,
      vector_calls = []\<rparr>"

section \<open>Invariant\<close>

text \<open>
  Every key lives in the shard its hash selects, once, and hash and set values are
  internally consistent.
\<close>

definition value_inv :: "store_value \<Rightarrow> bool" where
  "value_inv v = (case v of Hash h \<Rightarrow> hash_wf h | Set s \<Rightarrow> set_wf s | _ \<Rightarrow> True)"

definition placed :: "store \<Rightarrow> nat \<Rightarrow> bool" where
  "placed st i \<longleftrightarrow> hm_wf (sh_data (shards st ! i)) \<and>
     (\<forall>k e. hm_get (sh_data (shards st ! i)) k = Some e \<longrightarrow> shard_index st k = i \<and> value_inv (en_value e))"

definition store_wf :: "store \<Rightarrow> bool" where
  "store_wf st \<longleftrightarrow> shards st \<noteq> [] \<and> (\<forall>i < length (shards st). placed st i) \<and> disk_shards st \<noteq> Some []"

text \<open>The sum of a weight over all entries: the number of keys, the memory in use.\<close>

definition store_sum :: "(bytes \<Rightarrow> entry \<Rightarrow> nat) \<Rightarrow> store \<Rightarrow> nat" where
  "store_sum w st = sum_list (map (\<lambda>s. hm_sum w (sh_data s)) (shards st))"

definition total_keys :: "store \<Rightarrow> nat" where
  "total_keys st = store_sum (\<lambda>_ _. 1) st"

definition total_memory :: "store \<Rightarrow> nat" where
  "total_memory st = store_sum (\<lambda>k e. estimate_entry_memory k (en_value e)) st"

definition keys_exact :: "store \<Rightarrow> bool" where
  "keys_exact st \<longleftrightarrow> key_count st = total_keys st"

definition memory_exact :: "store \<Rightarrow> bool" where
  "memory_exact st \<longleftrightarrow> used_memory st = total_memory st"

section \<open>Laws\<close>

lemma shard_index_lt [simp]: "shards st \<noteq> [] \<Longrightarrow> shard_index st k < length (shards st)"
  by (simp add: shard_index_def)

lemma shards_modify [simp]:
  "shards (modify_shard k f st) = (shards st)[shard_index st k := f (shard_at st k)]"
  "disk_shards (modify_shard k f st) = disk_shards st"
  "used_memory (modify_shard k f st) = used_memory st"
  "lru_clock (modify_shard k f st) = lru_clock st"
  "key_count (modify_shard k f st) = key_count st"
  "vector_calls (modify_shard k f st) = vector_calls st"
  "journal_poisoned (modify_shard k f st) = journal_poisoned st"
  by (simp_all add: modify_shard_def)

lemma shard_index_modify [simp]: "shard_index (modify_shard k f st) = shard_index st"
  by (simp add: shard_index_def fun_eq_iff)

lemma shard_at_modify:
  "shards st \<noteq> [] \<Longrightarrow>
   shard_at (modify_shard k f st) k' = (if shard_index st k' = shard_index st k then f (shard_at st k') else shard_at st k')"
  by (auto simp: shard_at_def nth_list_update)

lemma counters_simps [simp]:
  "shards (mem_sub a st) = shards st" "shards (mem_add a st) = shards st"
  "shards (key_added st) = shards st" "shards (key_removed st) = shards st"
  "shards (record_disk_write_error st) = shards st" "shards (poison_journal st) = shards st"
  "disk_shards (mem_sub a st) = disk_shards st" "disk_shards (mem_add a st) = disk_shards st"
  "disk_shards (key_added st) = disk_shards st" "disk_shards (key_removed st) = disk_shards st"
  "lru_clock (mem_sub a st) = lru_clock st" "lru_clock (mem_add a st) = lru_clock st"
  "lru_clock (key_added st) = lru_clock st" "lru_clock (key_removed st) = lru_clock st"
  "used_memory (mem_sub a st) = used_memory st - a" "used_memory (mem_add a st) = used_memory st + a"
  "used_memory (key_added st) = used_memory st" "used_memory (key_removed st) = used_memory st"
  "key_count (mem_sub a st) = key_count st" "key_count (mem_add a st) = key_count st"
  "key_count (key_added st) = key_count st + 1" "key_count (key_removed st) = key_count st - 1"
  by (simp_all add: mem_sub_def mem_add_def key_added_def key_removed_def record_disk_write_error_def poison_journal_def)

text \<open>What a client can observe depends on the data of the shards only.\<close>

definition datas :: "store \<Rightarrow> (bytes, entry) hash_map list" where
  "datas st = map sh_data (shards st)"

lemma length_datas [simp]: "length (datas st) = length (shards st)"
  by (simp add: datas_def)

lemma datas_modify:
  "datas (modify_shard k f st) = (datas st)[shard_index st k := sh_data (f (shard_at st k))]"
  by (simp add: datas_def map_update)

lemma datas_modify_same:
  assumes "\<And>s. sh_data (f s) = sh_data s"
  shows "datas (modify_shard k f st) = datas st"
proof (cases "shard_index st k < length (shards st)")
  case True
  then have "datas st ! shard_index st k = sh_data (shard_at st k)" by (simp add: datas_def shard_at_def)
  then show ?thesis by (metis assms datas_modify list_update_id)
next
  case False
  then show ?thesis by (simp only: datas_modify length_datas [symmetric] not_less list_update_beyond)
qed

lemma datas_simps [simp]:
  "datas (mem_sub a st) = datas st" "datas (mem_add a st) = datas st"
  "datas (key_added st) = datas st" "datas (key_removed st) = datas st"
  "datas (record_disk_write_error st) = datas st" "datas (poison_journal st) = datas st"
  "datas (bump_version k st) = datas st" "datas (shard_mem_sub k a st) = datas st"
  "datas (shard_mem_add k a st) = datas st"
  by (simp_all add: datas_def [of "mem_sub a st"] datas_def [of "mem_add a st"] datas_def [of "key_added st"]
      datas_def [of "key_removed st"] datas_def [of "record_disk_write_error st"] datas_def [of "poison_journal st"]
      bump_version_def shard_mem_sub_def shard_mem_add_def datas_modify_same datas_def [of st])

lemma disk_shards_simps [simp]:
  "disk_shards (record_disk_write_error st) = disk_shards st" "disk_shards (poison_journal st) = disk_shards st"
  "disk_shards (bump_version k st) = disk_shards st" "disk_shards (shard_mem_sub k a st) = disk_shards st"
  "disk_shards (shard_mem_add k a st) = disk_shards st"
  "disk_shards (data_insert k e st) = disk_shards st" "disk_shards (data_remove k st) = disk_shards st"
  by (simp_all add: record_disk_write_error_def poison_journal_def bump_version_def shard_mem_sub_def
      shard_mem_add_def data_insert_def data_remove_def)

lemma counters_kept [simp]:
  "used_memory (bump_version k st) = used_memory st" "key_count (bump_version k st) = key_count st"
  "used_memory (shard_mem_sub k a st) = used_memory st" "key_count (shard_mem_sub k a st) = key_count st"
  "used_memory (shard_mem_add k a st) = used_memory st" "key_count (shard_mem_add k a st) = key_count st"
  "used_memory (data_insert k e st) = used_memory st" "key_count (data_insert k e st) = key_count st"
  "used_memory (data_remove k st) = used_memory st" "key_count (data_remove k st) = key_count st"
  "lru_clock (bump_version k st) = lru_clock st" "lru_clock (data_insert k e st) = lru_clock st"
  by (simp_all add: bump_version_def shard_mem_sub_def shard_mem_add_def data_insert_def data_remove_def)

lemma datas_eq_Nil [simp]: "datas st = [] \<longleftrightarrow> shards st = []"
  by (simp add: datas_def)

lemma shard_index_datas: "shard_index st k = unat (fx_hash k) mod length (datas st)"
  by (simp add: shard_index_def)

lemma data_get_datas:
  "shards st \<noteq> [] \<Longrightarrow> data_get st k = hm_get (datas st ! shard_index st k) k"
  by (simp add: data_get_def shard_at_def datas_def)

lemma store_wf_datas:
  "store_wf st \<longleftrightarrow> datas st \<noteq> [] \<and> disk_shards st \<noteq> Some [] \<and>
     (\<forall>i < length (datas st). hm_wf (datas st ! i) \<and>
       (\<forall>k e. hm_get (datas st ! i) k = Some e \<longrightarrow>
          unat (fx_hash k) mod length (datas st) = i \<and> value_inv (en_value e)))"
  by (auto simp: store_wf_def placed_def datas_def shard_index_def)

lemma store_sum_datas: "store_sum w st = sum_list (map (hm_sum w) (datas st))"
  by (simp add: store_sum_def datas_def o_def)

lemma store_wf_cong: "datas st' = datas st \<Longrightarrow> disk_shards st' = disk_shards st \<Longrightarrow> store_wf st' = store_wf st"
  by (simp add: store_wf_datas)

lemma shards_nonempty: "store_wf st \<Longrightarrow> shards st \<noteq> []"
  by (simp add: store_wf_def)

lemma data_get_cong:
  assumes "datas st' = datas st"
  shows "data_get st' k = data_get st k"
proof -
  have len: "length (shards st') = length (shards st)" using assms by (metis length_datas)
  then have idx: "shard_index st' k = shard_index st k" by (simp add: shard_index_def)
  show ?thesis
  proof (cases "shards st = []")
    case False
    with len have "shards st' \<noteq> []" by auto
    with False idx assms show ?thesis by (simp add: data_get_datas)
  qed (use len in \<open>simp add: data_get_def shard_at_def shard_index_def\<close>)
qed

lemma store_sum_cong: "datas st' = datas st \<Longrightarrow> store_sum w st' = store_sum w st"
  by (simp add: store_sum_datas)

lemma store_wf_simps [simp]:
  "store_wf (mem_sub a st) = store_wf st" "store_wf (mem_add a st) = store_wf st"
  "store_wf (key_added st) = store_wf st" "store_wf (key_removed st) = store_wf st"
  "store_wf (record_disk_write_error st) = store_wf st" "store_wf (poison_journal st) = store_wf st"
  "store_wf (bump_version k st) = store_wf st" "store_wf (shard_mem_sub k a st) = store_wf st"
  "store_wf (shard_mem_add k a st) = store_wf st"
  by (rule store_wf_cong; simp)+

lemma data_get_simps [simp]:
  "data_get (mem_sub a st) = data_get st" "data_get (mem_add a st) = data_get st"
  "data_get (key_added st) = data_get st" "data_get (key_removed st) = data_get st"
  "data_get (record_disk_write_error st) = data_get st" "data_get (poison_journal st) = data_get st"
  "data_get (bump_version k st) = data_get st" "data_get (shard_mem_sub k a st) = data_get st"
  "data_get (shard_mem_add k a st) = data_get st"
  by (rule ext, rule data_get_cong, simp)+

lemma store_sum_simps [simp]:
  "store_sum w (mem_sub a st) = store_sum w st" "store_sum w (mem_add a st) = store_sum w st"
  "store_sum w (key_added st) = store_sum w st" "store_sum w (key_removed st) = store_sum w st"
  "store_sum w (record_disk_write_error st) = store_sum w st" "store_sum w (poison_journal st) = store_sum w st"
  "store_sum w (bump_version k st) = store_sum w st" "store_sum w (shard_mem_sub k a st) = store_sum w st"
  "store_sum w (shard_mem_add k a st) = store_sum w st"
  by (rule store_sum_cong; simp)+

lemma datas_insert:
  "datas (data_insert k e st) = (datas st)[shard_index st k := hm_insert k e (sh_data (shard_at st k))]"
  by (simp add: data_insert_def datas_modify)

lemma datas_remove:
  "datas (data_remove k st) = (datas st)[shard_index st k := hm_remove k (sh_data (shard_at st k))]"
  by (simp add: data_remove_def datas_modify)

lemma data_get_insert [simp]:
  assumes "store_wf st"
  shows "data_get (data_insert k e st) k' = (if k' = k then Some e else data_get st k')"
proof -
  have ne: "shards st \<noteq> []" using assms by (rule shards_nonempty)
  then show ?thesis by (auto simp: data_get_def data_insert_def shard_at_modify)
qed

lemma data_get_remove [simp]:
  assumes "store_wf st"
  shows "data_get (data_remove k st) k' = (if k' = k then None else data_get st k')"
proof -
  have ne: "shards st \<noteq> []" using assms by (rule shards_nonempty)
  then show ?thesis by (auto simp: data_get_def data_remove_def shard_at_modify)
qed

lemma datas_at: "store_wf st \<Longrightarrow> datas st ! shard_index st k = sh_data (shard_at st k)"
  using shards_nonempty by (simp add: datas_def shard_at_def)

lemma hm_wf_shard: "store_wf st \<Longrightarrow> hm_wf (sh_data (shard_at st k))"
  using shards_nonempty [of st] by (auto simp: store_wf_def placed_def shard_at_def)

lemma store_wf_placed:
  assumes "store_wf st" and "hm_get (sh_data (shard_at st k)) k' = Some e"
  shows "shard_index st k' = shard_index st k" and "value_inv (en_value e)"
proof -
  have "placed st (shard_index st k)" using assms(1) by (simp add: store_wf_def)
  with assms(2) show "shard_index st k' = shard_index st k" and "value_inv (en_value e)"
    unfolding placed_def shard_at_def by blast+
qed

lemma data_get_value_inv: "store_wf st \<Longrightarrow> data_get st k = Some e \<Longrightarrow> value_inv (en_value e)"
  unfolding data_get_def by (rule store_wf_placed(2))

lemma store_wf_update_shard:
  assumes "store_wf st" and "datas st' = (datas st)[shard_index st k := m]" and "disk_shards st' = disk_shards st"
    and "hm_wf m"
    and "\<And>k' e. hm_get m k' = Some e \<Longrightarrow> shard_index st k' = shard_index st k \<and> value_inv (en_value e)"
  shows "store_wf st'"
proof -
  have "shard_index st k < length (datas st)" using shards_nonempty [OF assms(1)] by simp
  with assms show ?thesis
    by (fastforce simp: store_wf_datas nth_list_update shard_index_datas)
qed

lemma store_wf_insert [simp, wf_intros]:
  assumes "store_wf st" and "value_inv (en_value e)"
  shows "store_wf (data_insert k e st)"
proof (rule store_wf_update_shard [OF assms(1) datas_insert])
  fix k' e'
  assume get: "hm_get (hm_insert k e (sh_data (shard_at st k))) k' = Some e'"
  with assms show "shard_index st k' = shard_index st k \<and> value_inv (en_value e')"
    using store_wf_placed [of st k k' e'] by (auto split: if_splits)
qed (use assms hm_wf_shard in auto)

lemma store_wf_remove [simp, wf_intros]:
  assumes "store_wf st"
  shows "store_wf (data_remove k st)"
proof (rule store_wf_update_shard [OF assms datas_remove])
  fix k' e'
  assume get: "hm_get (hm_remove k (sh_data (shard_at st k))) k' = Some e'"
  with assms show "shard_index st k' = shard_index st k \<and> value_inv (en_value e')"
    using store_wf_placed [of st k k' e'] by (auto split: if_splits)
qed (use assms hm_wf_shard in auto)

lemma store_sum_insert:
  assumes "store_wf st"
  shows "store_sum w (data_insert k e st) + opt_weight w k (data_get st k) = store_sum w st + w k e"
proof -
  let ?m = "sh_data (shard_at st k)"
  have i: "shard_index st k < length (datas st)" using shards_nonempty [OF assms] by simp
  have "sum_list (map (hm_sum w) ((datas st)[shard_index st k := hm_insert k e ?m])) + hm_sum w ?m
      = sum_list (map (hm_sum w) (datas st)) + hm_sum w (hm_insert k e ?m)"
    using sum_list_map_update [OF i, of "hm_sum w"] datas_at [OF assms] by metis
  moreover have "hm_sum w (hm_insert k e ?m) + opt_weight w k (data_get st k) = hm_sum w ?m + w k e"
    using hm_sum_insert [OF hm_wf_shard [OF assms]] by (simp add: data_get_def)
  ultimately show ?thesis by (simp add: store_sum_datas datas_insert)
qed

lemma store_sum_remove:
  assumes "store_wf st"
  shows "store_sum w (data_remove k st) + opt_weight w k (data_get st k) = store_sum w st"
proof -
  let ?m = "sh_data (shard_at st k)"
  have i: "shard_index st k < length (datas st)" using shards_nonempty [OF assms] by simp
  have "sum_list (map (hm_sum w) ((datas st)[shard_index st k := hm_remove k ?m])) + hm_sum w ?m
      = sum_list (map (hm_sum w) (datas st)) + hm_sum w (hm_remove k ?m)"
    using sum_list_map_update [OF i, of "hm_sum w"] datas_at [OF assms] by metis
  moreover have "hm_sum w (hm_remove k ?m) + opt_weight w k (data_get st k) = hm_sum w ?m"
    using hm_sum_remove [OF hm_wf_shard [OF assms]] by (simp add: data_get_def)
  ultimately show ?thesis by (simp add: store_sum_datas datas_remove)
qed

lemma exact_simps [simp]:
  "keys_exact (mem_sub a st) = keys_exact st" "keys_exact (mem_add a st) = keys_exact st"
  "keys_exact (bump_version k st) = keys_exact st" "keys_exact (shard_mem_sub k a st) = keys_exact st"
  "keys_exact (shard_mem_add k a st) = keys_exact st"
  "memory_exact (bump_version k st) = memory_exact st" "memory_exact (shard_mem_sub k a st) = memory_exact st"
  "memory_exact (shard_mem_add k a st) = memory_exact st"
  "memory_exact (key_added st) = memory_exact st" "memory_exact (key_removed st) = memory_exact st"
  by (simp_all add: keys_exact_def memory_exact_def total_keys_def total_memory_def)

section \<open>Inserting and removing entries with their accounting\<close>

lemma account_insert_simps [simp]:
  "datas (account_insert k m old st) = datas st"
  "disk_shards (account_insert k m old st) = disk_shards st"
  "lru_clock (account_insert k m old st) = lru_clock st"
  by (simp_all add: account_insert_def Let_def split: option.splits)

lemma account_remove_simps [simp]:
  "datas (account_remove k e st) = datas st" "disk_shards (account_remove k e st) = disk_shards st"
  by (simp_all add: account_remove_def Let_def)

lemma insert_accounted_get [simp]:
  "store_wf st \<Longrightarrow> data_get (insert_accounted k e st) k' = (if k' = k then Some e else data_get st k')"
  by (simp add: insert_accounted_def data_get_cong [OF account_insert_simps(1)])

lemma insert_accounted_wf [simp, wf_intros]:
  "store_wf st \<Longrightarrow> value_inv (en_value e) \<Longrightarrow> store_wf (insert_accounted k e st)"
  by (simp add: insert_accounted_def store_wf_cong [OF account_insert_simps(1,2)])

lemma insert_accounted_disk [simp]: "disk_shards (insert_accounted k e st) = disk_shards st"
  by (simp add: insert_accounted_def)

lemma insert_accounted_keys:
  "store_wf st \<Longrightarrow> keys_exact st \<Longrightarrow> keys_exact (insert_accounted k e st)"
  using store_sum_insert [of st "\<lambda>_ _. 1" k e]
  by (auto simp: insert_accounted_def account_insert_def keys_exact_def total_keys_def Let_def split: option.splits)

lemma insert_accounted_memory:
  "store_wf st \<Longrightarrow> memory_exact st \<Longrightarrow> memory_exact (insert_accounted k e st)"
  using store_sum_insert [of st "\<lambda>k e. estimate_entry_memory k (en_value e)" k e]
  by (auto simp: insert_accounted_def account_insert_def memory_exact_def total_memory_def Let_def split: option.splits)

text \<open>Taking an entry out and accounting for it.\<close>

definition take_entry :: "bytes \<Rightarrow> entry \<Rightarrow> store \<Rightarrow> store" where
  "take_entry key e st = account_remove key e (data_remove key st)"

lemma take_entry_get [simp]:
  "store_wf st \<Longrightarrow> data_get (take_entry k e st) k' = (if k' = k then None else data_get st k')"
  by (simp add: take_entry_def data_get_cong [OF account_remove_simps(1)])

lemma take_entry_wf [simp, wf_intros]: "store_wf st \<Longrightarrow> store_wf (take_entry k e st)"
  by (simp add: take_entry_def store_wf_cong [OF account_remove_simps(1,2)])

lemma take_entry_disk [simp]: "disk_shards (take_entry k e st) = disk_shards st"
  by (simp add: take_entry_def)

lemma take_entry_keys:
  "store_wf st \<Longrightarrow> data_get st k = Some e \<Longrightarrow> keys_exact st \<Longrightarrow> keys_exact (take_entry k e st)"
  using store_sum_remove [of st "\<lambda>_ _. 1" k]
  by (auto simp: take_entry_def account_remove_def keys_exact_def total_keys_def Let_def)

lemma take_entry_memory:
  "store_wf st \<Longrightarrow> data_get st k = Some e \<Longrightarrow> memory_exact st \<Longrightarrow> memory_exact (take_entry k e st)"
  using store_sum_remove [of st "\<lambda>k e. estimate_entry_memory k (en_value e)" k]
  by (auto simp: take_entry_def account_remove_def memory_exact_def total_memory_def Let_def)

text \<open>Replacing an entry in place.\<close>

lemma total_keys_insert:
  "store_wf st \<Longrightarrow> total_keys (data_insert k e st) = total_keys st + (if data_get st k = None then 1 else 0)"
  using store_sum_insert [of st "\<lambda>_ _. 1" k e] by (auto simp: total_keys_def split: option.splits)

lemma total_memory_insert:
  "store_wf st \<Longrightarrow> total_memory (data_insert k e st) +
     opt_weight (\<lambda>k e. estimate_entry_memory k (en_value e)) k (data_get st k) =
   total_memory st + estimate_entry_memory k (en_value e)"
  using store_sum_insert [of st "\<lambda>k e. estimate_entry_memory k (en_value e)" k e] by (simp add: total_memory_def)

lemma total_keys_remove:
  "store_wf st \<Longrightarrow> total_keys (data_remove k st) + (if data_get st k = None then 0 else 1) = total_keys st"
  using store_sum_remove [of st "\<lambda>_ _. 1" k] by (auto simp: total_keys_def split: option.splits)

lemma totals_simps [simp]:
  "total_keys (mem_sub a st) = total_keys st" "total_keys (mem_add a st) = total_keys st"
  "total_keys (key_added st) = total_keys st" "total_keys (key_removed st) = total_keys st"
  "total_keys (bump_version k st) = total_keys st" "total_keys (shard_mem_sub k a st) = total_keys st"
  "total_keys (shard_mem_add k a st) = total_keys st"
  "total_memory (mem_sub a st) = total_memory st" "total_memory (mem_add a st) = total_memory st"
  "total_memory (key_added st) = total_memory st" "total_memory (key_removed st) = total_memory st"
  "total_memory (bump_version k st) = total_memory st" "total_memory (shard_mem_sub k a st) = total_memory st"
  "total_memory (shard_mem_add k a st) = total_memory st"
  by (simp_all add: total_keys_def total_memory_def)

lemma keys_exact_replace:
  "store_wf st \<Longrightarrow> data_get st k = Some e \<Longrightarrow> keys_exact (data_insert k e' st) = keys_exact st"
  by (simp add: keys_exact_def total_keys_insert)

lemma memory_exact_replace:
  "store_wf st \<Longrightarrow> data_get st k = Some e \<Longrightarrow> value_size (en_value e') = value_size (en_value e) \<Longrightarrow>
   memory_exact (data_insert k e' st) = memory_exact st"
  using total_memory_insert [of st k e'] by (simp add: memory_exact_def estimate_entry_memory_def)

lemma memory_exact_grow:
  "store_wf st \<Longrightarrow> data_get st k = Some e \<Longrightarrow> value_size (en_value e') = value_size (en_value e) + n \<Longrightarrow>
   memory_exact st \<Longrightarrow> memory_exact (data_insert k e' (mem_add n st))"
  using total_memory_insert [of st k e'] total_memory_insert [of "mem_add n st" k e']
  by (simp add: memory_exact_def estimate_entry_memory_def)

lemma new_store_wf: "0 < n \<Longrightarrow> ds \<noteq> Some [] \<Longrightarrow> store_wf (new_store n ds)"
  by (auto simp: store_wf_def new_store_def placed_def)

lemma new_store_exact: "keys_exact (new_store n ds)" "memory_exact (new_store n ds)"
  by (simp_all add: keys_exact_def memory_exact_def total_keys_def total_memory_def store_sum_def new_store_def
      sum_list_replicate)

lemma new_store_get [simp]: "0 < n \<Longrightarrow> data_get (new_store n ds) k = None"
  by (simp add: data_get_def shard_at_def new_store_def shard_index_def)

section \<open>Live entries\<close>

text \<open>The value a key has at a time: an entry past its deadline counts as absent.\<close>

definition live :: "store \<Rightarrow> instant \<Rightarrow> bytes \<Rightarrow> store_value option" where
  "live st now key =
     (case data_get st key of
        None \<Rightarrow> None
      | Some e \<Rightarrow> if is_expired_at e now then None else Some (en_value e))"

lemma live_cong: "data_get st' k = data_get st k \<Longrightarrow> live st' now k = live st now k"
  by (simp add: live_def)

lemma live_simps [simp]:
  "live (mem_sub a st) = live st" "live (mem_add a st) = live st"
  "live (key_added st) = live st" "live (key_removed st) = live st"
  "live (bump_version k st) = live st" "live (shard_mem_sub k a st) = live st"
  "live (shard_mem_add k a st) = live st"
  by (simp_all add: live_def fun_eq_iff)

end
