(* ===== verification/Tier.thy ===== *)
theory Tier
  imports Store
begin

text \<open>
  The two tiers of the store: eviction of a key to its disk shard, promotion of a
  cold key back to memory, and the disk operations the commands use
  (\<open>evict_key\<close>, \<open>load_entry\<close>, \<open>try_promote\<close>, \<open>disk_contains\<close>, \<open>remove_from_disk\<close> of
  \<^verbatim>\<open>src/src/store/mod.rs\<close>). The clock readings of one call are one instant. The
  outcome of a disk write and of the compaction that may follow it are inputs,
  as is the floating-point test \<open>should_compact\<close>: \<open>compaction = None\<close> means that it
  answered no.
\<close>

section \<open>Disk shards\<close>

definition disk_at :: "disk_shard list \<Rightarrow> bytes \<Rightarrow> disk_shard" where
  "disk_at ds key = ds ! (unat (fx_hash key) mod length ds)"

definition set_disk :: "bytes \<Rightarrow> disk_shard \<Rightarrow> store \<Rightarrow> store" where
  "set_disk key d st =
     (case disk_shards st of
        None \<Rightarrow> st
      | Some ds \<Rightarrow> st\<lparr>disk_shards := Some (ds[unat (fx_hash key) mod length ds := d])\<rparr>)"

definition remove_from_disk :: "bytes \<Rightarrow> store \<Rightarrow> store" where
  "remove_from_disk key st =
     (case disk_shards st of
        None \<Rightarrow> st
      | Some ds \<Rightarrow> set_disk key (ds_remove (key_str key) (ds ! disk_shard_index st key)) st)"

definition disk_contains :: "bytes \<Rightarrow> instant \<Rightarrow> store \<Rightarrow> bool" where
  "disk_contains key now st =
     (case disk_shards st of
        None \<Rightarrow> False
      | Some ds \<Rightarrow> ds_contains_valid (key_str key) now (ds ! disk_shard_index st key))"

definition disk_key_count :: "store \<Rightarrow> nat" where
  "disk_key_count st = (case disk_shards st of None \<Rightarrow> 0 | Some ds \<Rightarrow> sum_list (map ds_len ds))"

section \<open>Loading an entry\<close>

definition load_entry :: "bytes \<Rightarrow> dump_value \<Rightarrow> duration option \<Rightarrow> instant \<Rightarrow> store \<Rightarrow> store" where
  "load_entry key d ttl inst_now st =
     (let st = bump_version key st;
          sv = load_value inst_now d;
          expires_at = map_option (\<lambda>d. inst_now + d) ttl;
          mem = estimate_entry_memory key sv;
          old = data_get st key;
          st = data_insert key \<lparr>en_value = sv, en_expires_at = expires_at, en_lru_clock = lru_clock st\<rparr> st;
          st = (if old = None then key_added st else st);
          st = mem_add mem (shard_mem_add key mem st)
      in case d of
           DVector data _ _ \<Rightarrow> st\<lparr>vector_calls := vector_calls st @ [InsertVector key (of_nat (length data)) data]\<rparr>
         | _ \<Rightarrow> st)"

section \<open>Eviction\<close>

definition is_vector :: "store_value \<Rightarrow> bool" where
  "is_vector v = (case v of Vector _ \<Rightarrow> True | _ \<Rightarrow> False)"

definition evicted_ttl_ms :: "entry \<Rightarrow> instant \<Rightarrow> int" where
  "evicted_ttl_ms e now =
     (case en_expires_at e of
        None \<Rightarrow> 0
      | Some exp \<Rightarrow> if exp > now then wrap_i64 (int (as_millis (exp - now))) else 0)"

definition entry_to_dump :: "bytes \<Rightarrow> store_value \<Rightarrow> int \<Rightarrow> dump_entry" where
  "entry_to_dump key v ttl_ms = \<lparr>de_key = key, de_value = store_value_to_dump_value v, de_ttl_ms = ttl_ms\<rparr>"

text \<open>The removal from the shard \<open>shard_idx\<close> that ends an eviction.\<close>

definition drop_evicted :: "nat \<Rightarrow> bytes \<Rightarrow> nat \<Rightarrow> store \<Rightarrow> store" where
  "drop_evicted shard_idx key mem st =
     (let s = shards st ! shard_idx in
      mem_sub mem (key_removed
        (st\<lparr>shards := (shards st)[shard_idx :=
            s\<lparr>sh_data := hm_remove key (sh_data s), sh_used_memory := sh_used_memory s - mem,
              sh_version := sh_version s + 1\<rparr>]\<rparr>)))"

definition evict_key ::
    "(bytes \<Rightarrow> nat) \<Rightarrow> nat \<Rightarrow> bytes \<Rightarrow> instant \<Rightarrow> write_outcome \<Rightarrow> replace_outcome option \<Rightarrow> store \<Rightarrow> bool \<times> store" where
  "evict_key hll_count shard_idx key now io compaction st =
     (case hm_get (sh_data (shards st ! shard_idx)) key of
        None \<Rightarrow> (False, st)
      | Some e \<Rightarrow>
          (let mem = estimate_entry_memory key (en_value e) in
           case disk_shards st of
             None \<Rightarrow> (True, drop_evicted shard_idx key mem st)
           | Some ds \<Rightarrow>
               (if is_vector (en_value e) then (False, st)
                else
                  let ks = key_string key;
                      dump = entry_to_dump ks (en_value e) (evicted_ttl_ms e now)
                  in case ds_put ks dump now io (disk_at ds key) of
                       (Inl _, disk) \<Rightarrow> (False, record_disk_write_error (set_disk key disk st))
                     | (Inr _, disk) \<Rightarrow>
                         (let disk = (case compaction of
                                None \<Rightarrow> disk
                              | Some io \<Rightarrow> snd (ds_compact hll_count io disk))
                          in (True, drop_evicted shard_idx key mem (set_disk key disk st))))))"

section \<open>Promotion\<close>

definition try_promote :: "(bytes \<Rightarrow> nat) \<Rightarrow> bytes \<Rightarrow> instant \<Rightarrow> instant \<Rightarrow> store \<Rightarrow> bool result \<times> store" where
  "try_promote hll_count key now inst_now st =
     (case disk_shards st of
        None \<Rightarrow> (Inr False, st)
      | Some ds \<Rightarrow>
          (let disk = ds ! disk_shard_index st key; ks = key_str key in
           if \<not> ds_contains ks disk then (Inr False, st)
           else case ds_get hll_count ks now disk of
             (Inr None, disk) \<Rightarrow> (Inr False, set_disk key disk st)
           | (Inl _, disk) \<Rightarrow> (Inl (Err ''ERR cold storage read failed''), poison_journal (set_disk key disk st))
           | (Inr (Some (value, ttl)), disk) \<Rightarrow>
               (Inr True, load_entry ks value ttl inst_now (set_disk key (ds_remove ks disk) st))))"

section \<open>Laws\<close>

text \<open>The entry of a key in the cold tier.\<close>

definition cold :: "(bytes \<Rightarrow> nat) \<Rightarrow> store \<Rightarrow> bytes \<Rightarrow> (dump_value \<times> int \<times> instant) option" where
  "cold hll_count st key =
     (case disk_shards st of None \<Rightarrow> None | Some ds \<Rightarrow> ds_lookup hll_count (disk_at ds key) key)"

definition tier_wf :: "store \<Rightarrow> bool" where
  "tier_wf st \<longleftrightarrow> store_wf st \<and>
     (case disk_shards st of None \<Rightarrow> True | Some ds \<Rightarrow> \<forall>d \<in> set ds. shard_wf d)"

lemma disk_index_eq: "disk_shards st = Some ds \<Longrightarrow> ds ! disk_shard_index st key = disk_at ds key"
  by (simp add: disk_shard_index_def disk_at_def)

lemma datas_set_disk [simp]: "datas (set_disk k d st) = datas st"
  by (simp add: datas_def set_disk_def split: option.splits)

lemma shards_set_disk [simp]: "shards (set_disk k d st) = shards st" "lru_clock (set_disk k d st) = lru_clock st"
  "used_memory (set_disk k d st) = used_memory st" "key_count (set_disk k d st) = key_count st"
  by (simp_all add: set_disk_def split: option.splits)

lemma data_get_set_disk [simp]: "data_get (set_disk k d st) = data_get st"
  by (rule ext, rule data_get_cong, simp)

lemma disk_shards_set_disk:
  "disk_shards st = Some ds \<Longrightarrow> disk_shards (set_disk k d st) = Some (ds[unat (fx_hash k) mod length ds := d])"
  by (simp add: set_disk_def)

lemma store_wf_set_disk [simp]: "store_wf (set_disk k d st) = store_wf st"
  by (auto simp: store_wf_datas set_disk_def datas_def split: option.splits)

lemma exact_set_disk [simp]:
  "keys_exact (set_disk k d st) = keys_exact st" "memory_exact (set_disk k d st) = memory_exact st"
  by (simp_all add: keys_exact_def memory_exact_def total_keys_def total_memory_def store_sum_datas)

lemma remove_from_disk_simps [simp]:
  "data_get (remove_from_disk k st) = data_get st" "store_wf (remove_from_disk k st) = store_wf st"
  "keys_exact (remove_from_disk k st) = keys_exact st" "memory_exact (remove_from_disk k st) = memory_exact st"
  "datas (remove_from_disk k st) = datas st"
  by (simp_all add: remove_from_disk_def split: option.splits)

lemma live_remove_from_disk [simp]: "live (remove_from_disk k st) = live st"
  by (simp add: live_def fun_eq_iff)

lemma load_value_inv: "value_inv (load_value t d)"
  by (cases d) (auto simp: load_value_def value_inv_def load_sorted_set_def hash_wf_def from_fields_def hm_wf_collect)

lemma data_get_vector_calls [simp]: "data_get (st\<lparr>vector_calls := c\<rparr>) = data_get st"
  by (rule ext, rule data_get_cong, simp add: datas_def)

lemma store_wf_vector_calls [simp]: "store_wf (st\<lparr>vector_calls := c\<rparr>) = store_wf st"
  by (rule store_wf_cong) (simp_all add: datas_def)

lemma load_entry_get:
  "store_wf st \<Longrightarrow> data_get (load_entry k d ttl t st) k' =
     (if k' = k then Some \<lparr>en_value = load_value t d, en_expires_at = map_option (\<lambda>x. t + x) ttl,
        en_lru_clock = lru_clock st\<rparr> else data_get st k')"
  by (simp add: load_entry_def Let_def split: dump_value.splits)

lemma load_entry_wf [simp]: "store_wf st \<Longrightarrow> store_wf (load_entry k d ttl t st)"
  by (simp add: load_entry_def Let_def load_value_inv split: dump_value.splits)

lemma load_entry_disk [simp]: "disk_shards (load_entry k d ttl t st) = disk_shards st"
  by (simp add: load_entry_def Let_def split: dump_value.splits)

section \<open>Eviction and promotion\<close>

lemma drop_evicted_datas: "datas (drop_evicted (shard_index st k) k mem st) = datas (data_remove k st)"
  by (simp add: drop_evicted_def Let_def datas_def data_remove_def modify_shard_def shard_at_def map_update mem_sub_def
      key_removed_def)

lemma drop_evicted_simps [simp]:
  "disk_shards (drop_evicted i k mem st) = disk_shards st"
  by (simp add: drop_evicted_def Let_def)

lemma drop_evicted_get [simp]:
  "store_wf st \<Longrightarrow> data_get (drop_evicted (shard_index st k) k mem st) k' = (if k' = k then None else data_get st k')"
  using data_get_cong [OF drop_evicted_datas] by simp

lemma drop_evicted_wf [simp]: "store_wf st \<Longrightarrow> store_wf (drop_evicted (shard_index st k) k mem st)"
  using store_wf_cong [OF drop_evicted_datas, of st k mem] by simp

lemma shard_index_set_disk [simp]: "shard_index (set_disk k d st) = shard_index st"
  by (simp add: shard_index_def fun_eq_iff)

lemma drop_evicted_set_disk:
  assumes "store_wf st"
  shows "data_get (drop_evicted (shard_index st k) k m (set_disk k d st)) k' = (if k' = k then None else data_get st k')"
    and "store_wf (drop_evicted (shard_index st k) k m (set_disk k d st))"
  using assms drop_evicted_get [of "set_disk k d st" k m k'] drop_evicted_wf [of "set_disk k d st" k m] by simp_all

lemma cold_set_disk:
  assumes "disk_shards st = Some ds" and "ds \<noteq> []"
    and "ds_lookup hc d = (ds_lookup hc (disk_at ds key))(key := x)"
  shows "cold hc (set_disk key d st) k = (if k = key then x else cold hc st k)"
  using assms by (auto simp: cold_def disk_shards_set_disk disk_at_def nth_list_update)

lemma tier_wf_disk: "tier_wf st \<Longrightarrow> disk_shards st = Some ds \<Longrightarrow> shard_wf (disk_at ds k) \<and> ds \<noteq> []"
  by (auto simp: tier_wf_def store_wf_def disk_at_def)

lemma tier_wf_set_disk: "tier_wf st \<Longrightarrow> shard_wf d \<Longrightarrow> tier_wf (set_disk k d st)"
  by (auto simp: tier_wf_def set_disk_def split: option.splits dest!: subsetD [OF set_update_subset_insert])
    (auto simp: store_wf_datas datas_def)

lemma tier_wf_cong: "store_wf st' \<Longrightarrow> disk_shards st' = disk_shards st \<Longrightarrow> tier_wf st \<Longrightarrow> tier_wf st'"
  by (simp add: tier_wf_def)

lemma cold_cong: "disk_shards st' = disk_shards st \<Longrightarrow> cold hc st' k = cold hc st k"
  by (simp add: cold_def)

definition restored_value :: "(bytes \<Rightarrow> nat) \<Rightarrow> store_value \<Rightarrow> store_value" where
  "restored_value hll_count v = (case v of HyperLogLog regs _ \<Rightarrow> HyperLogLog regs (hll_count regs) | v \<Rightarrow> v)"

lemma restored_dump: "\<not> is_vector v \<Longrightarrow>
    restored hc (store_value_to_dump_value v) = store_value_to_dump_value (restored_value hc v)"
  by (cases v) (auto simp: is_vector_def restored_def store_value_to_dump_value_def restored_value_def)

lemma restored_value_wf: "value_wf v \<Longrightarrow> value_wf (restored_value hc v)"
  by (cases v) (auto simp: value_wf_def restored_value_def)

text \<open>The state after an eviction to a healthy disk.\<close>

lemma evict_key_written:
  assumes "tier_wf st" and "disk_shards st = Some ds" and "data_get st key = Some e"
    and "\<not> is_vector (en_value e)"
  shows "evict_key hc (shard_index st key) key t0 Written None st =
    (True, drop_evicted (shard_index st key) key (estimate_entry_memory key (en_value e))
       (set_disk key (put_entry (entry_to_dump (key_string key) (en_value e) (evicted_ttl_ms e t0)) t0 (disk_at ds key)) st))"
proof -
  have "hm_get (sh_data (shards st ! shard_index st key)) key = Some e"
    using assms(3) by (simp add: data_get_def shard_at_def)
  moreover have "ds_put (key_string key) d t0 Written s = (Inr (), put_entry d t0 s)" if "de_key d = key_string key" for d s
    using that by (simp add: put_entry_def ds_put_def Let_def)
  ultimately show ?thesis using assms(2,4) by (simp add: evict_key_def Let_def entry_to_dump_def)
qed

text \<open>A key is promoted with what the cold tier holds for it, and leaves the cold tier.\<close>

lemma try_promote_hit:
  assumes "tier_wf st" and "disk_shards st = Some ds" and "utf8_valid key"
    and "ds_get hc key now (disk_at ds key) = (Inr (Some (v, ttl)), disk_at ds key)"
    and "ds_contains key (disk_at ds key)"
  shows "try_promote hc key now t st =
    (Inr True, load_entry key v ttl t (set_disk key (ds_remove key (disk_at ds key)) st))"
  using assms by (simp add: try_promote_def disk_index_eq key_str_valid Let_def)

lemma evict_key_result:
  assumes "tier_wf st" and "disk_shards st = Some ds" and "data_get st key = Some e"
    and "\<not> is_vector (en_value e)" and "utf8_valid key"
    and "d = entry_to_dump key (en_value e) (evicted_ttl_ms e t0)" and "storable d"
    and "evict_key hc (shard_index st key) key t0 Written None st = (evicted, st1)"
  shows "evicted \<and> tier_wf st1 \<and> data_get st1 = (data_get st)(key := None) \<and>
    cold hc st1 = (cold hc st)(key \<mapsto> cold_image hc d t0) \<and>
    (\<exists>ds1. disk_shards st1 = Some ds1 \<and> disk_at ds1 key = put_entry d t0 (disk_at ds key))"
proof -
  let ?s1 = "put_entry d t0 (disk_at ds key)"
  have wfs: "shard_wf (disk_at ds key)" "ds \<noteq> []" and wf: "store_wf st"
    using tier_wf_disk [OF assms(1,2)] assms(1) by (auto simp: tier_wf_def)
  have key: "de_key d = key" using assms(6) by (simp add: entry_to_dump_def)
  have wf1: "shard_wf ?s1" and look1: "ds_lookup hc ?s1 = (ds_lookup hc (disk_at ds key))(key \<mapsto> cold_image hc d t0)"
    using put_entry_wf put_entry_lookup wfs(1) assms(7) key by auto
  have st1: "evicted" "st1 = drop_evicted (shard_index st key) key (estimate_entry_memory key (en_value e)) (set_disk key ?s1 st)"
    using assms(8) evict_key_written [OF assms(1-4)] assms(5,6) by (auto simp: key_string_valid key_string_id)
  have "tier_wf st1"
    by (rule tier_wf_cong [OF _ _ tier_wf_set_disk [OF assms(1) wf1]]) (simp_all add: st1 drop_evicted_set_disk wf)
  moreover have "cold hc st1 k = (if k = key then Some (cold_image hc d t0) else cold hc st k)" for k
  proof -
    have "cold hc st1 k = cold hc (set_disk key ?s1 st) k" by (rule cold_cong) (simp add: st1)
    also have "\<dots> = (if k = key then Some (cold_image hc d t0) else cold hc st k)"
      using look1 wfs(2) by (intro cold_set_disk [OF assms(2)])
    finally show ?thesis .
  qed
  ultimately show ?thesis using st1 wf wfs(2) assms(2)
    by (auto simp: drop_evicted_set_disk fun_eq_iff disk_shards_set_disk disk_at_def)
qed

lemma try_promote_result:
  assumes "tier_wf st" and "disk_shards st = Some ds" and "utf8_valid key"
    and "ds_get hc key now (disk_at ds key) = (Inr (Some (v, ttl)), disk_at ds key)"
    and "cold hc st key \<noteq> None" and "try_promote hc key now t st = (promoted, st')"
  shows "promoted = Inr True \<and> tier_wf st' \<and> cold hc st' = (cold hc st)(key := None) \<and>
    data_get st' = (data_get st)(key \<mapsto> \<lparr>en_value = load_value t v, en_expires_at = map_option (\<lambda>x. t + x) ttl,
      en_lru_clock = lru_clock st\<rparr>)"
proof -
  let ?s = "disk_at ds key"
  have wfs: "shard_wf ?s" "ds \<noteq> []" and wf: "store_wf st"
    using tier_wf_disk [OF assms(1,2)] assms(1) by (auto simp: tier_wf_def)
  have "ds_contains key ?s"
    using disk_tier.contains_iff [OF wfs(1), of key hc] assms(2,5) by (simp add: cold_def)
  then have st': "promoted = Inr True" "st' = load_entry key v ttl t (set_disk key (ds_remove key ?s) st)"
    using try_promote_hit [OF assms(1-4)] assms(6) by auto
  have "tier_wf st'"
    by (rule tier_wf_cong [OF _ _ tier_wf_set_disk [OF assms(1) ds_remove_wf [OF wfs(1)]]]) (simp_all add: st' wf)
  moreover have "cold hc st' k = (if k = key then None else cold hc st k)" for k
  proof -
    have "cold hc st' k = cold hc (set_disk key (ds_remove key ?s) st) k" by (rule cold_cong) (simp add: st')
    also have "\<dots> = (if k = key then None else cold hc st k)"
      using wfs(2) by (intro cold_set_disk [OF assms(2)]) (simp_all add: ds_remove_lookup [OF wfs(1)])
    finally show ?thesis .
  qed
  ultimately show ?thesis using st' wf by (auto simp: load_entry_get fun_eq_iff)
qed

text \<open>
  Claim C15. A key that is evicted to the cold tier comes back as it was. Evicting
  a live key of a well-formed store and promoting it later, while its deadline
  has not passed, restores its value (up to the representation and the cached
  cardinality) with what is left of its time to live, counted in milliseconds;
  no other key of either tier changes, and the cold copy is gone.
\<close>

theorem evict_promote_round_trip:
  assumes "tier_wf st" and "disk_shards st = Some ds" and "data_get st key = Some e"
    and "\<not> is_vector (en_value e)" and "value_wf (en_value e)" and "utf8_valid key"
    and "storable (entry_to_dump key (en_value e) (evicted_ttl_ms e t0))"
    and "int (as_millis (now - t0)) \<le> i64_max"
    and "\<And>x. en_expires_at e = Some x \<Longrightarrow>
      as_millis (now - t0) < as_millis (x - t0) \<and> int (as_millis (x - t0)) \<le> i64_max"
    and "evict_key hc (shard_index st key) key t0 Written None st = (evicted, st1)"
    and "try_promote hc key now now st1 = (promoted, st2)"
  shows "evicted \<and> data_get st1 key = None \<and> promoted = Inr True \<and> tier_wf st2 \<and>
    (\<exists>e'. data_get st2 key = Some e' \<and>
       norm_value (en_value e') = norm_value (restored_value hc (en_value e)) \<and>
       en_expires_at e' =
         map_option (\<lambda>x. now + from_millis (as_millis (x - t0) - as_millis (now - t0))) (en_expires_at e)) \<and>
    (\<forall>k. k \<noteq> key \<longrightarrow> data_get st2 k = data_get st k \<and> cold hc st2 k = cold hc st k) \<and>
    cold hc st2 key = None"
proof -
  let ?d = "entry_to_dump key (en_value e) (evicted_ttl_ms e t0)"
  have wfs: "shard_wf (disk_at ds key)" using tier_wf_disk [OF assms(1,2)] by simp
  note ev = evict_key_result [OF assms(1-4,6) refl assms(7,10)]
  then obtain ds1 where ds1: "disk_shards st1 = Some ds1" "disk_at ds1 key = put_entry ?d t0 (disk_at ds key)" by blast
  have ttl: "de_ttl_ms ?d = (case en_expires_at e of None \<Rightarrow> 0 | Some x \<Rightarrow> int (as_millis (x - t0)))"
    using assms(9)
    by (auto simp: entry_to_dump_def evicted_ttl_ms_def wrap_i64_id is_i64_def i64_min_def as_millis_def split: option.splits)
  define left where "left = map_option (\<lambda>x. from_millis (as_millis (x - t0) - as_millis (now - t0))) (en_expires_at e)"
  have "ds_get hc key now (disk_at ds1 key) =
      (Inr (Some (store_value_to_dump_value (restored_value hc (en_value e)), left)), disk_at ds1 key)"
    using ds_get_put [OF wfs assms(7,8) refl, of hc] ttl assms(9) restored_dump [OF assms(4), of hc]
    by (auto simp: ds1 left_def entry_to_dump_def prod_eq_iff split: option.splits) (simp_all add: nat_diff_distrib)
  moreover have "cold hc st1 key \<noteq> None" using ev by simp
  ultimately have pr: "promoted = Inr True \<and> tier_wf st2 \<and> cold hc st2 = (cold hc st1)(key := None) \<and>
      data_get st2 = (data_get st1)(key \<mapsto> \<lparr>en_value = load_value now (store_value_to_dump_value (restored_value hc (en_value e))),
        en_expires_at = map_option (\<lambda>x. now + x) left, en_lru_clock = lru_clock st1\<rparr>)"
    using try_promote_result [OF _ ds1(1) assms(6) _ _ assms(11)] ev by blast
  then show ?thesis
    using ev load_value_dump [OF restored_value_wf [OF assms(5), of hc], of now]
    by (simp add: left_def option.map_comp o_def)
qed

text \<open>
  Claim C39. An expired key that is evicted before it is swept comes back to life.
  The eviction writes a time to live of zero, which the record format takes for
  none: the next promotion restores the key without a deadline, so that a key
  that no longer existed is live again, at every later time.
\<close>

theorem evicted_expired_key_revives:
  assumes "tier_wf st" and "disk_shards st = Some ds" and "data_get st key = Some e"
    and "\<not> is_vector (en_value e)" and "utf8_valid key"
    and "storable (entry_to_dump key (en_value e) 0)" and "int (as_millis (now - t0)) \<le> i64_max"
    and "en_expires_at e = Some x" and "x < t0"
    and "evict_key hc (shard_index st key) key t0 Written None st = (evicted, st1)"
    and "try_promote hc key now now st1 = (promoted, st2)"
  shows "live st t0 key = None \<and> promoted = Inr True \<and> live st2 t key \<noteq> None"
proof -
  have zero: "evicted_ttl_ms e t0 = 0" using assms(8,9) by (simp add: evicted_ttl_ms_def)
  let ?d = "entry_to_dump key (en_value e) 0"
  have wfs: "shard_wf (disk_at ds key)" using tier_wf_disk [OF assms(1,2)] by simp
  note ev = evict_key_result [OF assms(1-5) zero [symmetric, THEN arg_cong] assms(6,10)]
  then obtain ds1 where ds1: "disk_shards st1 = Some ds1" "disk_at ds1 key = put_entry ?d t0 (disk_at ds key)" by blast
  have "ds_get hc key now (disk_at ds1 key) =
      (Inr (Some (restored hc (store_value_to_dump_value (en_value e)), None)), disk_at ds1 key)"
    using ds_get_put [OF wfs assms(6,7) refl, of hc] by (simp add: ds1 entry_to_dump_def prod_eq_iff)
  moreover have "cold hc st1 key \<noteq> None" using ev by simp
  ultimately have "promoted = Inr True \<and> data_get st2 = (data_get st1)(key \<mapsto>
      \<lparr>en_value = load_value now (restored hc (store_value_to_dump_value (en_value e))),
       en_expires_at = map_option (\<lambda>x. now + x) None, en_lru_clock = lru_clock st1\<rparr>)"
    using try_promote_result [OF _ ds1(1) assms(5) _ _ assms(11)] ev by blast
  then show ?thesis using assms(3,8,9) by (simp add: live_def is_expired_at_def)
qed

text \<open>
  A key that is not valid UTF-8 is lost when it is evicted. It is
  written under its lossy transliteration and looked up under the empty string,
  so that, where no key is stored under the empty string, neither a promotion nor
  a membership test finds it again: the entry is in neither tier.
\<close>

theorem evicted_invalid_key_lost:
  assumes "tier_wf st" and "disk_shards st = Some ds" and "data_get st key = Some e"
    and "\<not> is_vector (en_value e)" and "\<not> utf8_valid key"
    and "storable (entry_to_dump (key_string key) (en_value e) (evicted_ttl_ms e t0))"
    and "key_string key \<noteq> []" and "\<not> ds_contains [] (disk_at ds key)"
    and "evict_key hc (shard_index st key) key t0 Written None st = (evicted, st1)"
  shows "evicted \<and> data_get st1 key = None \<and> \<not> disk_contains key now st1 \<and>
    try_promote hc key now t st1 = (Inr False, st1)"
proof -
  let ?d = "entry_to_dump (key_string key) (en_value e) (evicted_ttl_ms e t0)"
  let ?s1 = "put_entry ?d t0 (disk_at ds key)"
  have wfs: "shard_wf (disk_at ds key)" "ds \<noteq> []" and wf: "store_wf st"
    using tier_wf_disk [OF assms(1,2)] assms(1) by (auto simp: tier_wf_def)
  have st1: "evicted" "st1 = drop_evicted (shard_index st key) key (estimate_entry_memory key (en_value e)) (set_disk key ?s1 st)"
    using assms(9) evict_key_written [OF assms(1-4)] by auto
  have ks: "key_str key = []" using assms(5) by (simp add: key_str_def)
  have none: "\<not> ds_contains [] ?s1"
    using disk_tier.contains_put [OF wfs(1) assms(6), of "[]" t0] assms(7,8) by (simp add: entry_to_dump_def)
  then have "\<not> ds_contains_valid [] now ?s1"
    by (simp add: ds_contains_def ds_contains_valid_def hm_contains_iff)
  moreover have ds1: "disk_shards st1 = Some (ds[unat (fx_hash key) mod length ds := ?s1])"
    using st1 assms(2) by (simp add: disk_shards_set_disk)
  moreover have "ds[unat (fx_hash key) mod length ds := ?s1] ! disk_shard_index st1 key = ?s1"
    using ds1 wfs(2) by (simp add: disk_shard_index_def)
  ultimately show ?thesis
    using st1 wf none ks by (simp add: drop_evicted_set_disk disk_contains_def try_promote_def)
qed

section \<open>Witnesses\<close>

definition demo_tier :: "bytes \<Rightarrow> instant option \<Rightarrow> store" where
  "demo_tier key exp =
     data_insert key \<lparr>en_value = Str (ascii ''v''), en_expires_at = exp, en_lru_clock = 0\<rparr> (new_store 1 (Some [demo_shard]))"

lemma demo_tier_facts:
  "tier_wf (demo_tier key exp)" "disk_shards (demo_tier key exp) = Some [demo_shard]"
  "data_get (demo_tier key exp) key = Some \<lparr>en_value = Str (ascii ''v''), en_expires_at = exp, en_lru_clock = 0\<rparr>"
proof -
  have wf: "store_wf (new_store 1 (Some [demo_shard]))" by (rule new_store_wf) simp_all
  then show ds: "disk_shards (demo_tier key exp) = Some [demo_shard]"
    and "data_get (demo_tier key exp) key = Some \<lparr>en_value = Str (ascii ''v''), en_expires_at = exp, en_lru_clock = 0\<rparr>"
    by (simp_all add: demo_tier_def) (simp add: new_store_def)
  from wf have "store_wf (demo_tier key exp)" by (simp add: demo_tier_def value_inv_def)
  with ds show "tier_wf (demo_tier key exp)" by (simp add: tier_wf_def demo_shard_wf)
qed

lemma demo_tier_storable:
  assumes "utf8_valid key" and "length key < 1000" and "is_i64 ttl"
  shows "storable (entry_to_dump key (Str (ascii ''v'')) ttl)"
  using assms
  by (simp add: storable_def entry_to_dump_def store_value_to_dump_value_def str_ok_def u32_sized_def
      value_ok_def write_single_entry_def write_value_def write_bytes_def write_i64_def ascii_def)

lemma demo_key_utf8: "utf8_valid (ascii ''k'')"
  by (rule utf8_valid_ascii) (simp add: ascii_def)

lemma demo_tier_evict_storable:
  "x \<le> 1000000000 \<Longrightarrow> storable (entry_to_dump (ascii ''k'') (Str (ascii ''v''))
     (evicted_ttl_ms \<lparr>en_value = Str (ascii ''v''), en_expires_at = Some x, en_lru_clock = 0\<rparr> t0))"
proof -
  assume x: "x \<le> 1000000000"
  have "as_millis (x - t0) \<le> x" by (simp add: as_millis_def)
  with x have "int (as_millis (x - t0)) \<le> i64_max" by (simp add: i64_max_def)
  then have "is_i64 (evicted_ttl_ms \<lparr>en_value = Str (ascii ''v''), en_expires_at = Some x, en_lru_clock = 0\<rparr> t0)"
    by (simp add: evicted_ttl_ms_def wrap_i64_id is_i64_def i64_min_def i64_max_def)
  then show ?thesis using demo_key_utf8 by (intro demo_tier_storable) (simp_all add: ascii_def)
qed

theorem evict_promote_round_trip_witness:
  "\<exists>e'. data_get (snd (try_promote (\<lambda>_. 0) (ascii ''k'') 60000000 60000000
      (snd (evict_key (\<lambda>_. 0) (shard_index (demo_tier (ascii ''k'') (Some 100000000)) (ascii ''k'')) (ascii ''k'') 0 Written None
        (demo_tier (ascii ''k'') (Some 100000000)))))) (ascii ''k'') = Some e' \<and>
    norm_value (en_value e') = Str (ascii ''v'') \<and> en_expires_at e' = Some 100000000"
  using evict_promote_round_trip [OF demo_tier_facts [where key = "ascii ''k''" and exp = "Some 100000000"], where now = 60000000
      and ?t0.0 = 0 and hc = "\<lambda>_. 0", OF _ _ demo_key_utf8 _ _ _ prod.collapse [symmetric] prod.collapse [symmetric]]
    demo_tier_evict_storable [of 100000000 0]
  by (simp add: is_vector_def value_wf_def as_millis_def from_millis_def i64_max_def norm_value_def restored_value_def)

theorem evicted_expired_key_revives_witness:
  "live (demo_tier (ascii ''k'') (Some 5)) 7 (ascii ''k'') = None \<and>
   live (snd (try_promote (\<lambda>_. 0) (ascii ''k'') 9 9
      (snd (evict_key (\<lambda>_. 0) (shard_index (demo_tier (ascii ''k'') (Some 5)) (ascii ''k'')) (ascii ''k'') 7 Written None
        (demo_tier (ascii ''k'') (Some 5)))))) 1000 (ascii ''k'') \<noteq> None"
  using evicted_expired_key_revives [OF demo_tier_facts [where key = "ascii ''k''" and exp = "Some 5"], where now = 9
      and ?t0.0 = 7 and hc = "\<lambda>_. 0" and t = 1000 and x = 5, OF _ demo_key_utf8 _ _ _ _ prod.collapse [symmetric] prod.collapse [symmetric]]
    demo_tier_storable [OF demo_key_utf8, of 0]
  by (simp add: is_vector_def as_millis_def i64_max_def ascii_def is_i64_def i64_min_def)

lemma demo_invalid_key: "\<not> utf8_valid [255]" "key_string [255] = replacement_char" "utf8_valid replacement_char"
  by (simp_all add: utf8_valid_def key_string_def replacement_char_def utf8_chars.simps utf8_lossy.simps second_ok_def
      cont_byte_def)

theorem evicted_invalid_key_lost_witness:
  "data_get (demo_tier [255] None) [255] \<noteq> None \<and>
   data_get (snd (evict_key (\<lambda>_. 0) (shard_index (demo_tier [255] None) [255]) [255] 7 Written None (demo_tier [255] None))) [255] = None \<and>
   \<not> disk_contains [255] 9 (snd (evict_key (\<lambda>_. 0) (shard_index (demo_tier [255] None) [255]) [255] 7 Written None (demo_tier [255] None)))"
  using evicted_invalid_key_lost [OF demo_tier_facts [where key = "[255]" and exp = None], where now = 9
      and ?t0.0 = 7 and hc = "\<lambda>_. 0" and t = 9, OF _ demo_invalid_key(1) _ _ _ prod.collapse [symmetric]]
    demo_tier_storable [OF demo_invalid_key(3), of 0] demo_tier_facts(3) [of "[255]" None]
  by (simp add: is_vector_def demo_invalid_key evicted_ttl_ms_def is_i64_def i64_min_def i64_max_def replacement_char_def
      ds_contains_def hm_contains_def disk_at_def demo_shard_def)

end
