(* ===== verification/KeyedOp.thy ===== *)
theory KeyedOp
  imports Tier
begin

text \<open>
  The contract of an operation on one key. A slot is what a client can see of a
  key at a time: its value and its deadline, or nothing when it is absent or
  expired. An operation that keeps the contract computes its reply and the new
  slot from the old slot alone and leaves every other key as it is; so sequences
  of such operations behave like updates of a plain map, and operations on
  different keys commute.
\<close>

section \<open>Slots\<close>

type_synonym slot = "(store_value \<times> instant option) option"

definition view :: "store \<Rightarrow> instant \<Rightarrow> bytes \<Rightarrow> slot" where
  "view st now key =
     (case data_get st key of
        None \<Rightarrow> None
      | Some e \<Rightarrow> if is_expired_at e now then None else Some (en_value e, en_expires_at e))"

text \<open>What is left of a slot when time has passed.\<close>

definition age :: "instant \<Rightarrow> slot \<Rightarrow> slot" where
  "age t s = (case s of Some (v, Some x) \<Rightarrow> if t > x then None else s | _ \<Rightarrow> s)"

lemma view_cong: "data_get st' k = data_get st k \<Longrightarrow> view st' now k = view st now k"
  by (simp add: view_def)

lemma view_age: "now \<le> t \<Longrightarrow> view st t k = age t (view st now k)"
  by (auto simp: view_def age_def is_expired_at_def split: option.splits)

lemma age_view [simp]: "age now (view st now k) = view st now k"
  using view_age [of now now st k] by simp

text \<open>A store in memory mode, where every key is in memory.\<close>

definition mem_wf :: "store \<Rightarrow> bool" where
  "mem_wf st \<longleftrightarrow> store_wf st \<and> disk_shards st = None"

lemma mem_wf_simps [simp]:
  "mem_wf (mem_sub a st) = mem_wf st" "mem_wf (mem_add a st) = mem_wf st"
  "mem_wf (key_added st) = mem_wf st" "mem_wf (key_removed st) = mem_wf st"
  "mem_wf (bump_version k st) = mem_wf st" "mem_wf (shard_mem_sub k a st) = mem_wf st"
  "mem_wf (shard_mem_add k a st) = mem_wf st"
  by (simp_all add: mem_wf_def)

lemma mem_wf_store [simp]: "mem_wf st \<Longrightarrow> store_wf st"
  by (simp add: mem_wf_def)

lemma mem_wf_value_inv: "data_get st k = Some e \<Longrightarrow> mem_wf st \<Longrightarrow> value_inv (en_value e)"
  using data_get_value_inv [of st k e] by simp

lemma mem_wf_update [simp]:
  "mem_wf st \<Longrightarrow> value_inv (en_value e) \<Longrightarrow> mem_wf (data_insert k e st)"
  "mem_wf st \<Longrightarrow> mem_wf (data_remove k st)"
  "mem_wf st \<Longrightarrow> value_inv (en_value e) \<Longrightarrow> mem_wf (insert_accounted k e st)"
  "mem_wf st \<Longrightarrow> mem_wf (take_entry k e st)"
  by (simp_all add: mem_wf_def)

lemma mem_wf_no_disk [simp]: "mem_wf st \<Longrightarrow> remove_from_disk k st = st"
  by (simp add: mem_wf_def remove_from_disk_def)

lemma mem_wf_no_promote [simp]: "mem_wf st \<Longrightarrow> try_promote hc k now t st = (Inr False, st)"
  by (simp add: mem_wf_def try_promote_def)

section \<open>The contract\<close>

locale keyed_op =
  fixes op :: "instant \<Rightarrow> store \<Rightarrow> 'r \<times> store" and key :: bytes and spec :: "instant \<Rightarrow> slot \<Rightarrow> 'r \<times> slot"
  assumes op_wf: "mem_wf st \<Longrightarrow> mem_wf (snd (op now st))"
    and op_reply: "mem_wf st \<Longrightarrow> fst (op now st) = fst (spec now (view st now key))"
    and op_effect: "mem_wf st \<Longrightarrow> view (snd (op now st)) now key = snd (spec now (view st now key))"
    and op_frame: "mem_wf st \<Longrightarrow> k \<noteq> key \<Longrightarrow> data_get (snd (op now st)) k = data_get st k"
begin

lemma op_view: "mem_wf st \<Longrightarrow> view (snd (op now st)) now = (view st now)(key := snd (spec now (view st now key)))"
  by (rule ext) (simp add: op_effect view_cong [OF op_frame])

lemma op_view_frame: "mem_wf st \<Longrightarrow> k \<noteq> key \<Longrightarrow> view (snd (op now st)) t k = view st t k"
  by (simp add: view_cong [OF op_frame])

end

text \<open>Operations that keep the number of keys exact, and those that also keep the memory figure exact.\<close>

locale counted_op = keyed_op +
  assumes op_keys: "mem_wf st \<Longrightarrow> keys_exact st \<Longrightarrow> keys_exact (snd (op now st))"

locale metered_op = counted_op +
  assumes op_memory: "mem_wf st \<Longrightarrow> memory_exact st \<Longrightarrow> memory_exact (snd (op now st))"

section \<open>Sequences\<close>

text \<open>A set of commands, each keeping the contract, run at non-decreasing times.\<close>

fun run_all :: "('c \<Rightarrow> instant \<Rightarrow> store \<Rightarrow> 'r \<times> store) \<Rightarrow> (instant \<times> 'c) list \<Rightarrow> store \<Rightarrow> 'r list \<times> store" where
  "run_all run [] st = ([], st)"
| "run_all run ((now, c) # cs) st =
     (case run c now st of (r, st) \<Rightarrow> (case run_all run cs st of (rs, st) \<Rightarrow> (r # rs, st)))"

fun spec_all ::
    "('c \<Rightarrow> bytes) \<Rightarrow> ('c \<Rightarrow> instant \<Rightarrow> slot \<Rightarrow> 'r \<times> slot) \<Rightarrow> (instant \<times> 'c) list \<Rightarrow>
     (bytes \<Rightarrow> slot) \<Rightarrow> 'r list \<times> (bytes \<Rightarrow> slot)" where
  "spec_all key spec [] m = ([], m)"
| "spec_all key spec ((now, c) # cs) m =
     (let m = (\<lambda>k. age now (m k)) in
      case spec c now (m (key c)) of
        (r, s) \<Rightarrow> (case spec_all key spec cs (m(key c := s)) of (rs, m) \<Rightarrow> (r # rs, m)))"

text \<open>The times of a sequence do not decrease, starting from a given one.\<close>

fun timed :: "instant \<Rightarrow> (instant \<times> 'c) list \<Rightarrow> bool" where
  "timed t [] = True"
| "timed t ((now, c) # cs) \<longleftrightarrow> t \<le> now \<and> timed now cs"

fun end_time :: "instant \<Rightarrow> (instant \<times> 'c) list \<Rightarrow> instant" where
  "end_time t [] = t"
| "end_time t ((now, c) # cs) = end_time now cs"

locale command_set =
  fixes run :: "'c \<Rightarrow> instant \<Rightarrow> store \<Rightarrow> 'r \<times> store" and key :: "'c \<Rightarrow> bytes"
    and spec :: "'c \<Rightarrow> instant \<Rightarrow> slot \<Rightarrow> 'r \<times> slot"
  assumes counted: "counted_op (run c) (key c) (spec c)"
begin

lemmas keyed = counted_op.axioms(1) [OF counted]

lemma run_all_refines:
  assumes "mem_wf st" and "timed t cs" and "run_all run cs st = (rs, st')"
  shows "mem_wf st' \<and> spec_all key spec cs (view st t) = (rs, view st' (end_time t cs))"
  using assms
proof (induction cs arbitrary: st t rs)
  case (Cons p cs)
  obtain now c where p: "p = (now, c)" by (cases p)
  obtain r st1 where step: "run c now st = (r, st1)" by (cases "run c now st")
  obtain rs' where rest: "run_all run cs st1 = (rs', st')" "rs = r # rs'"
    using Cons.prems(3) p step by (auto split: prod.splits)
  have le: "t \<le> now" "timed now cs" using Cons.prems(2) p by auto
  have v: "(\<lambda>k. age now (view st t k)) = view st now" using le view_age [of t now st] by auto
  have wf1: "mem_wf st1" using keyed_op.op_wf [OF keyed, of st c now] Cons.prems(1) step by simp
  have "spec c now (view st now (key c)) = (r, view st1 now (key c))"
    using keyed_op.op_reply [OF keyed, of st c now] keyed_op.op_effect [OF keyed, of st c now] Cons.prems(1) step
    by (simp add: prod_eq_iff)
  moreover have "(view st now)(key c := view st1 now (key c)) = view st1 now"
    using keyed_op.op_view [OF keyed, of st c now] keyed_op.op_effect [OF keyed, of st c now] Cons.prems(1) step by simp
  ultimately show ?case using Cons.IH [OF wf1 le(2) rest(1)] p v rest(2) by simp
qed auto

lemma run_all_keys:
  assumes "mem_wf st" and "keys_exact st" and "run_all run cs st = (rs, st')"
  shows "keys_exact st'"
  using assms
proof (induction cs arbitrary: st rs)
  case (Cons p cs)
  obtain now c where p: "p = (now, c)" by (cases p)
  obtain r st1 where step: "run c now st = (r, st1)" by (cases "run c now st")
  have "mem_wf st1" "keys_exact st1"
    using keyed_op.op_wf [OF keyed, of st c now] counted_op.op_keys [OF counted, of st c now] Cons.prems(1,2) step by simp_all
  then show ?case using Cons.IH Cons.prems(3) p step by (auto split: prod.splits)
qed auto

lemma run_commute:
  assumes "mem_wf st" and "key c1 \<noteq> key c2"
    and "run_all run [(now, c1), (now, c2)] st = ([r1, r2], st12)"
    and "run_all run [(now, c2), (now, c1)] st = ([s2, s1], st21)"
  shows "s1 = r1 \<and> s2 = r2 \<and> view st21 now = view st12 now"
proof -
  have reply: "fst (run d now (snd (run c now st))) = fst (run d now st)" if "key c \<noteq> key d" for c d
    using assms(1) that keyed_op.op_reply [OF keyed] keyed_op.op_wf [OF keyed] keyed_op.op_view_frame [OF keyed] by metis
  have "view (snd (run c2 now (snd (run c1 now st)))) now = view (snd (run c1 now (snd (run c2 now st)))) now"
    using assms(1,2) keyed_op.op_wf [OF keyed]
    by (simp add: keyed_op.op_view [OF keyed] fun_upd_twist)
  with reply [OF assms(2)] reply [OF assms(2) [symmetric]] assms(3,4) show ?thesis
    by (auto split: prod.splits)
qed

end

text \<open>An operation with its reply wrapped, and an operation that only reads.\<close>

lemma counted_op_map:
  assumes "counted_op op key spec"
  shows "counted_op (\<lambda>now st. map_prod f id (op now st)) key (\<lambda>now s. map_prod f id (spec now s))"
proof -
  note k = counted_op.axioms(1) [OF assms]
  show ?thesis
    using keyed_op.op_wf [OF k] keyed_op.op_reply [OF k] keyed_op.op_effect [OF k] keyed_op.op_frame [OF k]
      counted_op.op_keys [OF assms]
    by unfold_locales auto
qed

lemma reader_op:
  assumes "\<And>now st. mem_wf st \<Longrightarrow> op now st = (f now (view st now key), st)"
  shows "counted_op op key (\<lambda>now s. (f now s, s))"
  using assms by unfold_locales auto

section \<open>Creating an entry on demand\<close>

text \<open>
  The entry API of the map: a missing key gets an entry with the default value, an
  expired one is reset to it in place.
\<close>

definition entry_or_insert :: "store_value \<Rightarrow> bytes \<Rightarrow> instant \<Rightarrow> store \<Rightarrow> entry \<times> store" where
  "entry_or_insert dflt key now st =
     (case (case data_get st key of
              Some e \<Rightarrow> (e, st)
            | None \<Rightarrow>
                (let e = \<lparr>en_value = dflt, en_expires_at = None, en_lru_clock = lru_clock st\<rparr> in
                 (e, key_added (data_insert key e st)))) of
        (e, st) \<Rightarrow>
          (if is_expired_at e now then
             (let e = e\<lparr>en_value := dflt, en_expires_at := None\<rparr> in (e, data_insert key e st))
           else (e, st)))"

lemma entry_or_insert_result:
  assumes "mem_wf st" and "value_inv dflt" and "entry_or_insert dflt key now st = (e, st')"
  shows "mem_wf st'" and "data_get st' key = Some e" and "\<not> is_expired_at e now"
    and "value_inv (en_value e)"
    and "(en_value e, en_expires_at e) = (case view st now key of None \<Rightarrow> (dflt, None) | Some p \<Rightarrow> p)"
    and "k \<noteq> key \<Longrightarrow> data_get st' k = data_get st k"
    and "keys_exact st \<Longrightarrow> keys_exact st'"
  using assms mem_wf_value_inv [of st key]
  by (auto simp: entry_or_insert_def Let_def view_def is_expired_at_def keys_exact_def total_keys_insert
      split: option.splits if_splits)

text \<open>The new value of an entry, kept in place.\<close>

definition put_value :: "bytes \<Rightarrow> entry \<Rightarrow> store_value \<Rightarrow> store \<Rightarrow> store" where
  "put_value key e v st = data_insert key (e\<lparr>en_value := v\<rparr>) st"

lemma put_value_simps [simp]:
  "mem_wf st \<Longrightarrow> value_inv v \<Longrightarrow> mem_wf (put_value key e v st)"
  "store_wf st \<Longrightarrow> data_get (put_value key e v st) k = (if k = key then Some (e\<lparr>en_value := v\<rparr>) else data_get st k)"
  "disk_shards (put_value key e v st) = disk_shards st"
  "key_count (put_value key e v st) = key_count st" "used_memory (put_value key e v st) = used_memory st"
  by (simp_all add: put_value_def)

lemma put_value_keys [simp]:
  "mem_wf st \<Longrightarrow> data_get st key = Some e' \<Longrightarrow> keys_exact (put_value key e v st) = keys_exact st"
  by (simp add: put_value_def keys_exact_replace)

lemma view_Some: "data_get st k = Some e \<Longrightarrow> \<not> is_expired_at e now \<Longrightarrow> view st now k = Some (en_value e, en_expires_at e)"
  by (simp add: view_def)

definition slot_value :: "store_value \<Rightarrow> slot \<Rightarrow> store_value \<times> instant option" where
  "slot_value dflt s = (case s of None \<Rightarrow> (dflt, None) | Some p \<Rightarrow> p)"

section \<open>A small store for witnesses\<close>

fun demo_store :: "(bytes \<times> store_value) list \<Rightarrow> store" where
  "demo_store [] = new_store 2 None"
| "demo_store ((k, v) # kvs) =
     data_insert k \<lparr>en_value = v, en_expires_at = None, en_lru_clock = 0\<rparr> (demo_store kvs)"

lemma demo_store_wf: "\<forall>(k, v) \<in> set kvs. value_inv v \<Longrightarrow> mem_wf (demo_store kvs)"
proof (induction kvs)
  case Nil
  have "store_wf (new_store 2 None)" by (rule new_store_wf) simp_all
  then show ?case by (simp add: mem_wf_def new_store_def)
qed auto

lemma demo_store_view:
  "\<forall>(k, v) \<in> set kvs. value_inv v \<Longrightarrow> view (demo_store kvs) now k = map_option (\<lambda>v. (v, None)) (map_of kvs k)"
proof (induction kvs)
  case (Cons p kvs)
  obtain k' v where p: "p = (k', v)" by (cases p)
  have "store_wf (demo_store kvs)" using Cons.prems demo_store_wf [of kvs] by simp
  then show ?case using Cons by (auto simp: p view_def is_expired_at_def)
qed (simp add: view_def)

end
