(* ===== verification/StoreStrings.thy ===== *)
theory StoreStrings
  imports KeyedOp
begin

text \<open>
  The string commands of the store, from \<open>set\<close> and \<open>get\<close> to \<open>setrange\<close>, of
  \<^verbatim>\<open>src/src/store/mod.rs\<close>. Each operation takes the time of its command; a
  promotion also takes the clock reading it makes itself.
\<close>

section \<open>Reading\<close>

definition get_from_shard :: "bytes \<Rightarrow> instant \<Rightarrow> store \<Rightarrow> bytes option" where
  "get_from_shard key now st =
     (case data_get st key of
        None \<Rightarrow> None
      | Some e \<Rightarrow> if is_expired_at e now then None else string_to_bytes (en_value e))"

definition get_raw_string :: "bytes \<Rightarrow> instant \<Rightarrow> store \<Rightarrow> bytes option" where
  "get_raw_string key now st = get_from_shard key now st"

definition get_checked ::
    "(bytes \<Rightarrow> nat) \<Rightarrow> bytes \<Rightarrow> instant \<Rightarrow> instant \<Rightarrow> store \<Rightarrow> bytes option result \<times> store" where
  "get_checked hll_count key now inst_now st =
     (case get_from_shard key now st of
        Some v \<Rightarrow> (Inr (Some v), st)
      | None \<Rightarrow>
          (case try_promote hll_count key now inst_now st of
             (Inl e, st) \<Rightarrow> (Inl e, st)
           | (Inr True, st) \<Rightarrow> (Inr (get_from_shard key now st), st)
           | (Inr False, st) \<Rightarrow> (Inr None, st)))"

definition store_get :: "(bytes \<Rightarrow> nat) \<Rightarrow> bytes \<Rightarrow> instant \<Rightarrow> instant \<Rightarrow> store \<Rightarrow> bytes option \<times> store" where
  "store_get hll_count key now inst_now st =
     (case get_checked hll_count key now inst_now st of
        (Inr v, st) \<Rightarrow> (v, st)
      | (Inl _, st) \<Rightarrow> (None, st))"

definition get_entry_type_from_shard :: "bytes \<Rightarrow> instant \<Rightarrow> store \<Rightarrow> string option" where
  "get_entry_type_from_shard key now st =
     (case data_get st key of
        None \<Rightarrow> None
      | Some e \<Rightarrow> if is_expired_at e now then None else Some (type_name (en_value e)))"

definition get_entry_type ::
    "(bytes \<Rightarrow> nat) \<Rightarrow> bytes \<Rightarrow> instant \<Rightarrow> instant \<Rightarrow> store \<Rightarrow> string option \<times> store" where
  "get_entry_type hll_count key now inst_now st =
     (case get_entry_type_from_shard key now st of
        Some t \<Rightarrow> (Some t, st)
      | None \<Rightarrow>
          (case try_promote hll_count key now inst_now st of
             (Inr True, st) \<Rightarrow> (get_entry_type_from_shard key now st, st)
           | (_, st) \<Rightarrow> (None, st)))"

definition strlen :: "bytes \<Rightarrow> instant \<Rightarrow> store \<Rightarrow> int" where
  "strlen key now st =
     (case data_get st key of
        None \<Rightarrow> 0
      | Some e \<Rightarrow>
          if \<not> is_expired_at e now then
            (case string_bytes (en_value e) of None \<Rightarrow> 0 | Some s \<Rightarrow> int (length s))
          else 0)"

definition getrange :: "bytes \<Rightarrow> int \<Rightarrow> int \<Rightarrow> instant \<Rightarrow> store \<Rightarrow> bytes result" where
  "getrange key start stop now st =
     (case data_get st key of
        None \<Rightarrow> Inr []
      | Some e \<Rightarrow>
          if is_expired_at e now then Inr []
          else case string_bytes (en_value e) of
            None \<Rightarrow> Inl (Err WRONGTYPE)
          | Some s \<Rightarrow>
              (let len = int (length s);
                   s_i = (if start < 0 then i64_as_usize (max (len + start) 0) else i64_as_usize (min start len));
                   e_i = (if stop < 0 then (i64_as_usize (max (len + stop) (- 1)) + 1) mod 18446744073709551616
                          else i64_as_usize (min (wrap_i64 (stop + 1)) len))
               in if s_i \<ge> e_i then Inr []
                  else if e_i > length s then Inl Panic
                  else Inr (take (e_i - s_i) (drop s_i s))))"

section \<open>Writing\<close>

definition set_on_shard :: "bytes \<Rightarrow> bytes \<Rightarrow> duration option \<Rightarrow> instant \<Rightarrow> store \<Rightarrow> store" where
  "set_on_shard key v ttl now st =
     insert_accounted key
       \<lparr>en_value = Str v, en_expires_at = map_option (\<lambda>d. now + d) ttl, en_lru_clock = lru_clock st\<rparr> st"

definition store_set :: "bytes \<Rightarrow> bytes \<Rightarrow> duration option \<Rightarrow> instant \<Rightarrow> store \<Rightarrow> store" where
  "store_set key v ttl now st = remove_from_disk key (set_on_shard key v ttl now (bump_version key st))"

record set_options =
  so_ttl :: "duration option"
  so_keep_ttl :: bool
  so_nx :: bool
  so_xx :: bool
  so_ifeq :: "bytes option"
  so_get :: bool
  so_encrypted :: bool

record prepared_conditional_set =
  pc_should_set :: bool
  pc_old :: "bytes option"
  pc_stored_value :: "bytes option"
  pc_expires_at :: "instant option"

definition user_kv_key :: "bytes \<Rightarrow> bytes" where
  "user_kv_key key = key_string key"

definition decrypt_kv_string_value :: "keyring \<Rightarrow> bytes \<Rightarrow> bytes \<Rightarrow> bytes result" where
  "decrypt_kv_string_value kr key v =
     (if \<not> kr_is_encrypted_value kr v then Inr v
      else kr_decrypt kr ''__lux_kv'' (ascii ''value'') (user_kv_key key) v)"

definition encrypt_kv_string_value :: "keyring \<Rightarrow> bytes \<Rightarrow> bytes \<Rightarrow> bytes result" where
  "encrypt_kv_string_value kr key v = kr_encrypt kr ''__lux_kv'' (ascii ''value'') (user_kv_key key) v"

text \<open>The current string of an entry, as \<open>GET\<close> and \<open>IFEQ\<close> read it.\<close>

definition current_string :: "keyring \<Rightarrow> bytes \<Rightarrow> entry \<Rightarrow> bytes result" where
  "current_string kr key e =
     (case string_to_bytes (en_value e) of
        None \<Rightarrow> Inl (Err WRONGTYPE)
      | Some raw \<Rightarrow> decrypt_kv_string_value kr key raw)"

definition prepare_conditional_set ::
    "keyring \<Rightarrow> bytes \<Rightarrow> bytes \<Rightarrow> set_options \<Rightarrow> instant \<Rightarrow> store \<Rightarrow> prepared_conditional_set result" where
  "prepare_conditional_set kr key v opts now st =
     (let entry = (case data_get st key of None \<Rightarrow> None | Some e \<Rightarrow> if is_expired_at e now then None else Some e);
          ex = (entry \<noteq> None);
          old_expires_at = (case entry of None \<Rightarrow> None | Some e \<Rightarrow> en_expires_at e);
          existing_encrypted = (case entry of None \<Rightarrow> False
            | Some e \<Rightarrow> (case string_bytes (en_value e) of None \<Rightarrow> False | Some s \<Rightarrow> kr_is_encrypted_value kr s))
      in case (case entry of Some e \<Rightarrow> if so_get opts then map_sum id Some (current_string kr key e) else Inr None
               | None \<Rightarrow> Inr None) of
           Inl err \<Rightarrow> Inl err
         | Inr old \<Rightarrow>
             (case (case (entry, so_ifeq opts) of
                      (Some e, Some expected) \<Rightarrow> map_sum id (\<lambda>cur. cur = expected) (current_string kr key e)
                    | _ \<Rightarrow> Inr (so_ifeq opts = None)) of
                Inl err \<Rightarrow> Inl err
              | Inr ifeq_matches \<Rightarrow>
                  (let should_set = (if so_ifeq opts \<noteq> None then ifeq_matches
                         else (\<not> so_nx opts \<or> \<not> ex) \<and> (\<not> so_xx opts \<or> ex));
                       expires_at = (if should_set then
                           if so_keep_ttl opts then old_expires_at else map_option (\<lambda>d. now + d) (so_ttl opts)
                         else None)
                   in case (if should_set then
                              map_sum id Some (if so_encrypted opts \<or> existing_encrypted
                                then encrypt_kv_string_value kr key v else Inr v)
                            else Inr None) of
                        Inl err \<Rightarrow> Inl err
                      | Inr stored \<Rightarrow>
                          Inr \<lparr>pc_should_set = should_set, pc_old = old, pc_stored_value = stored,
                               pc_expires_at = expires_at\<rparr>)))"

definition apply_conditional_set ::
    "bytes \<Rightarrow> prepared_conditional_set \<Rightarrow> store \<Rightarrow> (bool \<times> bytes option) result \<times> store" where
  "apply_conditional_set key p st =
     (if pc_should_set p then
        (let st = bump_version key st in
         case pc_stored_value p of
           None \<Rightarrow> (Inl Panic, st)
         | Some v \<Rightarrow>
             (Inr (True, pc_old p),
              remove_from_disk key (insert_accounted key
                \<lparr>en_value = Str v, en_expires_at = pc_expires_at p, en_lru_clock = lru_clock st\<rparr> st)))
      else (Inr (False, pc_old p), st))"

text \<open>A plain string entry, as \<open>set_nx\<close>, \<open>get_set\<close>, \<open>incr\<close> and \<open>append\<close> build it.\<close>

definition str_entry :: "bytes \<Rightarrow> instant option \<Rightarrow> store \<Rightarrow> entry" where
  "str_entry v exp st = \<lparr>en_value = Str v, en_expires_at = exp, en_lru_clock = lru_clock st\<rparr>"

definition set_nx_on_shard :: "bytes \<Rightarrow> bytes \<Rightarrow> instant \<Rightarrow> store \<Rightarrow> bool \<times> store" where
  "set_nx_on_shard key v now st =
     (case data_get st key of
        Some e \<Rightarrow>
          if \<not> is_expired_at e now then (False, st)
          else (True, insert_accounted key (str_entry v None st) st)
      | None \<Rightarrow> (True, insert_accounted key (str_entry v None st) st))"

definition set_nx :: "bytes \<Rightarrow> bytes \<Rightarrow> instant \<Rightarrow> store \<Rightarrow> bool \<times> store" where
  "set_nx key v now st = set_nx_on_shard key v now (bump_version key st)"

definition get_set_on_shard :: "bytes \<Rightarrow> bytes \<Rightarrow> instant \<Rightarrow> store \<Rightarrow> bytes option \<times> store" where
  "get_set_on_shard key v now st =
     (get_from_shard key now st, insert_accounted key (str_entry v None st) st)"

definition get_set :: "bytes \<Rightarrow> bytes \<Rightarrow> instant \<Rightarrow> store \<Rightarrow> bytes option \<times> store" where
  "get_set key v now st = get_set_on_shard key v now (bump_version key st)"

definition not_integer :: failure where
  "not_integer = Err ''ERR value is not an integer or out of range''"

definition incr_locked :: "bytes \<Rightarrow> int \<Rightarrow> instant \<Rightarrow> store \<Rightarrow> int result \<times> store" where
  "incr_locked key delta now st =
     (let st = bump_version key st in
      case (case data_get st key of
              Some e \<Rightarrow>
                if \<not> is_expired_at e now then
                  (case string_bytes (en_value e) of
                     Some s \<Rightarrow>
                       if \<not> utf8_valid s then Inl not_integer
                       else (case parse_i64 s of None \<Rightarrow> Inl not_integer | Some n \<Rightarrow> Inr (n, en_expires_at e))
                   | None \<Rightarrow> Inl (Err WRONGTYPE))
                else Inr (0, None)
            | None \<Rightarrow> Inr (0, None)) of
        Inl err \<Rightarrow> (Inl err, st)
      | Inr (current, expires_at) \<Rightarrow>
          (case checked_i64 (current + delta) of
             None \<Rightarrow> (Inl (Err ''ERR increment or decrement would overflow''), st)
           | Some new_val \<Rightarrow>
               (Inr new_val, insert_accounted key (str_entry (i64_to_string new_val) expires_at st) st)))"

definition incr :: "(bytes \<Rightarrow> nat) \<Rightarrow> bytes \<Rightarrow> int \<Rightarrow> instant \<Rightarrow> instant \<Rightarrow> store \<Rightarrow> int result \<times> store" where
  "incr hll_count key delta now inst_now st =
     (case try_promote hll_count key now inst_now st of
        (Inl e, st) \<Rightarrow> (Inl e, st)
      | (Inr _, st) \<Rightarrow> incr_locked key delta now st)"

definition store_append_on_shard :: "bytes \<Rightarrow> bytes \<Rightarrow> instant \<Rightarrow> store \<Rightarrow> int \<times> store" where
  "store_append_on_shard key v now st =
     (let fresh = (int (length v), insert_accounted key (str_entry v None st) st) in
      case data_get st key of
        Some e \<Rightarrow>
          if \<not> is_expired_at e now then
            (case en_value e of
               Str s \<Rightarrow>
                 (int (length (s @ v)),
                  data_insert key (e\<lparr>en_value := StrBuf (s @ v), en_lru_clock := lru_clock st\<rparr>) (mem_add (length v) st))
             | StrBuf s \<Rightarrow>
                 (int (length (s @ v)),
                  data_insert key (e\<lparr>en_value := StrBuf (s @ v), en_lru_clock := lru_clock st\<rparr>) (mem_add (length v) st))
             | _ \<Rightarrow> fresh)
          else fresh
      | None \<Rightarrow> fresh)"

definition store_append :: "bytes \<Rightarrow> bytes \<Rightarrow> instant \<Rightarrow> store \<Rightarrow> int \<times> store" where
  "store_append key v now st = store_append_on_shard key v now (bump_version key st)"

definition getdel :: "bytes \<Rightarrow> instant \<Rightarrow> store \<Rightarrow> bytes option \<times> store" where
  "getdel key now st =
     (let st = bump_version key st in
      case data_get st key of
        Some e \<Rightarrow>
          if \<not> is_expired_at e now \<and> string_bytes (en_value e) \<noteq> None then
            (string_to_bytes (en_value e), take_entry key e st)
          else (None, st)
      | None \<Rightarrow> (None, st))"

definition getex :: "bytes \<Rightarrow> duration option \<Rightarrow> bool \<Rightarrow> instant \<Rightarrow> store \<Rightarrow> bytes option \<times> store" where
  "getex key ttl pers now st =
     (let st = bump_version key st in
      case data_get st key of
        Some e \<Rightarrow>
          if \<not> is_expired_at e now then
            (string_to_bytes (en_value e),
             if pers then data_insert key (e\<lparr>en_expires_at := None\<rparr>) st
             else case ttl of
               Some d \<Rightarrow> data_insert key (e\<lparr>en_expires_at := Some (now + d)\<rparr>) st
             | None \<Rightarrow> st)
          else (None, st)
      | None \<Rightarrow> (None, st))"

definition overwrite :: "nat \<Rightarrow> bytes \<Rightarrow> bytes \<Rightarrow> bytes" where
  "overwrite offset v buf =
     (let buf = (if length buf < offset + length v then buf @ replicate (offset + length v - length buf) 0 else buf) in
      take offset buf @ v @ drop (offset + length v) buf)"

definition setrange :: "bytes \<Rightarrow> nat \<Rightarrow> bytes \<Rightarrow> instant \<Rightarrow> store \<Rightarrow> int result \<times> store" where
  "setrange key offset v now st =
     (let st = (case data_get st key of
                  Some e \<Rightarrow> if is_expired_at e now then key_removed (data_remove key st) else st
                | None \<Rightarrow> st)
      in case data_get st key of
           None \<Rightarrow>
             (if v = [] then (Inr 0, st)
              else if offset + length v > usize_max then (Inl Panic, bump_version key st)
              else
                let st = bump_version key st;
                    e = \<lparr>en_value = StrBuf (overwrite offset v []), en_expires_at = None, en_lru_clock = lru_clock st\<rparr>;
                    mem = estimate_entry_memory key (en_value e)
                in (Inr (int (offset + length v)),
                    key_added (mem_add mem (shard_mem_add key mem (data_insert key e st)))))
         | Some e \<Rightarrow>
             (case string_bytes (en_value e) of
                None \<Rightarrow> (Inl (Err WRONGTYPE), st)
              | Some s \<Rightarrow>
                  (if v = [] then (Inr (int (length s)), st)
                   else if offset + length v > usize_max then (Inl Panic, bump_version key st)
                   else
                     let st = bump_version key st;
                         buf = overwrite offset v s;
                         e' = \<lparr>en_value = StrBuf buf, en_expires_at = en_expires_at e, en_lru_clock = lru_clock st\<rparr>;
                         mem = estimate_entry_memory key (en_value e');
                         old_mem = estimate_entry_memory key (en_value e);
                         st = data_insert key e' st
                     in (Inr (int (length buf)),
                         if mem \<ge> old_mem then mem_add (mem - old_mem) (shard_mem_add key (mem - old_mem) st)
                         else mem_sub (old_mem - mem) (shard_mem_sub key (old_mem - mem) st)))))"

fun msetnx_would_set ::
    "(bytes \<Rightarrow> nat) \<Rightarrow> (bytes \<times> bytes) list \<Rightarrow> instant \<Rightarrow> instant \<Rightarrow> store \<Rightarrow> bool \<times> store" where
  "msetnx_would_set hll_count [] now inst_now st = (True, st)"
| "msetnx_would_set hll_count ((key, v) # pairs) now inst_now st =
     (case store_get hll_count key now inst_now st of
        (None, st) \<Rightarrow> msetnx_would_set hll_count pairs now inst_now st
      | (Some _, st) \<Rightarrow> (False, st))"

fun set_all :: "(bytes \<times> bytes) list \<Rightarrow> instant \<Rightarrow> store \<Rightarrow> store" where
  "set_all [] now st = st"
| "set_all ((key, v) # pairs) now st = set_all pairs now (store_set key v None now st)"

definition msetnx ::
    "(bytes \<Rightarrow> nat) \<Rightarrow> (bytes \<times> bytes) list \<Rightarrow> instant \<Rightarrow> instant \<Rightarrow> store \<Rightarrow> bool \<times> store" where
  "msetnx hll_count pairs now inst_now st =
     (case msetnx_would_set hll_count pairs now inst_now st of
        (False, st) \<Rightarrow> (False, st)
      | (True, st) \<Rightarrow> (True, set_all pairs now st))"

section \<open>Contracts\<close>

definition slot_string :: "slot \<Rightarrow> bytes option" where
  "slot_string s = (case s of None \<Rightarrow> None | Some (v, _) \<Rightarrow> string_bytes v)"

lemma get_from_shard_view: "get_from_shard key now st = slot_string (view st now key)"
  by (simp add: get_from_shard_def slot_string_def view_def string_to_bytes_eq split: option.splits)

lemma value_inv_strings [simp]: "value_inv (Str s)" "value_inv (StrBuf s)"
  by (simp_all add: value_inv_def)

lemma expired_at_fields [simp]:
  "is_expired_at \<lparr>en_value = v, en_expires_at = None, en_lru_clock = c\<rparr> now = False"
  "is_expired_at \<lparr>en_value = v, en_expires_at = Some x, en_lru_clock = c\<rparr> now = (now > x)"
  by (simp_all add: is_expired_at_def)

lemma expired_at_update [simp]:
  "is_expired_at (e\<lparr>en_value := v\<rparr>) now = is_expired_at e now"
  "is_expired_at (e\<lparr>en_lru_clock := c\<rparr>) now = is_expired_at e now"
  "is_expired_at (e\<lparr>en_expires_at := None\<rparr>) now = False"
  "is_expired_at (e\<lparr>en_expires_at := Some x\<rparr>) now = (now > x)"
  by (simp_all add: is_expired_at_def)

lemmas exact_intros = insert_accounted_keys insert_accounted_memory take_entry_keys take_entry_memory

definition set_spec :: "bytes \<Rightarrow> duration option \<Rightarrow> instant \<Rightarrow> slot \<Rightarrow> unit \<times> slot" where
  "set_spec v ttl now s = ((), Some (Str v, map_option (\<lambda>d. now + d) ttl))"

interpretation set_op: metered_op "\<lambda>now st. ((), store_set key v ttl now st)" key "set_spec v ttl" for key v ttl
proof unfold_locales
  fix st and now :: instant
  assume wf: "mem_wf st"
  note defs = store_set_def set_on_shard_def set_spec_def
  show "mem_wf (snd ((), store_set key v ttl now st))" using wf by (simp add: defs)
  show "fst ((), store_set key v ttl now st) = fst (set_spec v ttl now (view st now key))" by simp
  show "view (snd ((), store_set key v ttl now st)) now key = snd (set_spec v ttl now (view st now key))"
    using wf by (cases ttl) (simp_all add: defs view_def)
  show "data_get (snd ((), store_set key v ttl now st)) k = data_get st k" if "k \<noteq> key" for k
    using wf that by (simp add: defs)
  show "keys_exact (snd ((), store_set key v ttl now st))" if "keys_exact st"
    using wf that by (simp add: defs exact_intros)
  show "memory_exact (snd ((), store_set key v ttl now st))" if "memory_exact st"
    using wf that by (simp add: defs exact_intros)
qed

definition set_nx_spec :: "bytes \<Rightarrow> instant \<Rightarrow> slot \<Rightarrow> bool \<times> slot" where
  "set_nx_spec v now s = (case s of None \<Rightarrow> (True, Some (Str v, None)) | Some _ \<Rightarrow> (False, s))"

interpretation set_nx_op: metered_op "set_nx key v" key "set_nx_spec v" for key v
  by unfold_locales
    (auto simp: set_nx_def set_nx_on_shard_def set_nx_spec_def view_def str_entry_def exact_intros split: option.splits)

definition get_set_spec :: "bytes \<Rightarrow> instant \<Rightarrow> slot \<Rightarrow> bytes option \<times> slot" where
  "get_set_spec v now s = (slot_string s, Some (Str v, None))"

interpretation get_set_op: metered_op "get_set key v" key "get_set_spec v" for key v
  by unfold_locales
    (auto simp: get_set_def get_set_on_shard_def get_set_spec_def get_from_shard_view str_entry_def exact_intros,
     auto simp: view_def)

definition incr_spec :: "int \<Rightarrow> instant \<Rightarrow> slot \<Rightarrow> int result \<times> slot" where
  "incr_spec delta now s =
     (case (case s of
              None \<Rightarrow> Inr (0, None)
            | Some (v, exp) \<Rightarrow>
                (case string_bytes v of
                   None \<Rightarrow> Inl (Err WRONGTYPE)
                 | Some b \<Rightarrow> (if utf8_valid b then case parse_i64 b of None \<Rightarrow> Inl not_integer | Some n \<Rightarrow> Inr (n, exp)
                     else Inl not_integer))) of
        Inl err \<Rightarrow> (Inl err, s)
      | Inr (n, exp) \<Rightarrow>
          (if is_i64 (n + delta) then (Inr (n + delta), Some (Str (i64_to_string (n + delta)), exp))
           else (Inl (Err ''ERR increment or decrement would overflow''), s)))"

interpretation incr_op: metered_op "\<lambda>now. incr hc key delta now t" key "incr_spec delta" for hc key delta t
  by unfold_locales
    (auto simp: incr_def incr_locked_def incr_spec_def view_def str_entry_def checked_i64_def exact_intros is_expired_at_def
      split: option.splits sum.splits if_splits)

definition append_spec :: "bytes \<Rightarrow> instant \<Rightarrow> slot \<Rightarrow> int \<times> slot" where
  "append_spec v now s =
     (case s of
        Some (x, exp) \<Rightarrow>
          (case string_bytes x of
             Some b \<Rightarrow> (int (length (b @ v)), Some (StrBuf (b @ v), exp))
           | None \<Rightarrow> (int (length v), Some (Str v, None)))
      | None \<Rightarrow> (int (length v), Some (Str v, None)))"

lemma value_size_strings [simp]: "value_size (Str s) = length s" "value_size (StrBuf s) = length s"
  by (simp_all add: value_size_def)

interpretation append_op: metered_op "store_append key v" key "append_spec v" for key v
proof unfold_locales
  fix st and now :: instant
  assume wf: "mem_wf st"
  note defs = store_append_def store_append_on_shard_def str_entry_def Let_def
  show "mem_wf (snd (store_append key v now st))"
    using wf by (auto simp: defs split: option.splits store_value.splits)
  show "fst (store_append key v now st) = fst (append_spec v now (view st now key))"
    "view (snd (store_append key v now st)) now key = snd (append_spec v now (view st now key))"
    using wf by (auto simp: defs append_spec_def view_def split: option.splits store_value.splits)
  show "data_get (snd (store_append key v now st)) k = data_get st k" if "k \<noteq> key" for k
    using wf that by (auto simp: defs split: option.splits store_value.splits)
  show "keys_exact (snd (store_append key v now st))" if "keys_exact st"
    using wf that by (auto simp: defs exact_intros keys_exact_replace split: option.splits store_value.splits)
  show "memory_exact (snd (store_append key v now st))" if "memory_exact st"
    using wf that by (auto simp: defs exact_intros intro!: memory_exact_grow split: option.splits store_value.splits)
qed

definition getdel_spec :: "instant \<Rightarrow> slot \<Rightarrow> bytes option \<times> slot" where
  "getdel_spec now s = (case slot_string s of None \<Rightarrow> (None, s) | Some b \<Rightarrow> (Some b, None))"

interpretation getdel_op: metered_op "getdel key" key getdel_spec for key
  by unfold_locales
    (auto simp: getdel_def getdel_spec_def slot_string_def view_def Let_def string_to_bytes_eq exact_intros split: option.splits)

definition getex_spec :: "duration option \<Rightarrow> bool \<Rightarrow> instant \<Rightarrow> slot \<Rightarrow> bytes option \<times> slot" where
  "getex_spec ttl pers now s =
     (slot_string s,
      map_option (\<lambda>(v, exp). (v, if pers then None else case ttl of None \<Rightarrow> exp | Some d \<Rightarrow> Some (now + d))) s)"

interpretation getex_op: metered_op "getex key ttl pers" key "getex_spec ttl pers" for key ttl pers
  by unfold_locales
    (auto simp: getex_def getex_spec_def slot_string_def view_def Let_def string_to_bytes_eq keys_exact_replace
      memory_exact_replace dest: mem_wf_value_inv split: option.splits)

definition setrange_spec :: "nat \<Rightarrow> bytes \<Rightarrow> instant \<Rightarrow> slot \<Rightarrow> int result \<times> slot" where
  "setrange_spec offset v now s =
     (case s of
        Some (x, exp) \<Rightarrow>
          (case string_bytes x of
             None \<Rightarrow> (Inl (Err WRONGTYPE), s)
           | Some b \<Rightarrow>
               (if v = [] then (Inr (int (length b)), s)
                else if offset + length v > usize_max then (Inl Panic, s)
                else (Inr (int (max (length b) (offset + length v))), Some (StrBuf (overwrite offset v b), exp))))
      | None \<Rightarrow>
          (if v = [] then (Inr 0, None)
           else if offset + length v > usize_max then (Inl Panic, None)
           else (Inr (int (offset + length v)), Some (StrBuf (overwrite offset v []), None))))"

lemma length_overwrite: "length (overwrite offset v buf) = max (length buf) (offset + length v)"
  by (auto simp: overwrite_def Let_def)

text \<open>
  Writing at an offset: the bytes written are there, those before and behind are
  kept, and a gap behind the old end is filled with zeros.
\<close>

lemma overwrite_nth:
  "i < length (overwrite offset v buf) \<Longrightarrow>
   overwrite offset v buf ! i =
     (if offset \<le> i \<and> i < offset + length v then v ! (i - offset) else if i < length buf then buf ! i else 0)"
  by (auto simp: overwrite_def Let_def nth_append min_def not_less)

interpretation setrange_op: counted_op "setrange key offset v" key "setrange_spec offset v" for key offset v
proof unfold_locales
  fix st and now :: instant
  assume wf: "mem_wf st"
  define st1 where "st1 = (case data_get st key of
      Some e \<Rightarrow> if is_expired_at e now then key_removed (data_remove key st) else st | None \<Rightarrow> st)"
  have wf1: "mem_wf st1" using wf by (simp add: st1_def split: option.splits)
  have get1: "data_get st1 k = (if k = key then case data_get st key of None \<Rightarrow> None
      | Some e \<Rightarrow> if is_expired_at e now then None else Some e else data_get st k)" for k
    using wf by (simp add: st1_def split: option.splits)
  have keys1: "keys_exact st1" if "keys_exact st"
    using that wf total_keys_remove [of st key] by (auto simp: st1_def keys_exact_def split: option.splits)
  note defs = setrange_def st1_def [symmetric] Let_def
  show "mem_wf (snd (setrange key offset v now st))"
    using wf1 by (auto simp: defs split: option.splits)
  show "fst (setrange key offset v now st) = fst (setrange_spec offset v now (view st now key))"
    "view (snd (setrange key offset v now st)) now key = snd (setrange_spec offset v now (view st now key))"
    using wf1 get1 by (auto simp: defs setrange_spec_def view_def length_overwrite is_expired_at_def split: option.splits)
  show "data_get (snd (setrange key offset v now st)) k = data_get st k" if "k \<noteq> key" for k
    using wf1 that get1 by (auto simp: defs split: option.splits)
  show "keys_exact (snd (setrange key offset v now st))" if "keys_exact st"
    using wf1 keys1 [OF that]
    by (auto simp: defs keys_exact_def total_keys_insert split: option.splits)
qed

end
