(* ===== verification/StoreLists.thy ===== *)
theory StoreLists
  imports StoreStrings
begin

text \<open>
  The list commands of the store (\<^verbatim>\<open>src/src/store/mod.rs\<close>). A \<^verbatim>\<open>VecDeque\<close> is a
  list with its front at the head.
\<close>

section \<open>Operations\<close>

definition elem_mem :: "bytes \<Rightarrow> nat" where
  "elem_mem b = length b + 32"

definition elems_mem :: "bytes list \<Rightarrow> nat" where
  "elems_mem bs = sum_list (map elem_mem bs)"

definition push_front_all :: "bytes list \<Rightarrow> bytes list \<Rightarrow> bytes list" where
  "push_front_all vs l = foldl (\<lambda>l v. v # l) l vs"

definition push_back_all :: "bytes list \<Rightarrow> bytes list \<Rightarrow> bytes list" where
  "push_back_all vs l = foldl (\<lambda>l v. l @ [v]) l vs"

definition mem_grow :: "bytes \<Rightarrow> nat \<Rightarrow> store \<Rightarrow> store" where
  "mem_grow key n st = mem_add n (shard_mem_add key n st)"

definition mem_shrink :: "bytes \<Rightarrow> nat \<Rightarrow> store \<Rightarrow> store" where
  "mem_shrink key n st = mem_sub n (shard_mem_sub key n st)"

definition lpush :: "bytes \<Rightarrow> bytes list \<Rightarrow> instant \<Rightarrow> store \<Rightarrow> int result \<times> store" where
  "lpush key vs now st =
     (case entry_or_insert (List []) key now st of
        (e, st) \<Rightarrow>
          (case en_value e of
             List l \<Rightarrow>
               (let l' = push_front_all vs l in
                (Inr (int (length l')), mem_grow key (elems_mem vs) (bump_version key (put_value key e (List l') st))))
           | _ \<Rightarrow> (Inl (Err WRONGTYPE), st)))"

definition rpush :: "bytes \<Rightarrow> bytes list \<Rightarrow> instant \<Rightarrow> store \<Rightarrow> int result \<times> store" where
  "rpush key vs now st =
     (case entry_or_insert (List []) key now (bump_version key st) of
        (e, st) \<Rightarrow>
          (case en_value e of
             List l \<Rightarrow>
               (let l' = push_back_all vs l in
                (Inr (int (length l')), mem_grow key (elems_mem vs) (put_value key e (List l') st)))
           | _ \<Rightarrow> (Inl (Err WRONGTYPE), st)))"

definition lpop_on_shard :: "bytes \<Rightarrow> instant \<Rightarrow> store \<Rightarrow> bytes option \<times> store" where
  "lpop_on_shard key now st =
     (case data_get st key of
        Some e \<Rightarrow>
          if is_expired_at e now then (None, st)
          else (case en_value e of
                  List (v # l) \<Rightarrow> (Some v, mem_shrink key (elem_mem v) (put_value key e (List l) st))
                | _ \<Rightarrow> (None, st))
      | None \<Rightarrow> (None, st))"

definition rpop_on_shard :: "bytes \<Rightarrow> instant \<Rightarrow> store \<Rightarrow> bytes option \<times> store" where
  "rpop_on_shard key now st =
     (case data_get st key of
        Some e \<Rightarrow>
          if is_expired_at e now then (None, st)
          else (case en_value e of
                  List l \<Rightarrow>
                    (if l = [] then (None, st)
                     else (Some (last l), mem_shrink key (elem_mem (last l)) (put_value key e (List (butlast l)) st)))
                | _ \<Rightarrow> (None, st))
      | None \<Rightarrow> (None, st))"

definition can_pop :: "bytes \<Rightarrow> instant \<Rightarrow> store \<Rightarrow> bool" where
  "can_pop key now st =
     (case data_get st key of
        Some e \<Rightarrow> \<not> is_expired_at e now \<and> (case en_value e of List l \<Rightarrow> l \<noteq> [] | _ \<Rightarrow> False)
      | None \<Rightarrow> False)"

definition lpop :: "bytes \<Rightarrow> instant \<Rightarrow> store \<Rightarrow> bytes option \<times> store" where
  "lpop key now st =
     (if \<not> can_pop key now st then (None, st)
      else case lpop_on_shard key now st of
        (None, st) \<Rightarrow> (None, st)
      | (Some v, st) \<Rightarrow> (Some v, bump_version key st))"

definition rpop :: "bytes \<Rightarrow> instant \<Rightarrow> store \<Rightarrow> bytes option \<times> store" where
  "rpop key now st =
     (if \<not> can_pop key now st then (None, st)
      else case rpop_on_shard key now st of
        (None, st) \<Rightarrow> (None, st)
      | (Some v, st) \<Rightarrow> (Some v, bump_version key st))"

fun pop_many :: "bool \<Rightarrow> bytes \<Rightarrow> nat \<Rightarrow> instant \<Rightarrow> store \<Rightarrow> bytes list \<times> store" where
  "pop_many pop_left key 0 now st = ([], st)"
| "pop_many pop_left key (Suc n) now st =
     (case (if pop_left then lpop_on_shard key now st else rpop_on_shard key now st) of
        (None, st) \<Rightarrow> ([], st)
      | (Some v, st) \<Rightarrow> (case pop_many pop_left key n now st of (vs, st) \<Rightarrow> (v # vs, st)))"

fun lmpop ::
    "(bytes \<Rightarrow> nat) \<Rightarrow> bytes list \<Rightarrow> bool \<Rightarrow> nat \<Rightarrow> instant \<Rightarrow> instant \<Rightarrow> store \<Rightarrow>
     (bytes \<times> bytes list) option result \<times> store" where
  "lmpop hll_count [] pop_left count now inst_now st = (Inr None, st)"
| "lmpop hll_count (key # ks) pop_left count now inst_now st =
     (case try_promote hll_count key now inst_now st of
        (Inl e, st) \<Rightarrow> (Inl e, st)
      | (Inr _, st) \<Rightarrow>
          (case data_get st key of
             None \<Rightarrow> lmpop hll_count ks pop_left count now inst_now st
           | Some e \<Rightarrow>
               if is_expired_at e now then lmpop hll_count ks pop_left count now inst_now st
               else case en_value e of
                 List l \<Rightarrow>
                   (if l = [] then lmpop hll_count ks pop_left count now inst_now st
                    else case pop_many pop_left key count now st of
                      (items, st) \<Rightarrow>
                        (if items \<noteq> [] then (Inr (Some (key, items)), remove_from_disk key (bump_version key st))
                         else lmpop hll_count ks pop_left count now inst_now st))
               | _ \<Rightarrow> (Inl (Err WRONGTYPE), st)))"

fun preview_lmpop ::
    "(bytes \<Rightarrow> nat) \<Rightarrow> bytes list \<Rightarrow> bool \<Rightarrow> nat \<Rightarrow> instant \<Rightarrow> instant \<Rightarrow> store \<Rightarrow>
     (bytes \<times> bytes list) option result \<times> store" where
  "preview_lmpop hll_count [] pop_left count now inst_now st = (Inr None, st)"
| "preview_lmpop hll_count (key # ks) pop_left count now inst_now st =
     (case try_promote hll_count key now inst_now st of
        (Inl e, st) \<Rightarrow> (Inl e, st)
      | (Inr _, st) \<Rightarrow>
          (case data_get st key of
             None \<Rightarrow> preview_lmpop hll_count ks pop_left count now inst_now st
           | Some e \<Rightarrow>
               if is_expired_at e now then preview_lmpop hll_count ks pop_left count now inst_now st
               else case en_value e of
                 List l \<Rightarrow>
                   (if l = [] then preview_lmpop hll_count ks pop_left count now inst_now st
                    else (Inr (Some (key, take count (if pop_left then l else rev l))), st))
               | _ \<Rightarrow> (Inl (Err WRONGTYPE), st)))"

definition live_list :: "bytes \<Rightarrow> instant \<Rightarrow> store \<Rightarrow> bytes list option result" where
  "live_list key now st =
     (case data_get st key of
        None \<Rightarrow> Inr None
      | Some e \<Rightarrow>
          if is_expired_at e now then Inr None
          else (case en_value e of List l \<Rightarrow> Inr (Some l) | _ \<Rightarrow> Inl (Err WRONGTYPE)))"

definition llen :: "bytes \<Rightarrow> instant \<Rightarrow> store \<Rightarrow> int result" where
  "llen key now st =
     (case live_list key now st of Inl e \<Rightarrow> Inl e | Inr None \<Rightarrow> Inr 0 | Inr (Some l) \<Rightarrow> Inr (int (length l)))"

text \<open>The bounds of a range, as \<open>lrange\<close> and \<open>ltrim\<close> compute them in \<open>i64\<close> arithmetic.\<close>

definition range_from :: "int \<Rightarrow> int \<Rightarrow> nat" where
  "range_from len start = (if start < 0 then i64_as_usize (max (len + start) 0) else i64_as_usize (min start len))"

definition range_to :: "int \<Rightarrow> int \<Rightarrow> nat" where
  "range_to len stop =
     (if stop < 0 then i64_as_usize (max (len + stop + 1) 0) else i64_as_usize (min (wrap_i64 (stop + 1)) len))"

text \<open>\<open>Vec::with_capacity\<close> of 32-byte elements panics above \<open>isize::MAX\<close> bytes.\<close>

definition lrange :: "bytes \<Rightarrow> int \<Rightarrow> int \<Rightarrow> instant \<Rightarrow> store \<Rightarrow> bytes list result" where
  "lrange key start stop now st =
     (case live_list key now st of
        Inl e \<Rightarrow> Inl e
      | Inr None \<Rightarrow> Inr []
      | Inr (Some l) \<Rightarrow>
          (let s = range_from (int (length l)) start; e = range_to (int (length l)) stop in
           if s \<ge> e then Inr []
           else if (e - s) * 32 > nat i64_max then Inl Panic
           else Inr (take (e - s) (drop s l))))"

definition list_index :: "int \<Rightarrow> bytes list \<Rightarrow> nat" where
  "list_index index l = (if index < 0 then i64_as_usize (int (length l) + index) else i64_as_usize index)"

definition lindex :: "bytes \<Rightarrow> int \<Rightarrow> instant \<Rightarrow> store \<Rightarrow> bytes option" where
  "lindex key index now st =
     (case live_list key now st of
        Inr (Some l) \<Rightarrow> (let i = list_index index l in if i < length l then Some (l ! i) else None)
      | _ \<Rightarrow> None)"

definition lset :: "bytes \<Rightarrow> int \<Rightarrow> bytes \<Rightarrow> instant \<Rightarrow> store \<Rightarrow> unit result \<times> store" where
  "lset key index v now st =
     (let st = bump_version key st in
      case data_get st key of
        None \<Rightarrow> (Inl (Err ''ERR no such key''), st)
      | Some e \<Rightarrow>
          if is_expired_at e now then (Inl (Err ''ERR no such key''), st)
          else case en_value e of
            List l \<Rightarrow>
              (let i = list_index index l in
               if i \<ge> length l then (Inl (Err ''ERR index out of range''), st)
               else
                 let delta = int (length v) - int (length (l ! i)); st = put_value key e (List (l[i := v])) st in
                 (Inr (),
                  if delta > 0 then mem_grow key (nat delta) st
                  else if delta < 0 then mem_shrink key (nat (- delta)) st
                  else st))
          | _ \<Rightarrow> (Inl (Err WRONGTYPE), st))"

fun position :: "('a \<Rightarrow> bool) \<Rightarrow> 'a list \<Rightarrow> nat option" where
  "position p [] = None"
| "position p (x # xs) = (if p x then Some 0 else map_option Suc (position p xs))"

definition linsert :: "bytes \<Rightarrow> bool \<Rightarrow> bytes \<Rightarrow> bytes \<Rightarrow> instant \<Rightarrow> store \<Rightarrow> int result \<times> store" where
  "linsert key before pivot v now st =
     (let st = bump_version key st in
      case data_get st key of
        None \<Rightarrow> (Inr 0, st)
      | Some e \<Rightarrow>
          if is_expired_at e now then (Inr 0, st)
          else case en_value e of
            List l \<Rightarrow>
              (case position (\<lambda>x. x = pivot) l of
                 Some pos \<Rightarrow>
                   (let at = (if before then pos else pos + 1); l' = take at l @ v # drop at l in
                    (Inr (int (length l')), mem_grow key (elem_mem v) (put_value key e (List l') st)))
               | None \<Rightarrow> (Inr (- 1), st))
          | _ \<Rightarrow> (Inl (Err WRONGTYPE), st))"

text \<open>The two loops of \<open>lrem\<close>: from the front with an index that stays on a removal, and from the back.\<close>

definition remove_at :: "nat \<Rightarrow> 'a list \<Rightarrow> 'a list" where
  "remove_at i xs = take i xs @ drop (Suc i) xs"

function lrem_front :: "bytes \<Rightarrow> int \<Rightarrow> nat \<Rightarrow> int \<Rightarrow> bytes list \<Rightarrow> int \<times> bytes list" where
  "lrem_front v count i removed l =
     (if i < length l \<and> removed < count then
        if l ! i = v then lrem_front v count i (removed + 1) (remove_at i l)
        else lrem_front v count (i + 1) removed l
      else (removed, l))"
  by pat_completeness auto
termination
  by (relation "measure (\<lambda>(v, count, i, removed, l). length l - i)") (auto simp: remove_at_def)

declare lrem_front.simps [simp del]

fun lrem_back :: "bytes \<Rightarrow> int \<Rightarrow> nat \<Rightarrow> int \<Rightarrow> bytes list \<Rightarrow> int \<times> bytes list" where
  "lrem_back v count 0 removed l = (removed, l)"
| "lrem_back v count (Suc i) removed l =
     (if removed < count then
        if l ! i = v then lrem_back v count i (removed + 1) (remove_at i l)
        else lrem_back v count i removed l
      else (removed, l))"

definition lrem_list :: "int \<Rightarrow> bytes \<Rightarrow> bytes list \<Rightarrow> int \<times> bytes list" where
  "lrem_list count v l =
     (if count > 0 then lrem_front v count 0 0 l
      else if count < 0 then lrem_back v (wrap_i64 \<bar>count\<bar>) (length l) 0 l
      else (int (length (filter (\<lambda>x. x = v) l)), filter (\<lambda>x. x \<noteq> v) l))"

definition lrem :: "bytes \<Rightarrow> int \<Rightarrow> bytes \<Rightarrow> instant \<Rightarrow> store \<Rightarrow> int result \<times> store" where
  "lrem key count v now st =
     (let st = bump_version key st in
      case data_get st key of
        None \<Rightarrow> (Inr 0, st)
      | Some e \<Rightarrow>
          if is_expired_at e now then (Inr 0, st)
          else case en_value e of
            List l \<Rightarrow>
              (case lrem_list count v l of
                 (removed, l') \<Rightarrow>
                   (Inr removed, mem_shrink key (nat removed * elem_mem v) (put_value key e (List l') st)))
          | _ \<Rightarrow> (Inl (Err WRONGTYPE), st))"

definition ltrim :: "bytes \<Rightarrow> int \<Rightarrow> int \<Rightarrow> instant \<Rightarrow> store \<Rightarrow> unit result \<times> store" where
  "ltrim key start stop now st =
     (let st = bump_version key st in
      case data_get st key of
        None \<Rightarrow> (Inr (), st)
      | Some e \<Rightarrow>
          if is_expired_at e now then (Inr (), st)
          else case en_value e of
            List l \<Rightarrow>
              (let s = range_from (int (length l)) start; t = range_to (int (length l)) stop in
               if s < t \<and> t > length l then (Inl Panic, st)
               else
                 let l' = (if s \<ge> t then [] else take (t - s) (drop s l));
                     st = put_value key e (List l') st
                 in (Inr (), if elems_mem l > elems_mem l' then mem_shrink key (elems_mem l - elems_mem l') st else st))
          | _ \<Rightarrow> (Inl (Err WRONGTYPE), st))"

definition lpushx :: "bytes \<Rightarrow> bytes list \<Rightarrow> instant \<Rightarrow> store \<Rightarrow> int \<times> store" where
  "lpushx key vs now st =
     (let st = bump_version key st in
      case data_get st key of
        None \<Rightarrow> (0, st)
      | Some e \<Rightarrow>
          if is_expired_at e now then (0, st)
          else case en_value e of
            List l \<Rightarrow>
              (let l' = push_front_all vs l in
               (int (length l'), mem_grow key (elems_mem vs) (put_value key e (List l') st)))
          | _ \<Rightarrow> (0, st))"

definition rpushx :: "bytes \<Rightarrow> bytes list \<Rightarrow> instant \<Rightarrow> store \<Rightarrow> int \<times> store" where
  "rpushx key vs now st =
     (let st = bump_version key st in
      case data_get st key of
        None \<Rightarrow> (0, st)
      | Some e \<Rightarrow>
          if is_expired_at e now then (0, st)
          else case en_value e of
            List l \<Rightarrow>
              (let l' = push_back_all vs l in
               (int (length l'), mem_grow key (elems_mem vs) (put_value key e (List l') st)))
          | _ \<Rightarrow> (0, st))"

definition lmove :: "bytes \<Rightarrow> bytes \<Rightarrow> bool \<Rightarrow> bool \<Rightarrow> instant \<Rightarrow> store \<Rightarrow> bytes option \<times> store" where
  "lmove src dst from_left to_left now st =
     (case (let st = bump_version src st in if from_left then lpop_on_shard src now st else rpop_on_shard src now st) of
        (None, st) \<Rightarrow> (None, st)
      | (Some v, st) \<Rightarrow>
          (case entry_or_insert (List []) dst now (bump_version dst st) of
             (e, st) \<Rightarrow>
               (Some v,
                case en_value e of
                  List l \<Rightarrow> mem_grow dst (elem_mem v) (put_value dst e (List (if to_left then v # l else l @ [v])) st)
                | _ \<Rightarrow> st)))"

definition preview_lmove ::
    "(bytes \<Rightarrow> nat) \<Rightarrow> bytes \<Rightarrow> bytes \<Rightarrow> bool \<Rightarrow> instant \<Rightarrow> instant \<Rightarrow> store \<Rightarrow> bytes option result \<times> store" where
  "preview_lmove hll_count src dst from_left now inst_now st =
     (case try_promote hll_count src now inst_now st of
        (Inl e, st) \<Rightarrow> (Inl e, st)
      | (Inr _, st) \<Rightarrow>
          (case try_promote hll_count dst now inst_now st of
             (Inl e, st) \<Rightarrow> (Inl e, st)
           | (Inr _, st) \<Rightarrow>
               (case live_list dst now st of
                  Inl e \<Rightarrow> (Inl e, st)
                | Inr _ \<Rightarrow>
                    (case live_list src now st of
                       Inl e \<Rightarrow> (Inl e, st)
                     | Inr None \<Rightarrow> (Inr None, st)
                     | Inr (Some l) \<Rightarrow>
                         (Inr (if l = [] then None else Some (if from_left then hd l else last l)), st)))))"

section \<open>Contracts\<close>

lemma mem_grow_simps [simp]:
  "data_get (mem_grow key n st) = data_get st" "mem_wf (mem_grow key n st) = mem_wf st"
  "keys_exact (mem_grow key n st) = keys_exact st" "datas (mem_grow key n st) = datas st"
  "data_get (mem_shrink key n st) = data_get st" "mem_wf (mem_shrink key n st) = mem_wf st"
  "keys_exact (mem_shrink key n st) = keys_exact st" "datas (mem_shrink key n st) = datas st"
  by (simp_all add: mem_grow_def mem_shrink_def)

lemma value_inv_List [simp]: "value_inv (List l)"
  by (simp add: value_inv_def)

definition push_spec :: "(bytes list \<Rightarrow> bytes list) \<Rightarrow> instant \<Rightarrow> slot \<Rightarrow> int result \<times> slot" where
  "push_spec f now s =
     (case slot_value (List []) s of
        (List l, exp) \<Rightarrow> (Inr (int (length (f l))), Some (List (f l), exp))
      | _ \<Rightarrow> (Inl (Err WRONGTYPE), s))"

lemma push_contract:
  assumes wf: "mem_wf st" and e: "entry_or_insert (List []) key now st = (e, st1)"
  shows "mem_wf st1" "data_get st1 key = Some e" "\<not> is_expired_at e now"
    "slot_value (List []) (view st now key) = (en_value e, en_expires_at e)"
    "k \<noteq> key \<Longrightarrow> data_get st1 k = data_get st k" "keys_exact st \<Longrightarrow> keys_exact st1"
    "view st now key \<noteq> None \<Longrightarrow> view st now key = Some (en_value e, en_expires_at e)"
    "view st now key = None \<Longrightarrow> en_value e = List []"
  using entry_or_insert_result [OF wf _ e] by (auto simp: slot_value_def split: option.splits)

interpretation lpush_op: counted_op "lpush key vs" key "push_spec (push_front_all vs)" for key vs
proof unfold_locales
  fix st and now :: instant
  assume wf: "mem_wf st"
  obtain e st1 where e: "entry_or_insert (List []) key now st = (e, st1)" by fastforce
  note c = push_contract [OF wf e]
  show "mem_wf (snd (lpush key vs now st))"
    "fst (lpush key vs now st) = fst (push_spec (push_front_all vs) now (view st now key))"
    "view (snd (lpush key vs now st)) now key = snd (push_spec (push_front_all vs) now (view st now key))"
    using e c(1-4,7,8) by (cases "view st now key"; auto simp: lpush_def push_spec_def Let_def view_Some split: store_value.splits)+
  show "data_get (snd (lpush key vs now st)) k = data_get st k" if "k \<noteq> key" for k
    using e c(1,5) that by (simp add: lpush_def Let_def split: store_value.splits)
  show "keys_exact (snd (lpush key vs now st))" if "keys_exact st"
    using e c(1,2,6) that by (simp add: lpush_def Let_def split: store_value.splits)
qed

lemma view_bump [simp]: "view (bump_version k st) = view st"
  by (simp add: view_def fun_eq_iff)

interpretation rpush_op: counted_op "rpush key vs" key "push_spec (push_back_all vs)" for key vs
proof unfold_locales
  fix st and now :: instant
  assume wf: "mem_wf st"
  obtain e st1 where e: "entry_or_insert (List []) key now (bump_version key st) = (e, st1)" by fastforce
  have "mem_wf (bump_version key st)" using wf by simp
  note c = push_contract [OF this e, unfolded view_bump data_get_simps exact_simps]
  show "mem_wf (snd (rpush key vs now st))"
    "fst (rpush key vs now st) = fst (push_spec (push_back_all vs) now (view st now key))"
    "view (snd (rpush key vs now st)) now key = snd (push_spec (push_back_all vs) now (view st now key))"
    using e c(1-4,7,8) by (cases "view st now key"; auto simp: rpush_def push_spec_def Let_def view_Some split: store_value.splits)+
  show "data_get (snd (rpush key vs now st)) k = data_get st k" if "k \<noteq> key" for k
    using e c(1,5) that by (simp add: rpush_def Let_def split: store_value.splits)
  show "keys_exact (snd (rpush key vs now st))" if "keys_exact st"
    using e c(1,2,6) that by (simp add: rpush_def Let_def split: store_value.splits)
qed

definition pop_spec :: "bool \<Rightarrow> instant \<Rightarrow> slot \<Rightarrow> bytes option \<times> slot" where
  "pop_spec left now s =
     (case s of
        Some (List l, exp) \<Rightarrow>
          (if l = [] then (None, s)
           else if left then (Some (hd l), Some (List (tl l), exp))
           else (Some (last l), Some (List (butlast l), exp)))
      | _ \<Rightarrow> (None, s))"

interpretation lpop_on_shard_op: counted_op "lpop_on_shard key" key "pop_spec True" for key
  by unfold_locales
    (auto simp: lpop_on_shard_def pop_spec_def view_def split: option.splits store_value.splits list.splits)

interpretation rpop_on_shard_op: counted_op "rpop_on_shard key" key "pop_spec False" for key
  by unfold_locales
    (auto simp: rpop_on_shard_def pop_spec_def view_def split: option.splits store_value.splits)

lemma can_pop_iff: "can_pop key now st \<longleftrightarrow> fst (pop_spec b now (view st now key)) \<noteq> None"
  by (auto simp: can_pop_def pop_spec_def view_def split: option.splits store_value.splits)

lemma pop_spec_None: "fst (pop_spec b now s) = None \<Longrightarrow> snd (pop_spec b now s) = s"
  by (auto simp: pop_spec_def split: option.splits store_value.splits if_splits)

interpretation lpop_op: counted_op "lpop key" key "pop_spec True" for key
proof unfold_locales
  fix st and now :: instant
  assume wf: "mem_wf st"
  obtain r st1 where r: "lpop_on_shard key now st = (r, st1)" by fastforce
  have reply: "r = fst (pop_spec True now (view st now key))"
    using lpop_on_shard_op.op_reply [OF wf, of key now] r by simp
  have lp: "lpop key now st = (r, if r = None then st else bump_version key st1)"
    using can_pop_iff [of key now st True] r reply by (auto simp: lpop_def split: option.splits)
  show "mem_wf (snd (lpop key now st))" using lpop_on_shard_op.op_wf [OF wf, of key now] r wf by (simp add: lp)
  show "fst (lpop key now st) = fst (pop_spec True now (view st now key))" using reply by (simp add: lp)
  show "view (snd (lpop key now st)) now key = snd (pop_spec True now (view st now key))"
    using lpop_on_shard_op.op_effect [OF wf, of key now] r reply pop_spec_None [of True now "view st now key"]
    by (auto simp: lp)
  show "data_get (snd (lpop key now st)) k = data_get st k" if "k \<noteq> key" for k
    using lpop_on_shard_op.op_frame [OF wf that, of now] r by (simp add: lp)
  show "keys_exact (snd (lpop key now st))" if "keys_exact st"
    using lpop_on_shard_op.op_keys [OF wf that, of key now] r that by (simp add: lp)
qed

interpretation rpop_op: counted_op "rpop key" key "pop_spec False" for key
proof unfold_locales
  fix st and now :: instant
  assume wf: "mem_wf st"
  obtain r st1 where r: "rpop_on_shard key now st = (r, st1)" by fastforce
  have reply: "r = fst (pop_spec False now (view st now key))"
    using rpop_on_shard_op.op_reply [OF wf, of key now] r by simp
  have lp: "rpop key now st = (r, if r = None then st else bump_version key st1)"
    using can_pop_iff [of key now st False] r reply by (auto simp: rpop_def split: option.splits)
  show "mem_wf (snd (rpop key now st))" using rpop_on_shard_op.op_wf [OF wf, of key now] r wf by (simp add: lp)
  show "fst (rpop key now st) = fst (pop_spec False now (view st now key))" using reply by (simp add: lp)
  show "view (snd (rpop key now st)) now key = snd (pop_spec False now (view st now key))"
    using rpop_on_shard_op.op_effect [OF wf, of key now] r reply pop_spec_None [of False now "view st now key"]
    by (auto simp: lp)
  show "data_get (snd (rpop key now st)) k = data_get st k" if "k \<noteq> key" for k
    using rpop_on_shard_op.op_frame [OF wf that, of now] r by (simp add: lp)
  show "keys_exact (snd (rpop key now st))" if "keys_exact st"
    using rpop_on_shard_op.op_keys [OF wf that, of key now] r that by (simp add: lp)
qed

definition on_list :: "'r \<Rightarrow> 'r \<Rightarrow> (bytes list \<Rightarrow> 'r \<times> bytes list) \<Rightarrow> instant \<Rightarrow> slot \<Rightarrow> 'r \<times> slot" where
  "on_list missing wrong f now s =
     (case s of
        None \<Rightarrow> (missing, None)
      | Some (List l, exp) \<Rightarrow> (case f l of (r, l') \<Rightarrow> (r, Some (List l', exp)))
      | Some _ \<Rightarrow> (wrong, s))"

lemmas on_list_splits = option.splits store_value.splits prod.splits

definition lset_spec :: "int \<Rightarrow> bytes \<Rightarrow> bytes list \<Rightarrow> unit result \<times> bytes list" where
  "lset_spec index v l =
     (let i = list_index index l in
      if i \<ge> length l then (Inl (Err ''ERR index out of range''), l) else (Inr (), l[i := v]))"

interpretation lset_op: counted_op "lset key index v" key
  "on_list (Inl (Err ''ERR no such key'')) (Inl (Err WRONGTYPE)) (lset_spec index v)" for key index v
  by unfold_locales (auto simp: lset_def lset_spec_def on_list_def view_def Let_def split: on_list_splits)

definition linsert_spec :: "bool \<Rightarrow> bytes \<Rightarrow> bytes \<Rightarrow> bytes list \<Rightarrow> int result \<times> bytes list" where
  "linsert_spec before pivot v l =
     (case position (\<lambda>x. x = pivot) l of
        None \<Rightarrow> (Inr (- 1), l)
      | Some pos \<Rightarrow>
          (let at = (if before then pos else pos + 1) in
           (Inr (int (length l) + 1), take at l @ v # drop at l)))"

interpretation linsert_op: counted_op "linsert key before pivot v" key
  "on_list (Inr 0) (Inl (Err WRONGTYPE)) (linsert_spec before pivot v)" for key before pivot v
  by unfold_locales
    (auto simp: linsert_def linsert_spec_def on_list_def view_def Let_def split: on_list_splits)

definition lrem_spec :: "int \<Rightarrow> bytes \<Rightarrow> bytes list \<Rightarrow> int result \<times> bytes list" where
  "lrem_spec count v l = (case lrem_list count v l of (removed, l') \<Rightarrow> (Inr removed, l'))"

interpretation lrem_op: counted_op "lrem key count v" key
  "on_list (Inr 0) (Inl (Err WRONGTYPE)) (lrem_spec count v)" for key count v
  by unfold_locales (auto simp: lrem_def lrem_spec_def on_list_def view_def Let_def split: on_list_splits)

definition ltrim_spec :: "int \<Rightarrow> int \<Rightarrow> bytes list \<Rightarrow> unit result \<times> bytes list" where
  "ltrim_spec start stop l =
     (let s = range_from (int (length l)) start; t = range_to (int (length l)) stop in
      if s < t \<and> t > length l then (Inl Panic, l)
      else (Inr (), if s \<ge> t then [] else take (t - s) (drop s l)))"

interpretation ltrim_op: counted_op "ltrim key start stop" key
  "on_list (Inr ()) (Inl (Err WRONGTYPE)) (ltrim_spec start stop)" for key start stop
  by unfold_locales (auto simp: ltrim_def ltrim_spec_def on_list_def view_def Let_def split: on_list_splits)

definition pushx_spec :: "(bytes list \<Rightarrow> bytes list) \<Rightarrow> bytes list \<Rightarrow> int \<times> bytes list" where
  "pushx_spec f l = (int (length (f l)), f l)"

interpretation lpushx_op: counted_op "lpushx key vs" key "on_list 0 0 (pushx_spec (push_front_all vs))" for key vs
  by unfold_locales (auto simp: lpushx_def pushx_spec_def on_list_def view_def Let_def split: on_list_splits)

interpretation rpushx_op: counted_op "rpushx key vs" key "on_list 0 0 (pushx_spec (push_back_all vs))" for key vs
  by unfold_locales (auto simp: rpushx_def pushx_spec_def on_list_def view_def Let_def split: on_list_splits)

lemma push_front_all_rev: "push_front_all vs l = rev vs @ l"
  by (induction vs arbitrary: l) (simp_all add: push_front_all_def)

lemma push_back_all_append: "push_back_all vs l = l @ vs"
  by (induction vs arbitrary: l) (simp_all add: push_back_all_def)

section \<open>Ranges\<close>

text \<open>
  What a range of a list or string means: the elements whose index lies between
  the two bounds, a negative bound counting from the end.
\<close>

definition from_end :: "int \<Rightarrow> int \<Rightarrow> int" where
  "from_end len i = (if i < 0 then len + i else i)"

definition slice :: "int \<Rightarrow> int \<Rightarrow> 'a list \<Rightarrow> 'a list" where
  "slice start stop l =
     map (\<lambda>i. l ! i) (filter (\<lambda>i. from_end (int (length l)) start \<le> int i \<and> int i \<le> from_end (int (length l)) stop)
       [0..<length l])"

lemma filter_upt_between:
  assumes "b \<le> n"
  shows "filter (\<lambda>i. a \<le> i \<and> i < b) [0..<n] = [a..<b]"
  using assms by (intro sorted_distinct_set_unique) (auto simp: sorted_wrt_filter)

lemma slice_take_drop:
  assumes "\<And>i. i < length l \<Longrightarrow> (from_end (int (length l)) start \<le> int i) = (s \<le> i)"
    and "\<And>i. i < length l \<Longrightarrow> (int i \<le> from_end (int (length l)) stop) = (i < t)" and "t \<le> length l"
  shows "slice start stop l = take (t - s) (drop s l)"
proof -
  have "filter (\<lambda>i. from_end (int (length l)) start \<le> int i \<and> int i \<le> from_end (int (length l)) stop) [0..<length l]
      = filter (\<lambda>i. s \<le> i \<and> i < t) [0..<length l]"
    using assms(1,2) by (intro filter_cong) auto
  also have "\<dots> = [s..<t]" using filter_upt_between [OF assms(3)] by blast
  finally have "slice start stop l = map (\<lambda>i. l ! i) [s..<t]" by (simp add: slice_def)
  also have "\<dots> = take (t - s) (drop s l)"
    using assms(3) by (cases "s \<le> t") (auto simp: list_eq_iff_nth_eq)
  finally show ?thesis .
qed

lemma i64_as_usize_nonneg: "0 \<le> n \<Longrightarrow> n \<le> i64_max \<Longrightarrow> i64_as_usize n = nat n"
  by (simp add: i64_as_usize_def i64_max_def)

lemma range_from_iff:
  assumes "is_i64 start" and "int (length l) \<le> i64_max" and "i < length l"
  shows "(from_end (int (length l)) start \<le> int i) = (range_from (int (length l)) start \<le> i)"
  using assms by (auto simp: from_end_def range_from_def i64_as_usize_nonneg is_i64_def i64_min_def i64_max_def
      max_def min_def nat_le_iff)

lemma range_to_nat:
  assumes "is_i64 stop" and "stop < i64_max" and "int n < i64_max"
  shows "range_to (int n) stop = nat (if stop < 0 then int n + stop + 1 else min (stop + 1) (int n))"
proof -
  have "wrap_i64 (stop + 1) = stop + 1" if "0 \<le> stop"
    using assms(1,2) that by (intro wrap_i64_id) (simp add: is_i64_def i64_min_def)
  then show ?thesis
    using assms by (auto simp: range_to_def i64_as_usize_nonneg is_i64_def i64_min_def i64_max_def max_def min_def)
qed

lemma range_to_le:
  "is_i64 stop \<Longrightarrow> stop < i64_max \<Longrightarrow> int n < i64_max \<Longrightarrow> range_to (int n) stop \<le> n"
  by (auto simp: range_to_nat nat_le_iff)

lemma range_to_iff:
  "is_i64 stop \<Longrightarrow> stop < i64_max \<Longrightarrow> int (length l) < i64_max \<Longrightarrow> i < length l \<Longrightarrow>
   (int i \<le> from_end (int (length l)) stop) = (i < range_to (int (length l)) stop)"
  by (auto simp: from_end_def range_to_nat zless_nat_eq_int_zless)

lemma range_slice:
  assumes "is_i64 start" "is_i64 stop" "stop < i64_max" "int (length l) < i64_max"
  shows "slice start stop l =
    take (range_to (int (length l)) stop - range_from (int (length l)) start)
      (drop (range_from (int (length l)) start) l)"
  using assms range_to_le [OF assms(2,3,4)]
  by (intro slice_take_drop range_from_iff range_to_iff) simp_all

lemma range_to_max: "int n < i64_max \<Longrightarrow> range_to (int n) i64_max = 2 ^ 63"
  by (simp add: range_to_def i64_max_def wrap_i64_def i64_as_usize_def min_def)

text \<open>
  \<open>LRANGE\<close> and \<open>LTRIM\<close> select the elements between their bounds, negative
  bounds counting from the end, for all 64-bit bounds but one: a stop of
  \<open>i64::MAX\<close> overflows in \<open>stop + 1\<close>, and both abort the process on every live list
  (an out-of-range drain, and an allocation beyond the address space).
\<close>

theorem list_range_correct:
  assumes "mem_wf st" and "view st now key = Some (List l, exp)" and "is_i64 start" and "is_i64 stop"
    and "length l < 2 ^ 58" and "ltrim key start stop now st = (r, st')"
  shows "lrange key start stop now st = (if stop = i64_max then Inl Panic else Inr (slice start stop l)) \<and>
    r = (if stop = i64_max then Inl Panic else Inr ()) \<and>
    (stop < i64_max \<longrightarrow> view st' now key = Some (List (slice start stop l), exp))"
proof -
  let ?s = "range_from (int (length l)) start" and ?t = "range_to (int (length l)) stop"
  have live: "live_list key now st = Inr (Some l)"
    using assms(2) by (auto simp: live_list_def view_def split: option.splits if_splits)
  have len: "int (length l) < i64_max" using assms(5) by (simp add: i64_max_def)
  have s: "?s \<le> length l"
    using assms(3) len by (auto simp: range_from_def i64_as_usize_nonneg is_i64_def i64_min_def i64_max_def max_def min_def)
  have trim: "r = fst (ltrim_spec start stop l)" "view st' now key = Some (List (snd (ltrim_spec start stop l)), exp)"
    using ltrim_op.op_reply [OF assms(1), of key start stop now] ltrim_op.op_effect [OF assms(1), of key start stop now]
      assms(2,6) by (simp_all add: on_list_def split: prod.splits)
  show ?thesis
  proof (cases "stop = i64_max")
    case True
    with range_to_max [OF len] have "?t = 2 ^ 63" by simp
    with True s assms(5) live trim show ?thesis by (simp add: lrange_def ltrim_spec_def Let_def i64_max_def)
  next
    case False
    with assms(4) have stop: "stop < i64_max" by (simp add: is_i64_def)
    have "?t \<le> length l" by (rule range_to_le [OF assms(4) stop len])
    with False live trim assms(5) range_slice [OF assms(3,4) stop len] show ?thesis
      by (auto simp: lrange_def ltrim_spec_def Let_def i64_max_def)
  qed
qed

section \<open>Removing occurrences\<close>

fun remove_n :: "nat \<Rightarrow> 'a \<Rightarrow> 'a list \<Rightarrow> 'a list" where
  "remove_n 0 v l = l"
| "remove_n (Suc n) v [] = []"
| "remove_n (Suc n) v (x # l) = (if x = v then remove_n n v l else x # remove_n (Suc n) v l)"

lemma remove_n_Nil [simp]: "remove_n n v [] = []"
  by (cases n) auto

lemma remove_n_Cons: "remove_n n v (x # l) = (if n > 0 \<and> x = v then remove_n (n - 1) v l else x # remove_n n v l)"
  by (cases n) auto

lemma length_remove_n: "length (remove_n n v l) + min n (count_list l v) = length l"
  by (induction n v l rule: remove_n.induct) (auto simp: min_def)

lemma lrem_front_result:
  assumes "i \<le> length l"
  shows "lrem_front v count i removed l =
    (removed + int (min (nat (count - removed)) (count_list (drop i l) v)),
     take i l @ remove_n (nat (count - removed)) v (drop i l))"
  using assms
proof (induction v count i removed l rule: lrem_front.induct)
  case (1 v count i removed l)
  show ?case
  proof (cases "i < length l \<and> removed < count")
    case True
    then have split: "drop i l = l ! i # drop (Suc i) l" by (simp add: Cons_nth_drop_Suc)
    show ?thesis
    proof (cases "l ! i = v")
      case eq: True
      have n: "nat (count - removed) = Suc (nat (count - (removed + 1)))" using True by arith
      have at: "drop i (remove_at i l) = drop (Suc i) l" "take i (remove_at i l) = take i l" "i \<le> length (remove_at i l)"
        using True by (auto simp: remove_at_def)
      show ?thesis using "1.IH"(1) [OF True eq at(3)] at(1,2) True eq split n
        by (subst lrem_front.simps) simp
    next
      case neq: False
      have "Suc i \<le> length l" using True by simp
      with "1.IH"(2) [OF True neq] True neq split show ?thesis
        by (subst lrem_front.simps) (simp add: remove_n_Cons take_Suc_conv_app_nth)
    qed
  next
    case False
    with "1.prems" show ?thesis by (subst lrem_front.simps) auto
  qed
qed

lemma lrem_back_result:
  assumes "i \<le> length l"
  shows "lrem_back v count i removed l =
    (removed + int (min (nat (count - removed)) (count_list (take i l) v)),
     rev (remove_n (nat (count - removed)) v (rev (take i l))) @ drop i l)"
  using assms
proof (induction v count i removed l rule: lrem_back.induct)
  case (2 v count i removed l)
  then have split: "take (Suc i) l = take i l @ [l ! i]" by (simp add: take_Suc_conv_app_nth)
  have n: "nat (count - removed) = Suc (nat (count - (removed + 1)))" if "removed < count" using that by arith
  show ?case
  proof (cases "removed < count \<and> l ! i = v")
    case True
    have "take i (remove_at i l) = take i l" "drop i (remove_at i l) = drop (Suc i) l"
      using "2.prems" by (simp_all add: remove_at_def)
    with True "2.IH"(1) "2.prems" split n show ?thesis by (simp add: remove_at_def)
  next
    case False
    with "2.IH"(2) "2.prems" split show ?thesis
      by (auto simp: remove_n_Cons Cons_nth_drop_Suc)
  qed
qed simp

text \<open>
  \<open>LREM\<close> removes the occurrences it is asked for: the first \<open>count\<close> of
  them, the last \<open>- count\<close>, or all for a count of zero, keeping the order of the
  rest, and replies with how many it removed. The one exception is \<open>i64::MIN\<close>, whose
  absolute value overflows: nothing is removed.
\<close>

theorem lrem_correct:
  assumes "mem_wf st" and "view st now key = Some (List l, exp)" and "is_i64 count"
    and "lrem key count v now st = (r, st')"
  shows "\<exists>l'. view st' now key = Some (List l', exp) \<and> r = Inr (int (length l) - int (length l')) \<and>
    l' = (if count = i64_min then l
          else if count > 0 then remove_n (nat count) v l
          else if count < 0 then rev (remove_n (nat (- count)) v (rev l))
          else filter (\<lambda>x. x \<noteq> v) l)"
proof -
  have op: "r = Inr (fst (lrem_list count v l))" "view st' now key = Some (List (snd (lrem_list count v l)), exp)"
    using lrem_op.op_reply [OF assms(1), of key count v now] lrem_op.op_effect [OF assms(1), of key count v now] assms(2,4)
    by (simp_all add: on_list_def lrem_spec_def split: prod.splits)
  have min: "wrap_i64 \<bar>i64_min\<bar> = i64_min" by (simp add: wrap_i64_def i64_min_def)
  have abs: "wrap_i64 \<bar>count\<bar> = - count" if "count < 0" "count \<noteq> i64_min"
    using assms(3) that by (simp add: wrap_i64_def is_i64_def i64_min_def i64_max_def)
  have len: "int (min n (count_list xs v)) = int (length xs) - int (length (remove_n n v xs))" for n xs
    using length_remove_n [of n v xs] by simp
  have all: "int (length (filter (\<lambda>x. x = v) l)) = int (length l) - int (length (filter (\<lambda>x. x \<noteq> v) l))"
    using sum_length_filter_compl [of "\<lambda>x. x = v" l] by simp
  show ?thesis
    using op min abs len [of _ l] len [of _ "rev l"] all
    by (auto simp: lrem_list_def lrem_front_result lrem_back_result i64_min_def count_list_rev)
qed

section \<open>Moving elements\<close>

definition list_of :: "slot \<Rightarrow> bytes list" where
  "list_of s = (case s of Some (List l, _) \<Rightarrow> l | _ \<Rightarrow> [])"

definition take_end :: "bool \<Rightarrow> 'a list \<Rightarrow> 'a list" where
  "take_end left l = (if left then tl l else butlast l)"

definition put_end :: "bool \<Rightarrow> 'a \<Rightarrow> 'a list \<Rightarrow> 'a list" where
  "put_end left v l = (if left then v # l else l @ [v])"

definition end_of :: "bool \<Rightarrow> 'a list \<Rightarrow> 'a option" where
  "end_of left l = (if l = [] then None else Some (if left then hd l else last l))"

lemma live_list_view:
  "live_list key now st =
     (case view st now key of None \<Rightarrow> Inr None | Some (List l, _) \<Rightarrow> Inr (Some l) | Some _ \<Rightarrow> Inl (Err WRONGTYPE))"
  by (auto simp: live_list_def view_def split: option.splits store_value.splits)

lemma pop_end:
  assumes "mem_wf st"
    and "(if left then lpop_on_shard key now st else rpop_on_shard key now st) = (r, st')"
  shows "mem_wf st'" and "r = fst (pop_spec left now (view st now key))"
    and "view st' now = (view st now)(key := snd (pop_spec left now (view st now key)))"
    and "k \<noteq> key \<Longrightarrow> data_get st' k = data_get st k"
  using assms lpop_on_shard_op.op_wf [OF assms(1), of key now] rpop_on_shard_op.op_wf [OF assms(1), of key now]
    lpop_on_shard_op.op_reply [OF assms(1), of key now] rpop_on_shard_op.op_reply [OF assms(1), of key now]
    lpop_on_shard_op.op_view [OF assms(1), of key now] rpop_on_shard_op.op_view [OF assms(1), of key now]
    lpop_on_shard_op.op_frame [OF assms(1), of k key now] rpop_on_shard_op.op_frame [OF assms(1), of k key now]
  by (auto split: if_splits)

lemma pop_spec_list:
  "pop_spec left now (Some (List l, exp)) =
     (end_of left l, Some (List (if l = [] then [] else take_end left l), exp))"
  by (auto simp: pop_spec_def end_of_def take_end_def)

text \<open>
  \<open>LMOVE\<close> moves one element and loses none. When the preview that the
  command makes before it is journaled succeeds, the move returns the previewed
  element, takes it from its end of the source list and adds it to the chosen end
  of the destination (a rotation where both are the same key), and no other key
  changes.
\<close>

theorem lmove_conserves:
  assumes "mem_wf st" and "preview_lmove hc src dst from_left now t st = (Inr pv, st0)"
    and "lmove src dst from_left to_left now st = (r, st')"
  shows "st0 = st \<and> r = pv \<and> mem_wf st' \<and> pv = end_of from_left (list_of (view st now src)) \<and>
    (\<forall>v. r = Some v \<longrightarrow>
      list_of (view st' now dst) = put_end to_left v
        (if src = dst then take_end from_left (list_of (view st now src)) else list_of (view st now dst)) \<and>
      (src \<noteq> dst \<longrightarrow> list_of (view st' now src) = take_end from_left (list_of (view st now src)))) \<and>
    (\<forall>k. k \<noteq> src \<longrightarrow> k \<noteq> dst \<longrightarrow> view st' now k = view st now k)"
proof -
  have pv: "st0 = st" "pv = end_of from_left (list_of (view st now src))"
    "\<And>x exp. view st now src = Some (x, exp) \<Longrightarrow> \<exists>l. x = List l"
    "\<And>x exp. view st now dst = Some (x, exp) \<Longrightarrow> \<exists>l. x = List l"
    using assms(1,2)
    by (auto simp: preview_lmove_def live_list_view list_of_def end_of_def split: option.splits store_value.splits if_splits)
  have wfb: "mem_wf (bump_version src st)" using assms(1) by simp
  obtain r1 st1 where pop: "(if from_left then lpop_on_shard src now (bump_version src st)
      else rpop_on_shard src now (bump_version src st)) = (r1, st1)" by fastforce
  note p = pop_end [OF wfb pop, unfolded view_bump]
  have r1: "r1 = pv"
  proof (cases "view st now src")
    case (Some y)
    then obtain l exp where "y = (List l, exp)" using pv(3) by (cases y) auto
    with Some p(2) pv(2) show ?thesis by (simp add: pop_spec_list list_of_def)
  qed (use p(2) pv(2) in \<open>simp add: pop_spec_def list_of_def end_of_def\<close>)
  show ?thesis
  proof (cases pv)
    case None
    then have st': "r = None" "st' = st1" using assms(3) pop r1 by (simp_all add: lmove_def Let_def)
    have "view st1 now = view st now"
      using p(2,3) r1 None pop_spec_None [of from_left now "view st now src"] by simp
    with st' None pv p(1) show ?thesis by simp
  next
    case (Some v)
    then obtain l exp where l: "view st now src = Some (List l, exp)" "l \<noteq> []"
      using pv(2,3) by (cases "view st now src") (auto simp: list_of_def end_of_def split: if_splits)
    then have v1: "view st1 now = (view st now)(src \<mapsto> (List (take_end from_left l), exp))"
      using p(3) by (simp add: pop_spec_list)
    obtain e st2 where e: "entry_or_insert (List []) dst now (bump_version dst st1) = (e, st2)" by fastforce
    have wf1: "mem_wf (bump_version dst st1)" using p(1) by simp
    note c = push_contract [OF wf1 e, unfolded view_bump data_get_simps]
    obtain l2 where l2: "en_value e = List l2" "l2 = (if src = dst then take_end from_left l else list_of (view st now dst))"
      using c(4) v1 l(1) pv(4) by (cases "view st now dst") (auto simp: slot_value_def list_of_def split: if_splits)
    have st': "r = Some v" "st' = mem_grow dst (elem_mem v) (put_value dst e (List (put_end to_left v l2)) st2)"
      using assms(3) pop r1 Some e l2(1) by (simp_all add: lmove_def Let_def put_end_def)
    have view': "view st' now k = (if k = dst then Some (List (put_end to_left v l2), en_expires_at e) else view st1 now k)" for k
      using st'(2) c(1-3,5) by (auto simp: view_def)
    show ?thesis using st' view' v1 l l2(2) pv c(1) Some by (auto simp: list_of_def)
  qed
qed

section \<open>Witnesses\<close>

definition demo_list :: store where
  "demo_list = demo_store [(ascii ''l'', List [ascii ''a'', ascii ''b'', ascii ''a''])]"

lemma demo_list_facts:
  "mem_wf demo_list" "view demo_list now (ascii ''l'') = Some (List [ascii ''a'', ascii ''b'', ascii ''a''], None)"
  "view demo_list now (ascii ''m'') = None"
  by (simp_all add: demo_list_def demo_store_wf demo_store_view ascii_def del: demo_store.simps)

theorem list_range_correct_witness:
  "lrange (ascii ''l'') (- 2) i64_max 0 demo_list = Inl Panic \<and>
   lrange (ascii ''l'') (- 2) 5 0 demo_list = Inr [ascii ''b'', ascii ''a'']"
  using list_range_correct [OF demo_list_facts(1,2), where start = "- 2" and stop = i64_max, OF _ _ _ prod.collapse [symmetric]]
    list_range_correct [OF demo_list_facts(1,2), where start = "- 2" and stop = 5, OF _ _ _ prod.collapse [symmetric]]
  by (simp add: is_i64_def i64_min_def i64_max_def slice_def from_end_def upt_rec)

theorem lrem_correct_witness:
  "\<exists>l'. view (snd (lrem (ascii ''l'') (- 1) (ascii ''a'') 0 demo_list)) 0 (ascii ''l'') = Some (List l', None) \<and>
     l' = [ascii ''a'', ascii ''b'']"
  using lrem_correct [OF demo_list_facts(1,2) _ prod.collapse [symmetric], of "- 1" "ascii ''a''"]
  by (simp add: is_i64_def i64_min_def i64_max_def ascii_def)

theorem lmove_conserves_witness:
  "list_of (view (snd (lmove (ascii ''l'') (ascii ''m'') True False 0 demo_list)) 0 (ascii ''m'')) = [ascii ''a''] \<and>
   list_of (view (snd (lmove (ascii ''l'') (ascii ''m'') True False 0 demo_list)) 0 (ascii ''l'')) = [ascii ''b'', ascii ''a'']"
proof -
  have pv: "preview_lmove (\<lambda>_. 0) (ascii ''l'') (ascii ''m'') True 0 0 demo_list = (Inr (Some (ascii ''a'')), demo_list)"
    using demo_list_facts by (simp add: preview_lmove_def live_list_view)
  have "ascii ''l'' \<noteq> ascii ''m''" by (simp add: ascii_def)
  then show ?thesis
    using lmove_conserves [OF demo_list_facts(1) pv prod.collapse [symmetric], of False] demo_list_facts(2,3) [of 0]
    by (simp add: list_of_def end_of_def take_end_def put_end_def)
qed

end
