(* ===== verification/StoreSets.thy ===== *)
theory StoreSets
  imports StoreLists
begin

text \<open>
  The set commands of the store (\<^verbatim>\<open>src/src/store/mod.rs\<close>): adding, removing and
  popping members, membership, and the set algebra with its two-key fast paths. A
  \<open>HashSet\<close> that only collects results is a list without duplicates.
\<close>

section \<open>Operations\<close>

fun sadd_loop :: "bytes list \<Rightarrow> nat \<Rightarrow> nat \<Rightarrow> set_data \<Rightarrow> (nat \<times> nat) \<times> set_data" where
  "sadd_loop [] added mem_added s = ((added, mem_added), s)"
| "sadd_loop (m # ms) added mem_added s =
     (case set_insert (key_string m) s of
        (True, s) \<Rightarrow> sadd_loop ms (added + 1) (mem_added + (length m + 32)) s
      | (False, s) \<Rightarrow> sadd_loop ms added mem_added s)"

definition sadd :: "(bytes \<Rightarrow> nat) \<Rightarrow> bytes \<Rightarrow> bytes list \<Rightarrow> instant \<Rightarrow> instant \<Rightarrow> store \<Rightarrow> int result \<times> store" where
  "sadd hll_count key members now inst_now st =
     (case try_promote hll_count key now inst_now st of
        (Inl e, st) \<Rightarrow> (Inl e, st)
      | (Inr _, st) \<Rightarrow>
          (case entry_or_insert (Set set_new) key now (bump_version key st) of
             (e, st) \<Rightarrow>
               (case en_value e of
                  Set s \<Rightarrow>
                    (case sadd_loop members 0 0 s of
                       ((added, mem_added), s) \<Rightarrow>
                         (Inr (int added), mem_grow key mem_added (put_value key e (Set s) st)))
                | _ \<Rightarrow> (Inl (Err WRONGTYPE), st))))"

fun srem_loop :: "bytes list \<Rightarrow> nat \<Rightarrow> nat \<Rightarrow> set_data \<Rightarrow> ((nat \<times> nat) \<times> set_data) result" where
  "srem_loop [] removed freed s = Inr ((removed, freed), s)"
| "srem_loop (m # ms) removed freed s =
     (case set_remove (key_str m) s of
        Inl e \<Rightarrow> Inl e
      | Inr (True, s) \<Rightarrow> srem_loop ms (removed + 1) (freed + (length m + 32)) s
      | Inr (False, s) \<Rightarrow> srem_loop ms removed freed s)"

definition srem :: "(bytes \<Rightarrow> nat) \<Rightarrow> bytes \<Rightarrow> bytes list \<Rightarrow> instant \<Rightarrow> instant \<Rightarrow> store \<Rightarrow> int result \<times> store" where
  "srem hll_count key members now inst_now st =
     (case try_promote hll_count key now inst_now st of
        (Inl e, st) \<Rightarrow> (Inl e, st)
      | (Inr _, st) \<Rightarrow>
          (let st = bump_version key st in
           case data_get st key of
             None \<Rightarrow> (Inr 0, st)
           | Some e \<Rightarrow>
               if is_expired_at e now then (Inr 0, st)
               else case en_value e of
                 Set s \<Rightarrow>
                   (case srem_loop members 0 0 s of
                      Inl err \<Rightarrow> (Inl err, st)
                    | Inr ((removed, freed), s) \<Rightarrow>
                        (Inr (int removed), mem_shrink key freed (put_value key e (Set s) st)))
               | _ \<Rightarrow> (Inl (Err WRONGTYPE), st)))"

text \<open>The set of a key: \<open>view_set\<close> of \<open>with_two_set_views\<close>, and the same match in every reader.\<close>

definition view_set :: "bytes \<Rightarrow> instant \<Rightarrow> store \<Rightarrow> set_data option result" where
  "view_set key now st =
     (case data_get st key of
        None \<Rightarrow> Inr None
      | Some e \<Rightarrow>
          if is_expired_at e now then Inr None
          else (case en_value e of Set s \<Rightarrow> Inr (Some s) | _ \<Rightarrow> Inl (Err WRONGTYPE)))"

definition smembers :: "(bytes \<Rightarrow> nat) \<Rightarrow> bytes \<Rightarrow> instant \<Rightarrow> instant \<Rightarrow> store \<Rightarrow> bytes list result \<times> store" where
  "smembers hll_count key now inst_now st =
     (case try_promote hll_count key now inst_now st of
        (Inl e, st) \<Rightarrow> (Inl e, st)
      | (Inr _, st) \<Rightarrow>
          (case view_set key now st of
             Inl e \<Rightarrow> (Inl e, st)
           | Inr None \<Rightarrow> (Inr [], st)
           | Inr (Some s) \<Rightarrow> (Inr (set_iter s), st)))"

definition smembers_limited ::
    "(bytes \<Rightarrow> nat) \<Rightarrow> bytes \<Rightarrow> nat \<Rightarrow> instant \<Rightarrow> instant \<Rightarrow> store \<Rightarrow> bytes list result \<times> store" where
  "smembers_limited hll_count key limit now inst_now st =
     (case try_promote hll_count key now inst_now st of
        (Inl e, st) \<Rightarrow> (Inl e, st)
      | (Inr _, st) \<Rightarrow>
          (case view_set key now st of
             Inl e \<Rightarrow> (Inl e, st)
           | Inr None \<Rightarrow> (Inr [], st)
           | Inr (Some s) \<Rightarrow> (Inr (take limit (set_iter s)), st)))"

definition preview_spop :: "bytes \<Rightarrow> nat \<Rightarrow> instant \<Rightarrow> store \<Rightarrow> bytes list result" where
  "preview_spop key count now st =
     (case view_set key now st of
        Inl e \<Rightarrow> Inl e
      | Inr None \<Rightarrow> Inr []
      | Inr (Some s) \<Rightarrow> Inr (take count (rev (set_iter s))))"

definition sismember :: "bytes \<Rightarrow> bytes \<Rightarrow> instant \<Rightarrow> store \<Rightarrow> bool result" where
  "sismember key member now st =
     (case view_set key now st of
        Inl e \<Rightarrow> Inl e
      | Inr None \<Rightarrow> Inr False
      | Inr (Some s) \<Rightarrow> Inr (set_contains (key_str member) s))"

definition scard :: "bytes \<Rightarrow> instant \<Rightarrow> store \<Rightarrow> int result" where
  "scard key now st =
     (case view_set key now st of
        Inl e \<Rightarrow> Inl e
      | Inr None \<Rightarrow> Inr 0
      | Inr (Some s) \<Rightarrow> Inr (int (set_size s)))"

definition smismember :: "bytes \<Rightarrow> bytes list \<Rightarrow> instant \<Rightarrow> store \<Rightarrow> bool list" where
  "smismember key members now st =
     (case view_set key now st of
        Inr (Some s) \<Rightarrow> map (\<lambda>m. set_contains (key_str m) s) members
      | _ \<Rightarrow> map (\<lambda>_. False) members)"

definition srandmember :: "bytes \<Rightarrow> int \<Rightarrow> instant \<Rightarrow> store \<Rightarrow> bytes list result" where
  "srandmember key count now st =
     (case view_set key now st of
        Inl e \<Rightarrow> Inl e
      | Inr None \<Rightarrow> Inr []
      | Inr (Some s) \<Rightarrow> (if count = 0 \<or> set_is_empty s then Inr [] else Inr (take (nat \<bar>count\<bar>) (set_iter s))))"

fun spop_loop :: "nat \<Rightarrow> nat \<Rightarrow> set_data \<Rightarrow> (bytes list \<times> nat) \<times> set_data" where
  "spop_loop 0 freed s = (([], freed), s)"
| "spop_loop (Suc n) freed s =
     (case set_pop s of
        (None, s) \<Rightarrow> (([], freed), s)
      | (Some m, s) \<Rightarrow>
          (case spop_loop n (freed + (length m + 32)) s of ((ms, freed), s) \<Rightarrow> ((m # ms, freed), s)))"

definition spop_one_on_shard :: "bytes \<Rightarrow> instant \<Rightarrow> store \<Rightarrow> bytes option \<times> store" where
  "spop_one_on_shard key now st =
     (case data_get st key of
        None \<Rightarrow> (None, st)
      | Some e \<Rightarrow>
          if is_expired_at e now then (None, st)
          else case en_value e of
            Set s \<Rightarrow>
              (case set_pop s of
                 (None, s) \<Rightarrow> (None, put_value key e (Set s) st)
               | (Some m, s) \<Rightarrow> (Some m, mem_shrink key (elem_mem m) (put_value key e (Set s) st)))
          | _ \<Rightarrow> (None, st))"

definition spop_on_shard :: "bytes \<Rightarrow> nat \<Rightarrow> instant \<Rightarrow> store \<Rightarrow> bytes list result \<times> store" where
  "spop_on_shard key count now st =
     (if count = 1 then
        (case spop_one_on_shard key now st of
           (None, st) \<Rightarrow> (Inr [], st)
         | (Some m, st) \<Rightarrow> (Inr [m], st))
      else case data_get st key of
        None \<Rightarrow> (Inr [], st)
      | Some e \<Rightarrow>
          if is_expired_at e now then (Inr [], st)
          else case en_value e of
            Set s \<Rightarrow>
              (case spop_loop count 0 s of
                 ((ms, freed), s) \<Rightarrow> (Inr ms, mem_shrink key freed (put_value key e (Set s) st)))
          | _ \<Rightarrow> (Inl (Err WRONGTYPE), st))"

section \<open>Set algebra\<close>

definition hs_insert :: "bytes list \<Rightarrow> bytes \<Rightarrow> bytes list" where
  "hs_insert acc m = (if m \<in> set acc then acc else acc @ [m])"

definition hs_extend :: "bytes list \<Rightarrow> bytes list \<Rightarrow> bytes list" where
  "hs_extend acc ms = foldl hs_insert acc ms"

definition with_two_set_views ::
    "bytes \<Rightarrow> bytes \<Rightarrow> instant \<Rightarrow> (set_data option \<Rightarrow> set_data option \<Rightarrow> 'r result) \<Rightarrow> store \<Rightarrow> 'r result" where
  "with_two_set_views key_a key_b now f st =
     (case view_set key_a now st of
        Inl e \<Rightarrow> Inl e
      | Inr left \<Rightarrow> (case view_set key_b now st of Inl e \<Rightarrow> Inl e | Inr right \<Rightarrow> f left right))"

definition opt_iter :: "set_data option \<Rightarrow> bytes list" where
  "opt_iter s = (case s of None \<Rightarrow> [] | Some s \<Rightarrow> set_iter s)"

definition sunion_two_keys :: "bytes \<Rightarrow> bytes \<Rightarrow> instant \<Rightarrow> store \<Rightarrow> bytes list result" where
  "sunion_two_keys key_a key_b now st =
     with_two_set_views key_a key_b now (\<lambda>left right. Inr (hs_extend (hs_extend [] (opt_iter left)) (opt_iter right))) st"

definition sinter_two_keys :: "bytes \<Rightarrow> bytes \<Rightarrow> instant \<Rightarrow> store \<Rightarrow> bytes list result" where
  "sinter_two_keys key_a key_b now st =
     with_two_set_views key_a key_b now
       (\<lambda>left right.
          case (left, right) of
            (Some left, Some right) \<Rightarrow>
              (let (small, large) = (if set_size left \<le> set_size right then (left, right) else (right, left)) in
               Inr (filter (\<lambda>m. set_contains m large) (set_iter small)))
          | _ \<Rightarrow> Inr []) st"

definition sdiff_two_keys :: "bytes \<Rightarrow> bytes \<Rightarrow> instant \<Rightarrow> store \<Rightarrow> bytes list result" where
  "sdiff_two_keys key_a key_b now st =
     with_two_set_views key_a key_b now
       (\<lambda>left right.
          case left of
            None \<Rightarrow> Inr []
          | Some left \<Rightarrow>
              (case right of
                 None \<Rightarrow> Inr (set_iter left)
               | Some right \<Rightarrow> Inr (filter (\<lambda>m. \<not> set_contains m right) (set_iter left)))) st"

definition collect_set :: "bytes \<Rightarrow> instant \<Rightarrow> store \<Rightarrow> bytes list result" where
  "collect_set key now st =
     (case view_set key now st of Inl e \<Rightarrow> Inl e | Inr s \<Rightarrow> Inr (hs_extend [] (opt_iter s)))"

fun sunion_loop :: "bytes list \<Rightarrow> instant \<Rightarrow> store \<Rightarrow> bytes list \<Rightarrow> bytes list result" where
  "sunion_loop [] now st acc = Inr acc"
| "sunion_loop (key # ks) now st acc =
     (case view_set key now st of
        Inl e \<Rightarrow> Inl e
      | Inr s \<Rightarrow> sunion_loop ks now st (hs_extend acc (opt_iter s)))"

fun sinter_loop :: "bytes list \<Rightarrow> instant \<Rightarrow> store \<Rightarrow> bytes list \<Rightarrow> bytes list result" where
  "sinter_loop [] now st acc = Inr acc"
| "sinter_loop (key # ks) now st acc =
     (case view_set key now st of
        Inl e \<Rightarrow> Inl e
      | Inr None \<Rightarrow> sinter_loop ks now st []
      | Inr (Some s) \<Rightarrow> sinter_loop ks now st (filter (\<lambda>m. set_contains m s) acc))"

fun sdiff_loop :: "bytes list \<Rightarrow> instant \<Rightarrow> store \<Rightarrow> bytes list \<Rightarrow> bytes list result" where
  "sdiff_loop [] now st acc = Inr acc"
| "sdiff_loop (key # ks) now st acc =
     (case view_set key now st of
        Inl e \<Rightarrow> Inl e
      | Inr None \<Rightarrow> sdiff_loop ks now st acc
      | Inr (Some s) \<Rightarrow> sdiff_loop ks now st (filter (\<lambda>m. \<not> set_contains m s) acc))"

definition sunion :: "bytes list \<Rightarrow> instant \<Rightarrow> store \<Rightarrow> bytes list result" where
  "sunion ks now st =
     (if length ks = 2 then sunion_two_keys (ks ! 0) (ks ! 1) now st else sunion_loop ks now st [])"

definition sinter :: "bytes list \<Rightarrow> instant \<Rightarrow> store \<Rightarrow> bytes list result" where
  "sinter ks now st =
     (if ks = [] then Inr []
      else if length ks = 2 then sinter_two_keys (ks ! 0) (ks ! 1) now st
      else case collect_set (ks ! 0) now st of
        Inl e \<Rightarrow> Inl e
      | Inr acc \<Rightarrow> sinter_loop (tl ks) now st acc)"

definition sdiff :: "bytes list \<Rightarrow> instant \<Rightarrow> store \<Rightarrow> bytes list result" where
  "sdiff ks now st =
     (if ks = [] then Inr []
      else if length ks = 2 then sdiff_two_keys (ks ! 0) (ks ! 1) now st
      else case collect_set (ks ! 0) now st of
        Inl e \<Rightarrow> Inl e
      | Inr acc \<Rightarrow> sdiff_loop (tl ks) now st acc)"

section \<open>Moving a member\<close>

definition smove :: "bytes \<Rightarrow> bytes \<Rightarrow> bytes \<Rightarrow> instant \<Rightarrow> store \<Rightarrow> bool result \<times> store" where
  "smove src dst member now st =
     (case view_set dst now st of
        Inl e \<Rightarrow> (Inl e, st)
      | Inr _ \<Rightarrow>
          (let st = bump_version src st in
           case (case data_get st src of
                   None \<Rightarrow> (Inr False, st)
                 | Some e \<Rightarrow>
                     if is_expired_at e now then (Inr False, st)
                     else case en_value e of
                       Set s \<Rightarrow>
                         (case set_remove (key_str member) s of
                            Inl err \<Rightarrow> (Inl err, st)
                          | Inr (r, s) \<Rightarrow>
                              (Inr r, let st = put_value src e (Set s) st in if r then mem_shrink src (elem_mem member) st else st))
                     | _ \<Rightarrow> (Inl (Err WRONGTYPE), st)) of
             (Inl err, st) \<Rightarrow> (Inl err, st)
           | (Inr False, st) \<Rightarrow> (Inr False, st)
           | (Inr True, st) \<Rightarrow>
               (case entry_or_insert (Set set_new) dst now (bump_version dst st) of
                  (e, st) \<Rightarrow>
                    (case en_value e of
                       Set s \<Rightarrow>
                         (case set_insert (key_string member) s of
                            (added, s) \<Rightarrow>
                              (Inr True, let st = put_value dst e (Set s) st in if added then mem_grow dst (elem_mem member) st else st))
                     | _ \<Rightarrow> (Inl (Err WRONGTYPE), st)))))"

definition smove_would_move ::
    "(bytes \<Rightarrow> nat) \<Rightarrow> bytes \<Rightarrow> bytes \<Rightarrow> bytes \<Rightarrow> instant \<Rightarrow> instant \<Rightarrow> store \<Rightarrow> bool result \<times> store" where
  "smove_would_move hll_count src dst member now inst_now st =
     (case try_promote hll_count src now inst_now st of
        (Inl e, st) \<Rightarrow> (Inl e, st)
      | (Inr _, st) \<Rightarrow>
          (case try_promote hll_count dst now inst_now st of
             (Inl e, st) \<Rightarrow> (Inl e, st)
           | (Inr _, st) \<Rightarrow>
               (case view_set dst now st of
                  Inl e \<Rightarrow> (Inl e, st)
                | Inr _ \<Rightarrow>
                    (case view_set src now st of
                       Inl e \<Rightarrow> (Inl e, st)
                     | Inr None \<Rightarrow> (Inr False, st)
                     | Inr (Some s) \<Rightarrow> (Inr (set_contains (key_str member) s), st)))))"

section \<open>Loops\<close>

lemma sadd_loop_spec:
  assumes "set_wf s" and "sadd_loop ms added mem s = ((added', mem'), s')"
  shows "set_wf s' \<and> members_of s' = members_of s \<union> key_string ` set ms \<and>
    set_size s' + added = set_size s + added'"
  using assms
proof (induction ms added mem s rule: sadd_loop.induct)
  case (2 m ms added mem s)
  obtain b s1 where ins: "set_insert (key_string m) s = (b, s1)" by fastforce
  note sp = set_insert_spec [OF "2.prems"(1) ins]
  show ?case using 2 ins sp by (cases b) auto
qed auto

lemma srem_loop_spec:
  assumes "set_wf s"
  shows "\<exists>removed' freed' s'. srem_loop ms removed freed s = Inr ((removed', freed'), s') \<and> set_wf s' \<and>
    members_of s' = members_of s - key_str ` set ms \<and> set_size s' + removed' = set_size s + removed"
  using assms
proof (induction ms arbitrary: removed freed s)
  case (Cons m ms)
  obtain s1 where rem: "set_remove (key_str m) s = Inr (key_str m \<in> members_of s, s1)" "set_wf s1"
    "members_of s1 = members_of s - {key_str m}"
    "set_size s1 = set_size s - (if key_str m \<in> members_of s then 1 else 0)"
    using set_remove_spec [OF Cons.prems] by blast
  have pos: "0 < set_size s" if "key_str m \<in> members_of s"
    using that by (auto simp: set_size_def members_of_def)
  define removed1 freed1 where "removed1 = (if key_str m \<in> members_of s then removed + 1 else removed)"
    and "freed1 = (if key_str m \<in> members_of s then freed + (length m + 32) else freed)"
  obtain r f s' where IH: "srem_loop ms removed1 freed1 s1 = Inr ((r, f), s')"
    "set_wf s'" "members_of s' = members_of s1 - key_str ` set ms" "set_size s' + r = set_size s1 + removed1"
    using Cons.IH [OF rem(2)] by blast
  have step: "srem_loop (m # ms) removed freed s = srem_loop ms removed1 freed1 s1"
    by (simp add: rem(1) removed1_def freed1_def)
  have "members_of s' = members_of s - key_str ` set (m # ms)" using IH(3) rem(3) by auto
  moreover have "set_size s' + r = set_size s + removed" using IH(4) rem(4) pos by (simp add: removed1_def split: if_splits)
  ultimately show ?case using step IH(1,2) by (intro exI [of _ r] exI [of _ f] exI [of _ s'] conjI) simp_all
qed auto

text \<open>Popping \<open>n\<close> times takes the last \<open>n\<close> members, in reverse.\<close>

lemma set_pop_members:
  "set_pop s = (None, s') \<Longrightarrow> sd_members s = [] \<and> s' = s"
  "set_pop s = (Some m, s') \<Longrightarrow> sd_members s = sd_members s' @ [m]"
  by (auto simp: set_pop_def Let_def split: if_splits)

lemma spop_loop_spec:
  assumes "set_wf s" and "spop_loop n freed s = ((ms, freed'), s')"
  shows "set_wf s' \<and> ms = take n (rev (sd_members s)) \<and> members_of s' = members_of s - set ms"
  using assms
proof (induction n arbitrary: freed s ms freed')
  case (Suc n)
  obtain om s1 where pop: "set_pop s = (om, s1)" by fastforce
  note sp = set_pop_spec [OF Suc.prems(1) pop]
  show ?case
  proof (cases om)
    case None
    with Suc.prems pop set_pop_members(1) [of s s1] show ?thesis by auto
  next
    case (Some m)
    obtain ms1 f1 where rest: "spop_loop n (freed + (length m + 32)) s1 = ((ms1, f1), s')" "ms = m # ms1"
      using Suc.prems(2) pop Some by (auto split: prod.splits)
    have "sd_members s = sd_members s1 @ [m]" using set_pop_members(2) pop Some by blast
    moreover have "set_wf s1" "members_of s1 = members_of s - {m}" using sp Some by auto
    ultimately show ?thesis using Suc.IH [OF _ rest(1)] rest(2) by auto
  qed
qed auto

lemma view_set_view:
  "view_set key now st =
     (case view st now key of None \<Rightarrow> Inr None | Some (Set s, _) \<Rightarrow> Inr (Some s) | Some _ \<Rightarrow> Inl (Err WRONGTYPE))"
  by (auto simp: view_set_def view_def split: option.splits store_value.splits)

lemma view_set_wf: "store_wf st \<Longrightarrow> view_set key now st = Inr (Some s) \<Longrightarrow> set_wf s"
  using data_get_value_inv [of st key]
  by (auto simp: view_set_def value_inv_def split: option.splits store_value.splits if_splits)

section \<open>Contracts\<close>

lemma value_inv_Set [simp]: "value_inv (Set s) = set_wf s"
  by (simp add: value_inv_def)

definition sadd_spec :: "bytes list \<Rightarrow> instant \<Rightarrow> slot \<Rightarrow> int result \<times> slot" where
  "sadd_spec members now s =
     (case slot_value (Set set_new) s of
        (Set d, exp) \<Rightarrow>
          (case sadd_loop members 0 0 d of ((added, _), d') \<Rightarrow> (Inr (int added), Some (Set d', exp)))
      | _ \<Rightarrow> (Inl (Err WRONGTYPE), s))"

lemma upsert_contract:
  assumes "mem_wf st" and "value_inv dflt" and "entry_or_insert dflt key now (bump_version key st) = (e, st1)"
  shows "mem_wf st1" "data_get st1 key = Some e" "\<not> is_expired_at e now" "value_inv (en_value e)"
    "slot_value dflt (view st now key) = (en_value e, en_expires_at e)"
    "k \<noteq> key \<Longrightarrow> data_get st1 k = data_get st k" "keys_exact st \<Longrightarrow> keys_exact st1"
    "view st1 now key = Some (slot_value dflt (view st now key))"
proof -
  have wf: "mem_wf (bump_version key st)" using assms(1) by simp
  note r = entry_or_insert_result [OF wf assms(2,3), unfolded view_bump data_get_simps exact_simps]
  show "mem_wf st1" "data_get st1 key = Some e" "\<not> is_expired_at e now" "value_inv (en_value e)"
    "slot_value dflt (view st now key) = (en_value e, en_expires_at e)"
    "k \<noteq> key \<Longrightarrow> data_get st1 k = data_get st k" "keys_exact st \<Longrightarrow> keys_exact st1"
    using r by (simp_all add: slot_value_def)
  then show "view st1 now key = Some (slot_value dflt (view st now key))" by (simp add: view_def)
qed

lemma slot_value_wrong: "slot_value dflt s = (v, x) \<Longrightarrow> v \<noteq> dflt \<Longrightarrow> s = Some (v, x)"
  by (cases s) (auto simp: slot_value_def)

interpretation sadd_op: counted_op "\<lambda>now. sadd hc key members now t" key "sadd_spec members" for hc key members t
proof unfold_locales
  fix st and now :: instant
  assume wf: "mem_wf st"
  obtain e st1 where e: "entry_or_insert (Set set_new) key now (bump_version key st) = (e, st1)" by fastforce
  note c = upsert_contract [OF wf _ e, simplified]
  have def: "sadd hc key members now t st = (case en_value e of
      Set s \<Rightarrow> (case sadd_loop members 0 0 s of ((added, mem_added), s) \<Rightarrow>
        (Inr (int added), mem_grow key mem_added (put_value key e (Set s) st1))) | _ \<Rightarrow> (Inl (Err WRONGTYPE), st1))"
    using wf e by (simp add: sadd_def)
  have loop: "set_wf s'" if "en_value e = Set s" "sadd_loop members 0 0 s = (p, s')" for s s' p
    using sadd_loop_spec [of s members 0 0 "fst p" "snd p" s'] that c(4) by (cases p) simp
  show "mem_wf (snd (sadd hc key members now t st))"
    using c(1,4) loop unfolding def by (auto split: store_value.splits prod.splits)
  show "fst (sadd hc key members now t st) = fst (sadd_spec members now (view st now key))"
    unfolding def sadd_spec_def c(5) by (auto split: store_value.splits prod.splits)
  show "view (snd (sadd hc key members now t st)) now key = snd (sadd_spec members now (view st now key))"
  proof (cases "\<exists>s. en_value e = Set s")
    case True
    then show ?thesis using c(1-3) unfolding def sadd_spec_def c(5)
      by (auto simp: view_Some split: prod.splits)
  next
    case False
    then have "view st now key = Some (en_value e, en_expires_at e)" using slot_value_wrong [OF c(5)] by auto
    then show ?thesis using False c(8) unfolding def sadd_spec_def
      by (auto simp: slot_value_def split: store_value.splits)
  qed
  show "data_get (snd (sadd hc key members now t st)) k = data_get st k" if "k \<noteq> key" for k
    using c(1,6) that unfolding def by (auto split: store_value.splits prod.splits)
  show "keys_exact (snd (sadd hc key members now t st))" if "keys_exact st"
    using c(1,2,7) that unfolding def by (auto split: store_value.splits prod.splits)
qed

lemma mem_wf_set: "data_get st k = Some e \<Longrightarrow> en_value e = Set s \<Longrightarrow> mem_wf st \<Longrightarrow> set_wf s"
  using mem_wf_value_inv by fastforce

definition srem_spec :: "bytes list \<Rightarrow> instant \<Rightarrow> slot \<Rightarrow> int result \<times> slot" where
  "srem_spec members now s =
     (case s of
        None \<Rightarrow> (Inr 0, None)
      | Some (Set d, exp) \<Rightarrow>
          (case srem_loop members 0 0 d of
             Inl e \<Rightarrow> (Inl e, s)
           | Inr ((removed, _), d') \<Rightarrow> (Inr (int removed), Some (Set d', exp)))
      | Some _ \<Rightarrow> (Inl (Err WRONGTYPE), s))"

lemma srem_loop_wf:
  assumes "set_wf s" and "srem_loop ms r f s = Inr (p, s')"
  shows "set_wf s'"
  using srem_loop_spec [OF assms(1), of ms r f] assms(2) by auto

interpretation srem_op: counted_op "\<lambda>now. srem hc key members now t" key "srem_spec members" for hc key members t
  by unfold_locales
    (auto simp: srem_def srem_spec_def view_def Let_def dest: mem_wf_set srem_loop_wf [rotated]
      split: on_list_splits sum.splits)

definition spop_spec :: "nat \<Rightarrow> instant \<Rightarrow> slot \<Rightarrow> bytes list result \<times> slot" where
  "spop_spec count now s =
     (case s of
        None \<Rightarrow> (Inr [], None)
      | Some (Set d, exp) \<Rightarrow>
          (case spop_loop count 0 d of ((ms, _), d') \<Rightarrow> (Inr ms, Some (Set d', exp)))
      | Some _ \<Rightarrow> (if count = 1 then Inr [] else Inl (Err WRONGTYPE), s))"

lemma set_pop_wf: "set_pop s = (om, s') \<Longrightarrow> set_wf s \<Longrightarrow> set_wf s'"
  using set_pop_spec by blast

lemma spop_loop_wf: "spop_loop n f s = (p, s') \<Longrightarrow> set_wf s \<Longrightarrow> set_wf s'"
  using spop_loop_spec [of s n f "fst p" "snd p" s'] by (cases p) simp

interpretation spop_op: counted_op "spop_on_shard key count" key "spop_spec count" for key count
proof unfold_locales
  fix st and now :: instant
  assume wf: "mem_wf st"
  note defs = spop_on_shard_def spop_one_on_shard_def
  show "mem_wf (snd (spop_on_shard key count now st))"
    using wf by (auto simp: defs intro!: put_value_simps(1) split: on_list_splits)
      (metis mem_wf_set set_pop_wf spop_loop_wf)+
  show "fst (spop_on_shard key count now st) = fst (spop_spec count now (view st now key))"
    by (auto simp: defs spop_spec_def view_def split: on_list_splits)
  show "view (snd (spop_on_shard key count now st)) now key = snd (spop_spec count now (view st now key))"
    using wf by (cases "count = 1"; cases "data_get st key")
      (simp_all add: defs spop_spec_def view_def split: store_value.split prod.split option.split)
  show "data_get (snd (spop_on_shard key count now st)) k = data_get st k" if "k \<noteq> key" for k
    using wf that by (simp add: defs split: store_value.split prod.split option.split)
  show "keys_exact (snd (spop_on_shard key count now st))" if "keys_exact st"
    using wf that by (simp add: defs split: store_value.split prod.split option.split)
qed

section \<open>Correctness of the set algebra\<close>

definition set_of :: "store \<Rightarrow> instant \<Rightarrow> bytes \<Rightarrow> bytes set" where
  "set_of st now key = (case view_set key now st of Inr (Some s) \<Rightarrow> members_of s | _ \<Rightarrow> {})"

definition wrong_type :: "store \<Rightarrow> instant \<Rightarrow> bytes \<Rightarrow> bool" where
  "wrong_type st now key \<longleftrightarrow> view_set key now st = Inl (Err WRONGTYPE)"

lemma view_set_cases:
  obtains "view_set key now st = Inl (Err WRONGTYPE)" | "view_set key now st = Inr None"
  | s where "view_set key now st = Inr (Some s)"
proof -
  have "view_set key now st = Inl (Err WRONGTYPE) \<or> view_set key now st = Inr None \<or> (\<exists>s. view_set key now st = Inr (Some s))"
    by (auto simp: view_set_def split: option.splits store_value.splits)
  then show thesis using that by blast
qed

lemma hs_extend_spec: "set (hs_extend acc ms) = set acc \<union> set ms \<and> (distinct acc \<longrightarrow> distinct (hs_extend acc ms))"
proof (induction ms arbitrary: acc)
  case (Cons m ms)
  then show ?case by (auto simp: hs_extend_def hs_insert_def)
qed (simp add: hs_extend_def)

lemma opt_iter_set: "view_set key now st = Inr s \<Longrightarrow> set (opt_iter s) = set_of st now key"
  by (cases s) (auto simp: opt_iter_def set_of_def set_iter_def members_of_def)

lemma set_iter_distinct: "set_wf s \<Longrightarrow> distinct (set_iter s)" "set (set_iter s) = members_of s"
  by (simp_all add: set_iter_def set_wf_distinct members_of_def)

lemma sunion_loop_spec:
  "distinct acc \<Longrightarrow>
   (if \<exists>k \<in> set ks. wrong_type st now k then sunion_loop ks now st acc = Inl (Err WRONGTYPE)
    else \<exists>xs. sunion_loop ks now st acc = Inr xs \<and> distinct xs \<and> set xs = set acc \<union> (\<Union>k \<in> set ks. set_of st now k))"
proof (induction ks arbitrary: acc)
  case (Cons k ks)
  show ?case
  proof (cases k now st rule: view_set_cases)
    case 1
    then show ?thesis by (simp add: wrong_type_def)
  next
    case 2
    then have "set_of st now k = {}" by (simp add: set_of_def)
    with 2 Cons show ?thesis by (simp add: wrong_type_def opt_iter_def hs_extend_def)
  next
    case (3 s)
    then show ?thesis
      using Cons.IH [of "hs_extend acc (opt_iter (Some s))"] Cons.prems hs_extend_spec [of acc "opt_iter (Some s)"]
        opt_iter_set [OF 3] by (auto simp: wrong_type_def)
  qed
qed simp

lemma sinter_loop_spec:
  "store_wf st \<Longrightarrow> distinct acc \<Longrightarrow>
   (if \<exists>k \<in> set ks. wrong_type st now k then sinter_loop ks now st acc = Inl (Err WRONGTYPE)
    else \<exists>xs. sinter_loop ks now st acc = Inr xs \<and> distinct xs \<and> set xs = {m \<in> set acc. \<forall>k \<in> set ks. m \<in> set_of st now k})"
proof (induction ks arbitrary: acc)
  case (Cons k ks)
  show ?case
  proof (cases k now st rule: view_set_cases)
    case 2
    then show ?thesis using Cons.IH [of "[]"] Cons.prems by (auto simp: wrong_type_def set_of_def)
  next
    case (3 s)
    have "filter (\<lambda>m. set_contains m s) acc = filter (\<lambda>m. m \<in> members_of s) acc"
      using view_set_wf [OF Cons.prems(1) 3] by (simp add: set_contains_iff)
    with 3 Cons.IH [of "filter (\<lambda>m. m \<in> members_of s) acc"] Cons.prems show ?thesis
      by (auto simp: wrong_type_def set_of_def)
  qed (simp add: wrong_type_def)
qed simp

lemma sdiff_loop_spec:
  "store_wf st \<Longrightarrow> distinct acc \<Longrightarrow>
   (if \<exists>k \<in> set ks. wrong_type st now k then sdiff_loop ks now st acc = Inl (Err WRONGTYPE)
    else \<exists>xs. sdiff_loop ks now st acc = Inr xs \<and> distinct xs \<and> set xs = set acc - (\<Union>k \<in> set ks. set_of st now k))"
proof (induction ks arbitrary: acc)
  case (Cons k ks)
  show ?case
  proof (cases k now st rule: view_set_cases)
    case 2
    then show ?thesis using Cons.IH [of acc] Cons.prems by (auto simp: wrong_type_def set_of_def)
  next
    case (3 s)
    have "filter (\<lambda>m. \<not> set_contains m s) acc = filter (\<lambda>m. m \<notin> members_of s) acc"
      using view_set_wf [OF Cons.prems(1) 3] by (simp add: set_contains_iff)
    with 3 Cons.IH [of "filter (\<lambda>m. m \<notin> members_of s) acc"] Cons.prems show ?thesis
      by (auto simp: wrong_type_def set_of_def)
  qed (simp add: wrong_type_def)
qed simp

lemma two_keys: "length ks = 2 \<Longrightarrow> \<exists>a b. ks = [a, b]"
  by (cases ks; cases "tl ks") auto

lemma sunion_two_spec:
  "if wrong_type st now a \<or> wrong_type st now b then sunion_two_keys a b now st = Inl (Err WRONGTYPE)
   else \<exists>xs. sunion_two_keys a b now st = Inr xs \<and> distinct xs \<and> set xs = set_of st now a \<union> set_of st now b"
proof -
  have "sunion_two_keys a b now st = sunion_loop [a, b] now st []"
    by (simp add: sunion_two_keys_def with_two_set_views_def split: sum.split)
  then show ?thesis using sunion_loop_spec [of "[]" "[a, b]" st now] by (simp del: sunion_loop.simps split: if_splits)
qed

lemma sinter_two_spec:
  assumes "store_wf st"
  shows "if wrong_type st now a \<or> wrong_type st now b then sinter_two_keys a b now st = Inl (Err WRONGTYPE)
   else \<exists>xs. sinter_two_keys a b now st = Inr xs \<and> distinct xs \<and> set xs = set_of st now a \<inter> set_of st now b"
proof (cases a now st rule: view_set_cases)
  case 1
  then show ?thesis by (simp add: wrong_type_def sinter_two_keys_def with_two_set_views_def)
next
  case 2
  then show ?thesis
    by (cases b now st rule: view_set_cases)
      (simp_all add: wrong_type_def sinter_two_keys_def with_two_set_views_def set_of_def)
next
  case (3 s)
  note wfa = view_set_wf [OF assms 3] and a = 3
  show ?thesis
  proof (cases b now st rule: view_set_cases)
    case (3 s')
    note wfb = view_set_wf [OF assms 3]
    show ?thesis using a 3 wfa wfb
      by (auto simp: wrong_type_def sinter_two_keys_def with_two_set_views_def set_of_def set_contains_iff set_iter_distinct)
  qed (use a in \<open>simp_all add: wrong_type_def sinter_two_keys_def with_two_set_views_def set_of_def\<close>)
qed

lemma sdiff_two_spec:
  assumes "store_wf st"
  shows "if wrong_type st now a \<or> wrong_type st now b then sdiff_two_keys a b now st = Inl (Err WRONGTYPE)
   else \<exists>xs. sdiff_two_keys a b now st = Inr xs \<and> distinct xs \<and> set xs = set_of st now a - set_of st now b"
proof (cases a now st rule: view_set_cases)
  case 1
  then show ?thesis by (simp add: wrong_type_def sdiff_two_keys_def with_two_set_views_def)
next
  case 2
  then show ?thesis
    by (cases b now st rule: view_set_cases)
      (simp_all add: wrong_type_def sdiff_two_keys_def with_two_set_views_def set_of_def)
next
  case (3 s)
  note wfa = view_set_wf [OF assms 3] and a = 3
  show ?thesis
  proof (cases b now st rule: view_set_cases)
    case (3 s')
    note wfb = view_set_wf [OF assms 3]
    show ?thesis using a 3 wfa wfb
      by (auto simp: wrong_type_def sdiff_two_keys_def with_two_set_views_def set_of_def set_contains_iff set_iter_distinct)
  qed (use a wfa in \<open>simp_all add: wrong_type_def sdiff_two_keys_def with_two_set_views_def set_of_def set_iter_distinct\<close>)
qed

lemma collect_set_spec:
  "if wrong_type st now k then collect_set k now st = Inl (Err WRONGTYPE)
   else \<exists>xs. collect_set k now st = Inr xs \<and> distinct xs \<and> set xs = set_of st now k"
proof (cases k now st rule: view_set_cases)
  case (3 s)
  then show ?thesis using hs_extend_spec [of "[]" "opt_iter (Some s)"] opt_iter_set [OF 3]
    by (simp add: wrong_type_def collect_set_def)
qed (simp_all add: wrong_type_def collect_set_def set_of_def opt_iter_def hs_extend_def)

text \<open>
  Claim C23. The set algebra is the set algebra. For any list of keys, through the
  two-key fast paths and the general loops alike, \<open>SUNION\<close>, \<open>SINTER\<close> and \<open>SDIFF\<close>
  return, without duplicates, the union, the intersection, and the first set
  without the others; a missing or expired key counts as the empty set, and a live
  key of another type anywhere in the list makes the command fail.
\<close>

theorem set_algebra_correct:
  assumes "store_wf st" and "ks \<noteq> []"
  shows "if \<exists>k \<in> set ks. wrong_type st now k then
      sunion ks now st = Inl (Err WRONGTYPE) \<and> sinter ks now st = Inl (Err WRONGTYPE) \<and>
      sdiff ks now st = Inl (Err WRONGTYPE)
    else (\<exists>xs. sunion ks now st = Inr xs \<and> distinct xs \<and> set xs = (\<Union>k \<in> set ks. set_of st now k)) \<and>
      (\<exists>xs. sinter ks now st = Inr xs \<and> distinct xs \<and> set xs = (\<Inter>k \<in> set ks. set_of st now k)) \<and>
      (\<exists>xs. sdiff ks now st = Inr xs \<and> distinct xs \<and>
         set xs = set_of st now (hd ks) - (\<Union>k \<in> set (tl ks). set_of st now k))"
proof (cases "length ks = 2")
  case True
  then obtain a b where "ks = [a, b]" using two_keys by blast
  then show ?thesis
    using sunion_two_spec [of st now a b] sinter_two_spec [OF assms(1), of now a b] sdiff_two_spec [OF assms(1), of now a b]
    by (simp add: sunion_def sinter_def sdiff_def)
next
  case False
  obtain k ks' where ks: "ks = k # ks'" using assms(2) by (cases ks) auto
  have u: "sunion ks now st = sunion_loop ks now st []" using False by (simp add: sunion_def)
  show ?thesis
  proof (cases "wrong_type st now k")
    case True
    then show ?thesis using u sunion_loop_spec [of "[]" ks st now] collect_set_spec [of st now k] False
      by (simp add: ks sinter_def sdiff_def del: sunion_loop.simps)
  next
    case ok: False
    obtain acc where acc: "collect_set k now st = Inr acc" "distinct acc" "set acc = set_of st now k"
      using collect_set_spec [of st now k] ok by auto
    have "sinter ks now st = sinter_loop ks' now st acc" "sdiff ks now st = sdiff_loop ks' now st acc"
      using False acc(1) by (simp_all add: ks sinter_def sdiff_def)
    moreover have "(\<Inter>k \<in> set ks. set_of st now k) = {m \<in> set acc. \<forall>k \<in> set ks'. m \<in> set_of st now k}"
      using acc(3) by (auto simp: ks)
    ultimately show ?thesis
      using u ok sunion_loop_spec [of "[]" ks st now] sinter_loop_spec [OF assms(1) acc(2), of ks' now]
        sdiff_loop_spec [OF assms(1) acc(2), of ks' now] acc(3)
      by (simp add: ks del: sunion_loop.simps split: if_splits)
  qed
qed

section \<open>Members that are not valid UTF-8\<close>

text \<open>
  A member that is not valid UTF-8 is stored under its lossy
  transliteration but tested and removed as the empty string: after it has been
  added, a membership test does not find it, and removing it removes the empty
  string where that is a member, and nothing otherwise.
\<close>

theorem invalid_member_not_found:
  assumes "mem_wf st" and "view_set key now st = Inr s0" and "\<not> utf8_valid m" and "key_string m \<noteq> []"
    and "sadd hc key [m] now t st = (r, st')"
  shows "sismember key m now st' = Inr ([] \<in> set_of st now key) \<and>
    set_of st' now key = insert (key_string m) (set_of st now key) \<and>
    set_of (snd (srem hc key [m] now t st')) now key = insert (key_string m) (set_of st now key - {[]})"
proof -
  have ks: "key_str m = []" using assms(3) by (simp add: key_str_def)
  have wf': "mem_wf st'" using sadd_op.op_wf [OF assms(1), of hc key "[m]" now t] assms(5) by simp
  obtain s exp where s: "slot_value (Set set_new) (view st now key) = (Set s, exp)" "set_wf s" "members_of s = set_of st now key"
    using assms(2) view_set_wf [of st key now] assms(1)
    by (cases "view st now key") (auto simp: slot_value_def view_set_view set_of_def split: store_value.splits)
  obtain a b s' where l: "sadd_loop [m] 0 0 s = ((a, b), s')" by (metis prod.exhaust)
  note sp = sadd_loop_spec [OF s(2) l]
  have v': "view st' now key = Some (Set s', exp)"
    using sadd_op.op_effect [OF assms(1), of hc key "[m]" now t] assms(5) s(1) l by (simp add: sadd_spec_def)
  obtain r2 f2 s2 where l2: "srem_loop [m] 0 0 s' = Inr ((r2, f2), s2)" "set_wf s2" "members_of s2 = members_of s' - key_str ` set [m]"
    using srem_loop_spec [of s' "[m]" 0 0] sp by blast
  have v2: "view (snd (srem hc key [m] now t st')) now key = Some (Set s2, exp)"
    using srem_op.op_effect [OF wf', of hc key "[m]" now t] v' l2(1) by (simp add: srem_spec_def)
  show ?thesis using sp v' v2 l2(3) s(3) assms(4) ks
    by (auto simp: sismember_def view_set_view set_of_def set_contains_iff)
qed

section \<open>Witnesses\<close>

definition demo_sets :: store where
  "demo_sets = demo_store [(ascii ''a'', Set (from_members [ascii ''x'', ascii ''y''])),
     (ascii ''b'', Set (from_members [ascii ''y'', ascii ''z''])), (ascii ''s'', Str [])]"

lemma demo_sets_facts:
  "mem_wf demo_sets"
  "view_set (ascii ''a'') now demo_sets = Inr (Some (from_members [ascii ''x'', ascii ''y'']))"
  "view_set (ascii ''b'') now demo_sets = Inr (Some (from_members [ascii ''y'', ascii ''z'']))"
  "view_set (ascii ''s'') now demo_sets = Inl (Err WRONGTYPE)" "view_set (ascii ''m'') now demo_sets = Inr None"
  by (simp_all add: demo_sets_def demo_store_wf demo_store_view view_set_view ascii_def del: demo_store.simps)

theorem set_algebra_correct_witness:
  "(\<exists>xs. sinter [ascii ''a'', ascii ''b''] 0 demo_sets = Inr xs \<and> set xs = {ascii ''y''}) \<and>
   (\<exists>xs. sunion [ascii ''a'', ascii ''b'', ascii ''m''] 0 demo_sets = Inr xs \<and> set xs = {ascii ''x'', ascii ''y'', ascii ''z''}) \<and>
   sdiff [ascii ''a'', ascii ''s''] 0 demo_sets = Inl (Err WRONGTYPE)"
proof -
  have wf: "store_wf demo_sets" using demo_sets_facts(1) by simp
  have sets: "set_of demo_sets 0 (ascii ''a'') = {ascii ''x'', ascii ''y''}" "set_of demo_sets 0 (ascii ''b'') = {ascii ''y'', ascii ''z''}"
    "set_of demo_sets 0 (ascii ''m'') = {}" "\<not> wrong_type demo_sets 0 (ascii ''a'')" "\<not> wrong_type demo_sets 0 (ascii ''b'')"
    "\<not> wrong_type demo_sets 0 (ascii ''m'')" "wrong_type demo_sets 0 (ascii ''s'')"
    by (simp_all add: set_of_def wrong_type_def demo_sets_facts)
  have "{ascii ''x'', ascii ''y''} \<inter> {ascii ''y'', ascii ''z''} = {ascii ''y''}" by (auto simp: ascii_def)
  then show ?thesis
    using set_algebra_correct [OF wf, of "[ascii ''a'', ascii ''b'']" 0]
      set_algebra_correct [OF wf, of "[ascii ''a'', ascii ''b'', ascii ''m'']" 0]
      set_algebra_correct [OF wf, of "[ascii ''a'', ascii ''s'']" 0]
    by (auto simp: sets)
qed

theorem invalid_member_not_found_witness:
  "sismember (ascii ''m'') [255] 0 (snd (sadd (\<lambda>_. 0) (ascii ''m'') [[255]] 0 0 demo_sets)) = Inr False \<and>
   set_of (snd (sadd (\<lambda>_. 0) (ascii ''m'') [[255]] 0 0 demo_sets)) 0 (ascii ''m'') = {replacement_char}"
  using invalid_member_not_found [OF demo_sets_facts(1,5) demo_invalid_key(1) _ prod.collapse [symmetric], of 0 "\<lambda>_. 0" 0]
  by (simp add: demo_invalid_key replacement_char_def set_of_def demo_sets_facts(5))

end
