(* ===== verification/StoreKeys.thy ===== *)
theory StoreKeys
  imports StoreSets Glob
begin

text \<open>
  The key commands of the store (\<^verbatim>\<open>src/src/store/mod.rs\<close>): deletion, existence,
  expiry, renaming, enumeration, flushing and the active expiry sweep. A command
  on several keys locks one shard at a time; here its steps run one after the
  other. The order in which a hash map is iterated is the order of its
  association list.
\<close>

section \<open>Deleting\<close>

definition note_vector_removed :: "bytes \<Rightarrow> store_value \<Rightarrow> store \<Rightarrow> store" where
  "note_vector_removed key v st =
     (case v of
        Vector vd \<Rightarrow> st\<lparr>vector_calls := vector_calls st @ [RemoveVector (key_string key) (vd_dims vd)]\<rparr>
      | _ \<Rightarrow> st)"

fun del_loop :: "bytes list \<Rightarrow> instant \<Rightarrow> int \<Rightarrow> (bytes \<times> store_value) list \<Rightarrow> store \<Rightarrow>
    (int \<times> (bytes \<times> store_value) list) \<times> store" where
  "del_loop [] now n removed st = ((n, removed), st)"
| "del_loop (key # ks) now n removed st =
     (let st = bump_version key st in
      case data_get st key of
        Some e \<Rightarrow>
          del_loop ks now (if is_expired_at e now then n else n + 1)
            (if is_vector (en_value e) then removed @ [(key, en_value e)] else removed)
            (take_entry key e st)
      | None \<Rightarrow>
          if disk_contains key now st then del_loop ks now (n + 1) removed (remove_from_disk key st)
          else del_loop ks now n removed st)"

definition del :: "bytes list \<Rightarrow> instant \<Rightarrow> store \<Rightarrow> int \<times> store" where
  "del ks now st =
     (case del_loop ks now 0 [] st of
        ((n, removed), st) \<Rightarrow> (n, foldl (\<lambda>st (k, v). note_vector_removed k v st) st removed))"

definition unlink :: "bytes list \<Rightarrow> instant \<Rightarrow> store \<Rightarrow> int \<times> store" where
  "unlink ks now st = del ks now st"

definition delifeq :: "bytes \<Rightarrow> bytes \<Rightarrow> instant \<Rightarrow> store \<Rightarrow> bool result \<times> store" where
  "delifeq key expected now st =
     (case (case data_get st key of
              None \<Rightarrow> Inr None
            | Some e \<Rightarrow>
                if is_expired_at e now then Inr (Some False)
                else (case string_bytes (en_value e) of
                        None \<Rightarrow> Inl (Err WRONGTYPE)
                      | Some current \<Rightarrow> Inr (if current = expected then Some True else None))) of
        Inl err \<Rightarrow> (Inl err, st)
      | Inr None \<Rightarrow> (Inr False, st)
      | Inr (Some should_count) \<Rightarrow>
          (let st = bump_version key st in
           case data_get st key of
             Some e \<Rightarrow> (Inr should_count, remove_from_disk key (take_entry key e st))
           | None \<Rightarrow> (Inr should_count, st)))"

section \<open>Existence\<close>

definition exists_on_shard :: "bytes \<Rightarrow> instant \<Rightarrow> store \<Rightarrow> bool" where
  "exists_on_shard key now st \<longleftrightarrow>
     (case data_get st key of None \<Rightarrow> False | Some e \<Rightarrow> \<not> is_expired_at e now)"

fun exists_each :: "bytes list \<Rightarrow> instant \<Rightarrow> store \<Rightarrow> int" where
  "exists_each [] now st = 0"
| "exists_each (key # ks) now st =
     (if exists_on_shard key now st \<or> is_tiered st \<and> disk_contains key now st then 1 else 0) + exists_each ks now st"

definition group_push :: "store \<Rightarrow> (nat, bytes list) hash_map \<Rightarrow> bytes \<Rightarrow> (nat, bytes list) hash_map" where
  "group_push st by_shard key =
     hm_insert (shard_index st key) ((case hm_get by_shard (shard_index st key) of None \<Rightarrow> [] | Some ks \<Rightarrow> ks) @ [key]) by_shard"

fun exists_keys_of :: "bytes list \<Rightarrow> shard \<Rightarrow> instant \<Rightarrow> bool \<Rightarrow> int \<times> bytes list" where
  "exists_keys_of [] sh now tiered = (0, [])"
| "exists_keys_of (key # ks) sh now tiered =
     (case exists_keys_of ks sh now tiered of
        (n, missing) \<Rightarrow>
          if (case hm_get (sh_data sh) key of None \<Rightarrow> False | Some e \<Rightarrow> \<not> is_expired_at e now) then (n + 1, missing)
          else if tiered then (n, key # missing)
          else (n, missing))"

fun exists_groups :: "(nat \<times> bytes list) list \<Rightarrow> instant \<Rightarrow> store \<Rightarrow> int \<times> bytes list" where
  "exists_groups [] now st = (0, [])"
| "exists_groups ((idx, ks) # gs) now st =
     (case exists_keys_of ks (shards st ! idx) now (is_tiered st) of
        (n, missing) \<Rightarrow> (case exists_groups gs now st of (n', missing') \<Rightarrow> (n + n', missing @ missing')))"

definition store_exists :: "bytes list \<Rightarrow> instant \<Rightarrow> store \<Rightarrow> int" where
  "store_exists ks now st =
     (if ks = [] then 0
      else if length ks \<le> 8 then exists_each ks now st
      else case exists_groups (foldl (group_push st) [] ks) now st of
        (n, missing) \<Rightarrow>
          if is_tiered st then n + int (length (filter (\<lambda>k. disk_contains k now st) missing)) else n)"

section \<open>Enumerating\<close>

text \<open>The pattern test on the characters of two strings (\<open>GlobMatcher\<close>).\<close>

definition key_matches :: "bytes \<Rightarrow> bytes \<Rightarrow> bool" where
  "key_matches pattern key =
     (case (utf8_chars pattern, utf8_chars key) of
        (Some p, Some s) \<Rightarrow> glob_matches (glob_new p) s
      | _ \<Rightarrow> False)"

definition not_past :: "entry \<Rightarrow> instant \<Rightarrow> bool" where
  "not_past e now = (case en_expires_at e of None \<Rightarrow> True | Some exp \<Rightarrow> now < exp)"

definition keys_of_shard :: "bytes \<Rightarrow> instant \<Rightarrow> shard \<Rightarrow> bytes list" where
  "keys_of_shard pat now sh =
     map (\<lambda>(k, e). key_string k) (filter (\<lambda>(k, e). not_past e now \<and> key_matches pat (key_string k)) (sh_data sh))"

fun add_cold_keys :: "bytes \<Rightarrow> bytes list \<Rightarrow> bytes list \<Rightarrow> bytes list" where
  "add_cold_keys pat [] acc = acc"
| "add_cold_keys pat (k # ks) acc =
     add_cold_keys pat ks (if key_matches pat k \<and> k \<notin> set acc then acc @ [k] else acc)"

definition store_keys :: "bytes \<Rightarrow> instant \<Rightarrow> store \<Rightarrow> bytes list" where
  "store_keys pattern now st =
     (let pat = key_str pattern; acc = concat (map (keys_of_shard pat now) (shards st)) in
      case disk_shards st of
        None \<Rightarrow> acc
      | Some ds \<Rightarrow> foldl (\<lambda>acc d. add_cold_keys pat (ds_keys d) acc) acc ds)"

text \<open>The addition \<open>start + count\<close> wraps, and a slice whose start lies behind its end panics.\<close>

definition scan :: "nat \<Rightarrow> bytes \<Rightarrow> nat \<Rightarrow> instant \<Rightarrow> store \<Rightarrow> (nat \<times> bytes list) result" where
  "scan cursor pattern count now st =
     (let all_keys = store_keys pattern now st;
          start = min cursor (length all_keys);
          stop = min ((start + count) mod 2 ^ 64) (length all_keys);
          next_cursor = (if stop \<ge> length all_keys then 0 else stop)
      in if start \<le> stop then Inr (next_cursor, take (stop - start) (drop start all_keys)) else Inl Panic)"

definition dbsize :: "instant \<Rightarrow> store \<Rightarrow> int" where
  "dbsize now st =
     sum_list (map (\<lambda>sh. int (length (filter (\<lambda>(k, e). not_past e now) (sh_data sh)))) (shards st)) +
     int (disk_key_count st)"

section \<open>Expiry\<close>

definition ttl :: "bytes \<Rightarrow> instant \<Rightarrow> store \<Rightarrow> int" where
  "ttl key now st =
     (case data_get st key of
        None \<Rightarrow> -2
      | Some e \<Rightarrow>
          (case en_expires_at e of
             None \<Rightarrow> -1
           | Some exp \<Rightarrow> if now > exp then -2 else wrap_i64 (int (as_secs (exp - now)))))"

definition pttl :: "bytes \<Rightarrow> instant \<Rightarrow> store \<Rightarrow> int" where
  "pttl key now st =
     (case data_get st key of
        None \<Rightarrow> -2
      | Some e \<Rightarrow>
          (case en_expires_at e of
             None \<Rightarrow> -1
           | Some exp \<Rightarrow> if now > exp then -2 else wrap_i64 (int (as_millis (exp - now)))))"

text \<open>The clock reading of the two absolute variants is the time since the Unix epoch.\<close>

definition expiretime :: "bytes \<Rightarrow> instant \<Rightarrow> duration \<Rightarrow> store \<Rightarrow> int" where
  "expiretime key now now_unix st =
     (case data_get st key of
        None \<Rightarrow> -2
      | Some e \<Rightarrow>
          if is_expired_at e now then -2
          else case en_expires_at e of
            None \<Rightarrow> -1
          | Some exp \<Rightarrow> wrap_i64 (int (as_secs now_unix + as_secs (exp - now))))"

definition pexpiretime :: "bytes \<Rightarrow> instant \<Rightarrow> duration \<Rightarrow> store \<Rightarrow> int" where
  "pexpiretime key now now_unix st =
     (case data_get st key of
        None \<Rightarrow> -2
      | Some e \<Rightarrow>
          if is_expired_at e now then -2
          else case en_expires_at e of
            None \<Rightarrow> -1
          | Some exp \<Rightarrow> wrap_i64 (int (as_millis now_unix + as_millis (exp - now))))"

definition pexpire :: "bytes \<Rightarrow> nat \<Rightarrow> instant \<Rightarrow> store \<Rightarrow> bool \<times> store" where
  "pexpire key millis now st =
     (let st = bump_version key st in
      case data_get st key of
        None \<Rightarrow> (False, st)
      | Some e \<Rightarrow>
          if is_expired_at e now then (False, st)
          else (True, data_insert key (e\<lparr>en_expires_at := Some (now + from_millis millis)\<rparr>) st))"

definition persist :: "bytes \<Rightarrow> instant \<Rightarrow> store \<Rightarrow> bool \<times> store" where
  "persist key now st =
     (case data_get st key of
        None \<Rightarrow> (False, st)
      | Some e \<Rightarrow>
          if \<not> is_expired_at e now \<and> en_expires_at e \<noteq> None then
            (True, bump_version key (data_insert key (e\<lparr>en_expires_at := None\<rparr>) st))
          else (False, st))"

section \<open>Renaming\<close>

definition value_has_key_bound_encryption :: "keyring \<Rightarrow> store_value \<Rightarrow> bool" where
  "value_has_key_bound_encryption kr v =
     (case v of
        Str s \<Rightarrow> kr_is_encrypted_value kr s
      | StrBuf s \<Rightarrow> kr_is_encrypted_value kr s
      | Hash h \<Rightarrow> list_ex (\<lambda>(f, v). kr_is_encrypted_value kr v) (hd_fields h)
      | Stream s \<Rightarrow> list_ex (\<lambda>(i, fs). list_ex (\<lambda>(f, v). kr_is_encrypted_value kr v) fs) (st_entries s)
      | _ \<Rightarrow> False)"

definition RENAME_ENCRYPTED_ERR :: string where
  "RENAME_ENCRYPTED_ERR = ''ERR cannot relocate an encrypted key: its ciphertext is bound to the key name and would be unrecoverable at the destination; decrypt and re-set under the new key instead''"

definition rename :: "keyring \<Rightarrow> bytes \<Rightarrow> bytes \<Rightarrow> instant \<Rightarrow> store \<Rightarrow> unit result \<times> store" where
  "rename kr key new_key now st =
     (if (case data_get st key of
            None \<Rightarrow> False
          | Some e \<Rightarrow> \<not> is_expired_at e now \<and> value_has_key_bound_encryption kr (en_value e))
      then (Inl (Err RENAME_ENCRYPTED_ERR), st)
      else
        let st = bump_version key st; removed = data_get st key; st = data_remove key st in
        case removed of
          None \<Rightarrow> (Inl (Err ''ERR no such key''), st)
        | Some e \<Rightarrow>
            if is_expired_at e now then (Inl (Err ''ERR no such key''), st)
            else
              let mem = estimate_entry_memory (key_str key) (en_value e);
                  st = mem_sub mem (shard_mem_sub key mem (key_removed st));
                  st = bump_version new_key st;
                  mem = estimate_entry_memory (key_str new_key) (en_value e);
                  old = data_get st new_key;
                  st = data_insert new_key e st;
                  st = (if old = None then key_added st else st)
              in (Inr (), mem_add mem (shard_mem_add new_key mem st)))"

section \<open>Flushing\<close>

definition flush_shard :: "shard \<Rightarrow> shard" where
  "flush_shard sh = sh\<lparr>sh_version := sh_version sh + 1, sh_data := [], sh_used_memory := 0\<rparr>"

definition flushdb :: "store \<Rightarrow> store" where
  "flushdb st =
     st\<lparr>shards := map flush_shard (shards st),
        used_memory := foldl (\<lambda>m sh. m - sh_used_memory sh) (used_memory st) (shards st),
        key_count := 0,
        vector_calls := vector_calls st @ [ClearVectors],
        disk_shards := map_option (map (\<lambda>d. foldl (\<lambda>d k. ds_remove k d) d (ds_keys d))) (disk_shards st)\<rparr>"

section \<open>Active expiry\<close>

text \<open>The seed is the hash of the clock reading: any number. A poisoned journal stops the sweep.\<close>

definition sweep_sample :: "nat \<Rightarrow> nat \<Rightarrow> shard \<Rightarrow> bytes list" where
  "sweep_sample seed i sh =
     take 20 (map (\<lambda>(j, kv). fst kv)
       (filter (\<lambda>(j, kv). (j + seed + i) mod 2 ^ 64 mod 5 = 0) (enumerate 0 (sh_data sh))))"

definition sweep_key :: "nat \<Rightarrow> bytes \<Rightarrow> instant \<Rightarrow> store \<Rightarrow> store" where
  "sweep_key i key now st =
     (let sh = shards st ! i in
      case hm_get (sh_data sh) key of
        None \<Rightarrow> st
      | Some e \<Rightarrow>
          if \<not> is_expired_at e now then st
          else
            let mem = estimate_entry_memory key (en_value e);
                sh = sh\<lparr>sh_data := hm_remove key (sh_data sh), sh_used_memory := sh_used_memory sh - mem,
                       sh_version := sh_version sh + 1\<rparr>;
                st = mem_sub mem (key_removed (st\<lparr>shards := (shards st)[i := sh]\<rparr>))
            in note_vector_removed key (en_value e) st)"

fun sweep_keys :: "nat \<Rightarrow> bytes list \<Rightarrow> instant \<Rightarrow> store \<Rightarrow> store" where
  "sweep_keys i [] now st = st"
| "sweep_keys i (key # ks) now st = sweep_keys i ks now (sweep_key i key now st)"

fun sweep_shards :: "nat list \<Rightarrow> nat \<Rightarrow> instant \<Rightarrow> store \<Rightarrow> store" where
  "sweep_shards [] seed now st = st"
| "sweep_shards (i # idxs) seed now st =
     sweep_shards idxs seed now (sweep_keys i (sweep_sample seed i (shards st ! i)) now st)"

definition expire_sweep :: "nat \<Rightarrow> instant \<Rightarrow> store \<Rightarrow> store" where
  "expire_sweep seed now st =
     (if journal_poisoned st then st else sweep_shards [0..<length (shards st)] seed now st)"

section \<open>Deletion\<close>

lemma mem_wf_not_cold [simp]:
  "mem_wf st \<Longrightarrow> disk_contains k now st = False"
  "mem_wf st \<Longrightarrow> is_tiered st = False"
  by (simp_all add: mem_wf_def disk_contains_def is_tiered_def)

lemma mem_wf_take_entry [simp]: "mem_wf st \<Longrightarrow> mem_wf (take_entry k e st)"
  by (simp add: mem_wf_def)

lemma mem_wf_data_remove [simp]: "mem_wf st \<Longrightarrow> mem_wf (data_remove k st)"
  by (simp add: mem_wf_def)

lemma note_vector_removed_simps [simp]:
  "data_get (note_vector_removed k v st) = data_get st" "mem_wf (note_vector_removed k v st) = mem_wf st"
  "store_wf (note_vector_removed k v st) = store_wf st"
  "keys_exact (note_vector_removed k v st) = keys_exact st" "memory_exact (note_vector_removed k v st) = memory_exact st"
  "disk_shards (note_vector_removed k v st) = disk_shards st"
  by (simp_all add: note_vector_removed_def mem_wf_def keys_exact_def memory_exact_def total_keys_def total_memory_def
      store_sum_def split: store_value.split)

lemma note_vectors_removed_simps [simp]:
  "data_get (foldl (\<lambda>st (k, v). note_vector_removed k v st) st rs) = data_get st"
  "mem_wf (foldl (\<lambda>st (k, v). note_vector_removed k v st) st rs) = mem_wf st"
  "keys_exact (foldl (\<lambda>st (k, v). note_vector_removed k v st) st rs) = keys_exact st"
  "memory_exact (foldl (\<lambda>st (k, v). note_vector_removed k v st) st rs) = memory_exact st"
  by (induction rs arbitrary: st) (simp_all add: split_def)

lemma del_loop_spec:
  assumes "mem_wf st" and "del_loop ks now n removed st = ((n', removed'), st')"
  shows "mem_wf st' \<and> (\<forall>k. data_get st' k = (if k \<in> set ks then None else data_get st k)) \<and>
    n' = n + int (card {k \<in> set ks. view st now k \<noteq> None}) \<and>
    (keys_exact st \<longrightarrow> keys_exact st') \<and> (memory_exact st \<longrightarrow> memory_exact st')"
  using assms
proof (induction ks arbitrary: n removed st)
  case (Cons key ks)
  show ?case
  proof (cases "data_get st key")
    case None
    have "{k \<in> set (key # ks). view st now k \<noteq> None} = {k \<in> set ks. view st now k \<noteq> None}"
      using None by (auto simp: view_def)
    then show ?thesis using Cons.IH [of "bump_version key st" n removed] Cons.prems None by simp
  next
    case (Some e)
    let ?st = "take_entry key e (bump_version key st)"
    have wf: "mem_wf ?st" using Cons.prems(1) by simp
    have "store_wf st" using Cons.prems(1) by simp
    then have v: "view ?st now k = (if k = key then None else view st now k)" for k by (simp add: view_def)
    have "{k \<in> set (key # ks). view st now k \<noteq> None} =
        (if is_expired_at e now then {k \<in> set ks. view ?st now k \<noteq> None}
         else insert key {k \<in> set ks. view ?st now k \<noteq> None})"
      using Some view_Some [OF Some, of now] by (auto simp: v) (simp_all add: view_def)
    then have "int (card {k \<in> set (key # ks). view st now k \<noteq> None}) =
        (if is_expired_at e now then 0 else 1) + int (card {k \<in> set ks. view ?st now k \<noteq> None})"
      using v by simp
    moreover have "keys_exact st \<longrightarrow> keys_exact ?st" "memory_exact st \<longrightarrow> memory_exact ?st"
      using Cons.prems(1) Some by (auto intro!: take_entry_keys take_entry_memory)
    moreover have l: "del_loop ks now (if is_expired_at e now then n else n + 1)
        (if is_vector (en_value e) then removed @ [(key, en_value e)] else removed) ?st = ((n', removed'), st')"
      using Cons.prems(2) Some by (simp add: Let_def)
    ultimately show ?thesis using Cons.IH [OF wf l] \<open>store_wf st\<close>
      by (cases "is_expired_at e now") (simp_all del: not_None_eq)
  qed
qed auto

text \<open>
  \<open>DEL\<close> replies with the number of distinct live keys among its arguments,
  removes all of them and nothing else, and keeps the key count and the memory
  figure exact where they were.
\<close>

theorem del_correct:
  assumes "mem_wf st" and "del ks now st = (n, st')"
  shows "n = int (card {k \<in> set ks. view st now k \<noteq> None}) \<and>
    (\<forall>k. data_get st' k = (if k \<in> set ks then None else data_get st k)) \<and>
    (keys_exact st \<longrightarrow> keys_exact st') \<and> (memory_exact st \<longrightarrow> memory_exact st')"
proof -
  obtain removed st1 where l: "del_loop ks now 0 [] st = ((n, removed), st1)"
    and st': "st' = foldl (\<lambda>st (k, v). note_vector_removed k v st) st1 removed"
    using assms(2) by (auto simp: del_def split: prod.splits)
  show ?thesis using del_loop_spec [OF assms(1) l] by (simp add: st')
qed

lemma del_removes:
  assumes "mem_wf st"
  shows "data_get (snd (del [key] now st)) key = None"
proof -
  obtain n removed st1 where l: "del_loop [key] now 0 [] st = ((n, removed), st1)" by (metis prod.exhaust)
  show ?thesis using del_loop_spec [OF assms l] l by (simp add: del_def del: del_loop.simps)
qed

definition del_spec :: "instant \<Rightarrow> slot \<Rightarrow> int \<times> slot" where
  "del_spec now s = (if s = None then 0 else 1, None)"

interpretation del_op: metered_op "del [key]" key del_spec for key
proof unfold_locales
  fix st k and now :: instant
  assume wf: "mem_wf st"
  obtain n removed st1 where l: "del_loop [key] now 0 [] st = ((n, removed), st1)" by (metis prod.exhaust)
  note sp = del_loop_spec [OF wf l]
  have d: "del [key] now st = (n, foldl (\<lambda>st (k, v). note_vector_removed k v st) st1 removed)"
    using l by (simp add: del_def del: del_loop.simps)
  show "mem_wf (snd (del [key] now st))" using sp d by simp
  have "{k \<in> set [key]. view st now k \<noteq> None} = (if view st now key = None then {} else {key})" by auto
  then show "fst (del [key] now st) = fst (del_spec now (view st now key))"
    using sp d by (simp add: del_spec_def)
  show "view (snd (del [key] now st)) now key = snd (del_spec now (view st now key))"
    using sp d by (simp add: del_spec_def view_def)
  show "data_get (snd (del [key] now st)) k = data_get st k" if "k \<noteq> key" using sp d that by simp
  show "keys_exact (snd (del [key] now st))" if "keys_exact st" using sp d that by simp
  show "memory_exact (snd (del [key] now st))" if "memory_exact st" using sp d that by simp
qed

definition delifeq_spec :: "bytes \<Rightarrow> instant \<Rightarrow> slot \<Rightarrow> bool result \<times> slot" where
  "delifeq_spec expected now s =
     (case s of
        None \<Rightarrow> (Inr False, None)
      | Some (v, exp) \<Rightarrow>
          (case string_bytes v of
             None \<Rightarrow> (Inl (Err WRONGTYPE), s)
           | Some current \<Rightarrow> if current = expected then (Inr True, None) else (Inr False, s)))"

interpretation delifeq_op: metered_op "delifeq key expected" key "delifeq_spec expected" for key expected
  by unfold_locales
    (auto simp: delifeq_def delifeq_spec_def view_def Let_def split: option.splits if_splits intro!: take_entry_keys take_entry_memory)

definition pexpire_spec :: "nat \<Rightarrow> instant \<Rightarrow> slot \<Rightarrow> bool \<times> slot" where
  "pexpire_spec millis now s =
     (case s of None \<Rightarrow> (False, None) | Some (v, _) \<Rightarrow> (True, Some (v, Some (now + from_millis millis))))"

interpretation pexpire_op: metered_op "pexpire key millis" key "pexpire_spec millis" for key millis
  by unfold_locales
    (auto simp: pexpire_def pexpire_spec_def view_def Let_def is_expired_at_def keys_exact_replace memory_exact_replace
      mem_wf_value_inv split: option.splits if_splits)

definition persist_spec :: "instant \<Rightarrow> slot \<Rightarrow> bool \<times> slot" where
  "persist_spec now s = (case s of Some (v, Some _) \<Rightarrow> (True, Some (v, None)) | _ \<Rightarrow> (False, s))"

interpretation persist_op: metered_op "persist key" key persist_spec for key
  by unfold_locales
    (auto simp: persist_def persist_spec_def view_def Let_def is_expired_at_def keys_exact_replace memory_exact_replace
      mem_wf_value_inv split: option.splits if_splits)

section \<open>Existence\<close>

definition present :: "store \<Rightarrow> instant \<Rightarrow> bytes \<Rightarrow> bool" where
  "present st now key \<longleftrightarrow> view st now key \<noteq> None \<or> disk_contains key now st"

lemma exists_on_shard_view: "exists_on_shard key now st \<longleftrightarrow> view st now key \<noteq> None"
  by (simp add: exists_on_shard_def view_def split: option.split)

lemma not_tiered_disk: "\<not> is_tiered st \<Longrightarrow> \<not> disk_contains key now st"
  by (simp add: is_tiered_def disk_contains_def)

lemma exists_each_spec: "exists_each ks now st = int (length (filter (present st now) ks))"
  by (induction ks) (auto simp: exists_on_shard_view present_def dest: not_tiered_disk)

definition placed_group :: "store \<Rightarrow> nat \<times> bytes list \<Rightarrow> bool" where
  "placed_group st g \<longleftrightarrow> (\<forall>k \<in> set (snd g). shard_index st k = fst g)"

text \<open>Grouping by shard keeps every key with its multiplicity.\<close>

definition groups_count :: "(bytes \<Rightarrow> bool) \<Rightarrow> (nat, bytes list) hash_map \<Rightarrow> nat" where
  "groups_count P gs = hm_sum (\<lambda>_ ks. length (filter P ks)) gs"

lemma group_push_spec:
  assumes "hm_wf gs" and "\<forall>g \<in> set gs. placed_group st g"
  shows "hm_wf (group_push st gs k) \<and> (\<forall>g \<in> set (group_push st gs k). placed_group st g) \<and>
    groups_count P (group_push st gs k) = groups_count P gs + (if P k then 1 else 0)"
proof -
  let ?l = "case hm_get gs (shard_index st k) of None \<Rightarrow> [] | Some l \<Rightarrow> l"
  have "\<forall>k' \<in> set ?l. shard_index st k' = shard_index st k"
  proof (cases "hm_get gs (shard_index st k)")
    case (Some l)
    then have "(shard_index st k, l) \<in> set gs" using assms(1) by (simp add: hm_get_Some_iff)
    then show ?thesis using assms(2) Some by (auto simp: placed_group_def)
  qed simp
  then have "placed_group st (shard_index st k, ?l @ [k])" by (auto simp: placed_group_def)
  moreover have "groups_count P (group_push st gs k) = groups_count P gs + (if P k then 1 else 0)"
    using hm_sum_insert [OF assms(1), of "\<lambda>_ ks. length (filter P ks)" "shard_index st k" "?l @ [k]"]
    by (auto simp: groups_count_def group_push_def split: option.splits)
  ultimately show ?thesis using assms by (auto simp: group_push_def set_hm_insert)
qed

lemma group_all_spec:
  assumes "hm_wf gs" and "\<forall>g \<in> set gs. placed_group st g"
  shows "(\<forall>g \<in> set (foldl (group_push st) gs ks). placed_group st g) \<and>
    groups_count P (foldl (group_push st) gs ks) = groups_count P gs + length (filter P ks)"
  using assms
proof (induction ks arbitrary: gs)
  case (Cons k ks)
  then show ?case using group_push_spec [OF Cons.prems, where k = k and P = P] Cons.IH [of "group_push st gs k"] by simp
qed simp

lemma exists_keys_of_spec:
  assumes "\<forall>k \<in> set ks. shard_index st k = i"
  shows "exists_keys_of ks (shards st ! i) now tiered =
    (int (length (filter (\<lambda>k. view st now k \<noteq> None) ks)), if tiered then filter (\<lambda>k. view st now k = None) ks else [])"
  using assms
proof (induction ks)
  case (Cons k ks)
  have "hm_get (sh_data (shards st ! i)) k = data_get st k" using Cons.prems by (simp add: data_get_def shard_at_def)
  then show ?case using Cons by (auto simp: view_def split: option.splits)
qed simp

lemma exists_groups_spec:
  assumes "\<forall>g \<in> set gs. placed_group st g" and "exists_groups gs now st = (n, missing)"
  shows "n = int (groups_count (\<lambda>k. view st now k \<noteq> None) gs) \<and>
    length (filter (\<lambda>k. disk_contains k now st) missing) =
      (if is_tiered st then groups_count (\<lambda>k. disk_contains k now st \<and> view st now k = None) gs else 0)"
  using assms
proof (induction gs arbitrary: n missing)
  case (Cons g gs)
  obtain i ks where g: "g = (i, ks)" by (cases g)
  have i: "\<forall>k \<in> set ks. shard_index st k = i" using Cons.prems(1) g by (simp add: placed_group_def)
  obtain n' missing' where r: "exists_groups gs now st = (n', missing')" by fastforce
  show ?case using Cons.IH [OF _ r] Cons.prems r
    by (auto simp: g exists_keys_of_spec [OF i] groups_count_def hm_sum_def conj_commute)
qed (simp add: groups_count_def)

lemma length_filter_split:
  "length (filter P xs) + length (filter (\<lambda>x. Q x \<and> \<not> P x) xs) = length (filter (\<lambda>x. P x \<or> Q x) xs)"
  by (induction xs) auto

text \<open>
  \<open>EXISTS\<close> counts, with multiplicity, the arguments that are live in
  memory or valid on disk, and does so on both of its paths: key by key for up to
  eight keys, and grouped by shard for more.
\<close>

theorem exists_correct: "store_exists ks now st = int (length (filter (present st now) ks))"
proof (cases "length ks \<le> 8")
  case True
  then show ?thesis by (auto simp: store_exists_def exists_each_spec)
next
  case False
  let ?gs = "foldl (group_push st) [] ks"
  have gs: "\<forall>g \<in> set ?gs. placed_group st g" "groups_count P ?gs = length (filter P ks)" for P
    using group_all_spec [of "[]" st ks P] by (simp_all add: groups_count_def)
  obtain n missing where e: "exists_groups ?gs now st = (n, missing)" by fastforce
  have r: "store_exists ks now st = (if is_tiered st then n + int (length (filter (\<lambda>k. disk_contains k now st) missing)) else n)"
    using False e by (auto simp: store_exists_def)
  have "present st now = (\<lambda>k. view st now k \<noteq> None)" if "\<not> is_tiered st"
    using not_tiered_disk [OF that] by (auto simp: present_def fun_eq_iff)
  with r show ?thesis
    using exists_groups_spec [OF gs(1) e] gs(2) length_filter_split [of "\<lambda>k. view st now k \<noteq> None" ks "\<lambda>k. disk_contains k now st"]
    by (simp add: present_def [abs_def] del: not_None_eq)
qed

section \<open>Enumeration\<close>

lemma hm_sum_card:
  "hm_wf m \<Longrightarrow> hm_sum (\<lambda>k v. if P k v then 1 else 0) m = card {k. \<exists>v. hm_get m k = Some v \<and> P k v}"
proof (induction m)
  case (Cons p m)
  obtain k v where p: "p = (k, v)" by (cases p)
  have k: "hm_get m k = None" "hm_wf m" using Cons.prems by (auto simp: p hm_wf_def hm_get_def map_of_eq_None_iff)
  have fin: "finite {k. \<exists>v. hm_get m k = Some v \<and> P k v}"
    by (rule finite_subset [of _ "fst ` set m"]) (auto simp: hm_get_def dest!: map_of_SomeD intro: rev_image_eqI)
  have "{k'. \<exists>v'. hm_get (p # m) k' = Some v' \<and> P k' v'} =
      (if P k v then insert k {k. \<exists>v. hm_get m k = Some v \<and> P k v} else {k. \<exists>v. hm_get m k = Some v \<and> P k v})"
    using k(1) by (auto simp: p hm_get_def)
  then show ?case using Cons.IH [OF k(2)] fin k(1) by (simp add: p hm_sum_def)
qed (simp add: hm_get_def)

lemma store_sum_card:
  assumes "store_wf st"
  shows "store_sum (\<lambda>k e. if P k e then 1 else 0) st = card {k. \<exists>e. data_get st k = Some e \<and> P k e}"
proof -
  let ?S = "\<lambda>i. {k. \<exists>e. hm_get (sh_data (shards st ! i)) k = Some e \<and> P k e}"
  let ?n = "length (shards st)"
  have pl: "placed st i" if "i < ?n" for i using assms that by (simp add: store_wf_def)
  have at: "shard_index st k = i" if "i < ?n" "k \<in> ?S i" for i k using pl [OF that(1)] that(2) by (auto simp: placed_def)
  have fin: "finite (?S i)" for i
    by (rule finite_subset [of _ "fst ` set (sh_data (shards st ! i))"])
      (auto simp: hm_get_def dest!: map_of_SomeD intro: rev_image_eqI)
  have "store_sum (\<lambda>k e. if P k e then 1 else 0) st = (\<Sum>i<?n. card (?S i))"
    using pl by (simp add: store_sum_def sum_list_sum_nth placed_def hm_sum_card atLeast0LessThan)
  also have "\<dots> = card (\<Union>i<?n. ?S i)"
    using fin at by (subst card_UN_disjoint) (auto, blast)
  also have "(\<Union>i<?n. ?S i) = {k. \<exists>e. data_get st k = Some e \<and> P k e}"
    using at shards_nonempty [OF assms] by (fastforce simp: data_get_def shard_at_def)
  finally show ?thesis .
qed

lemma total_keys_card: "store_wf st \<Longrightarrow> total_keys st = card {k. data_get st k \<noteq> None}"
  using store_sum_card [of st "\<lambda>_ _. True"] by (simp add: total_keys_def)

lemma hm_sum_filter: "hm_sum (\<lambda>k v. if P k v then 1 else 0) m = length (filter (\<lambda>(k, v). P k v) m)"
  by (induction m) (auto simp: hm_sum_def)

lemma int_sum_list: "int (sum_list (map f xs)) = sum_list (map (\<lambda>x. int (f x)) xs)"
  by (induction xs) auto

lemma dbsize_card:
  assumes "mem_wf st"
  shows "dbsize now st = int (card {k. \<exists>e. data_get st k = Some e \<and> not_past e now})"
  using assms store_sum_card [of st "\<lambda>_ e. not_past e now"]
  by (simp add: dbsize_def mem_wf_def disk_key_count_def store_sum_def hm_sum_filter flip: int_sum_list)

lemma store_keys_set:
  assumes "mem_wf st"
  shows "set (store_keys pattern now st) =
    {key_string k |k e. data_get st k = Some e \<and> not_past e now \<and> key_matches (key_str pattern) (key_string k)}"
proof -
  have wf: "store_wf st" using assms by simp
  have "\<exists>i < length (shards st). (k, e) \<in> set (sh_data (shards st ! i))" if "data_get st k = Some e" for k e
    using that wf hm_wf_shard [OF wf, of k] shards_nonempty [OF wf]
    by (auto simp: data_get_def shard_at_def hm_get_Some_iff intro!: exI [of _ "shard_index st k"])
  moreover have "data_get st k = Some e" if "i < length (shards st)" "(k, e) \<in> set (sh_data (shards st ! i))" for i k e
    using that wf by (auto simp: store_wf_def placed_def data_get_def shard_at_def hm_get_Some_iff)
  ultimately have iff: "data_get st k = Some e \<longleftrightarrow> (\<exists>sh \<in> set (shards st). (k, e) \<in> set (sh_data sh))" for k e
    by (metis in_set_conv_nth)
  show ?thesis using assms by (force simp: store_keys_def keys_of_shard_def mem_wf_def iff)
qed

text \<open>A client that follows the cursors of \<open>SCAN\<close> for at most the given number of calls.\<close>

fun scan_pages :: "nat \<Rightarrow> nat \<Rightarrow> bytes \<Rightarrow> nat \<Rightarrow> instant \<Rightarrow> store \<Rightarrow> bytes list result option" where
  "scan_pages 0 cursor pattern count now st = None"
| "scan_pages (Suc calls) cursor pattern count now st =
     (case scan cursor pattern count now st of
        Inl err \<Rightarrow> Some (Inl err)
      | Inr (next_cursor, page) \<Rightarrow>
          if next_cursor = 0 then Some (Inr page)
          else (case scan_pages calls next_cursor pattern count now st of
                  Some (Inr rest) \<Rightarrow> Some (Inr (page @ rest))
                | r \<Rightarrow> r))"

lemma scan_result:
  assumes "min cursor (length (store_keys pattern now st)) + n \<le> usize_max"
  shows "scan cursor pattern n now st =
    Inr (if cursor + n < length (store_keys pattern now st) then cursor + n else 0, take n (drop cursor (store_keys pattern now st)))"
proof -
  let ?ks = "store_keys pattern now st"
  have m: "(min cursor (length ?ks) + n) mod 2 ^ 64 = min cursor (length ?ks) + n"
    using assms by (simp add: usize_max_def)
  have "take (min (min cursor (length ?ks) + n) (length ?ks) - min cursor (length ?ks)) (drop (min cursor (length ?ks)) ?ks)
      = take n (drop cursor ?ks)"
    by (cases "cursor \<le> length ?ks") (simp_all add: min_def)
  then show ?thesis unfolding scan_def Let_def m by auto
qed

lemma scan_panics:
  assumes "min cursor (length (store_keys pattern now st)) + n > usize_max" and "n \<le> usize_max"
    and "length (store_keys pattern now st) \<le> usize_max"
  shows "scan cursor pattern n now st = Inl Panic"
proof -
  let ?ks = "store_keys pattern now st"
  have "(min cursor (length ?ks) + n) mod 2 ^ 64 = min cursor (length ?ks) + n - 2 ^ 64"
    using assms by (simp add: usize_max_def mod_if)
  moreover have "\<not> min cursor (length ?ks) \<le> min (min cursor (length ?ks) + n - 2 ^ 64) (length ?ks)"
    using assms(1,2) by (auto simp: usize_max_def)
  ultimately show ?thesis by (simp only: scan_def Let_def if_False)
qed

text \<open>
  Claim C33. On a store that does not change, a client that starts \<open>SCAN\<close> at cursor
  zero and follows the returned cursors gets the cursor zero back after at most
  \<open>\<lceil>n / count\<rceil>\<close> calls (one, when there is no key), and has then received exactly the list of keys
  \<open>KEYS\<close> returns: the unexpired ones that match the pattern.
\<close>

theorem scan_complete:
  assumes "mem_wf st" and "0 < n" and "length (store_keys pattern now st) + n \<le> usize_max"
  shows "scan_pages (max 1 ((length (store_keys pattern now st) + n - 1) div n)) 0 pattern n now st =
      Some (Inr (store_keys pattern now st)) \<and>
    set (store_keys pattern now st) =
      {key_string k |k e. data_get st k = Some e \<and> not_past e now \<and> key_matches (key_str pattern) (key_string k)}"
proof -
  let ?ks = "store_keys pattern now st"
  have scan: "scan c pattern n now st = Inr (if c + n < length ?ks then c + n else 0, take n (drop c ?ks))" for c
    by (rule scan_result) (use assms(3) in simp)
  have "scan_pages calls c pattern n now st = Some (Inr (drop c ?ks))"
    if "c \<le> length ?ks" "0 < calls" "length ?ks \<le> c + calls * n" for calls c
    using that
  proof (induction calls arbitrary: c)
    case (Suc calls)
    show ?case
    proof (cases "c + n < length ?ks")
      case True
      have "0 < calls" using True Suc.prems(3) by (cases calls) auto
      then have "scan_pages calls (c + n) pattern n now st = Some (Inr (drop (c + n) ?ks))"
        using Suc.IH [of "c + n"] True Suc.prems(3) by simp
      moreover have "take n (drop c ?ks) @ drop (c + n) ?ks = drop c ?ks"
        by (metis append_take_drop_id drop_drop add.commute)
      ultimately show ?thesis using True assms(2) by (simp add: scan)
    qed (simp add: scan)
  qed simp
  moreover have "length ?ks \<le> (length ?ks + n - 1) div n * n"
    using assms(2) div_mult_mod_eq [of "length ?ks + n - 1" n] mod_less_divisor [OF assms(2), of "length ?ks + n - 1"] by linarith
  then have "length ?ks \<le> 0 + max 1 ((length ?ks + n - 1) div n) * n"
    by (rule le_trans) (simp only: add_0 mult_le_mono1 max.cobounded2)
  ultimately show ?thesis using store_keys_set [OF assms(1)] by (metis drop_0 le0 max.strict_coboundedI1 zero_less_one)
qed

text \<open>
  A \<open>SCAN\<close> whose count reaches \<open>2 ^ 64\<close> when added to a non-zero starting
  position aborts the process: the sum wraps and the page becomes a slice that ends
  before it starts. For all other arguments the call succeeds.
\<close>

theorem scan_aborts_iff:
  assumes "n \<le> usize_max" and "length (store_keys pattern now st) \<le> usize_max"
  shows "scan cursor pattern n now st = Inl Panic \<longleftrightarrow>
    min cursor (length (store_keys pattern now st)) + n > usize_max"
  using scan_panics [OF _ assms] scan_result [of cursor pattern now st n]
  by (cases "min cursor (length (store_keys pattern now st)) + n > usize_max") (simp_all only: not_less sum.distinct simp_thms)

section \<open>Active expiry\<close>

lemma sweep_key_take:
  assumes "store_wf st" and "hm_get (sh_data (shards st ! i)) key = Some e" and "i < length (shards st)"
  shows "shard_index st key = i"
  using assms by (auto simp: store_wf_def placed_def)

lemma datas_shards_update:
  "shards st' = (shards st)[i := sh] \<Longrightarrow> datas st' = (datas st)[i := sh_data sh]"
  by (simp add: datas_def map_update)

lemma sweep_key_result:
  assumes "store_wf st" and "i < length (shards st)" and "hm_get (sh_data (shards st ! i)) key = Some e" and "is_expired_at e now"
  shows "datas (sweep_key i key now st) = datas (take_entry key e st) \<and>
    disk_shards (sweep_key i key now st) = disk_shards st \<and>
    length (shards (sweep_key i key now st)) = length (shards st) \<and>
    key_count (sweep_key i key now st) = key_count (take_entry key e st) \<and>
    used_memory (sweep_key i key now st) = used_memory (take_entry key e st) \<and>
    journal_poisoned (sweep_key i key now st) = journal_poisoned st"
proof -
  have i: "shard_index st key = i" using sweep_key_take [OF assms(1,3,2)] .
  have "datas (take_entry key e st) = (datas st)[i := hm_remove key (sh_data (shards st ! i))]"
    by (simp add: take_entry_def datas_remove i shard_at_def)
  then show ?thesis using assms(3,4)
    by (simp add: sweep_key_def Let_def note_vector_removed_def datas_def map_update take_entry_def account_remove_def
        mem_sub_def key_removed_def split: store_value.split)
qed

lemma take_entry_poisoned [simp]: "journal_poisoned (take_entry k e st) = journal_poisoned st"
  by (simp add: take_entry_def account_remove_def Let_def mem_sub_def key_removed_def shard_mem_sub_def data_remove_def)

text \<open>What a sweep keeps: one key at a time, and so for any selection of keys.\<close>

definition sweeps :: "instant \<Rightarrow> store \<Rightarrow> store \<Rightarrow> bool" where
  "sweeps now st st' \<longleftrightarrow> store_wf st' \<and> disk_shards st' = disk_shards st \<and> length (shards st') = length (shards st) \<and>
     (\<forall>t \<ge> now. view st' t = view st t) \<and> (keys_exact st \<longrightarrow> keys_exact st') \<and> (memory_exact st \<longrightarrow> memory_exact st')"

lemma sweeps_refl: "store_wf st \<Longrightarrow> sweeps now st st"
  by (simp add: sweeps_def)

lemma sweeps_trans: "sweeps now a b \<Longrightarrow> sweeps now b c \<Longrightarrow> sweeps now a c"
  by (simp add: sweeps_def)

lemma sweep_key_sweeps:
  assumes "store_wf st" and "i < length (shards st)"
  shows "sweeps now st (sweep_key i key now st)"
proof (cases "\<exists>e. hm_get (sh_data (shards st ! i)) key = Some e \<and> is_expired_at e now")
  case True
  then obtain e where e: "hm_get (sh_data (shards st ! i)) key = Some e" "is_expired_at e now" by blast
  note r = sweep_key_result [OF assms e]
  have get': "data_get (sweep_key i key now st) = data_get (take_entry key e st)"
    by (rule ext, rule data_get_cong) (use r in blast)
  have get: "data_get st key = Some e"
    using sweep_key_take [OF assms(1) e(1) assms(2)] e(1) by (simp add: data_get_def shard_at_def)
  have sum: "store_sum w (sweep_key i key now st) = store_sum w (take_entry key e st)" for w
    using r by (intro store_sum_cong) simp
  have "view (sweep_key i key now st) t = view st t" if "now \<le> t" for t
  proof
    fix k
    have "data_get (sweep_key i key now st) k = (if k = key then None else data_get st k)"
      using assms(1) by (simp add: get')
    moreover have "is_expired_at e t" using e(2) that by (auto simp: is_expired_at_def split: option.splits)
    ultimately show "view (sweep_key i key now st) t k = view st t k" using get by (simp add: view_def)
  qed
  moreover have "store_wf (sweep_key i key now st)"
    using r assms(1) store_wf_cong [of "sweep_key i key now st" "take_entry key e st"] by simp
  ultimately show ?thesis
    using r take_entry_keys [OF assms(1) get] take_entry_memory [OF assms(1) get]
    by (simp add: sweeps_def keys_exact_def memory_exact_def total_keys_def total_memory_def sum)
next
  case False
  then have "sweep_key i key now st = st" by (auto simp: sweep_key_def Let_def split: option.split)
  then show ?thesis using assms(1) by (simp add: sweeps_refl)
qed

lemma sweep_keys_sweeps:
  "store_wf st \<Longrightarrow> i < length (shards st) \<Longrightarrow> sweeps now st (sweep_keys i ks now st)"
proof (induction ks arbitrary: st)
  case (Cons k ks)
  have "sweeps now st (sweep_key i k now st)" using Cons.prems by (rule sweep_key_sweeps)
  moreover from this have "sweeps now (sweep_key i k now st) (sweep_keys i ks now (sweep_key i k now st))"
    using Cons.IH Cons.prems(2) by (simp add: sweeps_def)
  ultimately show ?case by (simp add: sweeps_trans)
qed (simp add: sweeps_refl)

lemma sweep_shards_sweeps:
  "store_wf st \<Longrightarrow> \<forall>i \<in> set idxs. i < length (shards st) \<Longrightarrow> sweeps now st (sweep_shards idxs seed now st)"
proof (induction idxs arbitrary: st)
  case (Cons i idxs)
  let ?st = "sweep_keys i (sweep_sample seed i (shards st ! i)) now st"
  have s: "sweeps now st ?st" using Cons.prems by (simp add: sweep_keys_sweeps)
  then have "sweeps now ?st (sweep_shards idxs seed now ?st)"
    using Cons.IH [of ?st] Cons.prems(2) by (simp add: sweeps_def)
  with s show ?case by (simp add: sweeps_trans)
qed (simp add: sweeps_refl)

text \<open>
  Claim C32. The active expiry sweep cannot be observed: whatever keys it samples, no
  client sees a different value or deadline for any key from then on, the store
  stays well-formed, and the key count and the memory figure stay exact.
\<close>

theorem expire_sweep_invisible:
  assumes "store_wf st" and "now \<le> t"
  shows "view (expire_sweep seed now st) t = view st t \<and> store_wf (expire_sweep seed now st) \<and>
    (keys_exact st \<longrightarrow> keys_exact (expire_sweep seed now st)) \<and>
    (memory_exact st \<longrightarrow> memory_exact (expire_sweep seed now st))"
  using sweep_shards_sweeps [OF assms(1), of "[0..<length (shards st)]" now seed] assms
  by (simp add: expire_sweep_def sweeps_def)

section \<open>Renaming\<close>

lemma rename_result:
  assumes "mem_wf st" and "data_get st key = Some e" and "\<not> is_expired_at e now"
    and "\<not> value_has_key_bound_encryption kr (en_value e)" and "rename kr key new_key now st = (r, st')"
  shows "r = Inr () \<and> mem_wf st' \<and>
    data_get st' = (data_get st)(key := None, new_key := Some e) \<and>
    (keys_exact st \<longrightarrow> keys_exact st')"
proof -
  let ?st1 = "data_remove key (bump_version key st)"
  have wf: "store_wf st" "store_wf ?st1" "value_inv (en_value e)" "mem_wf ?st1" using assms(1,2) mem_wf_value_inv by auto
  define old where "old = (if new_key = key then None else data_get st new_key)"
  define mem mem' where "mem = estimate_entry_memory (key_str key) (en_value e)"
    and "mem' = estimate_entry_memory (key_str new_key) (en_value e)"
  define st2 where "st2 = bump_version new_key (mem_sub mem (shard_mem_sub key mem (key_removed ?st1)))"
  have st2: "mem_wf st2" "data_get st2 = (data_get st)(key := None)" "key_count st2 = key_count st - 1" "total_keys st2 = total_keys ?st1"
    using wf(1,4) by (simp_all add: st2_def fun_eq_iff)
  have res: "r = Inr ()" "st' = mem_add mem' (shard_mem_add new_key mem' (if old = None then key_added (data_insert new_key e st2) else data_insert new_key e st2))"
    using assms(2-5) st2(2) wf(1) by (auto simp: rename_def Let_def old_def st2_def mem_def mem'_def split: if_splits)
  have "mem_wf st'" "data_get st' = (data_get st)(key := None, new_key := Some e)"
    using st2 wf(3) by (auto simp: res(2) fun_eq_iff)
  moreover have "total_keys ?st1 + 1 = total_keys st"
    using total_keys_remove [of "bump_version key st" key] wf(1) assms(2) by simp
  then have "keys_exact st'" if "keys_exact st"
    using that st2 by (auto simp: res(2) keys_exact_def total_keys_insert old_def)
  ultimately show ?thesis using res(1) by blast
qed

text \<open>
  \<open>RENAME\<close> of a live key without key-bound ciphertext moves its value and
  its deadline to the new name, overwriting what was there, removes the old name
  unless it is the same, changes no other key, and keeps the key count exact.
\<close>

theorem rename_correct:
  assumes "mem_wf st" and "view st now key = Some (v, exp)" and "\<not> value_has_key_bound_encryption kr v"
  shows "fst (rename kr key new_key now st) = Inr () \<and>
    view (snd (rename kr key new_key now st)) now = (view st now)(key := None, new_key := Some (v, exp)) \<and>
    (keys_exact st \<longrightarrow> keys_exact (snd (rename kr key new_key now st)))"
proof -
  obtain e where e: "data_get st key = Some e" "\<not> is_expired_at e now" "en_value e = v" "en_expires_at e = exp"
    using assms(2) by (auto simp: view_def split: option.splits if_splits)
  note r = rename_result [OF assms(1) e(1,2) _ prod.collapse [symmetric], of kr new_key]
  have "view (snd (rename kr key new_key now st)) now k = ((view st now)(key := None, new_key := Some (v, exp))) k" for k
    using r assms(3) e by (simp add: view_def)
  then show ?thesis using r assms(3) e by auto
qed

section \<open>Flushing\<close>

lemma flushdb_datas: "datas (flushdb st) = map (\<lambda>_. []) (shards st)"
  by (simp add: flushdb_def datas_def flush_shard_def o_def)

lemma flushdb_result:
  assumes "mem_wf st"
  shows "mem_wf (flushdb st) \<and> (\<forall>k. data_get (flushdb st) k = None) \<and> key_count (flushdb st) = 0 \<and> total_keys (flushdb st) = 0"
proof -
  have wf: "mem_wf (flushdb st)" using assms shards_nonempty [of st]
    by (auto simp: mem_wf_def store_wf_datas flushdb_datas) (simp_all add: flushdb_def hm_get_def)
  moreover have "data_get (flushdb st) k = None" for k
    using wf shards_nonempty [of "flushdb st"] flushdb_datas [of st] data_get_datas [of "flushdb st" k]
      shard_index_lt [of "flushdb st" k] by (simp add: hm_get_def flushdb_def)
  ultimately show ?thesis
    by (simp add: total_keys_def store_sum_datas flushdb_datas hm_sum_def o_def sum_list_0) (simp add: flushdb_def)
qed

lemma sh_used_modify:
  "(\<And>s. sh_used_memory (f s) = sh_used_memory s) \<Longrightarrow>
   map sh_used_memory (shards (modify_shard k f st)) = map sh_used_memory (shards st)"
  by (cases "shard_index st k < length (shards st)")
    (auto simp: map_update shard_at_def list_update_same_conv list_update_beyond)

lemma sh_used_simps:
  "map sh_used_memory (shards (data_insert k e st)) = map sh_used_memory (shards st)"
  "map sh_used_memory (shards (bump_version k st)) = map sh_used_memory (shards st)"
  unfolding data_insert_def bump_version_def by (rule sh_used_modify, simp)+

lemma shards_account_insert [simp]: "shards (account_insert k m old st) = shards st"
  by (simp add: account_insert_def Let_def split: option.split)

lemma sh_used_store_set:
  "mem_wf st \<Longrightarrow> map sh_used_memory (shards (store_set key v d now st)) = map sh_used_memory (shards st)"
  by (simp add: store_set_def set_on_shard_def insert_accounted_def remove_from_disk_def mem_wf_def sh_used_simps)

lemma foldl_minus: "foldl (\<lambda>m sh. m - f sh) (u :: nat) xs = u - sum_list (map f xs)"
  by (induction xs arbitrary: u) auto

text \<open>
  \<open>FLUSHDB\<close> removes every key and resets the key count, but the memory
  figure only loses what the shards recorded themselves, which \<open>SET\<close> does not
  maintain: after a \<open>SET\<close> on a store whose shard figures are zero, a flush leaves
  the whole figure in place over an empty store.
\<close>

theorem flushdb_leaks_memory:
  assumes "mem_wf st" and "\<forall>sh \<in> set (shards st). sh_used_memory sh = 0"
  shows "(\<forall>k. data_get (flushdb (store_set key v d now st)) k = None) \<and>
    keys_exact (flushdb (store_set key v d now st)) \<and>
    used_memory (flushdb (store_set key v d now st)) = used_memory (store_set key v d now st)"
proof -
  have wf: "mem_wf (store_set key v d now st)" using set_op.op_wf [OF assms(1), of key v d now] by simp
  have "map sh_used_memory (shards st) = map (\<lambda>_. 0) (shards st)" using assms(2) by simp
  then have "sum_list (map sh_used_memory (shards (store_set key v d now st))) = 0"
    using sh_used_store_set [OF assms(1)] by simp
  then have "used_memory (flushdb (store_set key v d now st)) = used_memory (store_set key v d now st)"
    by (simp add: flushdb_def foldl_minus del: sum_list_eq_0_iff)
  then show ?thesis using flushdb_result [OF wf] by (simp add: keys_exact_def)
qed

section \<open>Drift of the memory figure\<close>

lemma push_del_used_memory:
  assumes "mem_wf st" and "data_get st key = None"
  shows "let st' = snd (del [key] now (snd (rpush key vs now st))) in
    mem_wf st' \<and> data_get st' = data_get st \<and> used_memory st' = used_memory st - (length key + 64)"
proof -
  define e where "e = \<lparr>en_value = List [], en_expires_at = None, en_lru_clock = lru_clock st\<rparr>"
  let ?st1 = "snd (rpush key vs now st)"
  have wf: "store_wf st" and wf1: "mem_wf ?st1" using assms(1) rpush_op.op_wf by simp_all
  have r: "?st1 = mem_grow key (elems_mem vs) (put_value key e (List (push_back_all vs []))
      (key_added (data_insert key e (bump_version key st))))"
    using assms by (simp add: rpush_def entry_or_insert_def Let_def e_def is_expired_at_def)
  have get1: "data_get ?st1 key = Some (e\<lparr>en_value := List (push_back_all vs [])\<rparr>)"
    and used1: "used_memory ?st1 = used_memory st + elems_mem vs"
    unfolding r using wf by (simp_all add: mem_grow_def e_def)
  have used: "used_memory (snd (del [key] now ?st1)) = used_memory ?st1 - estimate_entry_memory key (List (push_back_all vs []))"
    using get1 by (simp add: del_def Let_def is_vector_def take_entry_def account_remove_def)
  have "estimate_entry_memory key (List (push_back_all vs [])) = length key + 64 + elems_mem vs"
    by (simp add: estimate_entry_memory_def value_size_def push_back_all_append elems_mem_def elem_mem_def [abs_def])
  then have "used_memory (snd (del [key] now ?st1)) = used_memory st - (length key + 64)"
    using used used1 by simp
  moreover have "data_get (snd (del [key] now ?st1)) k = data_get st k" for k
    using del_op.op_frame [OF wf1, of k key now] rpush_op.op_frame [OF assms(1), of k key vs now]
      del_removes [OF wf1, of key now] assms(2) by (cases "k = key") simp_all
  ultimately show ?thesis using del_op.op_wf [OF wf1] by (auto simp: Let_def)
qed

text \<open>
  A list that is created and deleted leaves the memory figure lower than
  before: the push counts the elements only, the deletion subtracts the key and its
  overhead too. Repeating the two commands leaves all data in place and lowers the
  figure by 64 bytes and the length of the key each time, down to zero; the limit
  on memory is checked against this figure.
\<close>

theorem push_del_drifts:
  assumes "mem_wf st" and "data_get st key = None"
    and "st' = ((\<lambda>st. snd (del [key] now (snd (rpush key vs now st)))) ^^ n) st"
  shows "data_get st' = data_get st \<and> used_memory st' = used_memory st - n * (length key + 64)"
proof -
  let ?f = "\<lambda>st. snd (del [key] now (snd (rpush key vs now st)))"
  have "mem_wf ((?f ^^ n) st) \<and> data_get ((?f ^^ n) st) = data_get st \<and>
      used_memory ((?f ^^ n) st) = used_memory st - n * (length key + 64)"
  proof (induction n)
    case (Suc n)
    then show ?case using push_del_used_memory [of "(?f ^^ n) st" key now vs] assms(2) by (simp add: Let_def)
  qed (use assms in simp)
  then show ?thesis using assms(3) by simp
qed

section \<open>Witnesses\<close>

definition demo_keys :: store where
  "demo_keys = demo_store [(ascii ''a'', Str (ascii ''1'')), (ascii ''b'', List [ascii ''x''])]"

lemma demo_keys_facts:
  "mem_wf demo_keys" "view demo_keys now (ascii ''a'') = Some (Str (ascii ''1''), None)"
  "view demo_keys now (ascii ''b'') = Some (List [ascii ''x''], None)"
  "view demo_keys now (ascii ''c'') = None" "data_get demo_keys (ascii ''c'') = None"
proof -
  show "mem_wf demo_keys" by (simp add: demo_keys_def demo_store_wf del: demo_store.simps)
  show v: "view demo_keys now (ascii ''a'') = Some (Str (ascii ''1''), None)"
    "view demo_keys now (ascii ''b'') = Some (List [ascii ''x''], None)" "view demo_keys now (ascii ''c'') = None" for now
    by (simp_all add: demo_keys_def demo_store_view ascii_def del: demo_store.simps)
  have "data_get demo_keys (ascii ''c'') = None \<or> (\<exists>e. data_get demo_keys (ascii ''c'') = Some e)" by auto
  moreover have "view demo_keys 0 (ascii ''c'') \<noteq> None" if "data_get demo_keys (ascii ''c'') = Some e" for e
    using that by (simp add: view_def is_expired_at_def split: option.splits)
  ultimately show "data_get demo_keys (ascii ''c'') = None" using v(3) by blast
qed

theorem del_correct_witness:
  "fst (del [ascii ''a'', ascii ''c'', ascii ''a''] 0 demo_keys) = 1 \<and>
   data_get (snd (del [ascii ''a'', ascii ''c'', ascii ''a''] 0 demo_keys)) (ascii ''a'') = None"
proof -
  have "{k \<in> {ascii ''a'', ascii ''c''}. view demo_keys 0 k \<noteq> None} = {ascii ''a''}" by (auto simp: demo_keys_facts)
  then show ?thesis
    using del_correct [OF demo_keys_facts(1) prod.collapse [symmetric], of "[ascii ''a'', ascii ''c'', ascii ''a'']" 0]
    by (simp add: insert_commute)
qed

theorem expire_sweep_invisible_witness:
  "view (expire_sweep 3 7 (store_set (ascii ''t'') [] (Some 5) 0 demo_keys)) 9 (ascii ''a'') = Some (Str (ascii ''1''), None)"
proof -
  have wf: "store_wf (store_set (ascii ''t'') [] (Some 5) 0 demo_keys)"
    using set_op.op_wf [OF demo_keys_facts(1), of "ascii ''t''" "[]" "Some 5" 0] by simp
  have "view (store_set (ascii ''t'') [] (Some 5) 0 demo_keys) 9 (ascii ''a'') = Some (Str (ascii ''1''), None)"
    using set_op.op_view_frame [OF demo_keys_facts(1), of "ascii ''a''" "ascii ''t''"]
    by (simp add: ascii_def demo_keys_facts [unfolded ascii_def, simplified])
  then show ?thesis using expire_sweep_invisible [OF wf, of 7 9 3] by simp
qed

theorem rename_correct_witness:
  "view (snd (rename \<lparr>kr_is_encrypted_value = (\<lambda>_. False), kr_encrypt = (\<lambda>_ _ _ v. Inr v), kr_decrypt = (\<lambda>_ _ _ v. Inr v)\<rparr>
     (ascii ''a'') (ascii ''b'') 0 demo_keys)) 0 (ascii ''b'') = Some (Str (ascii ''1''), None)"
  by (subst rename_correct [THEN conjunct2, THEN conjunct1, OF demo_keys_facts(1,2)])
    (simp_all add: value_has_key_bound_encryption_def)

theorem flushdb_leaks_memory_witness:
  "used_memory (flushdb (store_set (ascii ''k'') (ascii ''v'') None 0 (new_store 2 None))) = 66 \<and>
   data_get (flushdb (store_set (ascii ''k'') (ascii ''v'') None 0 (new_store 2 None))) (ascii ''k'') = None"
proof -
  have "store_wf (new_store 2 None)" by (rule new_store_wf) simp_all
  then have wf: "mem_wf (new_store 2 None)" by (simp add: mem_wf_def new_store_def)
  moreover have "\<forall>sh \<in> set (shards (new_store 2 None)). sh_used_memory sh = 0" by (simp add: new_store_def)
  moreover have "used_memory (store_set (ascii ''k'') (ascii ''v'') None 0 (new_store 2 None)) = 66"
    using wf by (simp add: store_set_def set_on_shard_def insert_accounted_def account_insert_def)
      (simp add: new_store_def estimate_entry_memory_def ascii_def)
  ultimately show ?thesis using flushdb_leaks_memory [of "new_store 2 None" "ascii ''k''" "ascii ''v''" None 0] by simp
qed

theorem push_del_drifts_witness:
  "used_memory (((\<lambda>st. snd (del [ascii ''c''] 0 (snd (rpush (ascii ''c'') [[]] 0 st)))) ^^ 1) (mem_add 100 demo_keys)) =
   used_memory demo_keys + 35"
  using push_del_drifts [OF _ _ refl, where st = "mem_add 100 demo_keys" and key = "ascii ''c''" and now = 0 and vs = "[[]]" and n = 1] demo_keys_facts(1,5)
  by (simp add: ascii_def)

definition demo_page :: store where
  "demo_page = data_insert (ascii ''a'') \<lparr>en_value = Str [], en_expires_at = None, en_lru_clock = 0\<rparr> (new_store 1 None)"

lemma demo_page_wf: "mem_wf demo_page"
  using new_store_wf [of 1 None] by (simp add: demo_page_def mem_wf_def value_inv_def) (simp add: new_store_def)

lemma demo_page_keys: "store_keys (ascii ''*'') 0 demo_page = [ascii ''a'']"
proof -
  have "key_matches (ascii ''*'') (ascii ''a'')" "key_str (ascii ''*'') = ascii ''*''" "key_string (ascii ''a'') = ascii ''a''"
    by code_simp+
  then show ?thesis
    by (simp add: store_keys_def demo_page_def data_insert_def modify_shard_def new_store_def shard_index_def shard_at_def
        keys_of_shard_def hm_insert_def not_past_def)
qed

theorem scan_complete_witness:
  "scan_pages (max 1 ((1 + 1 - 1) div 1)) 0 (ascii ''*'') 1 0 demo_page = Some (Inr [ascii ''a''])"
  using scan_complete [OF demo_page_wf, of 1 "ascii ''*''" 0] by (simp add: usize_max_def demo_page_keys)

theorem scan_aborts_iff_witness: "scan 1 (ascii ''*'') usize_max 0 demo_page = Inl Panic"
  using scan_aborts_iff [of usize_max "ascii ''*''" 0 demo_page 1] by (simp add: usize_max_def demo_page_keys)

end
