(* ===== verification/Bits.thy ===== *)
theory Bits
  imports Prelude
begin

text \<open>
  Bitmaps: \<open>bf_read\<close>, \<open>bf_write\<close> and \<open>bf_clamp\<close> of \<^verbatim>\<open>src/src/store/mod.rs\<close>,
  the fields of \<open>BITFIELD\<close>. Bits are numbered from the most significant bit of
  the first byte. Offsets are natural numbers: the command layer caps them far
  below the range of \<open>u64\<close>. A value is the 64-bit word it is cast to.
\<close>

section \<open>Single bits\<close>

text \<open>\<open>(buf[i / 8] >> (7 - i % 8)) & 1\<close>, zero past the end.\<close>

definition bit_at :: "bytes \<Rightarrow> nat \<Rightarrow> bool" where
  "bit_at buf i = (if i div 8 < length buf then drop_bit (7 - i mod 8) (buf ! (i div 8)) AND 1 = 1 else False)"

text \<open>\<open>buf[i / 8] |= 1 << shift\<close> or \<open>buf[i / 8] &= !(1 << shift)\<close>.\<close>

definition put_bit :: "bool \<Rightarrow> nat \<Rightarrow> bytes \<Rightarrow> bytes" where
  "put_bit v i buf =
     (let mask = push_bit (7 - i mod 8) 1 in
      buf[i div 8 := (if v then buf ! (i div 8) OR mask else buf ! (i div 8) AND NOT mask)])"

definition resize :: "nat \<Rightarrow> bytes \<Rightarrow> bytes" where
  "resize n buf = take n buf @ replicate (n - length buf) 0"

lemma bit_at_iff: "bit_at buf i \<longleftrightarrow> i div 8 < length buf \<and> bit (buf ! (i div 8)) (7 - i mod 8)"
  by (auto simp: bit_at_def and_one_eq bit_iff_odd_drop_bit odd_iff_mod_2_eq_one)

lemma length_put_bit [simp]: "length (put_bit v i buf) = length buf"
  by (simp add: put_bit_def Let_def)

lemma bit_at_put:
  assumes "i div 8 < length buf"
  shows "bit_at (put_bit v i buf) j = (if j = i then v else bit_at buf j)"
proof (cases "j div 8 = i div 8")
  case True
  have "j = i \<longleftrightarrow> 7 - j mod 8 = 7 - i mod 8"
  proof -
    have "j mod 8 < 8" "i mod 8 < 8" by simp_all
    then have "7 - j mod 8 = 7 - i mod 8 \<longleftrightarrow> j mod 8 = i mod 8" by linarith
    also have "\<dots> \<longleftrightarrow> j = i" using True by (metis div_mult_mod_eq)
    finally show ?thesis by simp
  qed
  then show ?thesis
    using assms True by (auto simp: bit_at_iff put_bit_def Let_def bit_simps)
next
  case False
  then show ?thesis using assms by (auto simp: bit_at_iff put_bit_def Let_def)
qed

lemma bit_at_resize: "length buf \<le> n \<Longrightarrow> bit_at (resize n buf) i = bit_at buf i"
  by (auto simp: bit_at_iff resize_def nth_append)

lemma length_resize [simp]: "length (resize n buf) = n"
  by (simp add: resize_def)

section \<open>Fields\<close>

fun bf_read_loop :: "bytes \<Rightarrow> nat \<Rightarrow> nat \<Rightarrow> u64" where
  "bf_read_loop buf offset 0 = 0"
| "bf_read_loop buf offset (Suc n) =
     push_bit 1 (bf_read_loop buf offset n) OR (if bit_at buf (offset + n) then 1 else 0)"

definition bf_read :: "bytes \<Rightarrow> nat \<Rightarrow> nat \<Rightarrow> bool \<Rightarrow> int" where
  "bf_read buf offset bits is_signed =
     (let val = bf_read_loop buf offset bits in
      if is_signed \<and> bits < 64 \<and> drop_bit (bits - 1) val AND 1 = 1
      then sint (val OR push_bit bits (NOT 0)) else sint val)"

fun bf_write_loop :: "nat \<Rightarrow> nat \<Rightarrow> u64 \<Rightarrow> nat \<Rightarrow> bytes \<Rightarrow> bytes" where
  "bf_write_loop offset bits v 0 buf = buf"
| "bf_write_loop offset bits v (Suc n) buf =
     put_bit (drop_bit (bits - 1 - n) v AND 1 = 1) (offset + n) (bf_write_loop offset bits v n buf)"

definition bf_write :: "bytes \<Rightarrow> nat \<Rightarrow> nat \<Rightarrow> u64 \<Rightarrow> bytes" where
  "bf_write buf offset bits v =
     (let needed = (offset + bits + 7) div 8;
          buf = (if length buf < needed then resize needed buf else buf)
      in bf_write_loop offset bits v bits buf)"

datatype bitfield_overflow = Wrap | Sat | Fail

text \<open>\<open>bf_clamp\<close> in \<open>i128\<close>, which neither the bounds nor the sum can leave.\<close>

definition bf_clamp :: "bool \<Rightarrow> nat \<Rightarrow> int \<Rightarrow> bitfield_overflow \<Rightarrow> int option" where
  "bf_clamp is_signed bits val mode =
     (let (lo, hi) = (if is_signed then (- (2 ^ (bits - 1)), 2 ^ (bits - 1) - 1) else (0, 2 ^ bits - 1)) in
      if val \<ge> lo \<and> val \<le> hi then Some (wrap_i64 val)
      else case mode of
        Fail \<Rightarrow> None
      | Sat \<Rightarrow> Some (wrap_i64 (if val < lo then lo else hi))
      | Wrap \<Rightarrow>
          (let range = 2 ^ bits;
               w = val mod range;
               w = (if is_signed \<and> w > hi then w - range else w)
           in Some (wrap_i64 w)))"

section \<open>Reading what was written\<close>

lemma and_one_iff: "x AND 1 = 1 \<longleftrightarrow> bit x 0" for x :: "'a::len word"
  by (simp add: and_one_eq bit_0 odd_iff_mod_2_eq_one)

lemma bit_shift: "bit (push_bit n x) k \<longleftrightarrow> n \<le> k \<and> k < 64 \<and> bit x (k - n)" for x :: u64
  by (auto simp: bit_simps)

lemma bit_shift_in:
  "bit (push_bit 1 x OR (if b then 1 else 0)) k \<longleftrightarrow> (if k = 0 then b else k < 64 \<and> bit x (k - 1))"
  for x :: u64
  by (simp only: bit_or_iff bit_shift [of 1]) (auto simp: bit_simps)

lemma bf_read_loop_bit:
  "n \<le> 64 \<Longrightarrow> bit (bf_read_loop buf offset n) k \<longleftrightarrow> k < n \<and> bit_at buf (offset + (n - 1 - k))"
proof (induction n arbitrary: k)
  case (Suc n)
  show ?case
  proof (cases k)
    case 0
    then show ?thesis by (simp only: bf_read_loop.simps bit_shift_in) simp
  next
    case (Suc j)
    have "bit (bf_read_loop buf offset n) j \<longleftrightarrow> j < n \<and> bit_at buf (offset + (n - 1 - j))"
      using Suc.IH Suc.prems by simp
    then show ?thesis
      unfolding bf_read_loop.simps bit_shift_in Suc using Suc.prems by auto
  qed
qed simp

lemma length_bf_write_loop [simp]: "length (bf_write_loop offset bits v n buf) = length buf"
  by (induction n) auto

lemma bf_write_loop_bit:
  assumes "n \<le> bits" and "(offset + bits + 7) div 8 \<le> length buf"
  shows "bit_at (bf_write_loop offset bits v n buf) i =
    (if offset \<le> i \<and> i < offset + n then bit v (bits - 1 - (i - offset)) else bit_at buf i)"
  using assms
proof (induction n)
  case (Suc n)
  have "(offset + n) div 8 < length buf"
    using Suc.prems by linarith
  then show ?case
    using Suc by (auto simp: bit_at_put and_one_iff bit_simps less_Suc_eq)
qed auto

lemma bf_write_bit:
  "bit_at (bf_write buf offset bits v) i =
    (if offset \<le> i \<and> i < offset + bits then bit v (bits - 1 - (i - offset)) else bit_at buf i)"
  using bf_write_loop_bit [of bits bits offset buf] bf_write_loop_bit [of bits bits offset "resize ((offset + bits + 7) div 8) buf"]
  by (auto simp: bf_write_def Let_def bit_at_resize)

lemma length_bf_write: "length (bf_write buf offset bits v) = max (length buf) ((offset + bits + 7) div 8)"
  by (simp add: bf_write_def Let_def)

lemma bf_read_write_word:
  assumes "bits \<le> 64"
  shows "bf_read_loop (bf_write buf offset bits v) offset bits = take_bit bits v"
proof (rule bit_word_eqI)
  fix k :: nat
  assume "k < LENGTH(64)"
  show "bit (bf_read_loop (bf_write buf offset bits v) offset bits) k = bit (take_bit bits v) k"
    using assms by (auto simp: bf_read_loop_bit bf_write_bit bit_simps)
qed

lemma sint_sign_extend:
  fixes w :: u64
  assumes "0 < bits" and "bits < 64" and "\<And>k. bit w k \<Longrightarrow> k < bits"
  shows "sint (if bit w (bits - 1) then w OR push_bit bits (NOT 0) else w) = signed_take_bit (bits - 1) (uint w)"
proof (rule bit_eqI)
  fix n
  show "bit (sint (if bit w (bits - 1) then w OR push_bit bits (NOT 0) else w)) n =
      bit (signed_take_bit (bits - 1) (uint w)) n"
  proof (cases "n = bits - 1")
    case True
    then show ?thesis using assms(1,2) by (auto simp: bit_simps min_def)
  next
    case False
    then show ?thesis
      using assms(1,2) assms(3) [of n] assms(3) [of 63] by (auto simp: bit_simps min_def)
  qed
qed

section \<open>Field types\<close>

text \<open>The widths \<open>BITFIELD\<close> accepts: \<open>i1\<close> to \<open>i64\<close> and \<open>u1\<close> to \<open>u63\<close>.\<close>

definition field_type :: "bool \<Rightarrow> nat \<Rightarrow> bool" where
  "field_type is_signed bits \<longleftrightarrow> 0 < bits \<and> (if is_signed then bits \<le> 64 else bits \<le> 63)"

definition field_range :: "bool \<Rightarrow> nat \<Rightarrow> int \<Rightarrow> bool" where
  "field_range is_signed bits v \<longleftrightarrow>
     (if is_signed then - (2 ^ (bits - 1)) \<le> v \<and> v < 2 ^ (bits - 1) else 0 \<le> v \<and> v < 2 ^ bits)"

lemma bf_read_signed:
  assumes "0 < bits" and "bits < 64"
  shows "bf_read buf offset bits True = signed_take_bit (bits - 1) (uint (bf_read_loop buf offset bits))"
proof -
  let ?w = "bf_read_loop buf offset bits"
  have "drop_bit (bits - 1) ?w AND 1 = 1 \<longleftrightarrow> bit ?w (bits - 1)"
    by (simp add: and_one_iff bit_drop_bit_eq)
  moreover have "k < bits" if "bit ?w k" for k
    using that assms(2) bf_read_loop_bit [of bits buf offset k] by simp
  ultimately show ?thesis
    using sint_sign_extend [of bits ?w] assms by (auto simp: bf_read_def Let_def split: if_splits)
qed

lemma take_bit_signed_range:
  assumes "0 < bits" and "- (2 ^ (bits - 1)) \<le> v" and "v < 2 ^ (bits - 1)"
  shows "signed_take_bit (bits - 1) v = (v :: int)"
  using assms by (simp add: signed_take_bit_int_eq_self)

lemma uint_take_bit: "bits \<le> 64 \<Longrightarrow> uint (take_bit bits (word_of_int v :: u64)) = take_bit bits v"
proof -
  have "uint (word_of_int v :: u64) = take_bit 64 v" by (simp add: uint_word_of_int take_bit_eq_mod)
  then show "bits \<le> 64 \<Longrightarrow> ?thesis" by (simp only: unsigned_take_bit_eq take_bit_take_bit min_absorb1)
qed

lemma bf_round:
  assumes "field_type is_signed bits" and "field_range is_signed bits v"
  shows "bf_read (bf_write buf offset bits (word_of_int v)) offset bits is_signed = v"
proof -
  let ?buf = "bf_write buf offset bits (word_of_int v)"
  have b: "0 < bits" "bits \<le> 64" using assms(1) by (auto simp: field_type_def split: if_splits)
  have w: "bf_read_loop ?buf offset bits = take_bit bits (word_of_int v)"
    using bf_read_write_word b(2) by blast
  show ?thesis
  proof (cases "is_signed \<and> bits < 64")
    case True
    then have "bf_read ?buf offset bits is_signed = signed_take_bit (bits - 1) (take_bit bits v)"
      using bf_read_signed [OF b(1), of ?buf offset] w b(2) by (simp add: uint_take_bit)
    also have "\<dots> = signed_take_bit (bits - 1) v"
      using b(1) by (cases bits) (simp_all add: signed_take_bit_take_bit)
    finally show ?thesis
      using take_bit_signed_range [OF b(1)] assms(2) True by (simp add: field_range_def)
  next
    case False
    then have r: "bf_read ?buf offset bits is_signed = sint (take_bit bits (word_of_int v) :: u64)"
      using w by (auto simp: bf_read_def Let_def)
    show ?thesis
    proof (cases is_signed)
      case True
      then have "bits = 64" using False b(2) by simp
      then show ?thesis
        using r assms(2) True
        by (simp add: take_bit_word_eq_self field_range_def sint_sbintrunc' signed_take_bit_int_eq_self)
    next
      case False
      have "0 \<le> v" "v < 2 ^ bits" "bits \<le> 63"
        using assms False by (auto simp: field_range_def field_type_def)
      moreover have "(2 ^ bits :: int) \<le> 2 ^ 63" using \<open>bits \<le> 63\<close> by (intro power_increasing) auto
      ultimately have "take_bit bits v = v" "v < 2 ^ 63" "- (2 ^ 63) \<le> v"
        by (auto simp: take_bit_int_eq_self)
      moreover have "(take_bit bits (word_of_int v) :: u64) = word_of_int (take_bit bits v)"
        using b(2) by (metis uint_take_bit word_of_int_uint)
      ultimately show ?thesis
        using r by (simp add: sint_sbintrunc' signed_take_bit_int_eq_self)
    qed
  qed
qed

lemma bf_read_loop_cong:
  "(\<And>i. offset \<le> i \<Longrightarrow> i < offset + bits \<Longrightarrow> bit_at buf' i = bit_at buf i) \<Longrightarrow>
   bf_read_loop buf' offset bits = bf_read_loop buf offset bits"
  by (induction bits) auto

text \<open>
  \<open>BITFIELD\<close> fields are independent variables. For every field type and
  every value in its range, reading a field after it was written gives the value
  back, and every field that shares no bit with it reads as before, wherever the
  fields lie across byte boundaries and however far the string had to grow.
\<close>

theorem bitfield_round_trip:
  assumes "field_type is_signed bits" and "field_range is_signed bits v"
    and "offset' + bits' \<le> offset \<or> offset + bits \<le> offset'"
  shows "bf_read (bf_write buf offset bits (word_of_int v)) offset bits is_signed = v \<and>
    bf_read (bf_write buf offset bits (word_of_int v)) offset' bits' is_signed' = bf_read buf offset' bits' is_signed'"
proof -
  have "bf_read_loop (bf_write buf offset bits (word_of_int v)) offset' bits' = bf_read_loop buf offset' bits'"
    using assms(3) by (intro bf_read_loop_cong) (auto simp: bf_write_bit)
  then have "bf_read (bf_write buf offset bits (word_of_int v)) offset' bits' is_signed' =
      bf_read buf offset' bits' is_signed'"
    by (simp only: bf_read_def)
  with bf_round [OF assms(1,2)] show ?thesis by simp
qed

theorem bitfield_round_trip_witness:
  "bf_read (bf_write [0xFF] 5 7 (word_of_int (- 64))) 5 7 True = - 64 \<and>
   bf_read (bf_write [0xFF] 5 7 (word_of_int (- 64))) 0 5 False = bf_read [0xFF] 0 5 False"
  using bitfield_round_trip [of True 7 "- 64" 0 5 5 "[0xFF]" False]
  by (simp add: field_type_def field_range_def)

lemma wrap_i64_range: "- 9223372036854775808 \<le> v \<Longrightarrow> v \<le> 9223372036854775807 \<Longrightarrow> wrap_i64 v = v"
  by (simp add: wrap_i64_def)

lemma field_range_i64:
  assumes "field_type is_signed bits" and "field_range is_signed bits v"
  shows "wrap_i64 v = v"
proof (rule wrap_i64_range)
  have "(2 ^ bits :: int) \<le> 2 ^ 63" if "\<not> is_signed"
    using assms(1) that by (intro power_increasing) (auto simp: field_type_def)
  moreover have "(2 ^ (bits - 1) :: int) \<le> 2 ^ 63" if "is_signed"
    using assms(1) that by (intro power_increasing) (auto simp: field_type_def)
  ultimately show "- 9223372036854775808 \<le> v" "v \<le> 9223372036854775807"
    using assms(2) by (auto simp: field_range_def split: if_splits)
qed

lemma mod_signed_range:
  fixes val :: int
  assumes "0 < bits"
  defines "w \<equiv> val mod 2 ^ bits"
  shows "let v = (if w > 2 ^ (bits - 1) - 1 then w - 2 ^ bits else w)
    in field_range True bits v \<and> v mod 2 ^ bits = val mod 2 ^ bits"
proof -
  have half: "(2 ^ bits :: int) = 2 * 2 ^ (bits - 1)" using assms(1) by (simp flip: power_Suc)
  have bounds: "0 \<le> w" "w < 2 ^ bits" "0 < (2 :: int) ^ (bits - 1)" by (simp_all add: w_def)
  have "field_range True bits (if w > 2 ^ (bits - 1) - 1 then w - 2 ^ bits else w)"
    using bounds half by (auto simp: field_range_def)
  moreover have "(w - 2 ^ bits) mod 2 ^ bits = val mod 2 ^ bits" "w mod 2 ^ bits = val mod 2 ^ bits"
    by (simp_all add: w_def mod_simps)
  ultimately show ?thesis by (simp add: Let_def)
qed

text \<open>
  Overflow handling of \<open>BITFIELD\<close>. A value in the range of the field
  type is stored as it is. Outside the range, FAIL stores nothing, SAT stores the
  nearest end of the range, and WRAP stores the value of the range that is
  congruent modulo the field's width; what is stored is always in range.
\<close>

theorem bf_clamp_correct:
  assumes "field_type is_signed bits"
  shows "case bf_clamp is_signed bits val mode of
      None \<Rightarrow> mode = Fail \<and> \<not> field_range is_signed bits val
    | Some v \<Rightarrow> field_range is_signed bits v \<and>
        (if field_range is_signed bits val then v = val
         else mode \<noteq> Fail \<and> (mode = Sat \<longrightarrow> v = (if is_signed then if val < 0 then - (2 ^ (bits - 1)) else 2 ^ (bits - 1) - 1
             else if val < 0 then 0 else 2 ^ bits - 1)) \<and>
           (mode = Wrap \<longrightarrow> v mod 2 ^ bits = val mod 2 ^ bits))"
proof -
  define lo hi where "lo = (if is_signed then - (2 ^ (bits - 1)) else 0 :: int)"
    and "hi = (if is_signed then 2 ^ (bits - 1) - 1 else 2 ^ bits - 1 :: int)"
  have range: "field_range is_signed bits v \<longleftrightarrow> lo \<le> v \<and> v \<le> hi" for v
    by (auto simp: field_range_def lo_def hi_def)
  define w where "w = (if is_signed \<and> val mod 2 ^ bits > hi then val mod 2 ^ bits - 2 ^ bits else val mod 2 ^ bits)"
  have w: "field_range is_signed bits w" "w mod 2 ^ bits = val mod 2 ^ bits"
    using mod_signed_range [of bits val] assms
    by (cases is_signed; auto simp: w_def hi_def field_type_def field_range_def Let_def)+
  have ends: "field_range is_signed bits lo" "field_range is_signed bits hi" "lo \<le> 0" "0 \<le> hi"
    by (auto simp: field_range_def lo_def hi_def)
  have clamp: "bf_clamp is_signed bits val mode =
      (if field_range is_signed bits val then Some (wrap_i64 val)
       else case mode of Fail \<Rightarrow> None | Sat \<Rightarrow> Some (wrap_i64 (if val < lo then lo else hi)) | Wrap \<Rightarrow> Some (wrap_i64 w))"
    unfolding range by (auto simp: bf_clamp_def Let_def lo_def hi_def w_def split: bitfield_overflow.splits)
  show ?thesis
  proof (cases "field_range is_signed bits val")
    case True
    then show ?thesis using clamp field_range_i64 [OF assms] by simp
  next
    case False
    then have "val < lo \<longleftrightarrow> val < 0" using range [of val] ends(3,4) by auto
    then show ?thesis
      using clamp False w ends field_range_i64 [OF assms w(1)] field_range_i64 [OF assms ends(1)]
        field_range_i64 [OF assms ends(2)]
      by (cases mode) (auto simp: lo_def hi_def)
  qed
qed

theorem bf_clamp_correct_witness:
  "field_range True 8 (the (bf_clamp True 8 200 Wrap)) \<and> the (bf_clamp True 8 200 Wrap) mod 256 = 200 mod 256"
proof -
  have "bf_clamp True 8 200 Wrap = Some (- 56)" by (simp add: bf_clamp_def wrap_i64_def)
  then show ?thesis using bf_clamp_correct [where is_signed = True and bits = 8 and val = 200 and mode = Wrap] by (simp add: field_type_def field_range_def)
qed

end
