(* ===== verification/StoreBits.thy ===== *)
theory StoreBits
  imports StoreKeys Bits
begin

text \<open>
  The bitmap commands of \<^verbatim>\<open>src/src/store/mod.rs\<close>: \<open>setbit\<close>, \<open>getbit\<close>, \<open>bitfield\<close>,
  \<open>bitcount\<close>, \<open>bitpos\<close> and \<open>bitop\<close>, on strings read as sequences of bits, the most
  significant bit of the first byte first.
\<close>

section \<open>Single bits\<close>

text \<open>The entry that a writer creates on demand, and the growth of the string it accounts.\<close>

definition upsert_string :: "(bytes \<Rightarrow> 'r \<times> bytes) \<Rightarrow> bytes \<Rightarrow> instant \<Rightarrow> store \<Rightarrow> 'r result \<times> store" where
  "upsert_string f key now st =
     (case entry_or_insert (Str []) key now (bump_version key st) of
        (e, st) \<Rightarrow>
          (case string_bytes (en_value e) of
             Some s \<Rightarrow>
               (case f s of
                  (r, buf) \<Rightarrow>
                    (let st = put_value key e (StrBuf buf) st in
                     (Inr r, if length buf > length s then mem_grow key (length buf - length s) st else st)))
           | None \<Rightarrow> (Inl (Err WRONGTYPE), st)))"

definition bit_byte :: "bytes \<Rightarrow> nat \<Rightarrow> byte" where
  "bit_byte s i = (if i div 8 \<ge> length s then 0 else drop_bit (7 - i mod 8) (s ! (i div 8)) AND 1)"

definition setbit_buf :: "nat \<Rightarrow> byte \<Rightarrow> bytes \<Rightarrow> byte \<times> bytes" where
  "setbit_buf offset v s =
     (let byte_idx = offset div 8;
          buf = (if length s \<le> byte_idx then resize (byte_idx + 1) s else s)
      in (bit_byte buf offset, put_bit (v = 1) offset buf))"

definition setbit :: "bytes \<Rightarrow> nat \<Rightarrow> byte \<Rightarrow> instant \<Rightarrow> store \<Rightarrow> byte result \<times> store" where
  "setbit key offset v = upsert_string (setbit_buf offset v) key"

text \<open>The string of a key as the readers find it.\<close>

definition view_string :: "bytes \<Rightarrow> instant \<Rightarrow> store \<Rightarrow> bytes option result" where
  "view_string key now st =
     (case data_get st key of
        None \<Rightarrow> Inr None
      | Some e \<Rightarrow>
          if is_expired_at e now then Inr None
          else (case string_bytes (en_value e) of Some s \<Rightarrow> Inr (Some s) | None \<Rightarrow> Inl (Err WRONGTYPE)))"

definition getbit :: "bytes \<Rightarrow> nat \<Rightarrow> instant \<Rightarrow> store \<Rightarrow> byte result" where
  "getbit key offset now st =
     (case view_string key now st of
        Inl e \<Rightarrow> Inl e
      | Inr None \<Rightarrow> Inr 0
      | Inr (Some s) \<Rightarrow> Inr (bit_byte s offset))"

section \<open>Fields\<close>

datatype bitfield_op =
    BfGet bool nat nat
  | BfSet bool nat nat int bitfield_overflow
  | BfIncrBy bool nat nat int bitfield_overflow

fun is_bf_get :: "bitfield_op \<Rightarrow> bool" where
  "is_bf_get (BfGet _ _ _) = True"
| "is_bf_get _ = False"

fun bitfield_step :: "bitfield_op \<Rightarrow> bytes \<Rightarrow> int option \<times> bytes" where
  "bitfield_step (BfGet is_signed bits offset) buf = (Some (bf_read buf offset bits is_signed), buf)"
| "bitfield_step (BfSet is_signed bits offset v overflow) buf =
     (let old = bf_read buf offset bits is_signed in
      case bf_clamp is_signed bits v overflow of
        Some v \<Rightarrow> (Some old, bf_write buf offset bits (word_of_int v))
      | None \<Rightarrow> (None, buf))"
| "bitfield_step (BfIncrBy is_signed bits offset n overflow) buf =
     (let old = bf_read buf offset bits is_signed in
      case bf_clamp is_signed bits (old + n) overflow of
        Some v \<Rightarrow> (Some v, bf_write buf offset bits (word_of_int v))
      | None \<Rightarrow> (None, buf))"

fun bitfield_ops :: "bitfield_op list \<Rightarrow> bytes \<Rightarrow> int option list \<times> bytes" where
  "bitfield_ops [] buf = ([], buf)"
| "bitfield_ops (p # ps) buf =
     (case bitfield_step p buf of
        (r, buf) \<Rightarrow> (case bitfield_ops ps buf of (rs, buf) \<Rightarrow> (r # rs, buf)))"

definition bitfield :: "bytes \<Rightarrow> bitfield_op list \<Rightarrow> instant \<Rightarrow> store \<Rightarrow> int option list result \<times> store" where
  "bitfield key ops now st =
     (if list_all is_bf_get ops then
        (case view_string key now st of
           Inl e \<Rightarrow> (Inl e, st)
         | Inr os \<Rightarrow>
             (let buf = (case os of Some s \<Rightarrow> s | None \<Rightarrow> []) in (Inr (map (\<lambda>p. fst (bitfield_step p buf)) ops), st)))
      else upsert_string (bitfield_ops ops) key now st)"

section \<open>Counting and searching\<close>

definition count_ones :: "byte \<Rightarrow> nat" where
  "count_ones b = length (filter (bit b) [0..<8])"

text \<open>
  In bit mode on an empty string \<open>bit_len as usize - 1\<close> wraps, so that the end of the
  range is not clamped; no bit is found there.
\<close>

definition bitcount :: "bytes \<Rightarrow> int \<Rightarrow> int \<Rightarrow> bool \<Rightarrow> instant \<Rightarrow> store \<Rightarrow> int result" where
  "bitcount key start stop use_bit now st =
     (case view_string key now st of
        Inl e \<Rightarrow> Inl e
      | Inr None \<Rightarrow> Inr 0
      | Inr (Some s) \<Rightarrow>
          if use_bit then
            (let bit_len = int (length s) * 8;
                 s_idx = (if start < 0 then nat (max (bit_len + start) 0) else min (nat start) (nat bit_len));
                 e_idx = (if stop < 0 then nat (max (bit_len + stop) 0)
                          else min (nat stop) (if bit_len = 0 then usize_max else nat bit_len - 1))
             in if s_idx > e_idx then Inr 0
                else Inr (int (length (filter (bit_at s) [s_idx..<e_idx + 1]))))
          else
            (let len = int (length s);
                 s_resolved = (if start < 0 then len + start else start);
                 e_resolved = (if stop < 0 then len + stop else stop)
             in if s_resolved > e_resolved then Inr 0
                else
                  let s_idx = nat (max s_resolved 0);
                      e_idx = nat (min (max e_resolved 0) (if len > 0 then len - 1 else 0))
                  in if s_idx > e_idx \<or> s = [] then Inr 0
                     else Inr (int (sum_list (map count_ones (take (e_idx + 1 - s_idx) (drop s_idx s)))))))"

definition find_bit :: "byte \<Rightarrow> bytes \<Rightarrow> nat list \<Rightarrow> nat option" where
  "find_bit b s is = find (\<lambda>i. i div 8 < length s \<and> bit_byte s i = b) is"

definition bitpos :: "bytes \<Rightarrow> byte \<Rightarrow> int \<Rightarrow> int option \<Rightarrow> bool \<Rightarrow> bool \<Rightarrow> instant \<Rightarrow> store \<Rightarrow> int result" where
  "bitpos key b start stop end_given use_bit now st =
     (case view_string key now st of
        Inl e \<Rightarrow> Inl e
      | Inr None \<Rightarrow> Inr (if b = 0 then 0 else - 1)
      | Inr (Some s) \<Rightarrow>
          if s = [] then Inr (if b = 1 then - 1 else 0)
          else if use_bit then
            (let bit_len = int (length s) * 8;
                 s_idx = (if start < 0 then nat (max (bit_len + start) 0) else nat start);
                 e_idx = (case stop of
                            Some e \<Rightarrow> if e < 0 then nat (max (bit_len + e) 0) else min (nat e) (nat bit_len - 1)
                          | None \<Rightarrow> nat bit_len - 1)
             in if s_idx > e_idx then Inr (- 1)
                else case find_bit b s [s_idx..<e_idx + 1] of Some i \<Rightarrow> Inr (int i) | None \<Rightarrow> Inr (- 1))
          else
            (let len = int (length s);
                 s_byte = (if start < 0 then nat (max (len + start) 0) else min (nat start) (nat len));
                 e_byte = (case stop of
                             Some e \<Rightarrow> if e < 0 then nat (max (len + e) 0) else min (nat e) (nat len - 1)
                           | None \<Rightarrow> nat len - 1)
             in if s_byte > e_byte then Inr (- 1)
                else case find_bit b s [s_byte * 8..<(e_byte + 1) * 8] of
                  Some i \<Rightarrow> Inr (int i)
                | None \<Rightarrow> if b = 0 \<and> \<not> end_given then Inr (int (e_byte + 1) * 8) else Inr (- 1)))"

section \<open>Combining\<close>

fun bitop_sources :: "bytes list \<Rightarrow> instant \<Rightarrow> store \<Rightarrow> bytes list result" where
  "bitop_sources [] now st = Inr []"
| "bitop_sources (key # ks) now st =
     (case view_string key now st of
        Inl e \<Rightarrow> Inl e
      | Inr os \<Rightarrow> map_sum id (Cons (case os of Some s \<Rightarrow> s | None \<Rightarrow> [])) (bitop_sources ks now st))"

definition max_len :: "bytes list \<Rightarrow> nat" where
  "max_len sources = foldl (\<lambda>n s. max n (length s)) 0 sources"

definition combine :: "(byte \<Rightarrow> byte \<Rightarrow> byte) \<Rightarrow> bytes \<Rightarrow> bytes \<Rightarrow> bytes" where
  "combine f result src = map (\<lambda>i. if i < length src then f (result ! i) (src ! i) else result ! i) [0..<length result]"

definition bitop_result :: "string \<Rightarrow> bytes list \<Rightarrow> bytes result" where
  "bitop_result op sources =
     (let n = max_len sources in
      if op = ''AND'' then
        Inr (foldl (\<lambda>result src. map (\<lambda>i. result ! i AND (if i < length src then src ! i else 0)) [0..<n])
               (replicate n 255) sources)
      else if op = ''OR'' then Inr (foldl (combine (OR)) (replicate n 0) sources)
      else if op = ''XOR'' then Inr (foldl (combine (XOR)) (replicate n 0) sources)
      else if op = ''NOT'' then
        (case sources of
           [] \<Rightarrow> Inl Panic
         | src # _ \<Rightarrow> Inr (map (\<lambda>i. if i < length src then NOT (src ! i) else 255) [0..<n]))
      else Inl (Err (''ERR BITOP requires AND, OR, XOR, or NOT, got '' @ [CHR 0x27] @ op @ [CHR 0x27])))"

definition bitop :: "string \<Rightarrow> bytes \<Rightarrow> bytes list \<Rightarrow> instant \<Rightarrow> store \<Rightarrow> nat result \<times> store" where
  "bitop op dest ks now st =
     (case bitop_sources ks now st of
        Inl e \<Rightarrow> (Inl e, st)
      | Inr sources \<Rightarrow>
          if max_len sources = 0 then (Inr 0, snd (del [dest] now st))
          else case bitop_result op sources of
            Inl e \<Rightarrow> (Inl e, st)
          | Inr result \<Rightarrow> (Inr (length result), store_set dest result None now st))"

section \<open>Contracts\<close>

definition upsert_string_spec :: "(bytes \<Rightarrow> 'r \<times> bytes) \<Rightarrow> instant \<Rightarrow> slot \<Rightarrow> 'r result \<times> slot" where
  "upsert_string_spec f now s =
     (case slot_value (Str []) s of
        (v, exp) \<Rightarrow>
          (case string_bytes v of
             Some b \<Rightarrow> (case f b of (r, buf) \<Rightarrow> (Inr r, Some (StrBuf buf, exp)))
           | None \<Rightarrow> (Inl (Err WRONGTYPE), s)))"

lemma upsert_string_op: "counted_op (upsert_string f key) key (upsert_string_spec f)"
proof unfold_locales
  fix st and now :: instant
  assume wf: "mem_wf st"
  let ?op = "upsert_string f key now st"
  obtain e st1 where e: "entry_or_insert (Str []) key now (bump_version key st) = (e, st1)" by fastforce
  note c = upsert_contract [OF wf _ e, simplified]
  have def: "?op = (case string_bytes (en_value e) of
      Some s \<Rightarrow> (case f s of (r, buf) \<Rightarrow> (let st = put_value key e (StrBuf buf) st1 in
        (Inr r, if length buf > length s then mem_grow key (length buf - length s) st else st)))
    | None \<Rightarrow> (Inl (Err WRONGTYPE), st1))"
    using e by (simp add: upsert_string_def)
  show "mem_wf (snd ?op)" using c(1,4) unfolding def by (auto simp: Let_def split: option.splits prod.splits)
  show "fst ?op = fst (upsert_string_spec f now (view st now key))"
    unfolding def upsert_string_spec_def c(5) by (auto simp: Let_def split: option.splits prod.splits)
  show "view (snd ?op) now key = snd (upsert_string_spec f now (view st now key))"
  proof (cases "string_bytes (en_value e)")
    case Some
    then show ?thesis using c(1-3) unfolding def upsert_string_spec_def c(5)
      by (auto simp: view_Some Let_def split: prod.splits)
  next
    case None
    then have "view st now key = Some (en_value e, en_expires_at e)" using slot_value_wrong [OF c(5)] by (cases "en_value e = Str []") auto
    then show ?thesis using None c(8) unfolding def upsert_string_spec_def by (auto simp: slot_value_def)
  qed
  show "data_get (snd ?op) k = data_get st k" if "k \<noteq> key" for k
    using c(1,6) that unfolding def by (auto simp: Let_def split: option.splits prod.splits)
  show "keys_exact (snd ?op)" if "keys_exact st"
    using c(1,2,7) that unfolding def by (auto simp: Let_def split: option.splits prod.splits)
qed

interpretation setbit_op: counted_op "setbit key i v" key "upsert_string_spec (setbit_buf i v)" for key i v
  unfolding setbit_def by (rule upsert_string_op)

lemma view_string_view:
  "view_string key now st =
     (case view st now key of
        None \<Rightarrow> Inr None
      | Some (v, _) \<Rightarrow> (case string_bytes v of Some s \<Rightarrow> Inr (Some s) | None \<Rightarrow> Inl (Err WRONGTYPE)))"
  by (auto simp: view_string_def view_def split: option.splits)

text \<open>Reading and writing bits: what \<open>GETBIT\<close> shows of a key.\<close>

definition bits_of :: "store \<Rightarrow> instant \<Rightarrow> bytes \<Rightarrow> nat \<Rightarrow> bool" where
  "bits_of st now key i = (case view_string key now st of Inr (Some s) \<Rightarrow> bit_at s i | _ \<Rightarrow> False)"

lemma bit_byte_bit: "bit_byte s i = (if bit_at s i then 1 else 0)"
proof -
  have "drop_bit n w AND 1 = 0 \<or> drop_bit n w AND 1 = 1" for n and w :: byte
    by (auto simp: and_one_eq mod_2_eq_odd)
  then show ?thesis unfolding bit_byte_def bit_at_def by (metis leI linorder_not_less)
qed

lemma bit_at_setbit:
  "bit_at (snd (setbit_buf o' v s)) i = (if i = o' then v = 1 else bit_at s i)"
  "fst (setbit_buf o' v s) = (if bit_at s o' then 1 else 0)"
  by (auto simp: setbit_buf_def Let_def bit_byte_bit bit_at_put bit_at_resize)

lemma setbit_result:
  assumes wf: "mem_wf st" and h: "\<not> isl (view_string key now st)" and r: "setbit key n v now st = (r, st')"
  shows "r = Inr (if bits_of st now key n then 1 else 0)"
    and "bits_of st' now key = (bits_of st now key)(n := (v = 1))" and "\<not> isl (view_string key now st')"
proof -
  note c = setbit_op.op_reply [OF wf, of key n v now] setbit_op.op_effect [OF wf, of key n v now]
  obtain s exp where v: "slot_value (Str []) (view st now key) = (s, exp)" by fastforce
  obtain b where b: "string_bytes s = Some b" "bits_of st now key = bit_at b"
    using h v by (auto simp: view_string_view slot_value_def bits_of_def fun_eq_iff bit_at_def split: option.splits prod.splits)
  obtain x buf where f: "setbit_buf n v b = (x, buf)" by fastforce
  have "r = Inr x" "view st' now key = Some (StrBuf buf, exp)"
    using c r v b(1) f by (simp_all add: upsert_string_spec_def)
  then show "r = Inr (if bits_of st now key n then 1 else 0)" "bits_of st' now key = (bits_of st now key)(n := (v = 1))"
    "\<not> isl (view_string key now st')"
    using bit_at_setbit [of n v b] f b(2) by (auto simp: bits_of_def view_string_view fun_eq_iff)
qed

section \<open>Counting\<close>

lemma bit_at_bound: "bit_at s i \<Longrightarrow> i < length s * 8"
  by (auto simp: bit_at_def split: if_splits)

lemma bit_at_Nil [simp]: "bit_at [] i = False"
  by (simp add: bit_at_def)

lemma count_bits: "length (filter P [a..<b]) = card {i. a \<le> i \<and> i < b \<and> P i}"
proof -
  have "length (filter P [a..<b]) = card (set (filter P [a..<b]))" by (rule distinct_card [symmetric]) simp
  also have "set (filter P [a..<b]) = {i. a \<le> i \<and> i < b \<and> P i}" by auto
  finally show ?thesis .
qed

lemma count_ones_bits: "j < length s \<Longrightarrow> length (filter (bit_at s) [j * 8..<j * 8 + 8]) = count_ones (s ! j)"
proof -
  assume j: "j < length s"
  have "[j * 8..<j * 8 + 8] = map (\<lambda>k. j * 8 + (7 - k)) (rev [0..<8])"
    by (simp add: upt_rec)
  moreover have "bit_at s (j * 8 + (7 - k)) = bit (s ! j) k" if "k < 8" for k
  proof -
    have "(j * 8 + m) div 8 = j" "(j * 8 + m) mod 8 = m" if "m < 8" for m using that by simp_all
    from this [of "7 - k"] show ?thesis using j that unfolding bit_at_iff by simp
  qed
  then have "filter (\<lambda>k. bit_at s (j * 8 + (7 - k))) (rev [0..<8]) = filter (bit (s ! j)) (rev [0..<8])"
    by (intro filter_cong) auto
  ultimately show ?thesis by (simp add: filter_map o_def count_ones_def flip: rev_filter)
qed

lemma count_ones_range:
  "a + n \<le> length s \<Longrightarrow> sum_list (map count_ones (take n (drop a s))) = length (filter (bit_at s) [a * 8..<(a + n) * 8])"
proof (induction n)
  case (Suc n)
  have "take (Suc n) (drop a s) = take n (drop a s) @ [s ! (a + n)]"
    using Suc.prems by (simp add: take_Suc_conv_app_nth)
  moreover have "[a * 8..<(a + Suc n) * 8] = [a * 8..<(a + n) * 8] @ [(a + n) * 8..<(a + n) * 8 + 8]"
    using upt_add_eq_append [of "a * 8" "(a + n) * 8" 8] by (simp add: algebra_simps)
  ultimately show ?case using Suc count_ones_bits [of "a + n" s] by simp
qed simp

lemma card_range_cong:
  assumes "\<And>i. P i \<Longrightarrow> (a \<le> i \<and> i < b) = (c \<le> i \<and> i < (d :: nat))"
  shows "card {i. a \<le> i \<and> i < b \<and> P i} = card {i. c \<le> i \<and> i < d \<and> P i}"
  using assms by (intro arg_cong [of _ _ card]) blast

lemma bitcount_bits:
  assumes "\<not> isl (view_string key now st)" and "0 \<le> a" and "a \<le> b"
  shows "bitcount key (int a) (int b) True now st = Inr (int (card {i. a \<le> i \<and> i < b + 1 \<and> bits_of st now key i}))"
    and "bitcount key (int a) (int b) False now st = Inr (int (card {i. a * 8 \<le> i \<and> i < (b + 1) * 8 \<and> bits_of st now key i}))"
proof -
  show "bitcount key (int a) (int b) True now st = Inr (int (card {i. a \<le> i \<and> i < b + 1 \<and> bits_of st now key i}))"
  proof (cases "\<exists>s. view_string key now st = Inr (Some s)")
    case True
    then obtain s where s: "view_string key now st = Inr (Some s)" by blast
    let ?a = "min a (length s * 8)" and ?b = "min b (if s = [] then usize_max else length s * 8 - 1)"
    have "card {i. ?a \<le> i \<and> i < ?b + 1 \<and> bit_at s i} = card {i. a \<le> i \<and> i < b + 1 \<and> bit_at s i}"
      by (rule card_range_cong) (use bit_at_bound [of s] in force)
    moreover have "?a > ?b \<Longrightarrow> card {i. ?a \<le> i \<and> i < ?b + 1 \<and> bit_at s i} = 0"
      by (auto simp: card_eq_0_iff min_def split: if_splits)
    moreover have "int (length s) * 8 = int (length s * 8)" by simp
    ultimately show ?thesis using s by (auto simp: bitcount_def bits_of_def Let_def count_bits nat_mult_distrib simp del: upt_Suc)
  next
    case False
    then show ?thesis using assms(1) by (cases "view_string key now st") (auto simp: bitcount_def bits_of_def split: option.splits)
  qed
  show "bitcount key (int a) (int b) False now st = Inr (int (card {i. a * 8 \<le> i \<and> i < (b + 1) * 8 \<and> bits_of st now key i}))"
  proof (cases "\<exists>s. view_string key now st = Inr (Some s) \<and> s \<noteq> []")
    case True
    then obtain s where s: "view_string key now st = Inr (Some s)" "s \<noteq> []" by blast
    let ?b = "min b (length s - 1)"
    have b: "nat (min (max (int b) 0) (int (length s) - 1)) = ?b" using s(2) by (cases s) auto
    have "card {i. a * 8 \<le> i \<and> i < (?b + 1) * 8 \<and> bit_at s i} = card {i. a * 8 \<le> i \<and> i < (b + 1) * 8 \<and> bit_at s i}"
    proof (rule card_range_cong)
      fix i
      assume "bit_at s i"
      then have "i < length s * 8" by (rule bit_at_bound)
      moreover have "length s * 8 = (length s - 1) * 8 + 8" using s(2) by (cases s) auto
      ultimately show "(a * 8 \<le> i \<and> i < (?b + 1) * 8) = (a * 8 \<le> i \<and> i < (b + 1) * 8)" by (auto simp: min_def)
    qed
    moreover have "sum_list (map count_ones (take (?b + 1 - a) (drop a s))) = card {i. a * 8 \<le> i \<and> i < (?b + 1) * 8 \<and> bit_at s i}"
      if "a \<le> ?b"
    proof -
      have "a + (?b + 1 - a) = ?b + 1" using that by linarith
      moreover have "?b + 1 \<le> length s" using s(2) by (cases s) auto
      ultimately show ?thesis using count_ones_range [of a "?b + 1 - a" s] by (simp only: count_bits)
    qed
    moreover have "a > ?b \<Longrightarrow> card {i. a * 8 \<le> i \<and> i < (?b + 1) * 8 \<and> bit_at s i} = 0"
      by (auto simp: card_eq_0_iff)
    moreover have "bitcount key (int a) (int b) False now st =
        (if ?b < a then Inr 0 else Inr (int (sum_list (map count_ones (take (?b + 1 - a) (drop a s))))))"
      using s assms(3) b by (simp add: bitcount_def Let_def)
    moreover have "bits_of st now key = bit_at s" using s by (simp add: bits_of_def fun_eq_iff)
    ultimately show ?thesis by (cases "?b < a") (simp_all only: if_True if_False not_less, simp)
  next
    case False
    then have "view_string key now st = Inr None \<or> view_string key now st = Inr (Some [])"
      using assms(1) by (metis not_Some_eq obj_sumE sum.disc(1))
    then show ?thesis using assms(3) by (auto simp: bitcount_def bits_of_def)
  qed
qed

section \<open>Combining bitmaps\<close>

lemma max_len_ge: "s \<in> set sources \<Longrightarrow> length s \<le> max_len sources"
proof -
  have "foldl (\<lambda>n s. max n (length s)) m sources \<ge> m \<and> (\<forall>s \<in> set sources. length s \<le> foldl (\<lambda>n s. max n (length s)) m sources)" for m
    by (induction sources arbitrary: m) (auto, meson max.boundedE, meson max.boundedE)
  then show "s \<in> set sources \<Longrightarrow> length s \<le> max_len sources" by (simp add: max_len_def)
qed

definition src_bit :: "nat \<Rightarrow> nat \<Rightarrow> bytes \<Rightarrow> bool" where
  "src_bit j k src \<longleftrightarrow> j < length src \<and> bit (src ! j) k"

lemma fold_and:
  "length acc = n \<Longrightarrow> j < n \<Longrightarrow>
   length (foldl (\<lambda>result src. map (\<lambda>i. result ! i AND (if i < length src then src ! i else 0)) [0..<n]) acc sources) = n \<and>
   (bit (foldl (\<lambda>result src. map (\<lambda>i. result ! i AND (if i < length src then src ! i else 0)) [0..<n]) acc sources ! j) k \<longleftrightarrow>
     bit (acc ! j) k \<and> (\<forall>src \<in> set sources. src_bit j k src))"
  by (induction sources arbitrary: acc) (auto simp: src_bit_def bit_and_iff)

lemma length_fold_and:
  "length acc = n \<Longrightarrow>
   length (foldl (\<lambda>result src. map (\<lambda>i. result ! i AND (if i < length src then src ! i else 0)) [0..<n]) acc sources) = n"
  by (induction sources arbitrary: acc) auto

lemma length_combine [simp]: "length (combine f acc src) = length acc"
  by (simp add: combine_def)

lemma length_fold_combine: "length (foldl (combine f) acc sources) = length acc"
  by (induction sources arbitrary: acc) auto

lemma combine_nth: "j < length acc \<Longrightarrow> combine f acc src ! j = (if j < length src then f (acc ! j) (src ! j) else acc ! j)"
  by (simp add: combine_def)

lemma fold_or:
  "j < length acc \<Longrightarrow> length (foldl (combine (OR)) acc sources) = length acc \<and>
   (bit (foldl (combine (OR)) acc sources ! j) k \<longleftrightarrow> bit (acc ! j) k \<or> (\<exists>src \<in> set sources. src_bit j k src))"
  by (induction sources arbitrary: acc) (auto simp: src_bit_def combine_nth bit_or_iff)

lemma fold_xor:
  "j < length acc \<Longrightarrow> length (foldl (combine (XOR)) acc sources) = length acc \<and>
   (bit (foldl (combine (XOR)) acc sources ! j) k \<longleftrightarrow> bit (acc ! j) k \<noteq> odd (length (filter (src_bit j k) sources)))"
proof (induction sources arbitrary: acc)
  case (Cons src sources)
  then show ?case using Cons.IH [of "combine (XOR) acc src"]
    by (auto simp: src_bit_def combine_nth bit_xor_iff)
qed simp

text \<open>The bit of a result, by the operation.\<close>

definition bitop_bit :: "string \<Rightarrow> bool list \<Rightarrow> bool" where
  "bitop_bit op bs =
     (if op = ''AND'' then (\<forall>b \<in> set bs. b)
      else if op = ''OR'' then (\<exists>b \<in> set bs. b)
      else if op = ''XOR'' then odd (length (filter id bs))
      else \<not> hd bs)"

lemma bit_at_src: "bit_at src i = src_bit (i div 8) (7 - i mod 8) src"
  by (simp add: bit_at_iff src_bit_def)

lemma bitop_result_bits:
  assumes "bitop_result op sources = Inr result"
  shows "length result = max_len sources"
    and "bit_at result i \<longleftrightarrow> i < max_len sources * 8 \<and> bitop_bit op (map (\<lambda>s. bit_at s i) sources)"
proof -
  let ?n = "max_len sources" and ?j = "i div 8" and ?k = "7 - i mod 8"
  have full: "bit (255 :: byte) k" if "k < 8" for k
  proof -
    have "(255 :: byte) = - 1" by simp
    then show ?thesis using that by (simp only: bit_minus_1_iff) simp
  qed
  have at: "bit_at r i \<longleftrightarrow> i < ?n * 8 \<and> bit (r ! ?j) ?k" if "length r = ?n" for r
  proof -
    have "?j < ?n \<longleftrightarrow> i < ?n * 8" by (simp add: div_less_iff_less_mult)
    then show ?thesis using that by (auto simp: bit_at_iff)
  qed
  note d = assms [unfolded bitop_result_def Let_def]
  have len: "length result = ?n"
    using d length_fold_and [of "replicate ?n 255" ?n sources] by (auto simp: length_fold_combine split: if_splits list.splits)
  then show "length result = ?n" .
  show "bit_at result i \<longleftrightarrow> i < ?n * 8 \<and> bitop_bit op (map (\<lambda>s. bit_at s i) sources)"
  proof (cases "i < ?n * 8")
    case True
    then have j: "?j < ?n" by (simp add: div_less_iff_less_mult)
    have k8: "?k < 8" by linarith
    consider "op = ''AND''" | "op = ''OR''" | "op = ''XOR''" | "op \<noteq> ''AND''" "op \<noteq> ''OR''" "op \<noteq> ''XOR''" "op = ''NOT''"
      using d by (metis sum.distinct(1))
    then have "bit (result ! ?j) ?k = bitop_bit op (map (\<lambda>s. src_bit ?j ?k s) sources)"
    proof cases
      case 1
      then show ?thesis using d fold_and [of "replicate ?n 255" ?n ?j sources ?k] j k8 full [OF k8] by (simp add: bitop_bit_def)
    next
      case 2
      then show ?thesis using d fold_or [of ?j "replicate ?n 0" sources ?k] j by (simp add: bitop_bit_def)
    next
      case 3
      then show ?thesis using d fold_xor [of ?j "replicate ?n 0" sources ?k] j by (simp add: bitop_bit_def filter_map o_def)
    next
      case 4
      then obtain src rest where "sources = src # rest" "result = map (\<lambda>i. if i < length src then NOT (src ! i) else 255) [0..<?n]"
        using d by (cases sources) auto
      then show ?thesis using 4 j k8 full [OF k8] by (simp add: bitop_bit_def src_bit_def bit_not_iff)
    qed
    then show ?thesis using at [OF len] True by (simp add: bit_at_src)
  qed (use at [OF len] in simp)
qed

lemma bitop_sources_bits:
  assumes "bitop_sources ks now st = Inr sources"
  shows "map (\<lambda>s. bit_at s i) sources = map (\<lambda>k. bits_of st now k i) ks"
  using assms
proof (induction ks arbitrary: sources)
  case (Cons k ks)
  obtain os rest where o: "view_string k now st = Inr os" "bitop_sources ks now st = Inr rest"
    "sources = (case os of Some s \<Rightarrow> s | None \<Rightarrow> []) # rest"
    using Cons.prems by (cases "view_string k now st"; cases "bitop_sources ks now st") auto
  have "bit_at (case os of Some s \<Rightarrow> s | None \<Rightarrow> []) i = bits_of st now k i"
    using o(1) by (simp add: bits_of_def split: option.splits)
  then show ?case using Cons.IH [OF o(2)] o(3) by simp
qed simp

text \<open>
  Claim C26. Bitmaps are functions from positions to bits. \<open>SETBIT\<close> replies with the old
  bit and changes this bit alone, \<open>GETBIT\<close> reads it, and \<open>BITCOUNT\<close> over a range of
  bits or of bytes is the number of set bits in it, on every key that is missing or
  holds a string.
\<close>

theorem bitmap_correct:
  assumes "mem_wf st" and "\<not> isl (view_string key now st)" and "setbit key n v now st = (r, st')" and "a \<le> b"
  shows "mem_wf st' \<and> r = getbit key n now st \<and>
    getbit key i now st' = (if i = n then Inr (if v = 1 then 1 else 0) else getbit key i now st) \<and>
    bitcount key (int a) (int b) True now st' = Inr (int (card {i. a \<le> i \<and> i \<le> b \<and> getbit key i now st' = Inr 1})) \<and>
    bitcount key (int a) (int b) False now st' =
      Inr (int (card {i. a * 8 \<le> i \<and> i < (b + 1) * 8 \<and> getbit key i now st' = Inr 1})) \<and>
    (\<forall>k. k \<noteq> key \<longrightarrow> data_get st' k = data_get st k)"
proof -
  have get: "getbit key i now s = Inr (if bits_of s now key i then 1 else 0)" if "\<not> isl (view_string key now s)" for s i
    using that by (cases "view_string key now s") (auto simp: getbit_def bits_of_def bit_byte_bit split: option.splits)
  note sb = setbit_result [OF assms(1-3)]
  have wf: "mem_wf st'" "\<forall>k. k \<noteq> key \<longrightarrow> data_get st' k = data_get st k"
    using setbit_op.op_wf [OF assms(1), of key n v now] setbit_op.op_frame [OF assms(1), of _ key n v now] assms(3) by simp_all
  have "r = getbit key n now st"
    "getbit key i now st' = (if i = n then Inr (if v = 1 then 1 else 0) else getbit key i now st)"
    using sb get [OF assms(2)] get [OF sb(3)] by simp_all
  moreover have "getbit key i now st' = Inr 1 \<longleftrightarrow> bits_of st' now key i" for i using get [OF sb(3), of i] by simp
  ultimately show ?thesis using bitcount_bits [OF sb(3) _ assms(4)] wf by (simp add: less_Suc_eq_le)
qed

text \<open>
  \<open>BITOP\<close> combines bitmaps bit by bit: the destination gets, up to the
  length of the longest source, the conjunction, disjunction, exclusive disjunction or
  negation of the bits of the sources (a missing bit is zero), replies with that length,
  and leaves every other key alone.
\<close>

theorem bitop_correct:
  assumes "mem_wf st" and "bitop op dest ks now st = (Inr n, st')" and "0 < n"
  shows "mem_wf st' \<and> (bits_of st' now dest i \<longleftrightarrow> i < n * 8 \<and> bitop_bit op (map (\<lambda>k. bits_of st now k i) ks)) \<and>
    (\<forall>k. k \<noteq> dest \<longrightarrow> data_get st' k = data_get st k)"
proof -
  obtain sources where s: "bitop_sources ks now st = Inr sources"
    using assms(2) by (cases "bitop_sources ks now st") (auto simp: bitop_def)
  obtain result where r: "bitop_result op sources = Inr result" "n = length result" "st' = store_set dest result None now st"
    using assms(2,3) s by (auto simp: bitop_def split: if_splits sum.splits)
  have "view st' now dest = Some (Str result, None)"
    using set_op.op_effect [OF assms(1), of dest result None now] r(3) by (simp add: set_spec_def)
  then have "bits_of st' now dest = bit_at result" by (simp add: bits_of_def view_string_view fun_eq_iff)
  then show ?thesis
    using bitop_result_bits [OF r(1)] bitop_sources_bits [OF s] r(2,3) set_op.op_wf [OF assms(1), of dest result None now]
      set_op.op_frame [OF assms(1), of _ dest result None now] by simp
qed

section \<open>Examples\<close>

definition demo_bits :: store where
  "demo_bits = demo_store [(ascii ''a'', Str [0x0F]), (ascii ''b'', Str [0xF0, 1])]"

lemma demo_bits_facts:
  "mem_wf demo_bits" "\<not> isl (view_string (ascii ''a'') 0 demo_bits)"
  "view_string (ascii ''a'') 0 demo_bits = Inr (Some [0x0F])" "view_string (ascii ''b'') 0 demo_bits = Inr (Some [0xF0, 1])"
  using demo_store_wf [of "[(ascii ''a'', Str [0x0F]), (ascii ''b'', Str [0xF0, 1])]"]
    demo_store_view [of "[(ascii ''a'', Str [0x0F]), (ascii ''b'', Str [0xF0, 1])]" 0]
  by (simp_all add: demo_bits_def view_string_view ascii_def)

theorem bitmap_correct_witness:
  "\<exists>r st'. setbit (ascii ''a'') 1 1 0 demo_bits = (r, st') \<and> getbit (ascii ''a'') 1 0 st' = Inr 1 \<and>
     r = getbit (ascii ''a'') 1 0 demo_bits"
proof -
  obtain r st' where run: "setbit (ascii ''a'') 1 1 0 demo_bits = (r, st')" by fastforce
  then show ?thesis using bitmap_correct [OF demo_bits_facts(1,2) run le_refl [of 0], of 1] by auto
qed

theorem bitop_correct_witness:
  "\<exists>st'. bitop ''OR'' (ascii ''c'') [ascii ''a'', ascii ''b''] 0 demo_bits = (Inr 2, st') \<and> bits_of st' 0 (ascii ''c'') 15 \<and>
     \<not> bits_of st' 0 (ascii ''c'') 14"
proof -
  obtain st' where run: "bitop ''OR'' (ascii ''c'') [ascii ''a'', ascii ''b''] 0 demo_bits = (Inr 2, st')"
    using demo_bits_facts(3,4) by (simp add: bitop_def bitop_result_def max_len_def length_fold_combine)
  have "bits_of demo_bits 0 (ascii ''a'') i = bit_at [0x0F] i" "bits_of demo_bits 0 (ascii ''b'') i = bit_at [0xF0, 1] i" for i
    using demo_bits_facts(3,4) by (simp_all add: bits_of_def)
  then show ?thesis
    using bitop_correct [OF demo_bits_facts(1) run, of 15] bitop_correct [OF demo_bits_facts(1) run, of 14] run
    by (simp add: bitop_bit_def bit_at_def)
qed

end
