(* ===== verification/StoreHll.thy ===== *)
theory StoreHll
  imports StoreSets
begin

text \<open>
  The HyperLogLog commands \<open>pfadd\<close>, \<open>pfcount\<close> and \<open>pfmerge\<close> of
  \<^verbatim>\<open>src/src/store/mod.rs\<close>. The cardinality estimate of a register file, floating-point
  code, is the parameter \<open>hll_count\<close>.
\<close>

section \<open>Commands\<close>

fun pf_add_loop :: "bytes list \<Rightarrow> bool \<Rightarrow> bytes \<Rightarrow> (bool \<times> bytes) result" where
  "pf_add_loop [] changed regs = Inr (changed, regs)"
| "pf_add_loop (e # es) changed regs =
     (case hll_add regs e of
        Inl err \<Rightarrow> Inl err
      | Inr (c, regs) \<Rightarrow> pf_add_loop es (if c then True else changed) regs)"

definition mem_replace :: "bytes \<Rightarrow> nat \<Rightarrow> nat \<Rightarrow> store \<Rightarrow> store" where
  "mem_replace key old_mem new_mem st =
     (if new_mem > old_mem then mem_grow key (new_mem - old_mem) st else mem_shrink key (old_mem - new_mem) st)"

definition pfadd :: "(bytes \<Rightarrow> nat) \<Rightarrow> bytes \<Rightarrow> bytes list \<Rightarrow> instant \<Rightarrow> store \<Rightarrow> int result \<times> store" where
  "pfadd hll_count key elements now st =
     (let st = bump_version key st in
      case data_get st key of
        Some e \<Rightarrow>
          if is_expired_at e now then
            (case pf_add_loop elements False hll_empty of
               Inl err \<Rightarrow> (Inl err, st)
             | Inr (changed, regs) \<Rightarrow>
                 (let old_mem = estimate_entry_memory key (en_value e);
                      v = HyperLogLog regs (hll_count regs);
                      st = data_insert key \<lparr>en_value = v, en_expires_at = None, en_lru_clock = lru_clock st\<rparr> st
                  in (Inr (if changed then 1 else 0), mem_replace key old_mem (estimate_entry_memory key v) st)))
          else
            (case en_value e of
               HyperLogLog regs cached \<Rightarrow>
                 (case pf_add_loop elements False regs of
                    Inl err \<Rightarrow> (Inl err, st)
                  | Inr (changed, regs) \<Rightarrow>
                      (Inr (if changed then 1 else 0),
                       data_insert key (e\<lparr>en_value := HyperLogLog regs (if changed then hll_count regs else cached),
                         en_lru_clock := lru_clock st\<rparr>) st))
             | _ \<Rightarrow> (Inl (Err WRONGTYPE), st))
      | None \<Rightarrow>
          (case pf_add_loop elements False hll_empty of
             Inl err \<Rightarrow> (Inl err, st)
           | Inr (changed, regs) \<Rightarrow>
               (let v = HyperLogLog regs (hll_count regs);
                    st = key_added (data_insert key \<lparr>en_value = v, en_expires_at = None, en_lru_clock = lru_clock st\<rparr> st)
                in (Inr (if changed then 1 else 0), mem_grow key (estimate_entry_memory key v) st))))"

definition view_hll :: "bytes \<Rightarrow> instant \<Rightarrow> store \<Rightarrow> (bytes \<times> nat) option result" where
  "view_hll key now st =
     (case data_get st key of
        None \<Rightarrow> Inr None
      | Some e \<Rightarrow>
          if is_expired_at e now then Inr None
          else (case en_value e of HyperLogLog regs cached \<Rightarrow> Inr (Some (regs, cached)) | _ \<Rightarrow> Inl (Err WRONGTYPE)))"

fun pf_merge_loop :: "bytes list \<Rightarrow> instant \<Rightarrow> store \<Rightarrow> bytes \<Rightarrow> bytes result" where
  "pf_merge_loop [] now st merged = Inr merged"
| "pf_merge_loop (key # ks) now st merged =
     (case view_hll key now st of
        Inl e \<Rightarrow> Inl e
      | Inr None \<Rightarrow> pf_merge_loop ks now st merged
      | Inr (Some (regs, _)) \<Rightarrow>
          (case hll_merge merged regs of Inl e \<Rightarrow> Inl e | Inr merged \<Rightarrow> pf_merge_loop ks now st merged))"

definition pfcount :: "(bytes \<Rightarrow> nat) \<Rightarrow> bytes list \<Rightarrow> instant \<Rightarrow> store \<Rightarrow> int result" where
  "pfcount hll_count ks now st =
     (case ks of
        [key] \<Rightarrow>
          (case view_hll key now st of
             Inl e \<Rightarrow> Inl e
           | Inr None \<Rightarrow> Inr 0
           | Inr (Some (_, cached)) \<Rightarrow> Inr (wrap_i64 (int cached)))
      | _ \<Rightarrow>
          (case pf_merge_loop ks now st hll_empty of
             Inl e \<Rightarrow> Inl e
           | Inr merged \<Rightarrow> Inr (wrap_i64 (int (hll_count merged)))))"

definition pfmerge :: "(bytes \<Rightarrow> nat) \<Rightarrow> bytes \<Rightarrow> bytes list \<Rightarrow> instant \<Rightarrow> store \<Rightarrow> unit result \<times> store" where
  "pfmerge hll_count dest sources now st =
     (case pf_merge_loop (dest # sources) now st hll_empty of
        Inl e \<Rightarrow> (Inl e, st)
      | Inr merged \<Rightarrow>
          (let st = bump_version dest st;
               v = HyperLogLog merged (hll_count merged);
               new_mem = estimate_entry_memory dest v;
               e = \<lparr>en_value = v, en_expires_at = None, en_lru_clock = lru_clock st\<rparr>
           in (Inr (),
               case data_get st dest of
                 Some old \<Rightarrow> data_insert dest e (mem_replace dest (estimate_entry_memory dest (en_value old)) new_mem st)
               | None \<Rightarrow> key_added (data_insert dest e (mem_grow dest new_mem st)))))"

section \<open>Sketches\<close>

definition sketch :: "bytes list \<Rightarrow> bytes" where
  "sketch es = map (rank_max es) [0..<HLL_REGISTERS]"

lemma sketch_wf [simp]: "hll_wf (sketch es)"
proof -
  have "rank_max es i \<le> 51" for i by (induction es) (auto simp: hll_rank_le)
  then show ?thesis by (auto simp: hll_wf_def sketch_def)
qed

lemma sketch_Nil: "sketch [] = hll_empty"
  by (rule nth_equalityI) (simp_all add: sketch_def hll_empty_def)

lemma sketch_cong: "set es = set es' \<Longrightarrow> sketch es = sketch es'"
  using rank_max_cong [of es es'] by (simp add: sketch_def)

lemma hll_add_sketch: "hll_add (sketch es) e = Inr (sketch (es @ [e]) \<noteq> sketch es, sketch (es @ [e]))"
proof -
  have up: "(sketch es)[hll_index e := max (sketch es ! hll_index e) (hll_rank e)] = sketch (es @ [e])"
    using hll_index_lt [of e] by (auto simp: sketch_def list_eq_iff_nth_eq nth_list_update)
  have "hll_rank e > sketch es ! hll_index e \<longleftrightarrow> sketch (es @ [e]) \<noteq> sketch es"
  proof
    assume "hll_rank e > sketch es ! hll_index e"
    then have "sketch (es @ [e]) ! hll_index e \<noteq> sketch es ! hll_index e"
      using hll_index_lt [of e] by (simp add: sketch_def)
    then show "sketch (es @ [e]) \<noteq> sketch es" by auto
  next
    assume "sketch (es @ [e]) \<noteq> sketch es"
    then show "hll_rank e > sketch es ! hll_index e"
      using up by (metis list_update_id linorder_not_less max.absorb1)
  qed
  then show ?thesis using up by (simp add: hll_add_result)
qed

lemma hll_merge_sketch: "hll_merge (sketch xs) (sketch ys) = Inr (sketch (xs @ ys))"
  by (simp add: hll_merge_result) (simp add: sketch_def)

text \<open>Registers only grow, so the sketch stays the same exactly when no addition raised one.\<close>

lemma sketch_grows: "sketch (xs @ ys @ zs) = sketch xs \<Longrightarrow> sketch (xs @ ys) = sketch xs"
proof -
  have m: "max a (max b c) = a \<Longrightarrow> max a b = a" for a b c :: byte by (auto simp: max_def split: if_splits)
  assume "sketch (xs @ ys @ zs) = sketch xs"
  then have "i < HLL_REGISTERS \<Longrightarrow> max (rank_max xs i) (max (rank_max ys i) (rank_max zs i)) = rank_max xs i" for i
    by (simp add: sketch_def)
  with m have "i < HLL_REGISTERS \<Longrightarrow> max (rank_max xs i) (rank_max ys i) = rank_max xs i" for i by blast
  then show "sketch (xs @ ys) = sketch xs" by (simp add: sketch_def)
qed

lemma pf_add_loop_sketch:
  "pf_add_loop es c (sketch xs) = Inr (c \<or> sketch (xs @ es) \<noteq> sketch xs, sketch (xs @ es))"
proof (induction es arbitrary: c xs)
  case (Cons e es)
  then show ?case using sketch_grows [of xs "[e]" es] by (auto simp: hll_add_sketch)
qed simp

section \<open>Contracts\<close>

lemma value_inv_Hll [simp]: "value_inv (HyperLogLog regs c)"
  by (simp add: value_inv_def)

lemma mem_replace_simps [simp]:
  "data_get (mem_replace key a b st) = data_get st" "mem_wf (mem_replace key a b st) = mem_wf st"
  "keys_exact (mem_replace key a b st) = keys_exact st"
  by (simp_all add: mem_replace_def)

lemma total_keys_mem [simp]:
  "total_keys (mem_replace key a b st) = total_keys st" "key_count (mem_replace key a b st) = key_count st"
  "total_keys (mem_grow key n st) = total_keys st" "key_count (mem_grow key n st) = key_count st"
  by (simp_all add: mem_replace_def mem_grow_def mem_shrink_def)

definition pfadd_spec :: "(bytes \<Rightarrow> nat) \<Rightarrow> bytes list \<Rightarrow> instant \<Rightarrow> slot \<Rightarrow> int result \<times> slot" where
  "pfadd_spec hc elements now s =
     (case s of
        None \<Rightarrow>
          (case pf_add_loop elements False hll_empty of
             Inl err \<Rightarrow> (Inl err, None)
           | Inr (changed, regs) \<Rightarrow> (Inr (if changed then 1 else 0), Some (HyperLogLog regs (hc regs), None)))
      | Some (HyperLogLog regs cached, exp) \<Rightarrow>
          (case pf_add_loop elements False regs of
             Inl err \<Rightarrow> (Inl err, s)
           | Inr (changed, regs) \<Rightarrow>
               (Inr (if changed then 1 else 0), Some (HyperLogLog regs (if changed then hc regs else cached), exp)))
      | Some _ \<Rightarrow> (Inl (Err WRONGTYPE), s))"

lemma keys_exact_added:
  "mem_wf st \<Longrightarrow> data_get st k = None \<Longrightarrow> keys_exact st \<Longrightarrow> keys_exact (key_added (data_insert k e st))"
  by (simp add: keys_exact_def total_keys_insert)

interpretation pfadd_op: counted_op "pfadd hc key elements" key "pfadd_spec hc elements" for hc key elements
proof unfold_locales
  fix st and now :: instant
  assume wf: "mem_wf st"
  note defs = pfadd_def Let_def
  note splits = option.splits store_value.splits sum.splits prod.splits
  show "mem_wf (snd (pfadd hc key elements now st))" using wf by (auto simp: defs split: splits)
  show "fst (pfadd hc key elements now st) = fst (pfadd_spec hc elements now (view st now key))"
    using wf by (auto simp: defs pfadd_spec_def view_def split: splits)
  show "view (snd (pfadd hc key elements now st)) now key = snd (pfadd_spec hc elements now (view st now key))"
    using wf by (auto simp: defs pfadd_spec_def view_def split: splits)
  show "data_get (snd (pfadd hc key elements now st)) k = data_get st k" if "k \<noteq> key" for k
    using wf that by (auto simp: defs split: splits)
  show "keys_exact (snd (pfadd hc key elements now st))" if "keys_exact st"
    using wf that by (auto simp: defs keys_exact_replace keys_exact_added split: splits)
qed

lemma view_hll_view:
  "view_hll key now st =
     (case view st now key of
        None \<Rightarrow> Inr None | Some (HyperLogLog regs c, _) \<Rightarrow> Inr (Some (regs, c)) | Some _ \<Rightarrow> Inl (Err WRONGTYPE))"
  by (auto simp: view_hll_def view_def split: option.splits store_value.splits)

section \<open>Counting distinct elements\<close>

text \<open>A key that holds the sketch of a sequence of elements; a missing key holds the empty one.\<close>

definition holds_sketch :: "(bytes \<Rightarrow> nat) \<Rightarrow> store \<Rightarrow> instant \<Rightarrow> bytes \<Rightarrow> bytes list \<Rightarrow> bool" where
  "holds_sketch hc st now key es \<longleftrightarrow>
     view_hll key now st = Inr (Some (sketch es, hc (sketch es))) \<or> view_hll key now st = Inr None \<and> es = []"

lemma pf_merge_loop_sketch:
  assumes "\<forall>k \<in> set ks. holds_sketch hc st now k (S k)"
  shows "pf_merge_loop ks now st (sketch xs) = Inr (sketch (xs @ concat (map S ks)))"
  using assms
proof (induction ks arbitrary: xs)
  case (Cons k ks)
  have IH: "pf_merge_loop ks now st (sketch ys) = Inr (sketch (ys @ concat (map S ks)))" for ys
    using Cons by simp
  have "holds_sketch hc st now k (S k)" using Cons.prems by simp
  then show ?case by (auto simp: holds_sketch_def hll_merge_sketch IH)
qed simp

lemma pfadd_sketch:
  assumes "mem_wf st" and "holds_sketch hc st now key es" and "pfadd hc key elements now st = (r, st')"
  shows "r = Inr (if sketch (es @ elements) \<noteq> sketch es then 1 else 0)" and "holds_sketch hc st' now key (es @ elements)"
proof -
  note c = pfadd_op.op_reply [OF assms(1), of hc key elements now] pfadd_op.op_effect [OF assms(1), of hc key elements now]
  consider "view st now key = None" "es = []" | exp where "view st now key = Some (HyperLogLog (sketch es) (hc (sketch es)), exp)"
    using assms(2) by (auto simp: holds_sketch_def view_hll_view split: option.splits store_value.splits)
  then have "r = Inr (if sketch (es @ elements) \<noteq> sketch es then 1 else 0) \<and> holds_sketch hc st' now key (es @ elements)"
  proof cases
    case 1
    then show ?thesis using c assms(3) pf_add_loop_sketch [of elements False "[]"]
      by (auto simp: pfadd_spec_def sketch_Nil holds_sketch_def view_hll_view)
  next
    case 2
    then show ?thesis using c assms(3) by (auto simp: pfadd_spec_def pf_add_loop_sketch holds_sketch_def view_hll_view)
  qed
  then show "r = Inr (if sketch (es @ elements) \<noteq> sketch es then 1 else 0)" "holds_sketch hc st' now key (es @ elements)"
    by simp_all
qed

lemma pfmerge_result:
  assumes "mem_wf st" and "pf_merge_loop (dest # sources) now st hll_empty = Inr m"
  shows "fst (pfmerge hc dest sources now st) = Inr ()" and "mem_wf (snd (pfmerge hc dest sources now st))"
    and "view (snd (pfmerge hc dest sources now st)) now dest = Some (HyperLogLog m (hc m), None)"
    and "k \<noteq> dest \<Longrightarrow> data_get (snd (pfmerge hc dest sources now st)) k = data_get st k"
  using assms by (auto simp: pfmerge_def Let_def view_def simp del: pf_merge_loop.simps split: option.splits)

text \<open>
  Claim C27. The HyperLogLog commands count unions. When each key holds the sketch of
  the elements added to it, \<open>PFCOUNT\<close> of any keys, whether it reads the cached count of
  one key or merges several, is the estimate for the sketch of all their elements;
  \<open>PFADD\<close> leaves the sketch with the new elements and says whether it changed; and
  \<open>PFMERGE\<close> leaves the sketch of the elements of all its keys. The hypothesis on the
  estimate is that it is 0 for no elements.
\<close>

theorem pf_commands_count_unions:
  assumes "mem_wf st" and "\<forall>k. holds_sketch hc st now k (S k)" and "hc (sketch []) = 0"
    and "pfadd hc key elements now st = (r, st')" and "pfmerge hc dest sources now st = (u, st'')"
  shows "pfcount hc ks now st = Inr (wrap_i64 (int (hc (sketch (concat (map S ks)))))) \<and>
    r = Inr (if sketch (S key @ elements) \<noteq> sketch (S key) then 1 else 0) \<and>
    (\<forall>k. holds_sketch hc st' now k (if k = key then S key @ elements else S k)) \<and>
    u = Inr () \<and> (\<forall>k. holds_sketch hc st'' now k (if k = dest then concat (map S (dest # sources)) else S k))"
proof -
  have loop: "pf_merge_loop ks now st hll_empty = Inr (sketch (concat (map S ks)))" for ks
    using pf_merge_loop_sketch [of ks hc st now S "[]"] assms(2) by (simp add: sketch_Nil)
  have z: "wrap_i64 0 = 0" by (simp add: wrap_i64_def)
  have "pfcount hc ks now st = Inr (wrap_i64 (int (hc (sketch (concat (map S ks))))))"
  proof (cases "\<exists>k. ks = [k]")
    case True
    then obtain k where "ks = [k]" by blast
    then show ?thesis using assms(2) [rule_format, of k] assms(3) z by (auto simp: pfcount_def holds_sketch_def)
  next
    case False
    then show ?thesis using loop [of ks] by (auto simp: pfcount_def split: list.splits)
  qed
  moreover note add = pfadd_sketch [OF assms(1) assms(2) [rule_format] assms(4)]
  moreover have "holds_sketch hc st' now k (S k)" if "k \<noteq> key" for k
    using assms(2) [rule_format, of k] pfadd_op.op_view_frame [OF assms(1) that, where hc = hc and elements = elements and now = now and t = now] assms(4)
    by (simp add: holds_sketch_def view_hll_view)
  moreover note merge = pfmerge_result [OF assms(1) loop [of "dest # sources"], where hc = hc]
  have "u = Inr ()" "holds_sketch hc st'' now dest (concat (map S (dest # sources)))"
    using merge(1,3) assms(5) by (simp_all add: holds_sketch_def view_hll_view)
  moreover have "holds_sketch hc st'' now k (S k)" if "k \<noteq> dest" for k
    using assms(2) [rule_format, of k] view_cong [OF merge(4) [OF that]] assms(5) by (simp add: holds_sketch_def view_hll_view)
  ultimately show ?thesis by simp
qed

text \<open>A store with two sketches, and the number of used registers for the estimate.\<close>

definition used_registers :: "bytes \<Rightarrow> nat" where
  "used_registers regs = length (filter (\<lambda>r. r \<noteq> 0) regs)"

definition demo_hll :: store where
  "demo_hll = demo_store (map (\<lambda>k. (k, HyperLogLog (sketch [k]) (used_registers (sketch [k])))) [ascii ''a'', ascii ''b''])"

definition demo_elements :: "bytes \<Rightarrow> bytes list" where
  "demo_elements k = (if k = ascii ''a'' \<or> k = ascii ''b'' then [k] else [])"

lemma demo_hll_holds: "holds_sketch used_registers demo_hll now k (demo_elements k)"
proof -
  have "view demo_hll now k = map_option (\<lambda>v. (v, None)) (map_of (map (\<lambda>k. (k, HyperLogLog (sketch [k])
      (used_registers (sketch [k])))) [ascii ''a'', ascii ''b'']) k)"
    unfolding demo_hll_def by (rule demo_store_view) simp
  then show ?thesis by (simp add: demo_elements_def holds_sketch_def view_hll_view ascii_def)
qed

theorem pf_commands_count_unions_witness:
  "\<exists>r st'. pfadd used_registers (ascii ''a'') [ascii ''a''] 0 demo_hll = (r, st') \<and> r = Inr 0 \<and>
     pfcount used_registers [ascii ''a'', ascii ''b''] 0 demo_hll =
       Inr (wrap_i64 (int (used_registers (sketch [ascii ''a'', ascii ''b'']))))"
proof -
  have wf: "mem_wf demo_hll" unfolding demo_hll_def by (rule demo_store_wf) simp
  have zero: "used_registers (sketch []) = 0" by (simp add: used_registers_def sketch_Nil hll_empty_def filter_replicate)
  obtain r st' where add: "pfadd used_registers (ascii ''a'') [ascii ''a''] 0 demo_hll = (r, st')" by fastforce
  obtain u st'' where merge: "pfmerge used_registers (ascii ''m'') [] 0 demo_hll = (u, st'')" by fastforce
  have same: "sketch [ascii ''a'', ascii ''a''] = sketch [ascii ''a'']" by (rule sketch_cong) simp
  show ?thesis using pf_commands_count_unions [OF wf allI [OF demo_hll_holds] zero add merge, of "[ascii ''a'', ascii ''b'']"] add same
    by (simp add: demo_elements_def)
qed

end
