(* ===== verification/StoreHashes.thy ===== *)
theory StoreHashes
  imports StoreSets
begin

text \<open>
  The hash commands of \<^verbatim>\<open>src/src/store/hashes.rs\<close>, with \<open>hsetnx\<close> and
  \<open>hstrlen\<close> of \<^verbatim>\<open>src/src/store/mod.rs\<close>. Deadlines of fields are wall-clock
  milliseconds; \<open>now_ms\<close> is the reading \<open>epoch_ms\<close> that an operation makes, the
  keyring and the time of the command are further inputs. Lengths stay far below
  the range of \<open>isize\<close>, so that the memory differences are integers.
\<close>

section \<open>Encryption of fields\<close>

definition user_hash_field :: "bytes \<Rightarrow> bytes" where
  "user_hash_field field = key_string field"

definition decrypt_hash_field_value :: "keyring \<Rightarrow> bytes \<Rightarrow> bytes \<Rightarrow> bytes \<Rightarrow> bytes result" where
  "decrypt_hash_field_value kr key field v =
     (if is_table_storage_key key \<or> \<not> kr_is_encrypted_value kr v then Inr v
      else kr_decrypt kr ''__lux_hash'' (user_hash_field field) (user_kv_key key) v)"

definition encrypt_hash_field_value :: "keyring \<Rightarrow> bytes \<Rightarrow> bytes \<Rightarrow> bytes \<Rightarrow> bytes result" where
  "encrypt_hash_field_value kr key field v =
     kr_encrypt kr ''__lux_hash'' (user_hash_field field) (user_kv_key key) v"

text \<open>The values that a decryption fails on are \<open>None\<close>: the result of \<open>ok()\<close>.\<close>

definition ok_opt :: "'a result \<Rightarrow> 'a option" where
  "ok_opt r = (case r of Inl _ \<Rightarrow> None | Inr x \<Rightarrow> Some x)"

text \<open>Collecting an iterator of results stops at the first error.\<close>

fun collect_results :: "'a result list \<Rightarrow> 'a list result" where
  "collect_results [] = Inr []"
| "collect_results (r # rs) =
     (case r of
        Inl e \<Rightarrow> Inl e
      | Inr x \<Rightarrow> (case collect_results rs of Inl e \<Rightarrow> Inl e | Inr xs \<Rightarrow> Inr (x # xs)))"

section \<open>Access to the hash of a key\<close>

text \<open>The match on the entry that every reader starts with.\<close>

definition view_hash :: "bytes \<Rightarrow> instant \<Rightarrow> store \<Rightarrow> hash_data option result" where
  "view_hash key now st =
     (case data_get st key of
        None \<Rightarrow> Inr None
      | Some e \<Rightarrow>
          if is_expired_at e now then Inr None
          else (case en_value e of Hash h \<Rightarrow> Inr (Some h) | _ \<Rightarrow> Inl (Err WRONGTYPE)))"

definition mem_delta :: "bytes \<Rightarrow> int \<Rightarrow> store \<Rightarrow> store" where
  "mem_delta key d st =
     (if d > 0 then mem_grow key (nat d) st else if d < 0 then mem_shrink key (nat (- d)) st else st)"

text \<open>
  The two ways a writer reaches the hash. \<open>upsert_hash\<close> is the entry that is created
  on demand; the operation on the hash gives its reply and the memory difference.
  \<open>modify_hash\<close> is the access that leaves a missing key alone; the operation gives its
  reply and the bytes it freed, and a hash without fields is removed where the command
  does so.
\<close>

definition upsert_hash :: "(hash_data \<Rightarrow> ('r result \<times> int) \<times> hash_data) \<Rightarrow> bytes \<Rightarrow> instant \<Rightarrow> store \<Rightarrow> 'r result \<times> store"
  where
  "upsert_hash f key now st =
     (case entry_or_insert (Hash hash_default) key now st of
        (e, st) \<Rightarrow>
          (case en_value e of
             Hash h \<Rightarrow> (case f h of ((r, d), h) \<Rightarrow> (r, mem_delta key d (put_value key e (Hash h) st)))
           | _ \<Rightarrow> (Inl (Err WRONGTYPE), st)))"

definition modify_hash ::
    "bool \<Rightarrow> 'r \<Rightarrow> (hash_data \<Rightarrow> ('r \<times> nat) \<times> hash_data) \<Rightarrow> bytes \<Rightarrow> instant \<Rightarrow> store \<Rightarrow> 'r result \<times> store" where
  "modify_hash drops missing f key now st =
     (case data_get st key of
        None \<Rightarrow> (Inr missing, st)
      | Some e \<Rightarrow>
          if is_expired_at e now then (Inr missing, st)
          else (case en_value e of
            Hash h \<Rightarrow>
              (case f h of
                 ((r, freed), h) \<Rightarrow>
                   (let st = mem_shrink key freed (put_value key e (Hash h) st) in
                    (Inr r, if drops \<and> hd_fields h = [] then key_removed (data_remove key st) else st)))
          | _ \<Rightarrow> (Inl (Err WRONGTYPE), st)))"

section \<open>Setting and reading fields\<close>

definition prepare_hset_kv ::
    "keyring \<Rightarrow> bytes \<Rightarrow> (bytes \<times> bytes) list \<Rightarrow> bool \<Rightarrow> instant \<Rightarrow> store \<Rightarrow> (bytes \<times> bytes) list result" where
  "prepare_hset_kv kr key pairs encrypted now st =
     (case view_hash key now st of
        Inl e \<Rightarrow> Inl e
      | Inr existing \<Rightarrow>
          collect_results (map (\<lambda>(field, v).
            let existing_encrypted =
                  (case existing of
                     None \<Rightarrow> False
                   | Some h \<Rightarrow>
                       (case hm_get (hd_fields h) (key_str field) of
                          None \<Rightarrow> False
                        | Some raw \<Rightarrow> kr_is_encrypted_value kr raw))
            in map_sum id (Pair field)
                 (if encrypted \<or> existing_encrypted then encrypt_hash_field_value kr key field v else Inr v)) pairs))"

fun hset_loop :: "(bytes \<times> bytes) list \<Rightarrow> int \<Rightarrow> int \<Rightarrow> hash_data \<Rightarrow> (int \<times> int) \<times> hash_data" where
  "hset_loop [] added d h = ((added, d), h)"
| "hset_loop ((field, v) # pairs) added d h =
     (let name = key_string field;
          old = hm_get (hd_fields h) name;
          h = h\<lparr>hd_fields := hm_insert name v (hd_fields h), hd_expiries := hm_remove name (hd_expiries h)\<rparr>
      in case old of
           Some old_val \<Rightarrow> hset_loop pairs added (d + (int (length v) - int (length old_val))) h
         | None \<Rightarrow> hset_loop pairs (added + 1) (d + int (length field + length v + 64)) h)"

definition hset_fields :: "(bytes \<times> bytes) list \<Rightarrow> int \<Rightarrow> hash_data \<Rightarrow> (int result \<times> int) \<times> hash_data" where
  "hset_fields pairs now_ms h =
     (case hset_loop pairs 0 0 (snd (purge_expired now_ms h)) of ((added, d), h) \<Rightarrow> ((Inr added, d), h))"

definition hset_on_shard :: "bytes \<Rightarrow> (bytes \<times> bytes) list \<Rightarrow> int \<Rightarrow> instant \<Rightarrow> store \<Rightarrow> int result \<times> store" where
  "hset_on_shard key pairs now_ms = upsert_hash (hset_fields pairs now_ms) key"

definition hset ::
    "(bytes \<Rightarrow> nat) \<Rightarrow> bytes \<Rightarrow> (bytes \<times> bytes) list \<Rightarrow> int \<Rightarrow> instant \<Rightarrow> instant \<Rightarrow> store \<Rightarrow> int result \<times> store" where
  "hset hll_count key pairs now_ms now inst_now st =
     (case try_promote hll_count key now inst_now st of
        (Inl e, st) \<Rightarrow> (Inl e, st)
      | (Inr _, st) \<Rightarrow> hset_on_shard key pairs now_ms now (bump_version key st))"

definition hget_from_shard :: "bytes \<Rightarrow> bytes \<Rightarrow> int \<Rightarrow> instant \<Rightarrow> store \<Rightarrow> bytes option" where
  "hget_from_shard key field now_ms now st =
     (case view_hash key now st of
        Inr (Some h) \<Rightarrow> get_live (key_str field) now_ms h
      | _ \<Rightarrow> None)"

definition hget_checked ::
    "(bytes \<Rightarrow> nat) \<Rightarrow> keyring \<Rightarrow> bytes \<Rightarrow> bytes \<Rightarrow> int \<Rightarrow> instant \<Rightarrow> instant \<Rightarrow> store \<Rightarrow> bytes option result \<times> store" where
  "hget_checked hll_count kr key field now_ms now inst_now st =
     (case try_promote hll_count key now inst_now st of
        (Inl e, st) \<Rightarrow> (Inl e, st)
      | (Inr _, st) \<Rightarrow>
          (case hget_from_shard key field now_ms now st of
             None \<Rightarrow> (Inr None, st)
           | Some v \<Rightarrow>
               (case decrypt_hash_field_value kr key field v of
                  Inl e \<Rightarrow> (Inl e, poison_journal st)
                | Inr v \<Rightarrow> (Inr (Some v), st))))"

definition hget ::
    "(bytes \<Rightarrow> nat) \<Rightarrow> keyring \<Rightarrow> bytes \<Rightarrow> bytes \<Rightarrow> int \<Rightarrow> instant \<Rightarrow> instant \<Rightarrow> store \<Rightarrow> bytes option \<times> store" where
  "hget hll_count kr key field now_ms now inst_now st =
     (case hget_checked hll_count kr key field now_ms now inst_now st of
        (Inl _, st) \<Rightarrow> (None, st)
      | (Inr v, st) \<Rightarrow> (v, st))"

definition hmget :: "keyring \<Rightarrow> bytes \<Rightarrow> bytes list \<Rightarrow> int \<Rightarrow> instant \<Rightarrow> store \<Rightarrow> bytes option list" where
  "hmget kr key fs now_ms now st =
     (case view_hash key now st of
        Inr (Some h) \<Rightarrow>
          map (\<lambda>f. case get_live (key_str f) now_ms h of
                 None \<Rightarrow> None
               | Some v \<Rightarrow> ok_opt (decrypt_hash_field_value kr key f v)) fs
      | _ \<Rightarrow> map (\<lambda>_. None) fs)"

definition hgetall ::
    "(bytes \<Rightarrow> nat) \<Rightarrow> keyring \<Rightarrow> bytes \<Rightarrow> int \<Rightarrow> instant \<Rightarrow> instant \<Rightarrow> store \<Rightarrow> (bytes \<times> bytes) list result \<times> store" where
  "hgetall hll_count kr key now_ms now inst_now st =
     (case try_promote hll_count key now inst_now st of
        (Inl e, st) \<Rightarrow> (Inl e, st)
      | (Inr _, st) \<Rightarrow>
          (case view_hash key now st of
             Inl e \<Rightarrow> (Inl e, st)
           | Inr None \<Rightarrow> (Inr [], st)
           | Inr (Some h) \<Rightarrow>
               (collect_results (map (\<lambda>(k, v). map_sum id (Pair k) (decrypt_hash_field_value kr key k v)) (live_iter now_ms h)),
                st)))"

definition hkeys :: "bytes \<Rightarrow> int \<Rightarrow> instant \<Rightarrow> store \<Rightarrow> bytes list result" where
  "hkeys key now_ms now st =
     (case view_hash key now st of
        Inl e \<Rightarrow> Inl e
      | Inr None \<Rightarrow> Inr []
      | Inr (Some h) \<Rightarrow> Inr (map fst (live_iter now_ms h)))"

definition hvals :: "keyring \<Rightarrow> bytes \<Rightarrow> int \<Rightarrow> instant \<Rightarrow> store \<Rightarrow> bytes list result" where
  "hvals kr key now_ms now st =
     (case view_hash key now st of
        Inl e \<Rightarrow> Inl e
      | Inr None \<Rightarrow> Inr []
      | Inr (Some h) \<Rightarrow> collect_results (map (\<lambda>(k, v). decrypt_hash_field_value kr key k v) (live_iter now_ms h)))"

definition hlen :: "bytes \<Rightarrow> int \<Rightarrow> instant \<Rightarrow> store \<Rightarrow> int result" where
  "hlen key now_ms now st =
     (case view_hash key now st of
        Inl e \<Rightarrow> Inl e
      | Inr None \<Rightarrow> Inr 0
      | Inr (Some h) \<Rightarrow> Inr (int (live_len now_ms h)))"

definition hexists :: "bytes \<Rightarrow> bytes \<Rightarrow> int \<Rightarrow> instant \<Rightarrow> store \<Rightarrow> bool result" where
  "hexists key field now_ms now st =
     (case view_hash key now st of
        Inl e \<Rightarrow> Inl e
      | Inr None \<Rightarrow> Inr False
      | Inr (Some h) \<Rightarrow> Inr (contains_live (key_str field) now_ms h))"

definition hstrlen :: "bytes \<Rightarrow> bytes \<Rightarrow> instant \<Rightarrow> store \<Rightarrow> int" where
  "hstrlen key field now st =
     (case view_hash key now st of
        Inr (Some h) \<Rightarrow> (case hm_get (hd_fields h) (key_str field) of None \<Rightarrow> 0 | Some v \<Rightarrow> int (length v))
      | _ \<Rightarrow> 0)"

section \<open>Removing and counting\<close>

fun hdel_loop :: "bytes list \<Rightarrow> int \<Rightarrow> int \<Rightarrow> nat \<Rightarrow> hash_data \<Rightarrow> (int \<times> nat) \<times> hash_data" where
  "hdel_loop [] now_ms removed freed h = ((removed, freed), h)"
| "hdel_loop (f # fs) now_ms removed freed h =
     (let name = key_str f;
          expired = field_expired name now_ms h;
          old = hm_get (hd_fields h) name;
          h = h\<lparr>hd_fields := hm_remove name (hd_fields h), hd_expiries := hm_remove name (hd_expiries h)\<rparr>
      in case old of
           Some old_val \<Rightarrow> hdel_loop fs now_ms (if \<not> expired then removed + 1 else removed) (freed + (length f + length old_val + 64)) h
         | None \<Rightarrow> hdel_loop fs now_ms removed freed h)"

definition hdel ::
    "(bytes \<Rightarrow> nat) \<Rightarrow> bytes \<Rightarrow> bytes list \<Rightarrow> int \<Rightarrow> instant \<Rightarrow> instant \<Rightarrow> store \<Rightarrow> int result \<times> store" where
  "hdel hll_count key fs now_ms now inst_now st =
     (case try_promote hll_count key now inst_now st of
        (Inl e, st) \<Rightarrow> (Inl e, st)
      | (Inr _, st) \<Rightarrow> modify_hash True 0 (hdel_loop fs now_ms 0 0) key now (bump_version key st))"

definition hincrby_field :: "bytes \<Rightarrow> int \<Rightarrow> int \<Rightarrow> hash_data \<Rightarrow> (int result \<times> int) \<times> hash_data" where
  "hincrby_field field delta now_ms h =
     (let h = snd (purge_expired now_ms h);
          name = key_str field;
          h = h\<lparr>hd_expiries := hm_remove name (hd_expiries h)\<rparr>
      in case hm_get (hd_fields h) name of
           Some v \<Rightarrow>
             (case (if utf8_valid v then parse_i64 v else None) of
                None \<Rightarrow> ((Inl (Err ''ERR hash value is not an integer''), 0), h)
              | Some current \<Rightarrow>
                  (let new_val = wrap_i64 (current + delta); s = i64_to_string new_val in
                   ((Inr new_val, int (length s) - int (length v)),
                    h\<lparr>hd_fields := hm_insert name s (hd_fields h)\<rparr>)))
         | None \<Rightarrow>
             (let s = i64_to_string delta in
              ((Inr delta, int (length field + length s + 64)),
               h\<lparr>hd_fields := hm_insert (key_string field) s (hd_fields h)\<rparr>)))"

definition hincrby_on_shard :: "bytes \<Rightarrow> bytes \<Rightarrow> int \<Rightarrow> int \<Rightarrow> instant \<Rightarrow> store \<Rightarrow> int result \<times> store" where
  "hincrby_on_shard key field delta now_ms = upsert_hash (hincrby_field field delta now_ms) key"

definition hincrby :: "bytes \<Rightarrow> bytes \<Rightarrow> int \<Rightarrow> int \<Rightarrow> instant \<Rightarrow> store \<Rightarrow> int result \<times> store" where
  "hincrby key field delta now_ms now st = hincrby_on_shard key field delta now_ms now (bump_version key st)"

definition hsetnx_field :: "bytes \<Rightarrow> bytes \<Rightarrow> hash_data \<Rightarrow> (bool result \<times> int) \<times> hash_data" where
  "hsetnx_field field v h =
     (let name = key_str field in
      if hm_contains (hd_fields h) name then ((Inr False, 0), h)
      else ((Inr True, int (length field + length v + 64)), h\<lparr>hd_fields := hm_insert name v (hd_fields h)\<rparr>))"

definition hsetnx :: "bytes \<Rightarrow> bytes \<Rightarrow> bytes \<Rightarrow> instant \<Rightarrow> store \<Rightarrow> bool result \<times> store" where
  "hsetnx key field v now st = upsert_hash (hsetnx_field field v) key now (bump_version key st)"

section \<open>Deadlines of fields\<close>

datatype hexpire_cond = CondNone | CondNx | CondXx | CondGt | CondLt

datatype hfield_ttl = TtlMissing | NoTtl | ExpiresAtMs int

datatype hgetex_ttl = KeepTtl | PersistTtl | SetMs int

definition hexpire_allowed :: "hexpire_cond \<Rightarrow> int \<Rightarrow> int option \<Rightarrow> bool" where
  "hexpire_allowed cond deadline_ms cur =
     (case cond of
        CondNone \<Rightarrow> True
      | CondNx \<Rightarrow> cur = None
      | CondXx \<Rightarrow> cur \<noteq> None
      | CondGt \<Rightarrow> (case cur of None \<Rightarrow> False | Some c \<Rightarrow> deadline_ms > c)
      | CondLt \<Rightarrow> (case cur of None \<Rightarrow> True | Some c \<Rightarrow> deadline_ms < c))"

text \<open>Dropping a field with its deadline, and the bytes that frees.\<close>

definition drop_field :: "bytes \<Rightarrow> hash_data \<Rightarrow> nat \<times> hash_data" where
  "drop_field f h =
     (let name = key_str f in
      (case hm_get (hd_fields h) name of None \<Rightarrow> 0 | Some v \<Rightarrow> length f + length v + 64,
       h\<lparr>hd_fields := hm_remove name (hd_fields h), hd_expiries := hm_remove name (hd_expiries h)\<rparr>))"

fun hexpire_loop :: "bytes list \<Rightarrow> int \<Rightarrow> hexpire_cond \<Rightarrow> int \<Rightarrow> nat \<Rightarrow> hash_data \<Rightarrow> (int list \<times> nat) \<times> hash_data" where
  "hexpire_loop [] deadline_ms cond now_ms freed h = (([], freed), h)"
| "hexpire_loop (f # fs) deadline_ms cond now_ms freed h =
     (let name = key_str f in
      if \<not> hm_contains (hd_fields h) name then
        map_prod (map_prod (Cons (- 2)) id) id (hexpire_loop fs deadline_ms cond now_ms freed h)
      else if \<not> hexpire_allowed cond deadline_ms (hm_get (hd_expiries h) name) then
        map_prod (map_prod (Cons 0) id) id (hexpire_loop fs deadline_ms cond now_ms freed h)
      else if deadline_ms \<le> now_ms then
        (case drop_field f h of
           (mem, h) \<Rightarrow> map_prod (map_prod (Cons 2) id) id (hexpire_loop fs deadline_ms cond now_ms (freed + mem) h))
      else
        map_prod (map_prod (Cons 1) id) id
          (hexpire_loop fs deadline_ms cond now_ms freed (h\<lparr>hd_expiries := hm_insert name deadline_ms (hd_expiries h)\<rparr>)))"

definition hexpire_fields ::
    "bytes \<Rightarrow> bytes list \<Rightarrow> int \<Rightarrow> hexpire_cond \<Rightarrow> int \<Rightarrow> instant \<Rightarrow> store \<Rightarrow> int list result \<times> store" where
  "hexpire_fields key fs deadline_ms cond now_ms now st =
     modify_hash True (map (\<lambda>_. - 2) fs)
       (\<lambda>h. hexpire_loop fs deadline_ms cond now_ms 0 (snd (purge_expired now_ms h))) key now (bump_version key st)"

definition httl_fields :: "bytes \<Rightarrow> bytes list \<Rightarrow> int \<Rightarrow> instant \<Rightarrow> store \<Rightarrow> hfield_ttl list result" where
  "httl_fields key fs now_ms now st =
     (case view_hash key now st of
        Inl e \<Rightarrow> Inl e
      | Inr None \<Rightarrow> Inr (map (\<lambda>_. TtlMissing) fs)
      | Inr (Some h) \<Rightarrow>
          Inr (map (\<lambda>f. let name = key_str f in
            if \<not> contains_live name now_ms h then TtlMissing
            else (case hm_get (hd_expiries h) name of Some ms \<Rightarrow> ExpiresAtMs ms | None \<Rightarrow> NoTtl)) fs))"

fun hpersist_loop :: "bytes list \<Rightarrow> hash_data \<Rightarrow> int list \<times> hash_data" where
  "hpersist_loop [] h = ([], h)"
| "hpersist_loop (f # fs) h =
     (let name = key_str f in
      if \<not> hm_contains (hd_fields h) name then map_prod (Cons (- 2)) id (hpersist_loop fs h)
      else if hm_contains (hd_expiries h) name then
        map_prod (Cons 1) id (hpersist_loop fs (h\<lparr>hd_expiries := hm_remove name (hd_expiries h)\<rparr>))
      else map_prod (Cons (- 1)) id (hpersist_loop fs h))"

definition hpersist_fields :: "bytes \<Rightarrow> bytes list \<Rightarrow> int \<Rightarrow> instant \<Rightarrow> store \<Rightarrow> int list result \<times> store" where
  "hpersist_fields key fs now_ms now st =
     modify_hash False (map (\<lambda>_. - 2) fs)
       (\<lambda>h. case hpersist_loop fs (snd (purge_expired now_ms h)) of (rs, h) \<Rightarrow> ((rs, 0), h)) key now (bump_version key st)"

fun hgetdel_loop :: "keyring \<Rightarrow> bytes \<Rightarrow> bytes list \<Rightarrow> nat \<Rightarrow> hash_data \<Rightarrow> (bytes option list \<times> nat) \<times> hash_data" where
  "hgetdel_loop kr key [] freed h = (([], freed), h)"
| "hgetdel_loop kr key (f # fs) freed h =
     (let r = (case hm_get (hd_fields h) (key_str f) of
                 Some v \<Rightarrow> ok_opt (decrypt_hash_field_value kr key f v)
               | None \<Rightarrow> None)
      in case drop_field f h of
           (mem, h) \<Rightarrow> map_prod (map_prod (Cons r) id) id (hgetdel_loop kr key fs (freed + mem) h))"

definition hgetdel_fields ::
    "keyring \<Rightarrow> bytes \<Rightarrow> bytes list \<Rightarrow> int \<Rightarrow> instant \<Rightarrow> store \<Rightarrow> bytes option list result \<times> store" where
  "hgetdel_fields kr key fs now_ms now st =
     modify_hash True (map (\<lambda>_. None) fs)
       (\<lambda>h. hgetdel_loop kr key fs 0 (snd (purge_expired now_ms h))) key now (bump_version key st)"

fun hgetex_loop ::
    "keyring \<Rightarrow> bytes \<Rightarrow> bytes list \<Rightarrow> hgetex_ttl \<Rightarrow> int \<Rightarrow> nat \<Rightarrow> hash_data \<Rightarrow> (bytes option list \<times> nat) \<times> hash_data" where
  "hgetex_loop kr key [] ttl now_ms freed h = (([], freed), h)"
| "hgetex_loop kr key (f # fs) ttl now_ms freed h =
     (let name = key_str f;
          v = (case hm_get (hd_fields h) name of
                 Some v \<Rightarrow> ok_opt (decrypt_hash_field_value kr key f v)
               | None \<Rightarrow> None)
      in case (if v = None then (0, h)
               else case ttl of
                 KeepTtl \<Rightarrow> (0, h)
               | PersistTtl \<Rightarrow> (0, h\<lparr>hd_expiries := hm_remove name (hd_expiries h)\<rparr>)
               | SetMs ms \<Rightarrow>
                   if ms \<le> now_ms then drop_field f h
                   else (0, h\<lparr>hd_expiries := hm_insert name ms (hd_expiries h)\<rparr>)) of
           (mem, h) \<Rightarrow> map_prod (map_prod (Cons v) id) id (hgetex_loop kr key fs ttl now_ms (freed + mem) h))"

definition hgetex_fields ::
    "keyring \<Rightarrow> bytes \<Rightarrow> bytes list \<Rightarrow> hgetex_ttl \<Rightarrow> int \<Rightarrow> instant \<Rightarrow> store \<Rightarrow> bytes option list result \<times> store" where
  "hgetex_fields kr key fs ttl now_ms now st =
     modify_hash True (map (\<lambda>_. None) fs)
       (\<lambda>h. hgetex_loop kr key fs ttl now_ms 0 (snd (purge_expired now_ms h))) key now
       (if ttl = KeepTtl then st else bump_version key st)"

section \<open>Contracts\<close>

lemma value_inv_Hash [simp]: "value_inv (Hash h) = hash_wf h"
  by (simp add: value_inv_def)

lemma mem_delta_simps [simp]:
  "data_get (mem_delta key d st) = data_get st" "mem_wf (mem_delta key d st) = mem_wf st"
  "keys_exact (mem_delta key d st) = keys_exact st"
  by (simp_all add: mem_delta_def)

definition upsert_hash_spec :: "(hash_data \<Rightarrow> ('r result \<times> int) \<times> hash_data) \<Rightarrow> instant \<Rightarrow> slot \<Rightarrow> 'r result \<times> slot" where
  "upsert_hash_spec f now s =
     (case slot_value (Hash hash_default) s of
        (Hash h, exp) \<Rightarrow> (case f h of ((r, _), h) \<Rightarrow> (r, Some (Hash h, exp)))
      | _ \<Rightarrow> (Inl (Err WRONGTYPE), s))"

definition modify_hash_spec ::
    "bool \<Rightarrow> 'r \<Rightarrow> (hash_data \<Rightarrow> ('r \<times> nat) \<times> hash_data) \<Rightarrow> instant \<Rightarrow> slot \<Rightarrow> 'r result \<times> slot" where
  "modify_hash_spec drops missing f now s =
     (case s of
        None \<Rightarrow> (Inr missing, None)
      | Some (Hash h, exp) \<Rightarrow>
          (case f h of ((r, _), h) \<Rightarrow> (Inr r, if drops \<and> hd_fields h = [] then None else Some (Hash h, exp)))
      | Some _ \<Rightarrow> (Inl (Err WRONGTYPE), s))"

lemma upsert_hash_op:
  assumes f: "\<And>h. hash_wf h \<Longrightarrow> hash_wf (snd (f h))"
  shows "counted_op (\<lambda>now st. upsert_hash f key now (bump_version key st)) key (upsert_hash_spec f)"
proof unfold_locales
  fix st and now :: instant
  assume wf: "mem_wf st"
  let ?op = "upsert_hash f key now (bump_version key st)"
  obtain e st1 where e: "entry_or_insert (Hash hash_default) key now (bump_version key st) = (e, st1)" by fastforce
  note c = upsert_contract [OF wf _ e, simplified]
  have def: "?op = (case en_value e of
      Hash h \<Rightarrow> (case f h of ((r, d), h) \<Rightarrow> (r, mem_delta key d (put_value key e (Hash h) st1)))
    | _ \<Rightarrow> (Inl (Err WRONGTYPE), st1))"
    using e by (simp add: upsert_hash_def)
  have inv: "hash_wf h'" if "en_value e = Hash h" "f h = (p, h')" for h h' p
    using f [of h] that c(4) by simp
  show "mem_wf (snd ?op)" using c(1,4) inv unfolding def by (auto split: store_value.splits prod.splits)
  show "fst ?op = fst (upsert_hash_spec f now (view st now key))"
    unfolding def upsert_hash_spec_def c(5) by (auto split: store_value.splits prod.splits)
  show "view (snd ?op) now key = snd (upsert_hash_spec f now (view st now key))"
  proof (cases "\<exists>h. en_value e = Hash h")
    case True
    then show ?thesis using c(1-3) unfolding def upsert_hash_spec_def c(5)
      by (auto simp: view_Some split: prod.splits)
  next
    case False
    then have "view st now key = Some (en_value e, en_expires_at e)" using slot_value_wrong [OF c(5)] by auto
    then show ?thesis using False c(8) unfolding def upsert_hash_spec_def
      by (auto simp: slot_value_def split: store_value.splits)
  qed
  show "data_get (snd ?op) k = data_get st k" if "k \<noteq> key" for k
    using c(1,6) that unfolding def by (auto split: store_value.splits prod.splits)
  show "keys_exact (snd ?op)" if "keys_exact st"
    using c(1,2,7) that unfolding def by (auto split: store_value.splits prod.splits)
qed

lemma mem_wf_hash: "data_get st k = Some e \<Longrightarrow> en_value e = Hash h \<Longrightarrow> mem_wf st \<Longrightarrow> hash_wf h"
  using mem_wf_value_inv by fastforce

lemma keys_exact_removed:
  assumes "mem_wf st" and "data_get st k = Some e" and "keys_exact st"
  shows "keys_exact (key_removed (data_remove k st))"
  using assms total_keys_remove [of st k] by (auto simp: keys_exact_def)

lemma modify_hash_counted:
  assumes f: "\<And>h. hash_wf h \<Longrightarrow> hash_wf (snd (f h))"
  shows "counted_op (modify_hash drops missing f key) key (modify_hash_spec drops missing f)"
proof unfold_locales
  fix st and now :: instant
  assume wf: "mem_wf st"
  let ?op = "modify_hash drops missing f key now st"
  have inv: "hash_wf h'" if "data_get st key = Some e" "en_value e = Hash h" "f h = (p, h')" for e h h' p
    using f [of h] mem_wf_hash [OF that(1,2) wf] that(3) by simp
  show "mem_wf (snd ?op)"
    using wf inv by (auto simp: modify_hash_def Let_def split: option.splits store_value.splits prod.splits)
  show "fst ?op = fst (modify_hash_spec drops missing f now (view st now key))"
    by (auto simp: modify_hash_def modify_hash_spec_def view_def Let_def split: option.splits store_value.splits prod.splits)
  show "view (snd ?op) now key = snd (modify_hash_spec drops missing f now (view st now key))"
    using wf inv
    by (auto simp: modify_hash_def modify_hash_spec_def view_def Let_def split: option.splits store_value.splits prod.splits)
  show "data_get (snd ?op) k = data_get st k" if "k \<noteq> key" for k
    using wf inv that by (auto simp: modify_hash_def Let_def split: option.splits store_value.splits prod.splits)
  show "keys_exact (snd ?op)" if "keys_exact st"
    using wf inv that
    by (auto simp: modify_hash_def Let_def keys_exact_removed split: option.splits store_value.splits prod.splits)
qed

section \<open>Hashes as maps with deadlines\<close>

text \<open>
  What a client can see of a hash at a wall-clock time: the live fields with their
  values and deadlines.
\<close>

type_synonym fields_map = "bytes \<Rightarrow> (bytes \<times> int option) option"

definition hash_view :: "int \<Rightarrow> hash_data \<Rightarrow> fields_map" where
  "hash_view t h f = map_option (\<lambda>v. (v, hm_get (hd_expiries h) f)) (get_live f t h)"

definition all_live :: "int \<Rightarrow> hash_data \<Rightarrow> bool" where
  "all_live t h \<longleftrightarrow> (\<forall>f. \<not> field_expired f t h)"

definition age_fields :: "int \<Rightarrow> fields_map \<Rightarrow> fields_map" where
  "age_fields t m f = (case m f of Some (v, Some x) \<Rightarrow> if x \<le> t then None else m f | r \<Rightarrow> r)"

lemma hash_view_age: "t \<le> t' \<Longrightarrow> hash_view t' h = age_fields t' (hash_view t h)"
  by (rule ext) (auto simp: hash_view_def age_fields_def get_live_def field_expired_def split: option.splits)

lemma finite_hash_view: "finite (dom (hash_view t h))"
proof (rule finite_subset)
  show "dom (hash_view t h) \<subseteq> fst ` set (hd_fields h)"
    by (force simp: hash_view_def get_live_def dest: hm_get_SomeD split: if_splits)
qed simp

lemma all_live_view: "all_live t h \<Longrightarrow> hash_view t h f = map_option (\<lambda>v. (v, hm_get (hd_expiries h) f)) (hm_get (hd_fields h) f)"
  by (simp add: all_live_def hash_view_def get_live_def)

lemma hash_view_empty: "hd_fields h = [] \<Longrightarrow> hash_view t h = Map.empty"
  by (rule ext) (simp add: hash_view_def get_live_def)

lemma purge_view:
  assumes "hash_wf h"
  shows "hash_wf (snd (purge_expired t h))" and "all_live t (snd (purge_expired t h))"
    and "hash_view t (snd (purge_expired t h)) = hash_view t h"
proof -
  obtain p h' where p: "purge_expired t h = (p, h')" by fastforce
  note r = purge_expired_result [OF assms, of t "fst p" "snd p" h', simplified, OF p]
  show "hash_wf (snd (purge_expired t h))" using r(1) p by simp
  show "all_live t (snd (purge_expired t h))"
    using r(3) p by (auto simp: all_live_def field_expired_def split: option.splits if_splits)
  then show "hash_view t (snd (purge_expired t h)) = hash_view t h"
    using r(2,3) p by (auto simp: fun_eq_iff all_live_view) (auto simp: hash_view_def get_live_def)
qed

text \<open>The three updates of a hash and what they do to its view.\<close>

lemma drop_field_view:
  assumes "hash_wf h" and "drop_field f h = (mem, h')"
  shows "hash_wf h'" and "hash_view t h' = (hash_view t h)(key_str f := None)" and "all_live t h \<Longrightarrow> all_live t h'"
  using assms
  by (auto simp: drop_field_def Let_def hash_wf_def hash_view_def get_live_def all_live_def field_expired_def fun_eq_iff
      split: if_splits)

lemma put_field_view:
  assumes "hash_wf h"
  shows "hash_view t (h\<lparr>hd_fields := hm_insert f v (hd_fields h), hd_expiries := hm_remove f (hd_expiries h)\<rparr>) =
      (hash_view t h)(f \<mapsto> (v, None))"
    and "all_live t h \<Longrightarrow> all_live t (h\<lparr>hd_fields := hm_insert f v (hd_fields h), hd_expiries := hm_remove f (hd_expiries h)\<rparr>)"
  using assms
  by (auto simp: hash_wf_def hash_view_def get_live_def all_live_def field_expired_def fun_eq_iff split: if_splits)

lemma deadline_view:
  assumes "hash_wf h"
  shows "t < x \<Longrightarrow> all_live t h \<Longrightarrow> hash_view t (h\<lparr>hd_expiries := hm_insert f x (hd_expiries h)\<rparr>) =
      (hash_view t h)(f := map_option (\<lambda>(v, _). (v, Some x)) (hash_view t h f))"
    and "all_live t h \<Longrightarrow> hash_view t (h\<lparr>hd_expiries := hm_remove f (hd_expiries h)\<rparr>) =
      (hash_view t h)(f := map_option (\<lambda>(v, _). (v, None)) (hash_view t h f))"
    and "t < x \<Longrightarrow> all_live t h \<Longrightarrow> all_live t (h\<lparr>hd_expiries := hm_insert f x (hd_expiries h)\<rparr>)"
    and "all_live t h \<Longrightarrow> all_live t (h\<lparr>hd_expiries := hm_remove f (hd_expiries h)\<rparr>)"
  using assms
  by (auto simp: hash_wf_def hash_view_def get_live_def all_live_def field_expired_def fun_eq_iff option.map_comp o_def
      split: if_splits)

section \<open>Operations on fields\<close>

text \<open>
  The contract of an operation on the fields of one hash: at a wall-clock time, its
  reply and the new live fields depend on the live fields alone.
\<close>

locale field_op =
  fixes f :: "int \<Rightarrow> hash_data \<Rightarrow> ('r \<times> 'm) \<times> hash_data" and spec :: "int \<Rightarrow> fields_map \<Rightarrow> 'r \<times> fields_map"
  assumes field_wf: "hash_wf h \<Longrightarrow> hash_wf (snd (f t h))"
    and field_reply: "hash_wf h \<Longrightarrow> fst (fst (f t h)) = fst (spec t (hash_view t h))"
    and field_effect: "hash_wf h \<Longrightarrow> hash_view t (snd (f t h)) = snd (spec t (hash_view t h))"
begin

lemma field_later: "hash_wf h \<Longrightarrow> t \<le> t' \<Longrightarrow> hash_view t' (snd (f t h)) = age_fields t' (snd (spec t (hash_view t h)))"
  by (simp add: hash_view_age field_effect)

end

fun put_all :: "(bytes \<times> bytes) list \<Rightarrow> fields_map \<Rightarrow> fields_map" where
  "put_all [] m = m"
| "put_all ((f, v) # pairs) m = put_all pairs (m(key_string f \<mapsto> (v, None)))"

definition hset_spec :: "(bytes \<times> bytes) list \<Rightarrow> int \<Rightarrow> fields_map \<Rightarrow> int result \<times> fields_map" where
  "hset_spec pairs t m = (Inr (int (card (dom (put_all pairs m))) - int (card (dom m))), put_all pairs m)"

definition hdel_spec :: "bytes list \<Rightarrow> int \<Rightarrow> fields_map \<Rightarrow> int \<times> fields_map" where
  "hdel_spec fs t m = (int (card (dom m \<inter> key_str ` set fs)), m |` (- key_str ` set fs))"

fun hexpire_spec :: "bytes list \<Rightarrow> int \<Rightarrow> hexpire_cond \<Rightarrow> int \<Rightarrow> fields_map \<Rightarrow> int list \<times> fields_map" where
  "hexpire_spec [] deadline_ms cond t m = ([], m)"
| "hexpire_spec (f # fs) deadline_ms cond t m =
     (let name = key_str f in
      case m name of
        None \<Rightarrow> map_prod (Cons (- 2)) id (hexpire_spec fs deadline_ms cond t m)
      | Some (v, cur) \<Rightarrow>
          if \<not> hexpire_allowed cond deadline_ms cur then map_prod (Cons 0) id (hexpire_spec fs deadline_ms cond t m)
          else if deadline_ms \<le> t then map_prod (Cons 2) id (hexpire_spec fs deadline_ms cond t (m(name := None)))
          else map_prod (Cons 1) id (hexpire_spec fs deadline_ms cond t (m(name \<mapsto> (v, Some deadline_ms)))))"

fun hpersist_spec :: "bytes list \<Rightarrow> fields_map \<Rightarrow> int list \<times> fields_map" where
  "hpersist_spec [] m = ([], m)"
| "hpersist_spec (f # fs) m =
     (let name = key_str f in
      case m name of
        None \<Rightarrow> map_prod (Cons (- 2)) id (hpersist_spec fs m)
      | Some (v, Some _) \<Rightarrow> map_prod (Cons 1) id (hpersist_spec fs (m(name \<mapsto> (v, None))))
      | Some (v, None) \<Rightarrow> map_prod (Cons (- 1)) id (hpersist_spec fs m))"

definition shown :: "keyring \<Rightarrow> bytes \<Rightarrow> bytes \<Rightarrow> fields_map \<Rightarrow> bytes option" where
  "shown kr key f m =
     (case m (key_str f) of None \<Rightarrow> None | Some (v, _) \<Rightarrow> ok_opt (decrypt_hash_field_value kr key f v))"

fun hgetdel_spec :: "keyring \<Rightarrow> bytes \<Rightarrow> bytes list \<Rightarrow> fields_map \<Rightarrow> bytes option list \<times> fields_map" where
  "hgetdel_spec kr key [] m = ([], m)"
| "hgetdel_spec kr key (f # fs) m =
     map_prod (Cons (shown kr key f m)) id (hgetdel_spec kr key fs (m(key_str f := None)))"

fun hgetex_spec :: "keyring \<Rightarrow> bytes \<Rightarrow> bytes list \<Rightarrow> hgetex_ttl \<Rightarrow> int \<Rightarrow> fields_map \<Rightarrow> bytes option list \<times> fields_map" where
  "hgetex_spec kr key [] ttl t m = ([], m)"
| "hgetex_spec kr key (f # fs) ttl t m =
     (let name = key_str f;
          m' = (case shown kr key f m of
                  None \<Rightarrow> m
                | Some _ \<Rightarrow>
                    (case ttl of
                       KeepTtl \<Rightarrow> m
                     | PersistTtl \<Rightarrow> m(name := map_option (\<lambda>(v, _). (v, None)) (m name))
                     | SetMs ms \<Rightarrow>
                         m(name := if ms \<le> t then None else map_option (\<lambda>(v, _). (v, Some ms)) (m name))))
      in map_prod (Cons (shown kr key f m)) id (hgetex_spec kr key fs ttl t m'))"

lemma put_all_finite: "finite (dom m) \<Longrightarrow> finite (dom (put_all pairs m))"
  by (induction pairs m rule: put_all.induct) auto

lemma hset_loop_view:
  assumes "hash_wf h" and "all_live t h" and "hset_loop pairs a d h = ((a', d'), h')"
  shows "hash_wf h' \<and> hash_view t h' = put_all pairs (hash_view t h)
    \<and> a' - a = int (card (dom (put_all pairs (hash_view t h)))) - int (card (dom (hash_view t h)))"
  using assms
proof (induction pairs arbitrary: a d h)
  case (Cons p pairs)
  obtain f v where p: "p = (f, v)" by (cases p)
  let ?n = "key_string f"
  define h1 where "h1 = h\<lparr>hd_fields := hm_insert ?n v (hd_fields h), hd_expiries := hm_remove ?n (hd_expiries h)\<rparr>"
  have wf: "hash_wf h1" "all_live t h1" "hash_view t h1 = (hash_view t h)(?n \<mapsto> (v, None))"
    using Cons.prems(1,2) put_field_view [OF Cons.prems(1), of t ?n v] by (simp_all add: hash_wf_def h1_def)
  let ?a = "if hash_view t h ?n = None then a + 1 else a"
  obtain d1 where loop: "hset_loop pairs ?a d1 h1 = ((a', d'), h')"
    using Cons.prems(3) all_live_view [OF Cons.prems(2), of ?n]
    by (auto simp: p Let_def h1_def [symmetric] split: option.splits)
  have "dom (hash_view t h1) = insert ?n (dom (hash_view t h))" using wf(3) by simp
  then have "int (card (dom (hash_view t h1))) - int (card (dom (hash_view t h))) = ?a - a"
    using finite_hash_view [of t h] by (simp add: card_insert_if domIff)
  then show ?case using Cons.IH [OF wf(1,2) loop] unfolding p put_all.simps wf(3) [symmetric] by linarith
qed simp

lemma hdel_loop_view:
  assumes "hash_wf h" and "hdel_loop fs t r freed h = ((r', freed'), h')"
  shows "hash_wf h' \<and> hash_view t h' = hash_view t h |` (- key_str ` set fs)
    \<and> r' = r + int (card (dom (hash_view t h) \<inter> key_str ` set fs))"
  using assms
proof (induction fs arbitrary: r freed h)
  case (Cons f fs)
  let ?n = "key_str f"
  obtain mem h1 where d: "drop_field f h = (mem, h1)" by fastforce
  note v = drop_field_view(1) [OF Cons.prems(1) d] drop_field_view(2,3) [OF Cons.prems(1) d, of t]
  let ?r = "if hash_view t h ?n = None then r else r + 1"
  have h1: "h\<lparr>hd_fields := hm_remove ?n (hd_fields h), hd_expiries := hm_remove ?n (hd_expiries h)\<rparr> = h1"
    using d by (simp add: drop_field_def Let_def)
  obtain freed1 where loop: "hdel_loop fs t ?r freed1 h1 = ((r', freed'), h')"
    using Cons.prems(2) h1
    by (cases "hm_get (hd_fields h) ?n"; cases "field_expired ?n t h") (auto simp: Let_def hash_view_def get_live_def)
  have "dom (hash_view t h) \<inter> key_str ` set (f # fs) =
      (dom (hash_view t h1) \<inter> key_str ` set fs) \<union> (if hash_view t h ?n = None then {} else {?n})"
    using v(2) by auto
  moreover have "?n \<notin> dom (hash_view t h1)" using v(2) by simp
  ultimately have "int (card (dom (hash_view t h) \<inter> key_str ` set (f # fs))) =
      int (card (dom (hash_view t h1) \<inter> key_str ` set fs)) + (?r - r)"
    using finite_hash_view [of t h1] by simp
  moreover have "hash_view t h1 |` (- key_str ` set fs) = hash_view t h |` (- key_str ` set (f # fs))"
    using v(2) by (auto simp: restrict_map_def fun_eq_iff)
  ultimately show ?case using Cons.IH [OF v(1) loop] by auto
qed (simp add: restrict_map_def)

text \<open>The loops over a list of fields compute their reply and effect on the view field by field.\<close>

lemma hexpire_loop_view:
  assumes "hash_wf h" and "all_live t h"
  shows "hash_wf (snd (hexpire_loop fs x cond t freed h)) \<and>
    fst (fst (hexpire_loop fs x cond t freed h)) = fst (hexpire_spec fs x cond t (hash_view t h)) \<and>
    hash_view t (snd (hexpire_loop fs x cond t freed h)) = snd (hexpire_spec fs x cond t (hash_view t h))"
  using assms
proof (induction fs arbitrary: freed h)
  case (Cons f fs)
  let ?n = "key_str f"
  obtain mem hd where d: "drop_field f h = (mem, hd)" by fastforce
  note dv = drop_field_view(1) [OF Cons.prems(1) d] drop_field_view(2,3) [OF Cons.prems(1) d, of t]
  note xv = deadline_view(1,3) [OF Cons.prems(1) _ Cons.prems(2), of x ?n]
  have xw: "hash_wf (h\<lparr>hd_expiries := hm_insert ?n x (hd_expiries h)\<rparr>)" using Cons.prems(1) by simp
  note here = all_live_view [OF Cons.prems(2), of ?n] hm_contains_iff
  consider "hm_get (hd_fields h) ?n = None" | "hm_get (hd_fields h) ?n \<noteq> None" "\<not> hexpire_allowed cond x (hm_get (hd_expiries h) ?n)"
    | "hm_get (hd_fields h) ?n \<noteq> None" "hexpire_allowed cond x (hm_get (hd_expiries h) ?n)" "x \<le> t"
    | "hm_get (hd_fields h) ?n \<noteq> None" "hexpire_allowed cond x (hm_get (hd_expiries h) ?n)" "t < x"
    by linarith
  then show ?case
  proof cases
    case 1
    then show ?thesis using Cons.IH [OF Cons.prems] by (simp add: Let_def here)
  next
    case 2
    then show ?thesis using Cons.IH [OF Cons.prems] by (auto simp: Let_def here)
  next
    case 3
    then show ?thesis using Cons.IH [OF dv(1) dv(3) [OF Cons.prems(2)]] d
      by (auto simp: Let_def here simp flip: dv(2))
  next
    case 4
    then show ?thesis using Cons.IH [OF xw xv(2)] xv(1) by (auto simp: Let_def here simp del: fun_upd_apply)
  qed
qed simp

lemma hpersist_loop_view:
  assumes "hash_wf h" and "all_live t h"
  shows "hash_wf (snd (hpersist_loop fs h)) \<and> fst (hpersist_loop fs h) = fst (hpersist_spec fs (hash_view t h)) \<and>
    hash_view t (snd (hpersist_loop fs h)) = snd (hpersist_spec fs (hash_view t h))"
  using assms
proof (induction fs arbitrary: h)
  case (Cons f fs)
  let ?n = "key_str f"
  note xv = deadline_view(2,4) [OF Cons.prems, of ?n]
  have xw: "hash_wf (h\<lparr>hd_expiries := hm_remove ?n (hd_expiries h)\<rparr>)" using Cons.prems(1) by simp
  note here = all_live_view [OF Cons.prems(2), of ?n] hm_contains_iff
  consider "hm_get (hd_fields h) ?n = None" | "hm_get (hd_fields h) ?n \<noteq> None" "hm_get (hd_expiries h) ?n = None"
    | "hm_get (hd_fields h) ?n \<noteq> None" "hm_get (hd_expiries h) ?n \<noteq> None" by blast
  then show ?case
    using Cons.IH [OF Cons.prems] Cons.IH [OF xw xv(2)] xv(1) by cases (auto simp: Let_def here simp del: fun_upd_apply)
qed simp

lemma hgetdel_loop_view:
  assumes "hash_wf h" and "all_live t h"
  shows "hash_wf (snd (hgetdel_loop kr key fs freed h)) \<and>
    fst (fst (hgetdel_loop kr key fs freed h)) = fst (hgetdel_spec kr key fs (hash_view t h)) \<and>
    hash_view t (snd (hgetdel_loop kr key fs freed h)) = snd (hgetdel_spec kr key fs (hash_view t h))"
  using assms
proof (induction fs arbitrary: freed h)
  case (Cons f fs)
  obtain mem hd where d: "drop_field f h = (mem, hd)" by fastforce
  note dv = drop_field_view(1) [OF Cons.prems(1) d] drop_field_view(2,3) [OF Cons.prems(1) d, of t]
  show ?case using Cons.IH [OF dv(1) dv(3) [OF Cons.prems(2)]] d all_live_view [OF Cons.prems(2), of "key_str f"]
    by (auto simp: Let_def shown_def simp flip: dv(2) split: option.splits)
qed simp

lemma hgetex_loop_view:
  assumes "hash_wf h" and "all_live t h"
  shows "hash_wf (snd (hgetex_loop kr key fs ttl t freed h)) \<and>
    fst (fst (hgetex_loop kr key fs ttl t freed h)) = fst (hgetex_spec kr key fs ttl t (hash_view t h)) \<and>
    hash_view t (snd (hgetex_loop kr key fs ttl t freed h)) = snd (hgetex_spec kr key fs ttl t (hash_view t h))"
  using assms
proof (induction fs arbitrary: freed h)
  case (Cons f fs)
  let ?n = "key_str f"
  obtain mem hd where d: "drop_field f h = (mem, hd)" by fastforce
  note dv = drop_field_view(1) [OF Cons.prems(1) d] drop_field_view(2,3) [OF Cons.prems(1) d, of t]
  note xv = deadline_view(1,3) [OF Cons.prems(1) _ Cons.prems(2), of _ ?n]
  note pv = deadline_view(2,4) [OF Cons.prems, of ?n]
  let ?v = "shown kr key f (hash_view t h)"
  have v: "(case hm_get (hd_fields h) ?n of Some v \<Rightarrow> ok_opt (decrypt_hash_field_value kr key f v) | None \<Rightarrow> None) = ?v"
    using all_live_view [OF Cons.prems(2), of ?n] by (simp add: shown_def split: option.splits)
  obtain mem' h1 where step: "(if ?v = None then (0, h) else case ttl of KeepTtl \<Rightarrow> (0, h)
      | PersistTtl \<Rightarrow> (0, h\<lparr>hd_expiries := hm_remove ?n (hd_expiries h)\<rparr>)
      | SetMs ms \<Rightarrow> if ms \<le> t then drop_field f h else (0, h\<lparr>hd_expiries := hm_insert ?n ms (hd_expiries h)\<rparr>)) = (mem', h1)"
    by fastforce
  have h1: "hash_wf h1 \<and> all_live t h1 \<and> hash_view t h1 =
      (case ?v of None \<Rightarrow> hash_view t h | Some _ \<Rightarrow> (case ttl of KeepTtl \<Rightarrow> hash_view t h
        | PersistTtl \<Rightarrow> (hash_view t h)(?n := map_option (\<lambda>(v, _). (v, None)) (hash_view t h ?n))
        | SetMs ms \<Rightarrow> (hash_view t h)(?n := if ms \<le> t then None else map_option (\<lambda>(v, _). (v, Some ms)) (hash_view t h ?n))))"
    using step Cons.prems d dv pv xv
    by (cases ?v; cases ttl) (auto split: if_splits)
  then show ?case using Cons.IH [of h1] step v by (simp add: Let_def)
qed simp

interpretation hset_field: field_op "\<lambda>t h. hset_fields pairs t h" "hset_spec pairs" for pairs
proof unfold_locales
  fix h t
  assume h: "hash_wf h"
  note p = purge_view [OF h, of t]
  obtain a d h' where l: "hset_loop pairs 0 0 (snd (purge_expired t h)) = ((a, d), h')" by (metis prod.exhaust)
  note v = hset_loop_view [OF p(1,2) l, unfolded p(3)]
  show "hash_wf (snd (hset_fields pairs t h))" "fst (fst (hset_fields pairs t h)) = fst (hset_spec pairs t (hash_view t h))"
    "hash_view t (snd (hset_fields pairs t h)) = snd (hset_spec pairs t (hash_view t h))"
    using v l by (simp_all add: hset_fields_def hset_spec_def)
qed

interpretation hdel_field: field_op "\<lambda>t. hdel_loop fs t 0 0" "hdel_spec fs" for fs
proof unfold_locales
  fix h t
  assume h: "hash_wf h"
  obtain r freed h' where l: "hdel_loop fs t 0 0 h = ((r, freed), h')" by (metis prod.exhaust)
  note v = hdel_loop_view [OF h l]
  show "hash_wf (snd (hdel_loop fs t 0 0 h))" "fst (fst (hdel_loop fs t 0 0 h)) = fst (hdel_spec fs t (hash_view t h))"
    "hash_view t (snd (hdel_loop fs t 0 0 h)) = snd (hdel_spec fs t (hash_view t h))"
    using v l by (simp_all add: hdel_spec_def)
qed

interpretation hexpire_field: field_op "\<lambda>t h. hexpire_loop fs x cond t 0 (snd (purge_expired t h))" "hexpire_spec fs x cond" for fs x cond
  by unfold_locales (simp_all add: hexpire_loop_view purge_view)

interpretation hpersist_field: field_op
  "\<lambda>t h. case hpersist_loop fs (snd (purge_expired t h)) of (rs, h) \<Rightarrow> ((rs, 0 :: nat), h)" "\<lambda>_. hpersist_spec fs" for fs
  using hpersist_loop_view [OF purge_view(1,2)] by unfold_locales (simp_all add: purge_view split_def)

interpretation hgetdel_field: field_op "\<lambda>t h. hgetdel_loop kr key fs 0 (snd (purge_expired t h))" "\<lambda>_. hgetdel_spec kr key fs" for kr key fs
  using hgetdel_loop_view [OF purge_view(1,2)] by unfold_locales (simp_all add: purge_view)

interpretation hgetex_field: field_op "\<lambda>t h. hgetex_loop kr key fs ttl t 0 (snd (purge_expired t h))" "hgetex_spec kr key fs ttl" for kr key fs ttl
  by unfold_locales (simp_all add: hgetex_loop_view purge_view)

text \<open>The fields of a key in the store, and an operation on fields run through the store.\<close>

definition fields_of :: "store \<Rightarrow> instant \<Rightarrow> int \<Rightarrow> bytes \<Rightarrow> fields_map" where
  "fields_of st now t key = (case view_hash key now st of Inr (Some h) \<Rightarrow> hash_view t h | _ \<Rightarrow> Map.empty)"

lemma view_hash_view:
  "view_hash key now st =
     (case view st now key of None \<Rightarrow> Inr None | Some (Hash h, _) \<Rightarrow> Inr (Some h) | Some _ \<Rightarrow> Inl (Err WRONGTYPE))"
  by (auto simp: view_hash_def view_def split: option.splits store_value.splits)

lemma view_hash_wf: "mem_wf st \<Longrightarrow> view_hash key now st = Inr (Some h) \<Longrightarrow> hash_wf h"
  using mem_wf_hash [of st key] by (auto simp: view_hash_def split: option.splits store_value.splits if_splits)

definition refines_fields :: "bytes \<Rightarrow> instant \<Rightarrow> int \<Rightarrow> store \<Rightarrow> 'r result \<times> store \<Rightarrow> 'r result \<times> fields_map \<Rightarrow> bool" where
  "refines_fields key now t st out s \<longleftrightarrow> mem_wf (snd out) \<and> fst out = fst s \<and>
     (\<forall>t' \<ge> t. fields_of (snd out) now t' key = age_fields t' (snd s)) \<and> \<not> isl (view_hash key now (snd out)) \<and>
     (\<forall>k. k \<noteq> key \<longrightarrow> data_get (snd out) k = data_get st k) \<and> (keys_exact st \<longrightarrow> keys_exact (snd out))"

lemma fields_of_slot:
  "view st now key = None \<Longrightarrow> fields_of st now t key = Map.empty"
  "view st now key = Some (Hash h, exp) \<Longrightarrow> fields_of st now t key = hash_view t h"
  by (simp_all add: fields_of_def view_hash_view)

lemma age_fields_empty [simp]: "age_fields t Map.empty = Map.empty"
  by (simp add: age_fields_def fun_eq_iff)

lemma hash_slot_cases:
  assumes "\<not> isl (view_hash key now st)"
  obtains "view st now key = None" | h exp where "view st now key = Some (Hash h, exp)"
  using assms by (auto simp: view_hash_view split: option.splits store_value.splits)

lemma modify_refines:
  assumes op: "field_op f spec" and none: "spec t Map.empty = (missing, Map.empty)"
    and wf: "mem_wf st" and h: "\<not> isl (view_hash key now st)"
  shows "refines_fields key now t st (modify_hash drops missing (f t) key now st)
     (map_prod Inr id (spec t (fields_of st now t key)))"
proof -
  let ?out = "modify_hash drops missing (f t) key now st"
  have c: "counted_op (modify_hash drops missing (f t) key) key (modify_hash_spec drops missing (f t))"
    by (rule modify_hash_counted) (rule field_op.field_wf [OF op])
  note k = counted_op.axioms(1) [OF c]
  note r = keyed_op.op_reply [OF k wf, of now] keyed_op.op_effect [OF k wf, of now]
  have "fst ?out = Inr (fst (spec t (fields_of st now t key))) \<and> \<not> isl (view_hash key now (snd ?out)) \<and>
    (\<forall>t' \<ge> t. fields_of (snd ?out) now t' key = age_fields t' (snd (spec t (fields_of st now t key))))"
  proof (rule hash_slot_cases [OF h])
    assume v: "view st now key = None"
    then have "view (snd ?out) now key = None" "fst ?out = Inr missing" using r by (simp_all add: modify_hash_spec_def)
    then show ?thesis using v none by (simp add: fields_of_slot view_hash_view)
  next
    fix d exp
    assume v: "view st now key = Some (Hash d, exp)"
    have d: "hash_wf d" using view_hash_wf [OF wf, of key now d] v by (simp add: view_hash_view)
    obtain x m d' where f: "f t d = ((x, m), d')" by (metis prod.exhaust)
    note s = field_op.field_reply [OF op d, of t] field_op.field_later [OF op d, of t]
    have "fst ?out = Inr x" "view (snd ?out) now key = (if drops \<and> hd_fields d' = [] then None else Some (Hash d', exp))"
      using r v f by (simp_all add: modify_hash_spec_def)
    then show ?thesis using s f v
      by (auto simp: fields_of_slot view_hash_view hash_view_empty)
  qed
  then show ?thesis
    using keyed_op.op_wf [OF k wf] keyed_op.op_frame [OF k wf] counted_op.op_keys [OF c wf]
    by (simp add: refines_fields_def)
qed

lemma upsert_refines:
  assumes op: "field_op f spec" and wf: "mem_wf st" and h: "\<not> isl (view_hash key now st)"
  shows "refines_fields key now t st (upsert_hash (f t) key now (bump_version key st)) (spec t (fields_of st now t key))"
proof -
  let ?out = "upsert_hash (f t) key now (bump_version key st)"
  have c: "counted_op (\<lambda>now st. upsert_hash (f t) key now (bump_version key st)) key (upsert_hash_spec (f t))"
    by (rule upsert_hash_op) (rule field_op.field_wf [OF op])
  note k = counted_op.axioms(1) [OF c]
  note r = keyed_op.op_reply [OF k wf, of now] keyed_op.op_effect [OF k wf, of now]
  obtain d exp where v: "slot_value (Hash hash_default) (view st now key) = (Hash d, exp)" "hash_wf d"
    "fields_of st now t key = hash_view t d"
    using h view_hash_wf [OF wf, of key now] hash_view_empty [of hash_default t]
    by (auto simp: slot_value_def fields_of_def view_hash_view hash_default_def [THEN arg_cong [of _ _ hd_fields]]
        split: option.splits store_value.splits prod.splits)
  obtain x m d' where f: "f t d = ((x, m), d')" by (metis prod.exhaust)
  have "fst ?out = x" "view (snd ?out) now key = Some (Hash d', exp)"
    using r v(1) f by (simp_all add: upsert_hash_spec_def)
  then have "fst ?out = fst (spec t (fields_of st now t key)) \<and> \<not> isl (view_hash key now (snd ?out)) \<and>
    (\<forall>t' \<ge> t. fields_of (snd ?out) now t' key = age_fields t' (snd (spec t (fields_of st now t key))))"
    using field_op.field_reply [OF op v(2), of t] field_op.field_later [OF op v(2), of t] f v(3)
    by (auto simp: fields_of_slot view_hash_view)
  then show ?thesis
    using keyed_op.op_wf [OF k wf] keyed_op.op_frame [OF k wf] counted_op.op_keys [OF c wf]
    by (simp add: refines_fields_def)
qed

section \<open>The commands\<close>

lemma view_hash_bump [simp]: "view_hash key now (bump_version key st) = view_hash key now st"
  by (simp add: view_hash_def)

lemma fields_of_bump [simp]: "fields_of (bump_version key st) now t key = fields_of st now t key"
  by (simp add: fields_of_def)

lemma refines_fields_bump: "refines_fields key now t (bump_version key st) out s = refines_fields key now t st out s"
  by (simp add: refines_fields_def)

datatype hash_cmd = HSet "(bytes \<times> bytes) list" | HDel "bytes list" | HExpire "bytes list" int hexpire_cond
  | HPersist "bytes list" | HGetDel "bytes list" | HGetEx "bytes list" hgetex_ttl

datatype hash_reply = HInt int | HInts "int list" | HValues "bytes option list"

fun run_hash_cmd ::
    "(bytes \<Rightarrow> nat) \<Rightarrow> keyring \<Rightarrow> bytes \<Rightarrow> hash_cmd \<Rightarrow> int \<Rightarrow> instant \<Rightarrow> instant \<Rightarrow> store \<Rightarrow> hash_reply result \<times> store" where
  "run_hash_cmd hc kr key (HSet pairs) t now inst_now st = map_prod (map_sum id HInt) id (hset hc key pairs t now inst_now st)"
| "run_hash_cmd hc kr key (HDel fs) t now inst_now st = map_prod (map_sum id HInt) id (hdel hc key fs t now inst_now st)"
| "run_hash_cmd hc kr key (HExpire fs x cond) t now inst_now st =
     map_prod (map_sum id HInts) id (hexpire_fields key fs x cond t now st)"
| "run_hash_cmd hc kr key (HPersist fs) t now inst_now st = map_prod (map_sum id HInts) id (hpersist_fields key fs t now st)"
| "run_hash_cmd hc kr key (HGetDel fs) t now inst_now st = map_prod (map_sum id HValues) id (hgetdel_fields kr key fs t now st)"
| "run_hash_cmd hc kr key (HGetEx fs ttl) t now inst_now st =
     map_prod (map_sum id HValues) id (hgetex_fields kr key fs ttl t now st)"

fun hash_cmd_spec :: "keyring \<Rightarrow> bytes \<Rightarrow> hash_cmd \<Rightarrow> int \<Rightarrow> fields_map \<Rightarrow> hash_reply \<times> fields_map" where
  "hash_cmd_spec kr key (HSet pairs) t m =
     (HInt (int (card (dom (put_all pairs m))) - int (card (dom m))), put_all pairs m)"
| "hash_cmd_spec kr key (HDel fs) t m = map_prod HInt id (hdel_spec fs t m)"
| "hash_cmd_spec kr key (HExpire fs x cond) t m = map_prod HInts id (hexpire_spec fs x cond t m)"
| "hash_cmd_spec kr key (HPersist fs) t m = map_prod HInts id (hpersist_spec fs m)"
| "hash_cmd_spec kr key (HGetDel fs) t m = map_prod HValues id (hgetdel_spec kr key fs m)"
| "hash_cmd_spec kr key (HGetEx fs ttl) t m = map_prod HValues id (hgetex_spec kr key fs ttl t m)"

text \<open>On a missing key every operation answers as on a hash without fields.\<close>

lemma specs_empty:
  "hdel_spec fs t Map.empty = (0, Map.empty)"
  "hexpire_spec fs x cond t Map.empty = (map (\<lambda>_. - 2) fs, Map.empty)"
  "hpersist_spec fs Map.empty = (map (\<lambda>_. - 2) fs, Map.empty)"
  "hgetdel_spec kr key fs Map.empty = (map (\<lambda>_. None) fs, Map.empty)"
  "hgetex_spec kr key fs ttl t Map.empty = (map (\<lambda>_. None) fs, Map.empty)"
proof -
  show "hdel_spec fs t Map.empty = (0, Map.empty)" by (simp add: hdel_spec_def)
  show "hexpire_spec fs x cond t Map.empty = (map (\<lambda>_. - 2) fs, Map.empty)" by (induction fs) simp_all
  show "hpersist_spec fs Map.empty = (map (\<lambda>_. - 2) fs, Map.empty)" by (induction fs) simp_all
  show "hgetdel_spec kr key fs Map.empty = (map (\<lambda>_. None) fs, Map.empty)"
    by (induction fs) (simp_all add: shown_def fun_upd_idem)
  show "hgetex_spec kr key fs ttl t Map.empty = (map (\<lambda>_. None) fs, Map.empty)" by (induction fs) (simp_all add: shown_def)
qed

lemma refines_fields_map:
  "refines_fields key now t st out s \<Longrightarrow>
     refines_fields key now t st (map_prod (map_sum id wrap) id out) (map_prod (map_sum id wrap) id s)"
  by (simp add: refines_fields_def)

lemma run_hash_cmd_refines:
  assumes wf: "mem_wf st" and h: "\<not> isl (view_hash key now st)"
  shows "refines_fields key now t st (run_hash_cmd hc kr key c t now inst_now st)
     (map_prod Inr id (hash_cmd_spec kr key c t (fields_of st now t key)))"
proof -
  have b: "mem_wf (bump_version key st)" "\<not> isl (view_hash key now (bump_version key st))" using wf h by simp_all
  note bump = refines_fields_bump [THEN iffD1]
  note mods = modify_refines [OF _ _ b, THEN bump, unfolded fields_of_bump]
  note wrapped = refines_fields_map [where wrap = HInt] refines_fields_map [where wrap = HInts] refines_fields_map [where wrap = HValues]
  show ?thesis
  proof (cases c)
    case (HSet pairs)
    then show ?thesis
      using wrapped(1) [OF upsert_refines [OF hset_field.field_op_axioms wf h]] wf
      by (simp add: hset_def hset_on_shard_def hset_spec_def)
  next
    case (HDel fs)
    then show ?thesis using wrapped(1) [OF mods [OF hdel_field.field_op_axioms specs_empty(1)]] wf
      by (simp add: hdel_def prod.map_comp o_def)
  next
    case (HExpire fs x cond)
    then show ?thesis using wrapped(2) [OF mods [OF hexpire_field.field_op_axioms specs_empty(2)]]
      by (simp add: hexpire_fields_def prod.map_comp o_def)
  next
    case (HPersist fs)
    then show ?thesis using wrapped(2) [OF mods [OF hpersist_field.field_op_axioms specs_empty(3)]]
      by (simp add: hpersist_fields_def prod.map_comp o_def)
  next
    case (HGetDel fs)
    then show ?thesis using wrapped(3) [OF mods [OF hgetdel_field.field_op_axioms specs_empty(4)]]
      by (simp add: hgetdel_fields_def prod.map_comp o_def)
  next
    case (HGetEx fs ttl)
    note op = hgetex_field.field_op_axioms
    have "refines_fields key now t st (modify_hash True (map (\<lambda>_. None) fs)
        (\<lambda>h. hgetex_loop kr key fs ttl t 0 (snd (purge_expired t h))) key now (if ttl = KeepTtl then st else bump_version key st))
        (map_prod Inr id (hgetex_spec kr key fs ttl t (fields_of st now t key)))"
      using modify_refines [OF op specs_empty(5) wf h] modify_refines [OF op specs_empty(5) b, THEN bump] by simp
    then show ?thesis using HGetEx wrapped(3)
      by (fastforce simp: hgetex_fields_def prod.map_comp o_def)
  qed
qed

text \<open>
  Claim C24. A hash is a map from fields to values with deadlines. On a key that is
  missing or holds a hash, each of \<open>HSET\<close>, \<open>HDEL\<close>, \<open>HEXPIRE\<close>, \<open>HPERSIST\<close>,
  \<open>HGETDEL\<close> and \<open>HGETEX\<close> replies with what the command says of the live fields at its
  wall-clock time and leaves, at that time and at every later one, the fields that
  the command specifies (a field disappears when its deadline passes); every other
  key is untouched.
\<close>

theorem hash_commands_refine:
  assumes "mem_wf st" and "\<not> isl (view_hash key now st)" and "run_hash_cmd hc kr key c t now inst_now st = (r, st')"
  shows "mem_wf st' \<and> r = Inr (fst (hash_cmd_spec kr key c t (fields_of st now t key))) \<and>
    (\<forall>t' \<ge> t. fields_of st' now t' key = age_fields t' (snd (hash_cmd_spec kr key c t (fields_of st now t key)))) \<and>
    (\<forall>k. k \<noteq> key \<longrightarrow> data_get st' k = data_get st k)"
  using run_hash_cmd_refines [OF assms(1,2), of t hc kr c inst_now] assms(3) by (simp add: refines_fields_def)

text \<open>The readers show exactly these fields.\<close>

lemma hash_reads:
  assumes "mem_wf st" and "\<not> isl (view_hash key now st)"
  shows "hget_from_shard key f t now st = map_option fst (fields_of st now t key (key_str f))"
    and "hexists key f t now st = Inr (fields_of st now t key (key_str f) \<noteq> None)"
    and "\<exists>ks. hkeys key t now st = Inr ks \<and> distinct ks \<and> set ks = dom (fields_of st now t key)"
    and "hlen key t now st = Inr (int (card (dom (fields_of st now t key))))"
proof -
  have "\<exists>ks. hkeys key t now st = Inr ks \<and> distinct ks \<and> set ks = dom (fields_of st now t key) \<and>
      hlen key t now st = Inr (int (length ks))"
  proof (cases "view_hash key now st")
    case (Inr oh)
    show ?thesis
    proof (cases oh)
      case (Some h)
      have wf: "hash_wf h" using view_hash_wf [OF assms(1)] Inr Some by simp
      have "distinct (map fst (live_iter t h))"
        using wf by (auto simp: live_iter_def hash_wf_def hm_wf_def intro: distinct_map_filter)
      moreover have "set (map fst (live_iter t h)) = dom (hash_view t h)"
        using live_iter_iff [OF wf] by (force simp: hash_view_def)
      ultimately show ?thesis using Inr Some by (simp add: hkeys_def hlen_def fields_of_def live_len_iter)
    qed (simp add: Inr hkeys_def hlen_def fields_of_def)
  qed (use assms(2) in simp)
  then show "\<exists>ks. hkeys key t now st = Inr ks \<and> distinct ks \<and> set ks = dom (fields_of st now t key)"
    "hlen key t now st = Inr (int (card (dom (fields_of st now t key))))"
    by (auto simp: distinct_card [symmetric])
  show "hget_from_shard key f t now st = map_option fst (fields_of st now t key (key_str f))"
    "hexists key f t now st = Inr (fields_of st now t key (key_str f) \<noteq> None)"
    using assms(2)
    by (auto simp: hget_from_shard_def hexists_def fields_of_def hash_view_def option.map_comp o_def get_live_Some_iff
        option.map_ident split: sum.splits option.splits)
qed

section \<open>Counters in fields\<close>

lemma hincrby_field_wf: "hash_wf h \<Longrightarrow> hash_wf (snd (hincrby_field f d t h))"
  using purge_view(1) [of h t] by (auto simp: hincrby_field_def Let_def hash_wf_def split: option.splits)

definition field_int :: "bytes \<Rightarrow> int option" where
  "field_int v = (if utf8_valid v then parse_i64 v else None)"

definition hincrby_spec :: "bytes \<Rightarrow> int \<Rightarrow> fields_map \<Rightarrow> int result \<times> fields_map" where
  "hincrby_spec f d m =
     (case m f of
        None \<Rightarrow> (Inr d, m(f \<mapsto> (i64_to_string d, None)))
      | Some (v, _) \<Rightarrow>
          (case field_int v of
             None \<Rightarrow> (Inl (Err ''ERR hash value is not an integer''), m(f \<mapsto> (v, None)))
           | Some c \<Rightarrow> (Inr (wrap_i64 (c + d)), m(f \<mapsto> (i64_to_string (wrap_i64 (c + d)), None)))))"

lemma hincrby_field_view:
  assumes "hash_wf h" and "utf8_valid f"
  shows "fst (fst (hincrby_field f d t h)) = fst (hincrby_spec f d (hash_view t h))"
    and "hash_view t (snd (hincrby_field f d t h)) = snd (hincrby_spec f d (hash_view t h))"
proof -
  note p = purge_view [OF assms(1), of t]
  define h1 where "h1 = snd (purge_expired t h)"
  have v: "hash_view t h f = map_option (\<lambda>v. (v, hm_get (hd_expiries h1) f)) (hm_get (hd_fields h1) f)"
    using all_live_view [OF p(2), of f] p(3) by (simp add: h1_def)
  have swap: "h1\<lparr>hd_expiries := a, hd_fields := b\<rparr> = h1\<lparr>hd_fields := b, hd_expiries := a\<rparr>" for a b
    by (rule hash_data.equality) simp_all
  have up: "hash_view t (h1\<lparr>hd_expiries := hm_remove f (hd_expiries h1), hd_fields := hm_insert f w (hd_fields h1)\<rparr>) =
      (hash_view t h)(f \<mapsto> (w, None))" for w
    unfolding swap using put_field_view(1) [OF p(1), of t f w] p(3) by (simp add: h1_def)
  have rm: "hash_view t (h1\<lparr>hd_expiries := hm_remove f (hd_expiries h1)\<rparr>) =
      (hash_view t h)(f := map_option (\<lambda>(v, _). (v, None)) (hash_view t h f))"
    using deadline_view(2) [OF p(1,2), of f] p(3) by (simp add: h1_def)
  have k: "key_str f = f" "key_string f = f" using assms(2) by simp_all
  note d = hincrby_field_def [of f d t h, folded h1_def, unfolded Let_def k]
  show "fst (fst (hincrby_field f d t h)) = fst (hincrby_spec f d (hash_view t h))"
    unfolding d hincrby_spec_def v by (auto simp: field_int_def h1_def split: option.splits)
  show "hash_view t (snd (hincrby_field f d t h)) = snd (hincrby_spec f d (hash_view t h))"
    using up rm unfolding d hincrby_spec_def v by (auto simp: field_int_def h1_def split: option.splits)
qed

lemma hincrby_refines:
  assumes wf: "mem_wf st" and h: "\<not> isl (view_hash key now st)" and f: "utf8_valid f"
  shows "fst (hincrby key f d t now st) = fst (hincrby_spec f d (fields_of st now t key))"
    and "fields_of (snd (hincrby key f d t now st)) now t key = snd (hincrby_spec f d (fields_of st now t key))"
proof -
  have c: "counted_op (\<lambda>now st. upsert_hash (hincrby_field f d t) key now (bump_version key st)) key
      (upsert_hash_spec (hincrby_field f d t))"
    by (rule upsert_hash_op) (rule hincrby_field_wf)
  note k = counted_op.axioms(1) [OF c]
  note r = keyed_op.op_reply [OF k wf, of now] keyed_op.op_effect [OF k wf, of now]
  obtain g exp where v: "slot_value (Hash hash_default) (view st now key) = (Hash g, exp)" "hash_wf g"
    "fields_of st now t key = hash_view t g"
    using h view_hash_wf [OF wf, of key now] hash_view_empty [of hash_default t]
    by (auto simp: slot_value_def fields_of_def view_hash_view hash_default_def [THEN arg_cong [of _ _ hd_fields]]
        split: option.splits store_value.splits prod.splits)
  obtain x m g' where f': "hincrby_field f d t g = ((x, m), g')" by (metis prod.exhaust)
  have "fst (hincrby key f d t now st) = x" "view (snd (hincrby key f d t now st)) now key = Some (Hash g', exp)"
    using r v(1) f' by (simp_all add: upsert_hash_spec_def hincrby_def hincrby_on_shard_def)
  then show "fst (hincrby key f d t now st) = fst (hincrby_spec f d (fields_of st now t key))"
    "fields_of (snd (hincrby key f d t now st)) now t key = snd (hincrby_spec f d (fields_of st now t key))"
    using hincrby_field_view [OF v(2) f, where d = d and t = t] f' v(3) by (simp_all add: fields_of_slot)
qed

text \<open>
  A failed \<open>HINCRBY\<close> changes the hash: on a field whose value is not an
  integer the command replies with an error, but the deadline of the field is gone,
  so a field that was to expire stays.
\<close>

theorem failed_hincrby_clears_deadline:
  assumes "mem_wf st" and "\<not> isl (view_hash key now st)" and "utf8_valid f"
    and "fields_of st now t key f = Some (v, Some x)" and "field_int v = None"
  shows "fst (hincrby key f d t now st) = Inl (Err ''ERR hash value is not an integer'') \<and>
    fields_of (snd (hincrby key f d t now st)) now t key f = Some (v, None)"
  using hincrby_refines [OF assms(1-3), of d t] assms(4,5) by (simp add: hincrby_spec_def)

section \<open>The commands as operations on one key\<close>

lemma hsetnx_field_wf: "hash_wf h \<Longrightarrow> hash_wf (snd (hsetnx_field f v h))"
  by (simp add: hsetnx_field_def Let_def)

lemma counted_op_cong:
  assumes "counted_op op key spec" and "\<And>now st. mem_wf st \<Longrightarrow> op' now st = op now st"
  shows "counted_op op' key spec"
proof -
  note c = counted_op.axioms(1) [OF assms(1)]
  show ?thesis
    using keyed_op.op_wf [OF c] keyed_op.op_reply [OF c] keyed_op.op_effect [OF c] keyed_op.op_frame [OF c]
      counted_op.op_keys [OF assms(1)] assms(2)
    by unfold_locales simp_all
qed

lemma modify_hash_bumped:
  assumes "\<And>h. hash_wf h \<Longrightarrow> hash_wf (snd (f h))"
  shows "counted_op (\<lambda>now st. modify_hash drops missing f key now (bump_version key st)) key (modify_hash_spec drops missing f)"
proof -
  have c: "counted_op (modify_hash drops missing f key) key (modify_hash_spec drops missing f)"
    by (rule modify_hash_counted) (rule assms)
  note k = counted_op.axioms(1) [OF c]
  show ?thesis
    using keyed_op.op_wf [OF k] keyed_op.op_reply [OF k] keyed_op.op_effect [OF k] keyed_op.op_frame [OF k]
      counted_op.op_keys [OF c]
    by unfold_locales (simp_all add: view_bump)
qed

interpretation hset_op: counted_op "\<lambda>now. hset hc key pairs t now u" key "upsert_hash_spec (hset_fields pairs t)" for hc key pairs t u
  by (rule counted_op_cong [OF upsert_hash_op [OF hset_field.field_wf]]) (simp_all add: hset_def hset_on_shard_def)

interpretation hincrby_op: counted_op "hincrby key f d t" key "upsert_hash_spec (hincrby_field f d t)" for key f d t
  by (rule counted_op_cong [OF upsert_hash_op [OF hincrby_field_wf]]) (simp_all add: hincrby_def hincrby_on_shard_def)

interpretation hsetnx_op: counted_op "hsetnx key f v" key "upsert_hash_spec (hsetnx_field f v)" for key f v
  by (rule counted_op_cong [OF upsert_hash_op [OF hsetnx_field_wf]]) (simp_all add: hsetnx_def)

interpretation hdel_op: counted_op "\<lambda>now. hdel hc key fs t now u" key "modify_hash_spec True 0 (hdel_loop fs t 0 0)" for hc key fs t u
  by (rule counted_op_cong [OF modify_hash_bumped [OF hdel_field.field_wf]]) (simp_all add: hdel_def)

interpretation hexpire_op: counted_op "hexpire_fields key fs x cond t" key
  "modify_hash_spec True (map (\<lambda>_. - 2) fs) (\<lambda>h. hexpire_loop fs x cond t 0 (snd (purge_expired t h)))" for key fs x cond t
  by (rule counted_op_cong [OF modify_hash_bumped [OF hexpire_field.field_wf]]) (simp_all add: hexpire_fields_def)

interpretation hpersist_op: counted_op "hpersist_fields key fs t" key
  "modify_hash_spec False (map (\<lambda>_. - 2) fs)
     (\<lambda>h. case hpersist_loop fs (snd (purge_expired t h)) of (rs, h) \<Rightarrow> ((rs, 0 :: nat), h))" for key fs t
  by (rule counted_op_cong [OF modify_hash_bumped [OF hpersist_field.field_wf]]) (simp_all add: hpersist_fields_def)

interpretation hgetdel_op: counted_op "hgetdel_fields kr key fs t" key
  "modify_hash_spec True (map (\<lambda>_. None) fs) (\<lambda>h. hgetdel_loop kr key fs 0 (snd (purge_expired t h)))" for kr key fs t
  by (rule counted_op_cong [OF modify_hash_bumped [OF hgetdel_field.field_wf]]) (simp_all add: hgetdel_fields_def)

lemma modify_hash_maybe_bumped:
  assumes "\<And>h. hash_wf h \<Longrightarrow> hash_wf (snd (f h))"
  shows "counted_op (\<lambda>now st. modify_hash drops missing f key now (if b then st else bump_version key st)) key
    (modify_hash_spec drops missing f)"
  using modify_hash_bumped [of f drops missing key] modify_hash_counted [of f drops missing key] assms
  by (cases b) simp_all

interpretation hgetex_op: counted_op "hgetex_fields kr key fs ttl t" key
  "modify_hash_spec True (map (\<lambda>_. None) fs) (\<lambda>h. hgetex_loop kr key fs ttl t 0 (snd (purge_expired t h)))" for kr key fs ttl t
  by (rule counted_op_cong [OF modify_hash_maybe_bumped [OF hgetex_field.field_wf]]) (simp_all add: hgetex_fields_def)

section \<open>Examples\<close>

definition kr0 :: keyring where
  "kr0 = \<lparr>kr_is_encrypted_value = (\<lambda>_. False), kr_encrypt = (\<lambda>_ _ _ v. Inr v), kr_decrypt = (\<lambda>_ _ _ v. Inr v)\<rparr>"

definition demo_hash :: store where
  "demo_hash = demo_store [(ascii ''h'', Hash \<lparr>hd_fields = [(ascii ''a'', ascii ''x''), (ascii ''b'', ascii ''7'')],
     hd_expiries = [(ascii ''a'', 500)]\<rparr>)]"

lemma demo_hash_facts:
  "mem_wf demo_hash" "\<not> isl (view_hash (ascii ''h'') 0 demo_hash)"
  "fields_of demo_hash 0 t (ascii ''h'') =
     hash_view t \<lparr>hd_fields = [(ascii ''a'', ascii ''x''), (ascii ''b'', ascii ''7'')], hd_expiries = [(ascii ''a'', 500)]\<rparr>"
  using demo_store_wf [of "[(ascii ''h'', Hash \<lparr>hd_fields = [(ascii ''a'', ascii ''x''), (ascii ''b'', ascii ''7'')],
     hd_expiries = [(ascii ''a'', 500)]\<rparr>)]"]
    demo_store_view [of "[(ascii ''h'', Hash \<lparr>hd_fields = [(ascii ''a'', ascii ''x''), (ascii ''b'', ascii ''7'')],
     hd_expiries = [(ascii ''a'', 500)]\<rparr>)]" 0 "ascii ''h''"]
  by (simp_all add: demo_hash_def hash_wf_def hm_wf_def ascii_def view_hash_view fields_of_def)

lemma demo_hash_fields:
  "fields_of demo_hash 0 100 (ascii ''h'') (ascii ''a'') = Some (ascii ''x'', Some 500)"
  "fields_of demo_hash 0 100 (ascii ''h'') (ascii ''c'') = None" "ascii ''a'' \<noteq> ascii ''c''"
  unfolding demo_hash_facts(3) by (simp_all add: hash_view_def get_live_def field_expired_def hm_get_def ascii_def)

text \<open>At time 100 the field \<open>a\<close> lives until 500; raising its deadline keeps it at 900.\<close>

theorem hash_commands_refine_witness:
  "\<exists>r st'. run_hash_cmd (\<lambda>_. 0) kr0 (ascii ''h'') (HExpire [ascii ''a'', ascii ''c''] 1000 CondGt) 100 0 0 demo_hash = (r, st') \<and>
     r = Inr (HInts [1, - 2]) \<and> fields_of st' 0 900 (ascii ''h'') (ascii ''a'') = Some (ascii ''x'', Some 1000)"
proof -
  let ?c = "HExpire [ascii ''a'', ascii ''c''] 1000 CondGt"
  obtain r st' where run: "run_hash_cmd (\<lambda>_. 0) kr0 (ascii ''h'') ?c 100 0 0 demo_hash = (r, st')" by fastforce
  have valid: "utf8_valid (ascii ''a'')" "utf8_valid (ascii ''c'')"
    by (rule utf8_valid_ascii, simp add: ascii_def)+
  have "hash_cmd_spec kr0 (ascii ''h'') ?c 100 (fields_of demo_hash 0 100 (ascii ''h'')) =
      (HInts [1, - 2], (fields_of demo_hash 0 100 (ascii ''h''))(ascii ''a'' \<mapsto> (ascii ''x'', Some 1000)))"
    using demo_hash_fields by (simp add: valid hexpire_allowed_def Let_def)
  then show ?thesis
    using hash_commands_refine [OF demo_hash_facts(1,2) run] run by (auto simp: age_fields_def)
qed

theorem failed_hincrby_clears_deadline_witness:
  "fst (hincrby (ascii ''h'') (ascii ''a'') 1 100 0 demo_hash) = Inl (Err ''ERR hash value is not an integer'') \<and>
   fields_of (snd (hincrby (ascii ''h'') (ascii ''a'') 1 100 0 demo_hash)) 0 100 (ascii ''h'') (ascii ''a'') = Some (ascii ''x'', None)"
proof (rule failed_hincrby_clears_deadline [OF demo_hash_facts(1,2)])
  show "utf8_valid (ascii ''a'')" by (rule utf8_valid_ascii) (simp add: ascii_def)
  show "fields_of demo_hash 0 100 (ascii ''h'') (ascii ''a'') = Some (ascii ''x'', Some 500)"
    by (rule demo_hash_fields)
  show "field_int (ascii ''x'') = None" by (simp add: field_int_def parse_i64_def is_digit_def ascii_def)
qed

end
