(* ===== verification/JournalCommit.thy ===== *)
theory JournalCommit
  imports Tier Wal
begin

text \<open>
  The boundary between the journal and the live store: how a mutation is routed to
  its locks, appended, applied and completed or rolled back
  (\<open>prepare_journaled_batch\<close>, \<open>commit_batch\<close>, \<open>commit_journaled\<close> and its variants in
  \<^verbatim>\<open>src/src/store/mod.rs\<close>), the buffering of an \<open>EXEC\<close> transaction
  (\<^verbatim>\<open>src/src/store/transactions.rs\<close>) and the replay after a restart. The locks
  are held from the routing to the end of a commit, so a commit is one step of the
  engine; what each write, sync and truncation of the journal file does is an input.
\<close>

section \<open>State\<close>

record engine =
  eg_store :: store
  eg_journal :: "wal option"
  eg_accepting :: bool
  eg_suppress :: bool
  eg_syncs_each_append :: bool
  eg_exec :: "command list option"
  eg_exec_row_deltas :: "((bytes \<times> bytes) \<times> unit) list"
  eg_exec_key_events :: "command list"
  eg_exec_list_wake_keys :: "(bytes \<times> unit) list"
  eg_read_depth :: nat
  eg_wal_append_errors :: nat
  eg_wal_fsync_errors :: nat

text \<open>A failed \<open>rollback_to\<close> may or may not have cut the file.\<close>

datatype rollback_outcome = RolledBack | RollbackFails bool

record journal_io =
  ji_write :: write_outcome
  ji_fsync :: bool
  ji_rollback :: rollback_outcome

definition try_rollback :: "rollback_outcome \<Rightarrow> nat \<Rightarrow> wal \<Rightarrow> bool \<times> wal" where
  "try_rollback out offset w =
     (case out of
        RolledBack \<Rightarrow> (True, rollback_to offset w)
      | RollbackFails shortened \<Rightarrow> (False, if shortened then rollback_to offset w else w))"

definition eg_poison :: "engine \<Rightarrow> engine" where
  "eg_poison eg = eg\<lparr>eg_store := poison_journal (eg_store eg)\<rparr>"

definition ensure_journal_healthy :: "engine \<Rightarrow> unit result" where
  "ensure_journal_healthy eg =
     (if journal_poisoned (eg_store eg) then Inl (Err ''mutation journal is unavailable; restart required'') else Inr ())"

definition ensure_accepting_mutations :: "engine \<Rightarrow> unit result" where
  "ensure_accepting_mutations eg =
     (if eg_accepting eg then Inr ()
      else Inl (Err ''database is shutting down; mutations are no longer accepted''))"

section \<open>Routing\<close>

definition to_ascii_lowercase :: "byte \<Rightarrow> byte" where
  "to_ascii_lowercase b = (if 65 \<le> b \<and> b \<le> 90 then b + 32 else b)"

definition eq_ignore_ascii_case :: "bytes \<Rightarrow> string \<Rightarrow> bool" where
  "eq_ignore_ascii_case b s \<longleftrightarrow> map to_ascii_lowercase b = map to_ascii_lowercase (ascii s)"

definition TABLE_COMMANDS :: "string list" where
  "TABLE_COMMANDS =
     [''TCREATE'', ''TROWSET'', ''TROWDEL'', ''TDELETE'', ''TDROP'', ''TALTER'', ''TINDEX'', ''TDROPINDEX'']"

definition requires_table_mutation_gate :: "command \<Rightarrow> bool" where
  "requires_table_mutation_gate args =
     (case args of
        [] \<Rightarrow> False
      | cmd # rest \<Rightarrow> list_ex (eq_ignore_ascii_case cmd) TABLE_COMMANDS \<or> list_ex is_table_storage_key rest)"

definition MULTI_KEY_COMMANDS :: "string list" where
  "MULTI_KEY_COMMANDS =
     [''FLUSHDB'', ''FLUSHALL'', ''EVAL'', ''EVALSHA'', ''FCALL'', ''MSET'', ''MSETNX'', ''RENAME'', ''RENAMENX'',
      ''COPY'', ''SMOVE'', ''LMOVE'', ''RPOPLPUSH'', ''BITOP'', ''PFMERGE'', ''SORT'', ''GEOSEARCHSTORE'', ''GEORADIUS'',
      ''GEORADIUSBYMEMBER'', ''SUNIONSTORE'', ''SINTERSTORE'', ''SDIFFSTORE'', ''ZUNIONSTORE'', ''ZINTERSTORE'',
      ''ZDIFFSTORE'', ''ZRANGESTORE'']"

definition arg_at :: "nat \<Rightarrow> command \<Rightarrow> bytes option" where
  "arg_at i args = (if i < length args then Some (args ! i) else None)"

definition journal_route_key :: "command \<Rightarrow> bytes option" where
  "journal_route_key args =
     (case args of
        [] \<Rightarrow> None
      | cmd # _ \<Rightarrow>
          if list_ex (eq_ignore_ascii_case cmd) MULTI_KEY_COMMANDS then None
          else if (eq_ignore_ascii_case cmd ''DEL'' \<or> eq_ignore_ascii_case cmd ''UNLINK'') \<and> length args > 2 then None
          else if list_ex (eq_ignore_ascii_case cmd) TABLE_COMMANDS then Some (0 # ascii ''lux:tables'')
          else if eq_ignore_ascii_case cmd ''ENC'' then
            (case arg_at 1 args of
               None \<Rightarrow> None
             | Some subcommand \<Rightarrow>
                 if list_ex (eq_ignore_ascii_case subcommand) [''RAWSET'', ''RAWHSET'', ''RAWLPUSH'', ''RAWRPUSH'', ''RAWVSET'']
                 then arg_at 2 args else None)
          else if eq_ignore_ascii_case cmd ''XGROUP'' then arg_at 2 args
          else arg_at 1 args)"

definition journal_gate_index :: "nat \<Rightarrow> bytes \<Rightarrow> nat" where
  "journal_gate_index gates key = unat (fx_hash key) mod gates"

fun gate_loop :: "nat \<Rightarrow> command list \<Rightarrow> nat list \<Rightarrow> nat list option" where
  "gate_loop gates [] indices = Some indices"
| "gate_loop gates (args # commands) indices =
     (case journal_route_key args of
        None \<Rightarrow> None
      | Some key \<Rightarrow> gate_loop gates commands (indices @ [journal_gate_index gates key]))"

definition journal_gate_indices :: "nat \<Rightarrow> command list \<Rightarrow> nat list" where
  "journal_gate_indices gates commands =
     (case gate_loop gates commands [] of
        None \<Rightarrow> [0..<gates]
      | Some indices \<Rightarrow> remdups_adj (sort indices))"

section \<open>Appending\<close>

definition append_journal_commands_locked ::
    "command list \<Rightarrow> bool \<Rightarrow> journal_io \<Rightarrow> wal \<Rightarrow> engine \<Rightarrow> nat result \<times> engine" where
  "append_journal_commands_locked commands checked io w eg =
     (case ensure_journal_healthy eg of
        Inl e \<Rightarrow> (Inl e, eg)
      | Inr _ \<Rightarrow>
          (let append_offset = end_offset w in
           if checked \<and> length commands \<noteq> 1 then
             (Inl (Err ''checked journal append requires exactly one command''), eg)
           else
             case (if checked then append_checked_command (commands ! 0) (ji_write io) w
                   else append_commands commands (ji_write io) w) of
               (Inl e, w) \<Rightarrow>
                 (case try_rollback (ji_rollback io) append_offset w of
                    (ok, w) \<Rightarrow>
                      (let eg = eg\<lparr>eg_journal := Some w, eg_wal_append_errors := eg_wal_append_errors eg + 1\<rparr> in
                       (Inl e, if ok then eg else eg_poison eg)))
             | (Inr _, w) \<Rightarrow>
                 if eg_syncs_each_append eg \<and> \<not> ji_fsync io then
                   case try_rollback (ji_rollback io) append_offset w of
                     (ok, w) \<Rightarrow>
                       (let eg = eg\<lparr>eg_journal := Some w, eg_wal_fsync_errors := eg_wal_fsync_errors eg + 1\<rparr> in
                        (Inl (Err ''WAL fsync failed''), if ok then eg else eg_poison eg))
                 else (Inr append_offset, eg\<lparr>eg_journal := Some w\<rparr>)))"

definition append_journal_commands_physical :: "command list \<Rightarrow> journal_io \<Rightarrow> engine \<Rightarrow> unit result \<times> engine" where
  "append_journal_commands_physical commands io eg =
     (case eg_journal eg of
        None \<Rightarrow> (Inr (), eg)
      | Some w \<Rightarrow>
          (case append_journal_commands_locked commands False io w eg of
             (Inl e, eg) \<Rightarrow> (Inl e, eg)
           | (Inr _, eg) \<Rightarrow> (Inr (), eg)))"

definition buffer_exec_journal_commands :: "command list \<Rightarrow> engine \<Rightarrow> bool \<times> engine" where
  "buffer_exec_journal_commands commands eg =
     (case eg_exec eg of
        None \<Rightarrow> (False, eg)
      | Some cs \<Rightarrow> (True, eg\<lparr>eg_exec := Some (cs @ commands)\<rparr>))"

definition append_journal_commands :: "command list \<Rightarrow> journal_io \<Rightarrow> engine \<Rightarrow> unit result \<times> engine" where
  "append_journal_commands commands io eg =
     (case buffer_exec_journal_commands commands eg of
        (True, eg) \<Rightarrow> (Inr (), eg)
      | (False, eg) \<Rightarrow> append_journal_commands_physical commands io eg)"

section \<open>Guards\<close>

text \<open>The result of a successful preparation is its \<open>bypassed\<close> flag.\<close>

definition prepare_journaled_batch :: "command list \<Rightarrow> engine \<Rightarrow> bool result" where
  "prepare_journaled_batch commands eg =
     (case ensure_accepting_mutations eg of
        Inl e \<Rightarrow> Inl e
      | Inr _ \<Rightarrow>
          (case ensure_journal_healthy eg of
             Inl e \<Rightarrow> Inl e
           | Inr _ \<Rightarrow> Inr (eg_suppress eg \<or> eg_journal eg = None \<or> commands = [])))"

record commit_guard =
  cg_transaction_checkpoint :: "nat option"
  cg_armed :: bool

definition commit_batch :: "bool \<Rightarrow> command list \<Rightarrow> journal_io \<Rightarrow> engine \<Rightarrow> commit_guard result \<times> engine" where
  "commit_batch bypassed commands io eg =
     (let armed = (\<not> bypassed \<and> commands \<noteq> []);
          transaction_checkpoint = (if armed then map_option length (eg_exec eg) else None);
          guard = \<lparr>cg_transaction_checkpoint = transaction_checkpoint, cg_armed = armed\<rparr>
      in if armed then
           (case append_journal_commands commands io eg of
              (Inl e, eg) \<Rightarrow> (Inl e, eg)
            | (Inr _, eg) \<Rightarrow> (Inr guard, eg))
         else (Inr guard, eg))"

definition commit_guard_drop :: "commit_guard \<Rightarrow> engine \<Rightarrow> engine" where
  "commit_guard_drop guard eg = (if cg_armed guard then eg_poison eg else eg)"

definition complete :: "commit_guard \<Rightarrow> engine \<Rightarrow> unit result \<times> engine" where
  "complete guard eg =
     (case ensure_journal_healthy eg of
        Inl e \<Rightarrow> (Inl e, commit_guard_drop guard eg)
      | Inr _ \<Rightarrow> (Inr (), eg))"

definition rolled_back :: "commit_guard \<Rightarrow> engine \<Rightarrow> engine" where
  "rolled_back guard eg =
     (case cg_transaction_checkpoint guard of
        None \<Rightarrow> eg
      | Some n \<Rightarrow> eg\<lparr>eg_exec := map_option (take n) (eg_exec eg)\<rparr>)"

section \<open>Commits\<close>

definition apply_live :: "(store \<Rightarrow> 't \<times> store) \<Rightarrow> engine \<Rightarrow> 't \<times> engine" where
  "apply_live f eg = (case f (eg_store eg) of (r, st) \<Rightarrow> (r, eg\<lparr>eg_store := st\<rparr>))"

definition begin_journaled_batch :: "command list \<Rightarrow> journal_io \<Rightarrow> engine \<Rightarrow> commit_guard result \<times> engine" where
  "begin_journaled_batch commands io eg =
     (case prepare_journaled_batch commands eg of
        Inl e \<Rightarrow> (Inl e, eg)
      | Inr bypassed \<Rightarrow> commit_batch bypassed commands io eg)"

definition commit_journaled_batch ::
    "command list \<Rightarrow> (store \<Rightarrow> 't \<times> store) \<Rightarrow> journal_io \<Rightarrow> engine \<Rightarrow> 't result \<times> engine" where
  "commit_journaled_batch commands f io eg =
     (case begin_journaled_batch commands io eg of
        (Inl e, eg) \<Rightarrow> (Inl e, eg)
      | (Inr guard, eg) \<Rightarrow>
          (case apply_live f eg of
             (r, eg) \<Rightarrow>
               (case complete guard eg of
                  (Inl e, eg) \<Rightarrow> (Inl e, eg)
                | (Inr _, eg) \<Rightarrow> (Inr r, eg))))"

definition commit_journaled ::
    "command \<Rightarrow> (store \<Rightarrow> 't \<times> store) \<Rightarrow> journal_io \<Rightarrow> engine \<Rightarrow> 't result \<times> engine" where
  "commit_journaled args f io eg = commit_journaled_batch [args] f io eg"

definition commit_journaled_checked ::
    "command \<Rightarrow> (store \<Rightarrow> ('t \<times> bool) \<times> store) \<Rightarrow> journal_io \<Rightarrow> engine \<Rightarrow> 't result \<times> engine" where
  "commit_journaled_checked args f io eg =
     (case prepare_journaled_batch [args] eg of
        Inl e \<Rightarrow> (Inl e, eg)
      | Inr bypassed \<Rightarrow>
          if bypassed then (case apply_live f eg of ((r, _), eg) \<Rightarrow> (Inr r, eg))
          else if eg_exec eg \<noteq> None then
            (case commit_batch bypassed [args] io eg of
               (Inl e, eg) \<Rightarrow> (Inl e, eg)
             | (Inr guard, eg) \<Rightarrow>
                 (case apply_live f eg of
                    ((r, True), eg) \<Rightarrow>
                      (case complete guard eg of (Inl e, eg) \<Rightarrow> (Inl e, eg) | (Inr _, eg) \<Rightarrow> (Inr r, eg))
                  | ((r, False), eg) \<Rightarrow> (Inr r, rolled_back guard eg)))
          else
            case eg_journal eg of
              None \<Rightarrow> (case apply_live f eg of ((r, _), eg) \<Rightarrow> (Inr r, eg))
            | Some w \<Rightarrow>
                (case append_journal_commands_locked [args] True io w eg of
                   (Inl e, eg) \<Rightarrow> (Inl e, eg)
                 | (Inr append_offset, eg) \<Rightarrow>
                     (let guard = \<lparr>cg_transaction_checkpoint = None, cg_armed = True\<rparr> in
                      case apply_live f eg of
                        ((r, False), eg) \<Rightarrow>
                          (case try_rollback (ji_rollback io) append_offset (the (eg_journal eg)) of
                             (True, w) \<Rightarrow> (Inr r, rolled_back guard (eg\<lparr>eg_journal := Some w\<rparr>))
                           | (False, w) \<Rightarrow>
                               (Inl (Err ''failed to remove rejected WAL command''),
                                commit_guard_drop guard (eg_poison (eg\<lparr>eg_journal := Some w,
                                  eg_wal_append_errors := eg_wal_append_errors eg + 1\<rparr>))))
                      | ((r, True), eg) \<Rightarrow>
                          (case complete guard eg of (Inl e, eg) \<Rightarrow> (Inl e, eg) | (Inr _, eg) \<Rightarrow> (Inr r, eg)))))"

text \<open>
  A prepared commit resolves its commands while the gates are held; its outer result
  is the journal's, its inner one the mutation's own. A failed application drops the
  armed guard and so poisons the journal.
\<close>

definition commit_prepared ::
    "command \<Rightarrow> (store \<Rightarrow> ('e + command list \<times> 'p) \<times> store) \<Rightarrow> ('p \<Rightarrow> store \<Rightarrow> ('e + 't) \<times> store) \<Rightarrow>
     journal_io \<Rightarrow> engine \<Rightarrow> ('e + 't) result \<times> engine" where
  "commit_prepared route_args prepare f io eg =
     (case prepare_journaled_batch [route_args] eg of
        Inl e \<Rightarrow> (Inl e, eg)
      | Inr bypassed \<Rightarrow>
          (case apply_live prepare eg of
             (Inl err, eg) \<Rightarrow> (Inr (Inl err), eg)
           | (Inr (commands, p), eg) \<Rightarrow>
               (case commit_batch bypassed commands io eg of
                  (Inl e, eg) \<Rightarrow> (Inl e, eg)
                | (Inr guard, eg) \<Rightarrow>
                    (case apply_live (f p) eg of
                       (Inl err, eg) \<Rightarrow> (Inr (Inl err), commit_guard_drop guard eg)
                     | (Inr r, eg) \<Rightarrow>
                         (case complete guard eg of
                            (Inl e, eg) \<Rightarrow> (Inl e, eg)
                          | (Inr _, eg) \<Rightarrow> (Inr (Inr r), eg))))))"

section \<open>EXEC transactions\<close>

text \<open>
  The thread-local \<open>ActiveExec\<close> is \<open>eg_exec\<close> (its commands, \<open>None\<close> while no
  transaction is active) with its three lists of deferred notifications; the depth of
  nested read guards of the thread is \<open>eg_read_depth\<close>.
\<close>

definition byte_key :: "bytes \<Rightarrow> nat list" where
  "byte_key = map unat"

definition enter_execution_read :: "engine \<Rightarrow> bool \<times> engine" where
  "enter_execution_read eg =
     (if eg_exec eg \<noteq> None then (False, eg)
      else (True, eg\<lparr>eg_read_depth := eg_read_depth eg + 1\<rparr>))"

definition execution_read_guard :: "engine \<Rightarrow> bool result \<times> engine" where
  "execution_read_guard eg =
     (case ensure_journal_healthy eg of
        Inl e \<Rightarrow> (Inl e, eg)
      | Inr _ \<Rightarrow> (case enter_execution_read eg of (tracked, eg) \<Rightarrow> (Inr tracked, eg)))"

definition read_guard_drop :: "bool \<Rightarrow> engine \<Rightarrow> engine" where
  "read_guard_drop tracked eg = (if \<not> tracked then eg else eg\<lparr>eg_read_depth := eg_read_depth eg - 1\<rparr>)"

definition defer_exec_key_event :: "command \<Rightarrow> engine \<Rightarrow> bool \<times> engine" where
  "defer_exec_key_event args eg =
     (if eg_exec eg = None then (False, eg)
      else (True, eg\<lparr>eg_exec_key_events := eg_exec_key_events eg @ [args]\<rparr>))"

definition defer_exec_list_wake :: "bytes \<Rightarrow> engine \<Rightarrow> bool \<times> engine" where
  "defer_exec_list_wake key eg =
     (if eg_exec eg = None then (False, eg)
      else (True, eg\<lparr>eg_exec_list_wake_keys := bt_insert byte_key key () (eg_exec_list_wake_keys eg)\<rparr>))"

definition defer_exec_row_delta :: "bytes \<Rightarrow> bytes \<Rightarrow> engine \<Rightarrow> bool \<times> engine" where
  "defer_exec_row_delta table pk eg =
     (if eg_exec eg = None then (False, eg)
      else (True, eg\<lparr>eg_exec_row_deltas :=
        bt_insert (\<lambda>(table, pk). (byte_key table, byte_key pk)) (table, pk) () (eg_exec_row_deltas eg)\<rparr>))"

definition begin_exec_transaction :: "engine \<Rightarrow> unit result \<times> engine" where
  "begin_exec_transaction eg =
     (case ensure_journal_healthy eg of
        Inl e \<Rightarrow> (Inl e, eg)
      | Inr _ \<Rightarrow>
          if eg_read_depth eg \<noteq> 0 \<or> eg_exec eg \<noteq> None then
            (Inl (Err ''cannot start EXEC from inside another execution boundary''), eg)
          else
            (Inr (), eg\<lparr>eg_exec := Some [], eg_exec_row_deltas := [], eg_exec_key_events := [],
               eg_exec_list_wake_keys := []\<rparr>))"

text \<open>The published row deltas, the key events and the keys whose blocked readers are woken.\<close>

record exec_effects =
  ee_row_deltas :: "(bytes \<times> bytes) list"
  ee_key_events :: "command list"
  ee_list_wake_keys :: "bytes list"

definition exec_effects_of :: "engine \<Rightarrow> exec_effects" where
  "exec_effects_of eg =
     \<lparr>ee_row_deltas = map fst (eg_exec_row_deltas eg), ee_key_events = eg_exec_key_events eg,
      ee_list_wake_keys = map fst (eg_exec_list_wake_keys eg)\<rparr>"

definition exec_commit :: "journal_io \<Rightarrow> engine \<Rightarrow> exec_effects result \<times> engine" where
  "exec_commit io eg =
     (case eg_exec eg of
        None \<Rightarrow> (Inl (Err ''EXEC transaction state is not active''), eg)
      | Some commands \<Rightarrow>
          (let eff = exec_effects_of eg; eg = eg\<lparr>eg_exec := None\<rparr> in
           if commands \<noteq> [] \<and> eg_journal eg \<noteq> None \<and> \<not> eg_suppress eg then
             (case append_journal_commands_physical commands io eg of
                (Inl e, eg) \<Rightarrow> (Inl e, eg_poison eg)
              | (Inr _, eg) \<Rightarrow> (Inr eff, eg))
           else (Inr eff, eg)))"

text \<open>Dropping the guard of a transaction that was not closed by its commit.\<close>

definition exec_drop :: "bool \<Rightarrow> engine \<Rightarrow> engine" where
  "exec_drop closed eg =
     (if closed then eg
      else
        (case eg_exec eg of
           None \<Rightarrow> eg_poison eg
         | Some commands \<Rightarrow>
             (let eg' = eg\<lparr>eg_exec := None\<rparr> in
              if commands \<noteq> [] \<or> eg_exec_row_deltas eg \<noteq> [] \<or> eg_exec_key_events eg \<noteq> [] \<or>
                 eg_exec_list_wake_keys eg \<noteq> []
              then eg_poison eg' else eg')))"

section \<open>Replay\<close>

text \<open>
  The dispatcher \<open>exec\<close> executes one command and says whether it succeeded. A
  failing last command that was appended as a checked one is cut off the journal.
\<close>

fun replay_commands ::
    "(command \<Rightarrow> 's \<Rightarrow> bool \<times> 's) \<Rightarrow> nat option \<Rightarrow> command list \<Rightarrow> wal \<Rightarrow> 's \<Rightarrow> unit result \<times> wal \<times> 's" where
  "replay_commands exec tail [] w s = (Inr (), w, s)"
| "replay_commands exec tail (c # cs) w s =
     (case exec c s of
        (True, s) \<Rightarrow> replay_commands exec tail cs w s
      | (False, s) \<Rightarrow>
          (case (cs, tail) of
             ([], Some offset) \<Rightarrow> (Inr (), rollback_to offset w, s)
           | _ \<Rightarrow> (Inl (Err ''WAL command failed during recovery''), w, s)))"

definition replay_one ::
    "(command \<Rightarrow> 's \<Rightarrow> bool \<times> 's) \<Rightarrow> wal_checkpoint option \<Rightarrow> wal \<Rightarrow> 's \<Rightarrow> unit result \<times> wal \<times> 's" where
  "replay_one exec ckpt w s =
     (case replay_from ckpt w of
        (Inl e, w) \<Rightarrow> (Inl e, w, s)
      | (Inr rp, w) \<Rightarrow> replay_commands exec (rp_checked_tail_offset rp) (rp_commands rp) w s)"

text \<open>The journals of the former per-shard layout are replayed before the global one.\<close>

fun replay_wal ::
    "(command \<Rightarrow> 's \<Rightarrow> bool \<times> 's) \<Rightarrow> (wal_checkpoint option \<times> wal) list \<Rightarrow> wal_checkpoint option \<times> wal \<Rightarrow> 's \<Rightarrow>
     unit result \<times> 's" where
  "replay_wal exec [] (ckpt, w) s = (case replay_one exec ckpt w s of (r, _, s) \<Rightarrow> (r, s))"
| "replay_wal exec ((c, lw) # legacy) g s =
     (case replay_one exec c lw s of
        (Inl e, _, s) \<Rightarrow> (Inl e, s)
      | (Inr _, _, s) \<Rightarrow> replay_wal exec legacy g s)"

section \<open>One commit\<close>

text \<open>A mutation as its caller passes it: the commands of its journal entry and its effect.\<close>

record 't mutation =
  mu_checked :: bool
  mu_commands :: "command list"
  mu_apply :: "store \<Rightarrow> ('t \<times> bool) \<times> store"

definition run_mutation :: "'t mutation \<Rightarrow> journal_io \<Rightarrow> engine \<Rightarrow> 't result \<times> engine" where
  "run_mutation m io eg =
     (if mu_checked m then commit_journaled_checked (mu_commands m ! 0) (mu_apply m) io eg
      else commit_journaled_batch (mu_commands m) (\<lambda>st. map_prod fst id (mu_apply m st)) io eg)"

definition mutation_entry :: "'t mutation \<Rightarrow> journal_entry" where
  "mutation_entry m = (if mu_checked m then Checked (mu_commands m ! 0) else Batch (mu_commands m))"

definition mutation_ok :: "'t mutation \<Rightarrow> bool" where
  "mutation_ok m \<longleftrightarrow> entry_ok (mutation_entry m) \<and> (mu_checked m \<longrightarrow> length (mu_commands m) = 1)"

text \<open>
  Replaying the commands of a mutation has the effect of the mutation on what can be
  observed; a rejected checked mutation has none, and its reply says so.
\<close>

definition replayable :: "(command \<Rightarrow> 'o \<Rightarrow> 'o) \<Rightarrow> (store \<Rightarrow> 'o) \<Rightarrow> ('t \<Rightarrow> bool) \<Rightarrow> 't mutation \<Rightarrow> bool" where
  "replayable exec obs accepted m \<longleftrightarrow>
     (\<forall>st r ok st'. mu_apply m st = ((r, ok), st') \<longrightarrow>
        ok = accepted r \<and> (mu_checked m \<or> ok) \<and>
        obs st' = (if ok then fold exec (mu_commands m) (obs st) else obs st))"

definition engine_ready :: "engine \<Rightarrow> bool" where
  "engine_ready eg \<longleftrightarrow> eg_accepting eg \<and> \<not> eg_suppress eg \<and> eg_exec eg = None"

definition recovers :: "wal \<Rightarrow> journal_entry list \<Rightarrow> bool" where
  "recovers w es \<longleftrightarrow> (\<exists>tail w'. replay_from None w =
     (Inr \<lparr>rp_commands = concat (map entry_commands es), rp_checked_tail_offset = tail\<rparr>, w'))"

abbreviation poisoned :: "engine \<Rightarrow> bool" where
  "poisoned eg \<equiv> journal_poisoned (eg_store eg)"

lemma journal_recovers: "journal w es \<Longrightarrow> recovers w es"
  unfolding recovers_def using replay_whole by blast

lemma journal_snoc:
  assumes "journal w es" and "entry_ok e" and "length (wal_file w) + length (entry_frame e) \<le> usize_max"
  shows "journal (w\<lparr>wal_file := wal_file w @ entry_frame e\<rparr>) (es @ [e])"
  using assms by (auto simp: journal_def)

lemma rollback_restores [simp]: "rollback_to (length (wal_file w)) (w\<lparr>wal_file := wal_file w @ x\<rparr>) = w"
  by (simp add: rollback_to_def set_len_def)

lemma recovers_partial:
  assumes "journal w es" and "entry_ok e" and "length (wal_file w) + length (entry_frame e) \<le> usize_max"
  shows "\<exists>ext. length ext \<le> 1 \<and> set ext \<subseteq> {e} \<and> recovers (w\<lparr>wal_file := wal_file w @ take n (entry_frame e)\<rparr>) (es @ ext)"
proof -
  consider "n = 0" | "length (entry_frame e) \<le> n" | "0 < n" "n < length (entry_frame e)" by linarith
  then show ?thesis
  proof cases
    case 1
    then show ?thesis using journal_recovers [OF assms(1)] by (intro exI [of _ "[]"]) simp
  next
    case 2
    then show ?thesis using journal_recovers [OF journal_snoc [OF assms]] by (intro exI [of _ "[e]"]) simp
  next
    case 3
    then show ?thesis using replay_torn_entry [OF assms(1,2) 3] assms(3)
      by (intro exI [of _ "[]"]) (simp add: recovers_def)
  qed
qed

text \<open>What a failed append leaves, after the attempt to roll it back.\<close>

lemma try_rollback_result:
  assumes "journal w es" and "entry_ok e" and "length (wal_file w) + length (entry_frame e) \<le> usize_max"
    and "try_rollback out (length (wal_file w)) (w\<lparr>wal_file := wal_file w @ take n (entry_frame e)\<rparr>) = (ok, w')"
  shows "(if ok then w' = w else \<exists>ext. length ext \<le> 1 \<and> set ext \<subseteq> {e} \<and> recovers w' (es @ ext))"
  using assms(4) recovers_partial [OF assms(1-3), of n] recovers_partial [OF assms(1-3), of 0]
  by (auto simp: try_rollback_def split: rollback_outcome.splits if_splits)

lemma eg_poison_simps [simp]:
  "eg_journal (eg_poison eg) = eg_journal eg" "poisoned (eg_poison eg)" "engine_ready (eg_poison eg) = engine_ready eg"
  "eg_exec (eg_poison eg) = eg_exec eg"
  by (simp_all add: eg_poison_def poison_journal_def engine_ready_def)

definition entry_of :: "bool \<Rightarrow> command list \<Rightarrow> journal_entry" where
  "entry_of checked cs = (if checked then Checked (cs ! 0) else Batch cs)"

lemma append_locked_result:
  assumes "journal w es" and "entry_ok (entry_of checked cs)" and "checked \<longrightarrow> length cs = 1"
    and "length (wal_file w) + length (entry_frame (entry_of checked cs)) \<le> usize_max"
    and "\<not> poisoned eg" and "engine_ready eg" and "append_journal_commands_locked cs checked io w eg = (r, eg')"
  shows "engine_ready eg' \<and> (\<exists>w'. eg_journal eg' = Some w' \<and>
    (case r of
       Inr off \<Rightarrow> off = length (wal_file w) \<and> w' = w\<lparr>wal_file := wal_file w @ entry_frame (entry_of checked cs)\<rparr> \<and>
         eg_store eg' = eg_store eg
     | Inl _ \<Rightarrow>
         if poisoned eg' then \<exists>ext. length ext \<le> 1 \<and> set ext \<subseteq> {entry_of checked cs} \<and> recovers w' (es @ ext)
         else w' = w \<and> eg_store eg' = eg_store eg))"
proof -
  let ?e = "entry_of checked cs"
  have fmt: "wal_format w = Guarded" using assms(1) by (simp add: journal_def)
  have app: "(if checked then append_checked_command (cs ! 0) (ji_write io) w else append_commands cs (ji_write io) w) =
      append_encoded_frames (entry_frame ?e) (ji_write io) w"
    using append_entry_encoded [OF assms(2) fmt, of "ji_write io"] by (cases checked) (simp_all add: entry_of_def)
  have one: "(checked \<and> length cs \<noteq> 1) = False" using assms(3) by simp
  obtain n where n: "\<And>w1. snd (append_encoded_frames (entry_frame ?e) (ji_write io) w) = w1 \<Longrightarrow>
      w1 = w\<lparr>wal_file := wal_file w @ take n (entry_frame ?e)\<rparr>"
  proof (cases "ji_write io")
    case Written
    show ?thesis by (rule that [of "length (entry_frame ?e)"]) (simp add: Written append_encoded_frames_def)
  next
    case (WriteError k truncated)
    show ?thesis
      by (rule that [of "if truncated then 0 else k"]) (auto simp: WriteError append_encoded_frames_def)
  qed
  obtain ra w1 where ra: "append_encoded_frames (entry_frame ?e) (ji_write io) w = (ra, w1)" by fastforce
  then have w1: "w1 = w\<lparr>wal_file := wal_file w @ take n (entry_frame ?e)\<rparr>" using n by simp
  obtain ok w2 where rb: "try_rollback (ji_rollback io) (length (wal_file w)) w1 = (ok, w2)" by fastforce
  note rest = try_rollback_result [OF assms(1,2,4) rb [unfolded w1]]
  have full: "w1 = w\<lparr>wal_file := wal_file w @ entry_frame ?e\<rparr>" if "ra = Inr x" for x
    using ra that by (auto simp: append_encoded_frames_def Let_def split: write_outcome.splits)
  define failed where "failed = (\<lambda>eg1. if ok then eg1 else eg_poison eg1)"
  have r: "(r, eg') = (case ra of
      Inl err \<Rightarrow> (Inl err, failed (eg\<lparr>eg_journal := Some w2, eg_wal_append_errors := eg_wal_append_errors eg + 1\<rparr>))
    | Inr _ \<Rightarrow>
        if eg_syncs_each_append eg \<and> \<not> ji_fsync io then
          (Inl (Err ''WAL fsync failed''), failed (eg\<lparr>eg_journal := Some w2, eg_wal_fsync_errors := eg_wal_fsync_errors eg + 1\<rparr>))
        else (Inr (length (wal_file w)), eg\<lparr>eg_journal := Some w1\<rparr>))"
    using assms(7) unfolding append_journal_commands_locked_def app one ensure_journal_healthy_def end_offset_def Let_def
    using assms(5) ra rb
    by (cases ra; cases ok; cases "eg_syncs_each_append eg"; cases "ji_fsync io") (simp_all add: failed_def)
  have failed: "engine_ready (failed eg1) = engine_ready eg1" "eg_journal (failed eg1) = eg_journal eg1"
    "poisoned (failed eg1) = (\<not> ok \<or> poisoned eg1)" "ok \<Longrightarrow> failed eg1 = eg1" for eg1
    by (simp_all add: failed_def)
  have rdy: "engine_ready (eg\<lparr>eg_journal := x, eg_wal_append_errors := n\<rparr>)" "engine_ready (eg\<lparr>eg_journal := x, eg_wal_fsync_errors := n\<rparr>)"
    "engine_ready (eg\<lparr>eg_journal := x\<rparr>)" for x n
    using assms(6) by (simp_all add: engine_ready_def)
  show ?thesis
  proof (cases ra)
    case (Inl err)
    then have "r = Inl err" "eg' = failed (eg\<lparr>eg_journal := Some w2, eg_wal_append_errors := eg_wal_append_errors eg + 1\<rparr>)"
      using r by simp_all
    then show ?thesis using rest assms(5) by (cases ok) (simp_all add: failed rdy)
  next
    case (Inr u)
    show ?thesis
    proof (cases "eg_syncs_each_append eg \<and> \<not> ji_fsync io")
      case True
      then have "r = Inl (Err ''WAL fsync failed'')"
        "eg' = failed (eg\<lparr>eg_journal := Some w2, eg_wal_fsync_errors := eg_wal_fsync_errors eg + 1\<rparr>)"
        using r Inr by simp_all
      then show ?thesis using rest assms(5) by (cases ok) (simp_all add: failed rdy)
    next
      case False
      then have "r = Inr (length (wal_file w))" "eg' = eg\<lparr>eg_journal := Some w1\<rparr>"
        using r unfolding Inr sum.case if_not_P [OF False] by simp_all
      then show ?thesis using full [OF Inr] by (simp add: rdy)
    qed
  qed
qed

text \<open>A journaled change of the store that does not poison the journal takes place exactly when it is acknowledged.\<close>

lemma append_locked_store:
  assumes "append_journal_commands_locked cs checked io w eg = (r, eg')"
  shows "if isl r then eg_store eg' = eg_store eg \<or> eg_store eg' = poison_journal (eg_store eg) else eg_store eg' = eg_store eg"
  using assms
  by (auto simp: append_journal_commands_locked_def Let_def eg_poison_def split: sum.splits prod.splits if_splits)

lemma append_physical_store:
  assumes "append_journal_commands_physical cs io eg = (r, eg')"
  shows "if isl r then eg_store eg' = eg_store eg \<or> eg_store eg' = poison_journal (eg_store eg) else eg_store eg' = eg_store eg"
proof (cases "eg_journal eg")
  case (Some w)
  obtain ra eg1 where a: "append_journal_commands_locked cs False io w eg = (ra, eg1)" by fastforce
  then show ?thesis using assms Some append_locked_store [OF a]
    by (cases ra) (auto simp: append_journal_commands_physical_def)
qed (use assms in \<open>auto simp: append_journal_commands_physical_def\<close>)

lemma commit_batch_store:
  assumes "commit_batch bypassed cs io eg = (r, eg')"
  shows "if isl r then eg_store eg' = eg_store eg \<or> eg_store eg' = poison_journal (eg_store eg) else eg_store eg' = eg_store eg"
proof -
  obtain ra eg1 where a: "append_journal_commands_physical cs io eg = (ra, eg1)" by fastforce
  show ?thesis using assms a append_physical_store [OF a]
    by (cases ra)
      (auto simp: commit_batch_def append_journal_commands_def buffer_exec_journal_commands_def Let_def
        split: option.splits if_splits)
qed

lemma prepare_journaled_healthy: "prepare_journaled_batch cs eg = Inr bypassed \<Longrightarrow> \<not> poisoned eg"
  by (auto simp: prepare_journaled_batch_def ensure_journal_healthy_def split: sum.splits if_splits)

lemma begin_journaled_store:
  assumes "begin_journaled_batch cs io eg = (r, eg')"
  shows "if isl r then eg_store eg' = eg_store eg \<or> eg_store eg' = poison_journal (eg_store eg)
    else eg_store eg' = eg_store eg \<and> \<not> poisoned eg"
proof (cases "prepare_journaled_batch cs eg")
  case (Inr bypassed)
  then have "commit_batch bypassed cs io eg = (r, eg')" using assms by (simp add: begin_journaled_batch_def)
  then show ?thesis using commit_batch_store prepare_journaled_healthy [OF Inr] by fastforce
qed (use assms in \<open>auto simp: begin_journaled_batch_def\<close>)

lemma commit_journaled_effect:
  assumes "commit_journaled c f io eg = (r, eg')"
    and "journal_poisoned (snd (f (eg_store eg))) = journal_poisoned (eg_store eg)"
  shows "case r of
      Inl _ \<Rightarrow> eg_store eg' = eg_store eg \<or> eg_store eg' = poison_journal (eg_store eg)
    | Inr x \<Rightarrow> f (eg_store eg) = (x, eg_store eg')"
proof -
  obtain rb eg1 where b: "begin_journaled_batch [c] io eg = (rb, eg1)" by fastforce
  obtain x st where f: "f (eg_store eg) = (x, st)" by fastforce
  show ?thesis using assms b f begin_journaled_store [OF b]
    by (cases rb) (auto simp: commit_journaled_def commit_journaled_batch_def apply_live_def complete_def ensure_journal_healthy_def)
qed

text \<open>A prepared change that cannot fail, and does not poison the journal, takes place exactly when it is acknowledged.\<close>

lemma commit_prepared_effect:
  assumes "commit_prepared route prepare f io eg = (r, eg')" and "prepare (eg_store eg) = (q, eg_store eg)"
    and "\<And>cs p. q = Inr (cs, p) \<Longrightarrow> \<exists>x. fst (f p (eg_store eg)) = Inr x"
    and "\<And>cs p. q = Inr (cs, p) \<Longrightarrow> journal_poisoned (snd (f p (eg_store eg))) = journal_poisoned (eg_store eg)"
  shows "(\<exists>cs p x. q = Inr (cs, p) \<and> r = Inr (Inr x) \<and> f p (eg_store eg) = (Inr x, eg_store eg')) \<or>
    (\<nexists>x. r = Inr (Inr x)) \<and> (eg_store eg' = eg_store eg \<or> eg_store eg' = poison_journal (eg_store eg))"
proof (cases "prepare_journaled_batch [route] eg")
  case (Inl e)
  then show ?thesis using assms(1) by (auto simp: commit_prepared_def)
next
  case (Inr bypassed)
  note healthy = prepare_journaled_healthy [OF Inr]
  show ?thesis
  proof (cases q)
    case (Inl e)
    then show ?thesis using assms(1,2) Inr by (auto simp: commit_prepared_def apply_live_def)
  next
    case q: (Inr cp)
    obtain cs p where cp: "cp = (cs, p)" by (cases cp)
    obtain rb eg1 where b: "commit_batch bypassed cs io eg = (rb, eg1)" by fastforce
    obtain x st where f: "f p (eg_store eg) = (Inr x, st)" using assms(3) q cp by (metis prod.collapse)
    have "eg\<lparr>eg_store := eg_store eg\<rparr> = eg" by simp
    then show ?thesis using assms(1,2) assms(4) [of cs p] Inr q cp b f healthy commit_batch_store [OF b]
      by (cases rb) (auto simp: commit_prepared_def apply_live_def complete_def ensure_journal_healthy_def)
  qed
qed

text \<open>The outcome of one mutation on a healthy engine whose journal holds the entries \<open>es\<close>.\<close>

definition committed ::
    "(command \<Rightarrow> 'o \<Rightarrow> 'o) \<Rightarrow> (store \<Rightarrow> 'o) \<Rightarrow> ('t \<Rightarrow> bool) \<Rightarrow> journal_entry list \<Rightarrow> 't mutation \<Rightarrow> engine \<Rightarrow> 't result \<Rightarrow> engine \<Rightarrow> bool" where
  "committed exec obs accepted es m eg r eg' \<longleftrightarrow> engine_ready eg' \<and> (\<exists>w'. eg_journal eg' = Some w' \<and>
    (case r of
       Inr x \<Rightarrow> journal w' (if accepted x then es @ [mutation_entry m] else es) \<and>
         length (wal_file w') \<le> length (wal_file (the (eg_journal eg))) + length (entry_frame (mutation_entry m)) \<and>
         obs (eg_store eg') = (if accepted x then fold exec (mu_commands m) (obs (eg_store eg)) else obs (eg_store eg))
     | Inl _ \<Rightarrow>
         if poisoned eg' then \<exists>ext. length ext \<le> 1 \<and> set ext \<subseteq> {mutation_entry m} \<and> recovers w' (es @ ext)
         else w' = the (eg_journal eg) \<and> eg_store eg' = eg_store eg))"

lemma commit_batch_step:
  assumes "eg_journal eg = Some w" and "journal w es" and "mutation_ok m" and "\<not> mu_checked m"
    and "length (wal_file w) + length (entry_frame (mutation_entry m)) \<le> usize_max"
    and "\<not> poisoned eg" and "engine_ready eg" and "replayable exec obs accepted m"
    and "commit_journaled_batch (mu_commands m) (\<lambda>st. map_prod fst id (mu_apply m st)) io eg = (r, eg')"
  shows "committed exec obs accepted es m eg r eg'"
proof -
  let ?cs = "mu_commands m"
  have e: "entry_of False ?cs = mutation_entry m" using assms(4) by (simp add: entry_of_def mutation_entry_def)
  have ne: "?cs \<noteq> []" using assms(3,4) by (auto simp: mutation_ok_def mutation_entry_def entry_ok_def)
  obtain ra eg1 where a: "append_journal_commands_locked ?cs False io w eg = (ra, eg1)" by fastforce
  have ok: "entry_ok (entry_of False ?cs)" using assms(3) by (simp add: e mutation_ok_def)
  note app = append_locked_result [OF assms(2) ok _ _ assms(6,7) a, unfolded e]
  have begin_eq: "begin_journaled_batch ?cs io eg =
      (case ra of Inl err \<Rightarrow> (Inl err, eg1) | Inr _ \<Rightarrow> (Inr \<lparr>cg_transaction_checkpoint = None, cg_armed = True\<rparr>, eg1))"
    using assms(1,6,7) a ne
    by (simp add: begin_journaled_batch_def prepare_journaled_batch_def ensure_accepting_mutations_def ensure_journal_healthy_def
        engine_ready_def commit_batch_def append_journal_commands_def buffer_exec_journal_commands_def
        append_journal_commands_physical_def split: sum.splits)
  show ?thesis
  proof (cases ra)
    case (Inl err)
    then have "r = Inl err" "eg' = eg1" using assms(9) by (simp_all add: commit_journaled_batch_def begin_eq)
    then show ?thesis using app Inl assms(1,5) by (cases "poisoned eg1") (simp_all add: committed_def)
  next
    case (Inr off)
    obtain x b st where f: "mu_apply m (eg_store eg) = ((x, b), st)" by (metis prod.exhaust)
    have rp: "accepted x" "obs st = fold exec ?cs (obs (eg_store eg))"
      using assms(4,8) f by (auto simp: replayable_def)
    have st1: "eg_store eg1 = eg_store eg" "engine_ready eg1"
      and w1: "eg_journal eg1 = Some (w\<lparr>wal_file := wal_file w @ entry_frame (mutation_entry m)\<rparr>)"
      using app Inr assms(5) by simp_all
    have j1: "journal (w\<lparr>wal_file := wal_file w @ entry_frame (mutation_entry m)\<rparr>) (es @ [mutation_entry m])"
      using journal_snoc [OF assms(2) _ assms(5)] ok by (simp add: e)
    define eg2 where "eg2 = eg1\<lparr>eg_store := st\<rparr>"
    have eg2: "eg_journal eg2 = eg_journal eg1" "engine_ready eg2" "eg_store eg2 = st"
      using st1(2) by (simp_all add: eg2_def engine_ready_def)
    have r: "(r, eg') = (if journal_poisoned st then (Inl (Err ''mutation journal is unavailable; restart required''), eg_poison eg2) else (Inr x, eg2))"
      using assms(9) Inr f st1(1)
      by (simp add: commit_journaled_batch_def begin_eq apply_live_def complete_def ensure_journal_healthy_def commit_guard_drop_def eg2_def
          split: if_splits)
    show ?thesis
    proof (cases "journal_poisoned st")
      case True
      then have "r = Inl (Err ''mutation journal is unavailable; restart required'')" "eg' = eg_poison eg2" using r by simp_all
      then show ?thesis using eg2 w1 journal_recovers [OF j1]
        by (auto simp: committed_def intro!: exI [of _ "[mutation_entry m]"])
    next
      case False
      then have "r = Inr x" "eg' = eg2" using r by simp_all
      then show ?thesis using eg2 w1 j1 rp assms(1) by (simp add: committed_def)
    qed
  qed
qed

lemma commit_checked_step:
  assumes "eg_journal eg = Some w" and "journal w es" and "mutation_ok m" and "mu_checked m"
    and "length (wal_file w) + length (entry_frame (mutation_entry m)) \<le> usize_max"
    and "\<not> poisoned eg" and "engine_ready eg" and "replayable exec obs accepted m"
    and "commit_journaled_checked (mu_commands m ! 0) (mu_apply m) io eg = (r, eg')"
  shows "committed exec obs accepted es m eg r eg'"
proof -
  let ?e = "mutation_entry m" and ?err = "Inl (Err ''mutation journal is unavailable; restart required'')"
  obtain c where c: "mu_commands m = [c]" using assms(3,4) by (auto simp: mutation_ok_def length_Suc_conv)
  have e: "entry_of True [c] = ?e" using assms(4) by (simp add: entry_of_def mutation_entry_def c)
  obtain ra eg1 where a: "append_journal_commands_locked [c] True io w eg = (ra, eg1)" by fastforce
  have ok: "entry_ok (entry_of True [c])" using assms(3) by (simp add: e mutation_ok_def)
  note app = append_locked_result [OF assms(2) ok _ _ assms(6,7) a, unfolded e]
  let ?g = "\<lparr>cg_transaction_checkpoint = None, cg_armed = True\<rparr>"
  note defs = commit_journaled_checked_def prepare_journaled_batch_def ensure_accepting_mutations_def ensure_journal_healthy_def
  show ?thesis
  proof (cases ra)
    case (Inl err)
    then have "r = Inl err" "eg' = eg1" using assms(1,6,7,9) a by (simp_all add: defs engine_ready_def c)
    then show ?thesis using app Inl assms(1,5) by (cases "poisoned eg1") (simp_all add: committed_def)
  next
    case (Inr off)
    obtain x b st where f: "mu_apply m (eg_store eg) = ((x, b), st)" by (metis prod.exhaust)
    have rp: "accepted x = b" "obs st = (if b then fold exec (mu_commands m) (obs (eg_store eg)) else obs (eg_store eg))"
      using assms(8) f by (auto simp: replayable_def)
    let ?w1 = "w\<lparr>wal_file := wal_file w @ entry_frame ?e\<rparr>"
    have st1: "eg_store eg1 = eg_store eg" "engine_ready eg1" "off = length (wal_file w)" and w1: "eg_journal eg1 = Some ?w1"
      using app Inr assms(5) by simp_all
    have j1: "journal ?w1 (es @ [?e])" using journal_snoc [OF assms(2) _ assms(5)] ok by (simp add: e)
    define eg2 where "eg2 = eg1\<lparr>eg_store := st\<rparr>"
    have eg2: "eg_journal eg2 = Some ?w1" "engine_ready eg2" "eg_store eg2 = st" "\<And>w'. engine_ready (eg2\<lparr>eg_journal := w'\<rparr>)"
      "\<And>w' n. engine_ready (eg2\<lparr>eg_journal := w', eg_wal_append_errors := n\<rparr>)"
      using st1(2) w1 by (simp_all add: eg2_def engine_ready_def)
    obtain rb w2 where rb: "try_rollback (ji_rollback io) off ?w1 = (rb, w2)" by fastforce
    have res: "(r, eg') =
        (if b then (if journal_poisoned st then (?err, eg_poison eg2) else (Inr x, eg2))
         else if rb then (Inr x, eg2\<lparr>eg_journal := Some w2\<rparr>)
         else (Inl (Err ''failed to remove rejected WAL command''),
            eg_poison (eg_poison (eg2\<lparr>eg_journal := Some w2, eg_wal_append_errors := eg_wal_append_errors eg2 + 1\<rparr>))))"
      using assms(1,6,7,9) a Inr f st1(1) eg2(1,3) rb
      by (cases b; cases rb; cases "journal_poisoned st")
        (simp_all add: defs engine_ready_def c apply_live_def complete_def commit_guard_drop_def rolled_back_def flip: eg2_def)
    have "try_rollback (ji_rollback io) (length (wal_file w))
        (w\<lparr>wal_file := wal_file w @ take (length (entry_frame ?e)) (entry_frame ?e)\<rparr>) = (rb, w2)"
      using rb st1(3) by simp
    note rest = try_rollback_result [OF assms(2) ok [unfolded e] assms(5) this]
    consider "b" "journal_poisoned st" | "b" "\<not> journal_poisoned st" | "\<not> b" "rb" | "\<not> b" "\<not> rb" by blast
    then show ?thesis
    proof cases
      case 1
      then have "r = ?err" "eg' = eg_poison eg2" using res rb by simp_all
      then show ?thesis using eg2 journal_recovers [OF j1] by (auto simp: committed_def intro!: exI [of _ "[?e]"])
    next
      case 2
      then have "r = Inr x" "eg' = eg2" using res rb by simp_all
      then show ?thesis using eg2 j1 rp 2 assms(1) by (simp add: committed_def)
    next
      case 3
      then have "r = Inr x" "eg' = eg2\<lparr>eg_journal := Some w\<rparr>" using res rb rest by simp_all
      then show ?thesis using eg2 assms(1,2) rp 3 by (simp add: committed_def)
    next
      case 4
      then have "r = Inl (Err ''failed to remove rejected WAL command'')"
        "eg' = eg_poison (eg_poison (eg2\<lparr>eg_journal := Some w2, eg_wal_append_errors := eg_wal_append_errors eg2 + 1\<rparr>))"
        using res rb by simp_all
      then show ?thesis using rest 4 eg2 by (simp add: committed_def)
    qed
  qed
qed

section \<open>Sequences of commits\<close>

fun run_mutations :: "('t mutation \<times> journal_io) list \<Rightarrow> engine \<Rightarrow> 't result list \<times> engine" where
  "run_mutations [] eg = ([], eg)"
| "run_mutations ((m, io) # ms) eg =
     (case run_mutation m io eg of (r, eg) \<Rightarrow> (case run_mutations ms eg of (rs, eg) \<Rightarrow> (r # rs, eg)))"

text \<open>The journal entries of the mutations that were acknowledged and not rejected.\<close>

fun acknowledged :: "('t \<Rightarrow> bool) \<Rightarrow> ('t mutation \<times> journal_io) list \<Rightarrow> 't result list \<Rightarrow> journal_entry list" where
  "acknowledged accepted ((m, io) # ms) (r # rs) =
     (case r of
        Inr x \<Rightarrow> if accepted x then mutation_entry m # acknowledged accepted ms rs else acknowledged accepted ms rs
      | Inl _ \<Rightarrow> acknowledged accepted ms rs)"
| "acknowledged accepted _ _ = []"

lemma run_mutation_poisoned:
  "poisoned eg \<Longrightarrow> engine_ready eg \<Longrightarrow> \<exists>e. run_mutation m io eg = (Inl e, eg)"
  by (simp add: run_mutation_def commit_journaled_checked_def commit_journaled_batch_def begin_journaled_batch_def
      prepare_journaled_batch_def ensure_accepting_mutations_def ensure_journal_healthy_def engine_ready_def)

lemma run_mutations_poisoned:
  assumes "poisoned eg" and "engine_ready eg" and "run_mutations ms eg = (rs, eg')"
  shows "eg' = eg \<and> acknowledged accepted ms rs = []"
  using assms
proof (induction ms arbitrary: rs)
  case (Cons p ms)
  obtain m io where p: "p = (m, io)" by (cases p)
  obtain e where e: "run_mutation m io eg = (Inl e, eg)" using run_mutation_poisoned [OF Cons.prems(1,2)] by blast
  obtain rs1 where "run_mutations ms eg = (rs1, eg')" "rs = Inl e # rs1"
    using Cons.prems(3) e by (auto simp: p split: prod.splits)
  then show ?case using Cons.IH [OF Cons.prems(1,2)] by (simp add: p)
qed simp

text \<open>
  Claim C1. Write-ahead commits are durable and atomic. Start from a healthy engine
  whose store is what its journal describes and run any mutations, plain and
  checked, under any failures of writing, syncing and truncating the journal.
  Recovering the journal at the end yields, in order, the entries that were there,
  those of the acknowledged mutations, and at most one more, of a mutation that was
  refused with an error and poisoned the journal. As long as the journal is not
  poisoned there is no such entry, and the live store is exactly the recovered one.
\<close>

theorem commit_durable:
  assumes "eg_journal eg = Some w" and "journal w es" and "\<not> poisoned eg" and "engine_ready eg"
    and "\<forall>(m, io) \<in> set ms. mutation_ok m \<and> replayable exec obs accepted m"
    and "length (wal_file w) + sum_list (map (\<lambda>(m, io). length (entry_frame (mutation_entry m))) ms) \<le> usize_max"
    and "obs (eg_store eg) = fold exec (concat (map entry_commands es)) o0"
    and "run_mutations ms eg = (rs, eg')"
  shows "\<exists>w' ext. eg_journal eg' = Some w' \<and> length ext \<le> 1 \<and> set ext \<subseteq> (\<lambda>(m, io). mutation_entry m) ` set ms \<and>
    recovers w' (es @ acknowledged accepted ms rs @ ext) \<and>
    (\<not> poisoned eg' \<longrightarrow> ext = [] \<and>
       obs (eg_store eg') = fold exec (concat (map entry_commands (es @ acknowledged accepted ms rs))) o0)"
  using assms
proof (induction ms arbitrary: eg w es rs)
  case Nil
  then show ?case using journal_recovers [OF Nil.prems(2)] by simp
next
  case (Cons p ms)
  obtain m io where p: "p = (m, io)" by (cases p)
  obtain r eg1 where r: "run_mutation m io eg = (r, eg1)" by fastforce
  obtain rs1 where rs: "run_mutations ms eg1 = (rs1, eg')" "rs = r # rs1"
    using Cons.prems(8) r by (auto simp: p split: prod.splits)
  have ok: "mutation_ok m" "replayable exec obs accepted m" using Cons.prems(5) by (auto simp: p)
  have space: "length (wal_file w) + length (entry_frame (mutation_entry m)) \<le> usize_max" using Cons.prems(6) by (simp add: p)
  have c: "committed exec obs accepted es m eg r eg1"
    using commit_batch_step [OF Cons.prems(1,2) ok(1) _ space Cons.prems(3,4) ok(2)]
      commit_checked_step [OF Cons.prems(1,2) ok(1) _ space Cons.prems(3,4) ok(2)] r
    by (cases "mu_checked m") (auto simp: run_mutation_def)
  then obtain w1 where w1: "eg_journal eg1 = Some w1" "engine_ready eg1" by (auto simp: committed_def)
  show ?case
  proof (cases "poisoned eg1")
    case True
    note stop = run_mutations_poisoned [OF True w1(2) rs(1)]
    have "\<exists>ext. length ext \<le> 1 \<and> set ext \<subseteq> {mutation_entry m} \<and>
        recovers w1 (es @ acknowledged accepted [(m, io)] [r] @ ext)"
      using c w1 True journal_recovers
      by (cases r) (auto simp: committed_def intro!: exI [of _ "[]"] split: if_splits)
    then obtain ext where ext: "length ext \<le> 1" "set ext \<subseteq> {mutation_entry m}"
      "recovers w1 (es @ acknowledged accepted [(m, io)] [r] @ ext)" by blast
    have "acknowledged accepted (p # ms) rs = acknowledged accepted [(m, io)] [r]"
      using stop [of accepted] by (simp add: p rs(2) split: sum.split)
    then show ?thesis using stop w1 True ext by (intro exI [of _ w1] exI [of _ ext]) (auto simp: p)
  next
    case False
    let ?es = "es @ acknowledged accepted [(m, io)] [r]"
    have j: "journal w1 ?es" "length (wal_file w1) \<le> length (wal_file w) + length (entry_frame (mutation_entry m))"
      "obs (eg_store eg1) = fold exec (concat (map entry_commands ?es)) o0"
      using c w1 False Cons.prems(1,2,7) ok(1)
      by (cases r; auto simp: committed_def mutation_entry_def mutation_ok_def length_Suc_conv split: if_splits)+
    have ack: "acknowledged accepted (p # ms) rs = acknowledged accepted [(m, io)] [r] @ acknowledged accepted ms rs1"
      by (simp add: p rs(2) split: sum.split)
    have "length (wal_file w1) + sum_list (map (\<lambda>(m, io). length (entry_frame (mutation_entry m))) ms) \<le> usize_max"
      using Cons.prems(6) j(2) by (simp add: p)
    then obtain w' ext where "eg_journal eg' = Some w'" "length ext \<le> 1" "set ext \<subseteq> (\<lambda>(m, io). mutation_entry m) ` set ms"
      "recovers w' (?es @ acknowledged accepted ms rs1 @ ext)"
      "\<not> poisoned eg' \<longrightarrow> ext = [] \<and>
         obs (eg_store eg') = fold exec (concat (map entry_commands (?es @ acknowledged accepted ms rs1))) o0"
      using Cons.IH [OF w1(1) j(1) False w1(2) _ _ j(3) rs(1)] Cons.prems(5) by auto
    then show ?thesis unfolding ack append_assoc [symmetric] by (intro exI [of _ w'] exI [of _ ext]) (auto simp: p)
  qed
qed

section \<open>EXEC\<close>

text \<open>
  Inside a transaction the journal is not touched: the commands of the accepted
  mutations collect in the buffer. A mutation that poisons the journal leaves a
  non-empty buffer behind.
\<close>

definition buffered ::
    "(command \<Rightarrow> 'o \<Rightarrow> 'o) \<Rightarrow> (store \<Rightarrow> 'o) \<Rightarrow> 'o \<Rightarrow> command list \<Rightarrow> engine \<Rightarrow> bool" where
  "buffered exec obs o1 cs eg \<longleftrightarrow> eg_accepting eg \<and> \<not> eg_suppress eg \<and>
     (\<exists>buf. eg_exec eg = Some buf \<and>
        (if buf = cs then obs (eg_store eg) = fold exec cs o1 else poisoned eg \<and> buf \<noteq> []))"

lemma exec_step:
  assumes "buffered exec obs o1 cs eg" and "\<not> poisoned eg" and "eg_journal eg = Some w" and "mutation_ok m"
    and "replayable exec obs accepted m" and "run_mutation m io eg = (r, eg')"
  shows "eg_journal eg' = Some w \<and>
    buffered exec obs o1 (cs @ concat (map entry_commands (acknowledged accepted [(m, io)] [r]))) eg'"
proof -
  have eg: "eg_accepting eg" "\<not> eg_suppress eg" "eg_exec eg = Some cs" "obs (eg_store eg) = fold exec cs o1"
    using assms(1,2) by (auto simp: buffered_def split: if_splits)
  obtain x b st where f: "mu_apply m (eg_store eg) = ((x, b), st)" by (metis prod.exhaust)
  have rp: "accepted x = b" "mu_checked m \<or> b" "obs st = (if b then fold exec (mu_commands m) (obs (eg_store eg)) else obs (eg_store eg))"
    using assms(5) f by (auto simp: replayable_def)
  have ne: "mu_commands m \<noteq> []" "entry_commands (mutation_entry m) = mu_commands m"
    "mu_checked m \<Longrightarrow> [mu_commands m ! 0] = mu_commands m"
    using assms(4) by (auto simp: mutation_ok_def mutation_entry_def entry_ok_def length_Suc_conv)
  have run: "(r, eg') =
      (if b then
         (if journal_poisoned st then
            (Inl (Err ''mutation journal is unavailable; restart required''),
             eg_poison (eg\<lparr>eg_exec := Some (cs @ mu_commands m), eg_store := st\<rparr>))
          else (Inr x, eg\<lparr>eg_exec := Some (cs @ mu_commands m), eg_store := st\<rparr>))
       else (Inr x, eg\<lparr>eg_store := st, eg_exec := Some cs\<rparr>))"
    using assms(2,3,6) eg f rp(2) ne
    by (cases "mu_checked m"; cases b; cases "journal_poisoned st")
      (simp_all add: run_mutation_def commit_journaled_checked_def commit_journaled_batch_def begin_journaled_batch_def
        prepare_journaled_batch_def ensure_accepting_mutations_def ensure_journal_healthy_def commit_batch_def
        append_journal_commands_def buffer_exec_journal_commands_def apply_live_def complete_def commit_guard_drop_def rolled_back_def)
  show ?thesis
  proof (cases b)
    case True
    then show ?thesis using run rp(1,3) eg ne assms(3)
      by (cases "journal_poisoned st") (simp_all add: buffered_def eg_poison_def poison_journal_def)
  next
    case False
    then show ?thesis using run rp eg assms(3) by (simp add: buffered_def)
  qed
qed

lemma exec_run:
  assumes "buffered exec obs o1 cs eg" and "eg_journal eg = Some w"
    and "\<forall>(m, io) \<in> set ms. mutation_ok m \<and> replayable exec obs accepted m" and "run_mutations ms eg = (rs, eg')"
  shows "eg_journal eg' = Some w \<and>
    buffered exec obs o1 (cs @ concat (map entry_commands (acknowledged accepted ms rs))) eg'"
  using assms
proof (induction ms arbitrary: cs eg rs)
  case (Cons p ms)
  obtain m io where p: "p = (m, io)" by (cases p)
  obtain r eg1 where r: "run_mutation m io eg = (r, eg1)" by fastforce
  obtain rs1 where rs: "run_mutations ms eg1 = (rs1, eg')" "rs = r # rs1"
    using Cons.prems(4) r by (auto simp: p split: prod.splits)
  have ack: "acknowledged accepted (p # ms) rs = acknowledged accepted [(m, io)] [r] @ acknowledged accepted ms rs1"
    by (simp add: p rs(2) split: sum.split)
  have step: "eg_journal eg1 = Some w \<and>
      buffered exec obs o1 (cs @ concat (map entry_commands (acknowledged accepted [(m, io)] [r]))) eg1"
  proof (cases "poisoned eg")
    case True
    then have "\<exists>e. r = Inl e \<and> eg1 = eg" using r Cons.prems(1)
      by (auto simp: run_mutation_def commit_journaled_checked_def commit_journaled_batch_def begin_journaled_batch_def
          prepare_journaled_batch_def ensure_accepting_mutations_def ensure_journal_healthy_def buffered_def split: if_splits)
    then show ?thesis using Cons.prems(1,2) by auto
  next
    case False
    then show ?thesis using exec_step [OF Cons.prems(1) False Cons.prems(2) _ _ r, of accepted] Cons.prems(3) by (auto simp: p)
  qed
  show ?case using Cons.IH [OF conjunct2 [OF step] conjunct1 [OF step] _ rs(1)] Cons.prems(3)
    by (simp add: ack del: acknowledged.simps)
qed simp

text \<open>
  Claim C5. \<open>EXEC\<close> is atomic in the journal. Whatever the mutations of a transaction
  do, a successful commit adds exactly one entry, holding the commands of all the
  mutations that took effect (none, when there was none), so that recovery performs
  all of them or nothing, and the live store is the recovered one. A failed commit
  poisons the journal, and recovery finds the transaction wholly or not at all.
\<close>

theorem exec_atomic:
  assumes "eg_journal eg = Some w" and "journal w es" and "\<not> poisoned eg" and "engine_ready eg"
    and "begin_exec_transaction eg = (Inr (), eg0)" and "run_mutations ms eg0 = (rs, eg1)" and "exec_commit io eg1 = (r, eg')"
    and "\<forall>(m, io) \<in> set ms. mutation_ok m \<and> replayable exec obs accepted m"
    and "cs = concat (map entry_commands (acknowledged accepted ms rs))"
    and "cs \<noteq> [] \<longrightarrow> entry_ok (Batch cs) \<and> length (wal_file w) + length (entry_frame (Batch cs)) \<le> usize_max"
  shows "\<exists>w'. eg_journal eg' = Some w' \<and>
    (case r of
       Inr eff \<Rightarrow> eff = exec_effects_of eg1 \<and> journal w' (es @ (if cs = [] then [] else [Batch cs])) \<and> obs (eg_store eg') = fold exec cs (obs (eg_store eg))
     | Inl _ \<Rightarrow> poisoned eg' \<and> (recovers w' es \<or> recovers w' (es @ [Batch cs])))"
proof -
  let ?o1 = "obs (eg_store eg)"
  have eg0: "eg0 = eg\<lparr>eg_exec := Some [], eg_exec_row_deltas := [], eg_exec_key_events := [], eg_exec_list_wake_keys := []\<rparr>"
    using assms(3,4,5) by (simp add: begin_exec_transaction_def ensure_journal_healthy_def engine_ready_def split: if_splits)
  have "buffered exec obs ?o1 [] eg0" "eg_journal eg0 = Some w"
    using assms(1,4) by (simp_all add: eg0 buffered_def engine_ready_def)
  from exec_run [OF this assms(8,6)] assms(9)
  have eg1: "eg_journal eg1 = Some w" "buffered exec obs ?o1 cs eg1" by simp_all
  then obtain buf where buf: "eg_exec eg1 = Some buf" "eg_accepting eg1" "\<not> eg_suppress eg1"
    "if buf = cs then obs (eg_store eg1) = fold exec cs ?o1 else poisoned eg1 \<and> buf \<noteq> []"
    by (auto simp: buffered_def)
  define eg2 where "eg2 = eg1\<lparr>eg_exec := None\<rparr>"
  have eg2: "eg_journal eg2 = Some w" "eg_store eg2 = eg_store eg1" "engine_ready eg2"
    using eg1(1) buf(2,3) by (simp_all add: eg2_def engine_ready_def)
  show ?thesis
  proof (cases "buf = []")
    case True
    then have "r = Inr (exec_effects_of eg1)" "eg' = eg2" using assms(7) buf(1) by (simp_all add: exec_commit_def eg2_def)
    then show ?thesis using eg2 buf(4) assms(2) True by (auto split: if_splits)
  next
    case False
    obtain ra eg3 where a: "append_journal_commands_locked buf False io w eg2 = (ra, eg3)" by fastforce
    have r: "(r, eg') = (case ra of Inl e \<Rightarrow> (Inl e, eg_poison eg3) | Inr _ \<Rightarrow> (Inr (exec_effects_of eg1), eg3))"
      using assms(7) buf(1,3) False eg1(1) a
      by (simp add: exec_commit_def append_journal_commands_physical_def eg2_def split: sum.splits)
    show ?thesis
    proof (cases "poisoned eg2")
      case True
      then have "(ra, eg3) = (Inl (Err ''mutation journal is unavailable; restart required''), eg2)"
        using a by (simp add: append_journal_commands_locked_def ensure_journal_healthy_def)
      then show ?thesis using r eg2(1) journal_recovers [OF assms(2)] by simp
    next
      case healthy: False
      then have cs: "buf = cs" "obs (eg_store eg1) = fold exec cs ?o1" using buf(4) eg2(2) by (auto split: if_splits)
      have ok: "entry_ok (entry_of False buf)" "length (wal_file w) + length (entry_frame (entry_of False buf)) \<le> usize_max"
        using assms(10) cs(1) False by (simp_all add: entry_of_def)
      note app = append_locked_result [OF assms(2) ok(1) _ ok(2) healthy eg2(3) a]
      show ?thesis
      proof (cases ra)
        case (Inl e)
        have "recovers w' es \<or> recovers w' (es @ [Batch cs])"
          if "length ext \<le> 1" "set ext \<subseteq> {Batch cs}" "recovers w' (es @ ext)" for w' ext
          using that by (cases ext) auto
        then show ?thesis using app Inl r cs(1) journal_recovers [OF assms(2)]
          by (cases "poisoned eg3") (auto simp: entry_of_def)
      next
        case (Inr off)
        then show ?thesis using app r cs False eg2(2) journal_snoc [OF assms(2) ok] by (simp add: entry_of_def)
      qed
    qed
  qed
qed

section \<open>Gates\<close>

lemma gate_loop_result:
  "gate_loop gates commands indices = Some is' \<longleftrightarrow>
     (\<forall>c \<in> set commands. journal_route_key c \<noteq> None) \<and>
     is' = indices @ map (\<lambda>c. journal_gate_index gates (the (journal_route_key c))) commands"
  by (induction commands arbitrary: indices) (auto split: option.splits)

lemma strict_remdups_adj: "sorted (xs :: nat list) \<Longrightarrow> sorted_wrt (<) (remdups_adj xs)"
  by (induction xs rule: remdups_adj.induct) fastforce+

text \<open>
  Claim C35. The gates of a commit are locked in ascending order, each once, so
  that no two commits can wait for each other in a cycle; all of them lie in range.
  Two commits that both touch a key as the route of one of their commands share a
  gate, and a commit with a command that has no single route takes every gate.
\<close>

theorem journal_gates_ordered:
  assumes "0 < gates"
  shows "sorted_wrt (<) (journal_gate_indices gates cs) \<and> (\<forall>i \<in> set (journal_gate_indices gates cs). i < gates) \<and>
    (\<forall>c \<in> set cs. \<forall>key. journal_route_key c = Some key \<longrightarrow> journal_gate_index gates key \<in> set (journal_gate_indices gates cs)) \<and>
    ((\<exists>c \<in> set cs. journal_route_key c = None) \<longrightarrow> set (journal_gate_indices gates cs) = {0..<gates})"
proof (cases "gate_loop gates cs []")
  case None
  then have "journal_gate_indices gates cs = [0..<gates]" by (simp add: journal_gate_indices_def)
  then show ?thesis using assms by (simp add: journal_gate_index_def)
next
  case (Some l)
  then have l: "\<forall>c \<in> set cs. journal_route_key c \<noteq> None" "l = map (\<lambda>c. journal_gate_index gates (the (journal_route_key c))) cs"
    using gate_loop_result by fastforce+
  have "journal_gate_indices gates cs = remdups_adj (sort l)" using Some by (simp add: journal_gate_indices_def)
  moreover have "sorted_wrt (<) (remdups_adj (sort l))"
    by (simp add: strict_remdups_adj)
  ultimately show ?thesis using l assms by (force simp: journal_gate_index_def)
qed

section \<open>Witnesses\<close>

text \<open>Deleting a key, as the eviction of a key and the \<open>DEL\<close> command journal it, observed on the data.\<close>

definition demo_delete :: "bytes \<Rightarrow> unit mutation" where
  "demo_delete key = \<lparr>mu_checked = False, mu_commands = [[ascii ''DEL'', key]],
     mu_apply = (\<lambda>st. (((), True), modify_shard key (\<lambda>s. s\<lparr>sh_data := hm_remove key (sh_data s)\<rparr>) st))\<rparr>"

definition demo_exec :: "command \<Rightarrow> (bytes, entry) hash_map list \<Rightarrow> (bytes, entry) hash_map list" where
  "demo_exec c ds = (case c of [_, key] \<Rightarrow>
     ds[unat (fx_hash key) mod length ds := hm_remove key (ds ! (unat (fx_hash key) mod length ds))] | _ \<Rightarrow> ds)"

lemma demo_delete_ok:
  "length key \<le> 100 \<Longrightarrow> mutation_ok (demo_delete key) \<and> length (entry_frame (mutation_entry (demo_delete key))) \<le> 131"
  by (simp add: mutation_ok_def mutation_entry_def demo_delete_def entry_ok_def command_ok_def marker_free_def u32_sized_def
      command_payload_def MAX_WAL_FRAME_BYTES_def WAL_BATCH_MARKER_def WAL_CHECKED_MARKER_def ascii_def)

lemma demo_delete_replayable: "replayable demo_exec datas (\<lambda>_. True) (demo_delete key)"
proof -
  have "sh_data (shard_at st key) = datas st ! (unat (fx_hash key) mod length (shards st))"
    if "shards st \<noteq> []" for st
    using that by (simp add: datas_def shard_at_def shard_index_def)
  then show ?thesis
    by (auto simp: replayable_def demo_delete_def demo_exec_def datas_modify shard_index_def)
      (metis length_datas length_0_conv list_update_nonempty)
qed

definition demo_engine :: engine where
  "demo_engine = \<lparr>eg_store = new_store 2 None,
     eg_journal = Some \<lparr>wal_file = wal_header_bytes demo_generation, wal_format = Guarded,
       wal_header_len = WAL_HEADER_LEN, wal_generation = demo_generation\<rparr>,
     eg_accepting = True, eg_suppress = False, eg_syncs_each_append = True, eg_exec = None,
     eg_exec_row_deltas = [], eg_exec_key_events = [], eg_exec_list_wake_keys = [], eg_read_depth = 0,
     eg_wal_append_errors = 0, eg_wal_fsync_errors = 0\<rparr>"

lemma demo_engine_facts:
  "eg_journal demo_engine = Some \<lparr>wal_file = wal_header_bytes demo_generation, wal_format = Guarded,
     wal_header_len = WAL_HEADER_LEN, wal_generation = demo_generation\<rparr>"
  "journal \<lparr>wal_file = wal_header_bytes demo_generation, wal_format = Guarded,
     wal_header_len = WAL_HEADER_LEN, wal_generation = demo_generation\<rparr> []"
  "\<not> poisoned demo_engine" "engine_ready demo_engine"
  by (simp_all add: demo_engine_def journal_def engine_ready_def new_store_def WAL_HEADER_LEN_def WAL_HEADER_V2_LEN_def usize_max_def)

definition demo_io :: journal_io where
  "demo_io = \<lparr>ji_write = Written, ji_fsync = True, ji_rollback = RolledBack\<rparr>"

definition demo_failing_io :: journal_io where
  "demo_failing_io = \<lparr>ji_write = WriteError 5 False, ji_fsync = True, ji_rollback = RollbackFails False\<rparr>"

definition demo_mutations :: "(unit mutation \<times> journal_io) list" where
  "demo_mutations = [(demo_delete (ascii ''a''), demo_io), (demo_delete (ascii ''b''), demo_failing_io)]"

lemma demo_mutations_ok:
  "\<forall>(m, io) \<in> set demo_mutations. mutation_ok m \<and> replayable demo_exec datas (\<lambda>_. True) m"
  "WAL_HEADER_LEN + sum_list (map (\<lambda>(m, io). length (entry_frame (mutation_entry m))) demo_mutations) \<le> usize_max"
  using demo_delete_ok [of "ascii ''a''"] demo_delete_ok [of "ascii ''b''"]
  by (auto simp: demo_mutations_def demo_delete_replayable ascii_def WAL_HEADER_LEN_def WAL_HEADER_V2_LEN_def usize_max_def)

theorem commit_durable_witness:
  "\<exists>rs eg' w' ext. run_mutations demo_mutations demo_engine = (rs, eg') \<and> eg_journal eg' = Some w' \<and> length ext \<le> 1 \<and>
     recovers w' (acknowledged (\<lambda>_. True) demo_mutations rs @ ext)"
proof -
  obtain rs eg' where r: "run_mutations demo_mutations demo_engine = (rs, eg')" by fastforce
  have "\<exists>w' ext. eg_journal eg' = Some w' \<and> length ext \<le> 1 \<and> recovers w' (acknowledged (\<lambda>_. True) demo_mutations rs @ ext)"
    using commit_durable [OF demo_engine_facts demo_mutations_ok(1) _ _ r, of "datas (eg_store demo_engine)"] demo_mutations_ok(2)
    by auto
  then show ?thesis using r by blast
qed

theorem exec_atomic_witness:
  "\<exists>rs eg1 r eg' w'. run_mutations demo_mutations (demo_engine\<lparr>eg_exec := Some []\<rparr>) = (rs, eg1) \<and>
     exec_commit demo_io eg1 = (r, eg') \<and> eg_journal eg' = Some w' \<and>
     (\<not> isl r \<longrightarrow> journal w' [Batch [[ascii ''DEL'', ascii ''a''], [ascii ''DEL'', ascii ''b'']]])"
proof -
  let ?eg0 = "demo_engine\<lparr>eg_exec := Some []\<rparr>" and ?cs = "[[ascii ''DEL'', ascii ''a''], [ascii ''DEL'', ascii ''b'']]"
  have b: "begin_exec_transaction demo_engine = (Inr (), ?eg0)"
    using demo_engine_facts(3,4) by (simp add: begin_exec_transaction_def ensure_journal_healthy_def engine_ready_def demo_engine_def)
  obtain rs eg1 where run: "run_mutations demo_mutations ?eg0 = (rs, eg1)" by fastforce
  obtain r eg' where c: "exec_commit demo_io eg1 = (r, eg')" by fastforce
  have "rs = [Inr (), Inr ()]" using run
    by (simp add: demo_mutations_def demo_delete_def run_mutation_def commit_journaled_batch_def begin_journaled_batch_def
        prepare_journaled_batch_def ensure_accepting_mutations_def ensure_journal_healthy_def demo_engine_def commit_batch_def
        append_journal_commands_def buffer_exec_journal_commands_def apply_live_def complete_def new_store_def)
  then have cs: "?cs = concat (map entry_commands (acknowledged (\<lambda>_. True) demo_mutations rs))"
    by (simp add: demo_mutations_def mutation_entry_def demo_delete_def)
  have ok: "entry_ok (Batch ?cs)" "length (entry_frame (Batch ?cs)) \<le> 1000"
    by (simp_all add: entry_ok_def command_ok_def marker_free_def u32_sized_def command_payload_def batch_bytes_def enc_counted_def
        write_bytes_def MAX_WAL_FRAME_BYTES_def WAL_BATCH_MARKER_def WAL_CHECKED_MARKER_def ascii_def)
  then show ?thesis
    using exec_atomic [OF demo_engine_facts b run c demo_mutations_ok(1) cs] run c
    by (cases r) (auto simp: WAL_HEADER_LEN_def WAL_HEADER_V2_LEN_def usize_max_def)
qed

theorem journal_gates_ordered_witness:
  "sorted_wrt (<) (journal_gate_indices 16 [[ascii ''SET'', ascii ''a'', ascii ''1''], [ascii ''DEL'', ascii ''b'']])"
  using journal_gates_ordered [of 16 "[[ascii ''SET'', ascii ''a'', ascii ''1''], [ascii ''DEL'', ascii ''b'']]"] by simp

end
