(* ===== verification/StoreStreams.thy ===== *)
theory StoreStreams
  imports StoreHashes JournalCommit
begin

text \<open>
  Streams and consumer groups (\<^verbatim>\<open>src/src/store/streams.rs\<close>): appending with resolved
  identifiers, ranges, trimming, groups with their pending entries, and the reads and
  claims that are journaled as their effect. The wall clock, the instant at which an
  effect is applied and the keyring are arguments. \<open>BTreeMap::range\<close> panics when its
  start is above its end.
\<close>

section \<open>Entries\<close>

type_synonym stream_entries = "(stream_id \<times> (bytes \<times> bytes) list) list"

definition stream_new :: stream_data where
  "stream_new = \<lparr>st_entries = [], st_last_id = stream_id_zero, st_groups = []\<rparr>"

definition str_of :: "bytes \<Rightarrow> string" where
  "str_of b = map (\<lambda>c. char_of (unat c)) b"

definition quoted :: "bytes \<Rightarrow> string" where
  "quoted b = CHR 0x27 # str_of b @ [CHR 0x27]"

definition nogroup_err :: "bytes \<Rightarrow> bytes \<Rightarrow> failure" where
  "nogroup_err grp key =
     Err (''NOGROUP No such consumer group '' @ quoted grp @ '' for key name '' @ quoted (key_str key))"

definition INVALID_STREAM_ID :: failure where
  "INVALID_STREAM_ID = Err ''ERR Invalid stream ID specified as stream command argument''"

definition XADD_SMALLER :: failure where
  "XADD_SMALLER = Err ''ERR The ID specified in XADD is equal or smaller than the target stream top item''"

definition resolve_xadd_id :: "u64 \<Rightarrow> stream_data \<Rightarrow> bytes \<Rightarrow> stream_id result" where
  "resolve_xadd_id clock_ms stream id_input =
     (let last_id = st_last_id stream;
          resolved =
            (if id_input = ascii ''*'' then
               Inr (if clock_ms > sid_ms last_id then StreamId clock_ms 0
                    else StreamId (sid_ms last_id) (sid_seq last_id + 1))
             else
               case split_dash id_input of (p0, p1) \<Rightarrow>
                 (case parse_u64 p0 of
                    None \<Rightarrow> Inl INVALID_STREAM_ID
                  | Some ms \<Rightarrow>
                      (case p1 of
                         None \<Rightarrow> Inr (StreamId (of_nat ms) 0)
                       | Some p \<Rightarrow>
                           if p = ascii ''*'' then
                             Inr (StreamId (of_nat ms) (if of_nat ms = sid_ms last_id then sid_seq last_id + 1 else 0))
                           else case parse_u64 p of
                             None \<Rightarrow> Inl INVALID_STREAM_ID
                           | Some seq \<Rightarrow> Inr (StreamId (of_nat ms) (of_nat seq)))))
      in case resolved of
           Inl e \<Rightarrow> Inl e
         | Inr i \<Rightarrow>
             if i \<le> last_id \<and> last_id \<noteq> stream_id_zero \<and>
                (sid_ms i < sid_ms last_id \<or> sid_ms i = sid_ms last_id \<and> sid_seq i \<le> sid_seq last_id)
             then Inl XADD_SMALLER
             else if i = stream_id_zero \<and> st_entries stream \<noteq> [] then Inl XADD_SMALLER
             else Inr i)"

text \<open>The stream of a key, as every reader matches it; the two defaults are for a missing key.\<close>

definition view_stream :: "bytes \<Rightarrow> instant \<Rightarrow> store \<Rightarrow> stream_data option result" where
  "view_stream key now st =
     (case data_get st key of
        None \<Rightarrow> Inr None
      | Some e \<Rightarrow>
          if is_expired_at e now then Inr None
          else (case en_value e of Stream s \<Rightarrow> Inr (Some s) | _ \<Rightarrow> Inl (Err WRONGTYPE)))"

definition preview_xadd_id :: "u64 \<Rightarrow> bytes \<Rightarrow> bytes \<Rightarrow> instant \<Rightarrow> store \<Rightarrow> stream_id result" where
  "preview_xadd_id clock_ms key id_input now st =
     (case view_stream key now st of
        Inl e \<Rightarrow> Inl e
      | Inr None \<Rightarrow> resolve_xadd_id clock_ms stream_new id_input
      | Inr (Some s) \<Rightarrow> resolve_xadd_id clock_ms s id_input)"

text \<open>The loop \<open>while entries.len() > max { pop_first }\<close>, with the number of entries and bytes removed.\<close>

fun trim_entries :: "nat \<Rightarrow> nat \<Rightarrow> nat \<Rightarrow> stream_entries \<Rightarrow> (nat \<times> nat) \<times> stream_entries" where
  "trim_entries max_len trimmed freed [] = ((trimmed, freed), [])"
| "trim_entries max_len trimmed freed ((i, fs) # es) =
     (if length ((i, fs) # es) > max_len then trim_entries max_len (trimmed + 1) (freed + stream_entry_memory fs) es
      else ((trimmed, freed), (i, fs) # es))"

definition add_stream_entry ::
    "stream_id \<Rightarrow> (bytes \<times> bytes) list \<Rightarrow> nat option \<Rightarrow> stream_data \<Rightarrow> nat \<times> stream_data" where
  "add_stream_entry i flds max_len s =
     (let entries = bt_insert id i flds (st_entries s);
          ((_, trimmed_mem), entries) =
            (case max_len of None \<Rightarrow> ((0, 0), entries) | Some m \<Rightarrow> trim_entries m 0 0 entries)
      in (trimmed_mem, s\<lparr>st_last_id := i, st_entries := entries\<rparr>))"

definition xadd_on_shard ::
    "u64 \<Rightarrow> bytes \<Rightarrow> bytes \<Rightarrow> (bytes \<times> bytes) list \<Rightarrow> nat option \<Rightarrow> instant \<Rightarrow> store \<Rightarrow> stream_id result \<times> store" where
  "xadd_on_shard clock_ms key id_input flds max_len now st =
     (case entry_or_insert (Stream stream_new) key now st of
        (e, st) \<Rightarrow>
          (case en_value e of
             Stream s \<Rightarrow>
               (case resolve_xadd_id clock_ms s id_input of
                  Inl err \<Rightarrow> (Inl err, st)
                | Inr i \<Rightarrow>
                    (let added = stream_entry_memory flds;
                         (trimmed_mem, s) = add_stream_entry i flds max_len s;
                         st = put_value key e (Stream s) st
                     in (Inr i,
                         if added > trimmed_mem then mem_grow key (added - trimmed_mem) st
                         else if trimmed_mem > added then mem_shrink key (trimmed_mem - added) st
                         else st)))
           | _ \<Rightarrow> (Inl (Err WRONGTYPE), st)))"

definition xadd ::
    "u64 \<Rightarrow> bytes \<Rightarrow> bytes \<Rightarrow> (bytes \<times> bytes) list \<Rightarrow> nat option \<Rightarrow> instant \<Rightarrow> store \<Rightarrow> stream_id result \<times> store" where
  "xadd clock_ms key id_input flds max_len now st =
     xadd_on_shard clock_ms key id_input flds max_len now (bump_version key st)"

definition xlen :: "bytes \<Rightarrow> instant \<Rightarrow> store \<Rightarrow> int result" where
  "xlen key now st =
     (case view_stream key now st of
        Inl e \<Rightarrow> Inl e | Inr None \<Rightarrow> Inr 0 | Inr (Some s) \<Rightarrow> Inr (int (length (st_entries s))))"

section \<open>Ranges\<close>

definition decrypt_stream_value :: "keyring \<Rightarrow> bytes \<Rightarrow> bytes \<Rightarrow> bytes \<Rightarrow> bytes result" where
  "decrypt_stream_value kr key field v =
     (if \<not> kr_is_encrypted_value kr v then Inr v
      else kr_decrypt kr ''__lux_stream'' (user_hash_field field) (user_kv_key key) v)"

definition decrypt_stream_fields :: "keyring \<Rightarrow> bytes \<Rightarrow> (bytes \<times> bytes) list \<Rightarrow> (bytes \<times> bytes) list" where
  "decrypt_stream_fields kr key flds =
     map (\<lambda>(f, v). (f, case decrypt_stream_value kr key f v of Inr dv \<Rightarrow> dv | Inl _ \<Rightarrow> v)) flds"

definition decrypt_entries :: "keyring \<Rightarrow> bytes \<Rightarrow> stream_entries \<Rightarrow> stream_entries" where
  "decrypt_entries kr key es = map (\<lambda>(i, fs). (i, decrypt_stream_fields kr key fs)) es"

definition bt_range :: "'k :: linorder \<Rightarrow> 'k \<Rightarrow> ('k \<times> 'v) list \<Rightarrow> ('k \<times> 'v) list result" where
  "bt_range lo hi m = (if hi < lo then Inl Panic else Inr (filter (\<lambda>(k, _). lo \<le> k \<and> k \<le> hi) m))"

definition bt_range_from :: "'k :: linorder \<Rightarrow> ('k \<times> 'v) list \<Rightarrow> ('k \<times> 'v) list" where
  "bt_range_from lo m = filter (\<lambda>(k, _). lo \<le> k) m"

text \<open>The loops that push an entry and stop when \<open>count\<close> of them are collected.\<close>

fun take_loop :: "nat option \<Rightarrow> nat \<Rightarrow> 'a list \<Rightarrow> 'a list" where
  "take_loop max_count n [] = []"
| "take_loop max_count n (x # xs) =
     x # (if (case max_count of None \<Rightarrow> False | Some c \<Rightarrow> n + 1 \<ge> c) then [] else take_loop max_count (n + 1) xs)"

definition xrange ::
    "keyring \<Rightarrow> bytes \<Rightarrow> stream_id \<Rightarrow> stream_id \<Rightarrow> nat option \<Rightarrow> instant \<Rightarrow> store \<Rightarrow> stream_entries result" where
  "xrange kr key lo hi max_count now st =
     (case view_stream key now st of
        Inl e \<Rightarrow> Inl e
      | Inr None \<Rightarrow> Inr []
      | Inr (Some s) \<Rightarrow>
          (case bt_range lo hi (st_entries s) of
             Inl e \<Rightarrow> Inl e
           | Inr es \<Rightarrow> Inr (take_loop max_count 0 (decrypt_entries kr key es))))"

definition xrevrange ::
    "keyring \<Rightarrow> bytes \<Rightarrow> stream_id \<Rightarrow> stream_id \<Rightarrow> nat option \<Rightarrow> instant \<Rightarrow> store \<Rightarrow> stream_entries result" where
  "xrevrange kr key hi lo max_count now st =
     (case view_stream key now st of
        Inl e \<Rightarrow> Inl e
      | Inr None \<Rightarrow> Inr []
      | Inr (Some s) \<Rightarrow>
          (case bt_range lo hi (st_entries s) of
             Inl e \<Rightarrow> Inl e
           | Inr es \<Rightarrow> Inr (take_loop max_count 0 (decrypt_entries kr key (rev es)))))"

definition next_id :: "stream_id \<Rightarrow> stream_id" where
  "next_id i = StreamId (sid_ms i) (sid_seq i + 1)"

fun xread_loop ::
    "(bytes \<Rightarrow> nat) \<Rightarrow> keyring \<Rightarrow> bytes list \<Rightarrow> stream_id list \<Rightarrow> nat option \<Rightarrow> instant \<Rightarrow> instant \<Rightarrow> store \<Rightarrow>
     (bytes \<times> stream_entries) list result \<times> store" where
  "xread_loop hll_count kr [] ids max_count now inst_now st = (Inr [], st)"
| "xread_loop hll_count kr (key # keys) ids max_count now inst_now st =
     (case try_promote hll_count key now inst_now st of
        (Inl e, st) \<Rightarrow> (Inl e, st)
      | (Inr _, st) \<Rightarrow>
          (case ids of
             [] \<Rightarrow> (Inl Panic, st)
           | after_id # ids \<Rightarrow>
               let entries =
                 (case view_stream key now st of
                    Inr (Some s) \<Rightarrow>
                      take_loop max_count 0 (decrypt_entries kr key (bt_range_from (next_id after_id) (st_entries s)))
                  | _ \<Rightarrow> [])
               in (case xread_loop hll_count kr keys ids max_count now inst_now st of
                     (Inl e, st) \<Rightarrow> (Inl e, st)
                   | (Inr rest, st) \<Rightarrow> (Inr (if entries = [] then rest else (key, entries) # rest), st))))"

definition xread ::
    "(bytes \<Rightarrow> nat) \<Rightarrow> keyring \<Rightarrow> bytes list \<Rightarrow> stream_id list \<Rightarrow> nat option \<Rightarrow> instant \<Rightarrow> instant \<Rightarrow> store \<Rightarrow>
     (bytes \<times> stream_entries) list result \<times> store" where
  "xread hll_count kr keys ids max_count now inst_now st = xread_loop hll_count kr keys ids max_count now inst_now st"

section \<open>Consumer groups\<close>

text \<open>
  The shape of every write to an existing stream: the version of the shard is bumped,
  the stream of a live key is updated in place, and the caller says what a missing key
  answers.
\<close>

definition update_stream ::
    "bytes \<Rightarrow> 'r result \<Rightarrow> (stream_data \<Rightarrow> 'r result \<times> stream_data) \<Rightarrow> instant \<Rightarrow> store \<Rightarrow> 'r result \<times> store" where
  "update_stream key missing f now st =
     (case data_get st key of
        None \<Rightarrow> (missing, st)
      | Some e \<Rightarrow>
          if is_expired_at e now then (missing, st)
          else (case en_value e of
                  Stream s \<Rightarrow> (case f s of (r, s) \<Rightarrow> (r, put_value key e (Stream s) st))
                | _ \<Rightarrow> (Inl (Err WRONGTYPE), st)))"

definition modify_stream ::
    "bytes \<Rightarrow> 'r result \<Rightarrow> (stream_data \<Rightarrow> 'r result \<times> stream_data) \<Rightarrow> instant \<Rightarrow> store \<Rightarrow> 'r result \<times> store" where
  "modify_stream key missing f now st = update_stream key missing f now (bump_version key st)"

text \<open>The group of a stream, updated in place where it exists.\<close>

definition modify_group ::
    "bytes \<Rightarrow> 'r result \<Rightarrow> (consumer_group \<Rightarrow> 'r result \<times> consumer_group) \<Rightarrow> stream_data \<Rightarrow> 'r result \<times> stream_data" where
  "modify_group grp missing f s =
     (case hm_get (st_groups s) grp of
        None \<Rightarrow> (missing, s)
      | Some cg \<Rightarrow> (case f cg of (r, cg) \<Rightarrow> (r, s\<lparr>st_groups := hm_insert grp cg (st_groups s)\<rparr>)))"

definition group_new :: "stream_id \<Rightarrow> consumer_group" where
  "group_new i = \<lparr>cg_last_delivered_id = i, cg_consumers = [], cg_pel = []\<rparr>"

definition create_group :: "bytes \<Rightarrow> bytes \<Rightarrow> stream_data \<Rightarrow> unit result \<times> stream_data" where
  "create_group grp id_str s =
     (if hm_contains (st_groups s) grp then (Inl (Err ''BUSYGROUP Consumer Group name already exists''), s)
      else
        (let last_delivered_id = (if id_str = ascii ''$'' then st_last_id s else parse_or_zero id_str) in
         (Inr (), s\<lparr>st_groups := hm_insert grp (group_new last_delivered_id) (st_groups s)\<rparr>)))"

definition XGROUP_NO_KEY :: failure where
  "XGROUP_NO_KEY = Err ''ERR The XGROUP subcommand requires the key to exist. Note that for CREATE you may want to use the MKSTREAM option to create an empty stream automatically.''"

definition xgroup_create :: "bytes \<Rightarrow> bytes \<Rightarrow> bytes \<Rightarrow> bool \<Rightarrow> instant \<Rightarrow> store \<Rightarrow> unit result \<times> store" where
  "xgroup_create key grp id_str mkstream now st =
     (let st = bump_version key st;
          st = (if mkstream then snd (entry_or_insert (Stream stream_new) key now st) else st)
      in update_stream key (Inl XGROUP_NO_KEY) (create_group grp id_str) now st)"

definition xgroup_destroy :: "bytes \<Rightarrow> bytes \<Rightarrow> instant \<Rightarrow> store \<Rightarrow> bool result \<times> store" where
  "xgroup_destroy key grp =
     modify_stream key (Inr False)
       (\<lambda>s. (Inr (hm_contains (st_groups s) grp), s\<lparr>st_groups := hm_remove grp (st_groups s)\<rparr>))"

definition set_group_id :: "bytes \<Rightarrow> stream_id \<Rightarrow> consumer_group \<Rightarrow> unit result \<times> consumer_group" where
  "set_group_id id_str last_id cg =
     (if id_str = ascii ''$'' then (Inr (), cg\<lparr>cg_last_delivered_id := last_id\<rparr>)
      else case stream_id_parse id_str of
        None \<Rightarrow> (Inl (Err ''ERR Invalid stream ID''), cg)
      | Some i \<Rightarrow> (Inr (), cg\<lparr>cg_last_delivered_id := i\<rparr>))"

definition xgroup_setid :: "bytes \<Rightarrow> bytes \<Rightarrow> bytes \<Rightarrow> instant \<Rightarrow> store \<Rightarrow> unit result \<times> store" where
  "xgroup_setid key grp id_str =
     modify_stream key (Inl (Err ''ERR no such key''))
       (\<lambda>s. modify_group grp (Inl (nogroup_err grp key)) (set_group_id id_str (st_last_id s)) s)"

definition create_consumer :: "bytes \<Rightarrow> instant \<Rightarrow> consumer_group \<Rightarrow> bool result \<times> consumer_group" where
  "create_consumer name now cg =
     (if hm_contains (cg_consumers cg) name then (Inr False, cg)
      else (Inr True, cg\<lparr>cg_consumers := hm_insert name \<lparr>co_pel = {}, co_seen_time = now\<rparr> (cg_consumers cg)\<rparr>))"

definition xgroup_createconsumer :: "bytes \<Rightarrow> bytes \<Rightarrow> bytes \<Rightarrow> instant \<Rightarrow> store \<Rightarrow> bool result \<times> store" where
  "xgroup_createconsumer key grp name now =
     modify_stream key (Inl (nogroup_err grp key))
       (modify_group grp (Inl (nogroup_err grp key)) (create_consumer name now)) now"

text \<open>Removing every identifier of a set from the pending entries, in the order of the set.\<close>

definition del_consumer :: "bytes \<Rightarrow> consumer_group \<Rightarrow> int result \<times> consumer_group" where
  "del_consumer name cg =
     (case hm_get (cg_consumers cg) name of
        None \<Rightarrow> (Inr 0, cg)
      | Some c \<Rightarrow>
          (Inr (int (card (co_pel c))),
           cg\<lparr>cg_consumers := hm_remove name (cg_consumers cg), cg_pel := filter (\<lambda>(i, _). i \<notin> co_pel c) (cg_pel cg)\<rparr>))"

definition xgroup_delconsumer :: "bytes \<Rightarrow> bytes \<Rightarrow> bytes \<Rightarrow> instant \<Rightarrow> store \<Rightarrow> int result \<times> store" where
  "xgroup_delconsumer key grp name =
     modify_stream key (Inl (nogroup_err grp key)) (modify_group grp (Inl (nogroup_err grp key)) (del_consumer name))"

text \<open>Milliseconds since an instant, as \<open>u64\<close>.\<close>

definition idle_ms :: "instant \<Rightarrow> instant \<Rightarrow> nat" where
  "idle_ms inst_now t = as_millis (inst_now - t) mod 2 ^ 64"

definition xinfo_consumers ::
    "bytes \<Rightarrow> bytes \<Rightarrow> instant \<Rightarrow> store \<Rightarrow> (bytes \<times> int \<times> int \<times> int) list result" where
  "xinfo_consumers key grp now st =
     (case view_stream key now st of
        Inl e \<Rightarrow> Inl e
      | Inr None \<Rightarrow> Inl (nogroup_err grp key)
      | Inr (Some s) \<Rightarrow>
          (case hm_get (st_groups s) grp of
             None \<Rightarrow> Inl (nogroup_err grp key)
           | Some cg \<Rightarrow>
               Inr (sort_key fst (map (\<lambda>(name, c).
                 let idle = wrap_i64 (int (as_millis (now - co_seen_time c)))
                 in (name, int (card (co_pel c)), idle, idle)) (cg_consumers cg)))))"

definition xack_one :: "stream_id \<Rightarrow> consumer_group \<Rightarrow> bool \<times> consumer_group" where
  "xack_one i cg =
     (case bt_get id (cg_pel cg) i of
        None \<Rightarrow> (False, cg)
      | Some pe \<Rightarrow>
          (let cg = cg\<lparr>cg_pel := filter (\<lambda>(j, _). j \<noteq> i) (cg_pel cg)\<rparr> in
           (True,
            case hm_get (cg_consumers cg) (pe_consumer pe) of
              None \<Rightarrow> cg
            | Some c \<Rightarrow>
                cg\<lparr>cg_consumers := hm_insert (pe_consumer pe) (c\<lparr>co_pel := co_pel c - {i}\<rparr>) (cg_consumers cg)\<rparr>)))"

fun xack_loop :: "stream_id list \<Rightarrow> int \<Rightarrow> consumer_group \<Rightarrow> int result \<times> consumer_group" where
  "xack_loop [] acked cg = (Inr acked, cg)"
| "xack_loop (i # ids) acked cg =
     (case xack_one i cg of
        (True, cg) \<Rightarrow> xack_loop ids (acked + 1) cg
      | (False, cg) \<Rightarrow> xack_loop ids acked cg)"

definition xack :: "bytes \<Rightarrow> bytes \<Rightarrow> stream_id list \<Rightarrow> instant \<Rightarrow> store \<Rightarrow> int result \<times> store" where
  "xack key grp ids = modify_stream key (Inr 0) (modify_group grp (Inr 0) (xack_loop ids 0))"

definition count_consumer :: "(bytes, int) hash_map \<Rightarrow> bytes \<Rightarrow> (bytes, int) hash_map" where
  "count_consumer m name = hm_insert name ((case hm_get m name of None \<Rightarrow> 0 | Some n \<Rightarrow> n) + 1) m"

definition view_group :: "bytes \<Rightarrow> bytes \<Rightarrow> instant \<Rightarrow> store \<Rightarrow> (stream_data \<times> consumer_group) result" where
  "view_group key grp now st =
     (case view_stream key now st of
        Inl e \<Rightarrow> Inl e
      | Inr None \<Rightarrow> Inl (nogroup_err grp key)
      | Inr (Some s) \<Rightarrow>
          (case hm_get (st_groups s) grp of None \<Rightarrow> Inl (nogroup_err grp key) | Some cg \<Rightarrow> Inr (s, cg)))"

definition xpending_summary ::
    "bytes \<Rightarrow> bytes \<Rightarrow> instant \<Rightarrow> store \<Rightarrow> (int \<times> stream_id option \<times> stream_id option \<times> (bytes \<times> int) list) result" where
  "xpending_summary key grp now st =
     (case view_group key grp now st of
        Inl e \<Rightarrow> Inl e
      | Inr (s, cg) \<Rightarrow>
          (let ids = map fst (cg_pel cg) in
           Inr (int (length (cg_pel cg)), if ids = [] then None else Some (hd ids), if ids = [] then None else Some (last ids),
                foldl count_consumer [] (map (\<lambda>(_, pe). pe_consumer pe) (cg_pel cg)))))"

definition xpending_range ::
    "bytes \<Rightarrow> bytes \<Rightarrow> stream_id \<Rightarrow> stream_id \<Rightarrow> nat \<Rightarrow> bytes option \<Rightarrow> instant \<Rightarrow> instant \<Rightarrow> store \<Rightarrow>
     (stream_id \<times> bytes \<times> nat \<times> nat) list result" where
  "xpending_range key grp lo hi max_count consumer_filter now inst_now st =
     (case view_group key grp now st of
        Inl e \<Rightarrow> Inl e
      | Inr (s, cg) \<Rightarrow>
          (case bt_range lo hi (cg_pel cg) of
             Inl e \<Rightarrow> Inl e
           | Inr pending \<Rightarrow>
               Inr (take_loop (Some max_count) 0
                 (map (\<lambda>(i, pe). (i, pe_consumer pe, idle_ms inst_now (pe_delivery_time pe), pe_delivery_count pe))
                   (filter (\<lambda>(i, pe). case consumer_filter of None \<Rightarrow> True | Some cf \<Rightarrow> pe_consumer pe = cf) pending)))))"

section \<open>Reading through a group\<close>

datatype group_read_effect =
    Deliver (ef_key: bytes) (ef_group: bytes) (ef_consumer: "bytes option") (ef_last: stream_id) (ef_pending: "stream_id list")
  | CreateConsumer (ef_key: bytes) (ef_group: bytes) (ef_name: bytes)

text \<open>What one stream contributes to the plan: a result, and an effect where there is one.\<close>

definition plan_new ::
    "keyring \<Rightarrow> bytes \<Rightarrow> bytes \<Rightarrow> bytes \<Rightarrow> nat option \<Rightarrow> bool \<Rightarrow> stream_data \<Rightarrow> consumer_group \<Rightarrow>
     (bytes \<times> stream_entries) list \<times> group_read_effect list" where
  "plan_new kr grp name key max_count noack s cg =
     (let entries = take_loop max_count 0
            (decrypt_entries kr key (bt_range_from (next_id (cg_last_delivered_id cg)) (st_entries s)))
      in if entries = [] then ([], [])
         else ([(key, entries)],
               [Deliver key grp (if noack then None else Some name) (fst (last entries))
                  (if noack then [] else map fst entries)]))"

definition plan_history ::
    "keyring \<Rightarrow> bytes \<Rightarrow> bytes \<Rightarrow> bytes \<Rightarrow> bytes \<Rightarrow> nat option \<Rightarrow> stream_data \<Rightarrow> consumer_group \<Rightarrow>
     (bytes \<times> stream_entries) list \<times> group_read_effect list" where
  "plan_history kr grp name key id_str max_count s cg =
     (let after_id = parse_or_zero id_str;
          pending_ids = (case hm_get (cg_consumers cg) name of None \<Rightarrow> {} | Some c \<Rightarrow> {i \<in> co_pel c. i > after_id});
          found = List.map_filter (\<lambda>i. map_option (\<lambda>fs. (i, decrypt_stream_fields kr key fs)) (bt_get id (st_entries s) i))
                    (sorted_list_of_set pending_ids)
      in ([(key, take_loop max_count 0 found)],
          if hm_contains (cg_consumers cg) name then [] else [CreateConsumer key grp name]))"

definition plan_key ::
    "keyring \<Rightarrow> bytes \<Rightarrow> bytes \<Rightarrow> bytes \<Rightarrow> bytes \<Rightarrow> nat option \<Rightarrow> bool \<Rightarrow> instant \<Rightarrow> store \<Rightarrow>
     ((bytes \<times> stream_entries) list \<times> group_read_effect list) result" where
  "plan_key kr grp name key id_str max_count noack now st =
     (case view_stream key now st of
        Inr (Some s) \<Rightarrow>
          (case hm_get (st_groups s) grp of
             None \<Rightarrow> Inl (nogroup_err grp key)
           | Some cg \<Rightarrow>
               Inr (if id_str = ascii ''>'' then plan_new kr grp name key max_count noack s cg
                    else plan_history kr grp name key id_str max_count s cg))
      | _ \<Rightarrow> Inr ([], []))"

fun preview_xreadgroup ::
    "(bytes \<Rightarrow> nat) \<Rightarrow> keyring \<Rightarrow> bytes \<Rightarrow> bytes \<Rightarrow> bytes list \<Rightarrow> bytes list \<Rightarrow> nat option \<Rightarrow> bool \<Rightarrow> instant \<Rightarrow> instant \<Rightarrow>
     store \<Rightarrow> ((bytes \<times> stream_entries) list \<times> group_read_effect list) result \<times> store" where
  "preview_xreadgroup hll_count kr grp name [] ids max_count noack now inst_now st = (Inr ([], []), st)"
| "preview_xreadgroup hll_count kr grp name (key # keys) ids max_count noack now inst_now st =
     (case try_promote hll_count key now inst_now st of
        (Inl e, st) \<Rightarrow> (Inl e, st)
      | (Inr _, st) \<Rightarrow>
          (case ids of
             [] \<Rightarrow> (Inl Panic, st)
           | id_str # ids \<Rightarrow>
               (case plan_key kr grp name key id_str max_count noack now st of
                  Inl e \<Rightarrow> (Inl e, st)
                | Inr (result, effects) \<Rightarrow>
                    (case preview_xreadgroup hll_count kr grp name keys ids max_count noack now inst_now st of
                       (Inl e, st) \<Rightarrow> (Inl e, st)
                     | (Inr (results, more_effects), st) \<Rightarrow> (Inr (result @ results, effects @ more_effects), st)))))"

text \<open>An identifier leaves the consumer that held it; then it is pending for the new one.\<close>

definition unlink_pending :: "stream_id \<Rightarrow> consumer_group \<Rightarrow> consumer_group" where
  "unlink_pending i cg =
     (case bt_get id (cg_pel cg) i of
        None \<Rightarrow> cg
      | Some previous \<Rightarrow>
          (case hm_get (cg_consumers cg) (pe_consumer previous) of
             None \<Rightarrow> cg
           | Some c \<Rightarrow>
               cg\<lparr>cg_consumers := hm_insert (pe_consumer previous) (c\<lparr>co_pel := co_pel c - {i}\<rparr>) (cg_consumers cg)\<rparr>))"

fun deliver_loop :: "bytes \<Rightarrow> instant \<Rightarrow> stream_id list \<Rightarrow> consumer_group \<Rightarrow> consumer_group" where
  "deliver_loop name applied_at [] cg = cg"
| "deliver_loop name applied_at (i # ids) cg =
     (let cg = unlink_pending i cg;
          pe = \<lparr>pe_consumer = name, pe_delivery_time = applied_at, pe_delivery_count = 1\<rparr>
      in deliver_loop name applied_at ids (cg\<lparr>cg_pel := bt_insert id i pe (cg_pel cg)\<rparr>))"

definition extend_consumer :: "bytes \<Rightarrow> instant \<Rightarrow> stream_id list \<Rightarrow> consumer_group \<Rightarrow> consumer_group" where
  "extend_consumer name applied_at ids cg =
     (let target = (case hm_get (cg_consumers cg) name of None \<Rightarrow> \<lparr>co_pel = {}, co_seen_time = applied_at\<rparr> | Some c \<Rightarrow> c)
      in cg\<lparr>cg_consumers :=
             hm_insert name (target\<lparr>co_pel := co_pel target \<union> set ids, co_seen_time := applied_at\<rparr>) (cg_consumers cg)\<rparr>)"

definition group_deliver ::
    "bytes option \<Rightarrow> stream_id \<Rightarrow> stream_id list \<Rightarrow> instant \<Rightarrow> consumer_group \<Rightarrow> unit result \<times> consumer_group" where
  "group_deliver name_opt last_delivered_id pending_ids applied_at cg =
     (let cg = cg\<lparr>cg_last_delivered_id := last_delivered_id\<rparr> in
      (Inr (),
       case name_opt of
         None \<Rightarrow> cg
       | Some name \<Rightarrow> extend_consumer name applied_at pending_ids (deliver_loop name applied_at pending_ids cg)))"

definition apply_lxgroupread ::
    "bytes \<Rightarrow> bytes \<Rightarrow> bytes option \<Rightarrow> stream_id \<Rightarrow> stream_id list \<Rightarrow> instant \<Rightarrow> instant \<Rightarrow> store \<Rightarrow> unit result \<times> store" where
  "apply_lxgroupread key grp name_opt last_delivered_id pending_ids applied_at =
     modify_stream key (Inl (nogroup_err grp key))
       (modify_group grp (Inl (nogroup_err grp key)) (group_deliver name_opt last_delivered_id pending_ids applied_at))"

definition effect_command :: "group_read_effect \<Rightarrow> command" where
  "effect_command ef =
     (case ef of
        Deliver key grp name_opt last_delivered_id pending_ids \<Rightarrow>
          [ascii ''LXGROUPREAD'', key, grp, stream_id_to_string last_delivered_id,
           case name_opt of None \<Rightarrow> [] | Some name \<Rightarrow> name] @ map stream_id_to_string pending_ids
      | CreateConsumer key grp name \<Rightarrow> [ascii ''XGROUP'', ascii ''CREATECONSUMER'', key, grp, name])"

definition apply_effect :: "instant \<Rightarrow> instant \<Rightarrow> group_read_effect \<Rightarrow> store \<Rightarrow> unit result \<times> store" where
  "apply_effect applied_at now ef st =
     (case ef of
        Deliver key grp name_opt last_delivered_id pending_ids \<Rightarrow>
          apply_lxgroupread key grp name_opt last_delivered_id pending_ids applied_at now st
      | CreateConsumer key grp name \<Rightarrow>
          (case xgroup_createconsumer key grp name now st of (Inl e, st) \<Rightarrow> (Inl e, st) | (Inr _, st) \<Rightarrow> (Inr (), st)))"

fun apply_effects :: "instant \<Rightarrow> instant \<Rightarrow> group_read_effect list \<Rightarrow> store \<Rightarrow> unit result \<times> store" where
  "apply_effects applied_at now [] st = (Inr (), st)"
| "apply_effects applied_at now (ef # efs) st =
     (case apply_effect applied_at now ef st of
        (Inl e, st) \<Rightarrow> (Inl e, st)
      | (Inr _, st) \<Rightarrow> apply_effects applied_at now efs st)"

text \<open>How the public operations flatten the two results of \<open>commit_prepared\<close>.\<close>

definition wal_append_failed :: "failure \<Rightarrow> failure" where
  "wal_append_failed f = (case f of Err m \<Rightarrow> Err (''ERR WAL append failed: '' @ m) | Panic \<Rightarrow> Panic)"

definition flatten_commit :: "(failure + 't) result \<times> engine \<Rightarrow> 't result \<times> engine" where
  "flatten_commit r = (case r of (Inl e, eg) \<Rightarrow> (Inl (wal_append_failed e), eg) | (Inr inner, eg) \<Rightarrow> (inner, eg))"

definition xreadgroup ::
    "(bytes \<Rightarrow> nat) \<Rightarrow> keyring \<Rightarrow> bytes \<Rightarrow> bytes \<Rightarrow> bytes list \<Rightarrow> bytes list \<Rightarrow> nat option \<Rightarrow> bool \<Rightarrow> instant \<Rightarrow> instant \<Rightarrow>
     journal_io \<Rightarrow> engine \<Rightarrow> (bytes \<times> stream_entries) list result \<times> engine" where
  "xreadgroup hll_count kr grp name keys ids max_count noack now inst_now io eg =
     flatten_commit (commit_prepared [ascii ''XREADGROUP'']
       (\<lambda>st. case preview_xreadgroup hll_count kr grp name keys ids max_count noack now inst_now st of
               (Inl e, st) \<Rightarrow> (Inl e, st)
             | (Inr (result, effects), st) \<Rightarrow> (Inr (map effect_command effects, (result, effects)), st))
       (\<lambda>(result, effects) st. case apply_effects inst_now now effects st of
               (Inl e, st) \<Rightarrow> (Inl e, st)
             | (Inr _, st) \<Rightarrow> (Inr result, st))
       io eg)"

section \<open>Claiming\<close>

definition saturating_succ_u64 :: "nat \<Rightarrow> nat" where
  "saturating_succ_u64 n = min (n + 1) (2 ^ 64 - 1)"

text \<open>The claims and the claimed entries of one identifier, when it is pending and idle for long enough.\<close>

definition claim_one ::
    "nat \<Rightarrow> instant \<Rightarrow> stream_data \<Rightarrow> consumer_group \<Rightarrow> stream_id \<Rightarrow> (nat \<times> (bytes \<times> bytes) list option) option" where
  "claim_one min_idle_ms inst_now s cg i =
     (case bt_get id (cg_pel cg) i of
        None \<Rightarrow> None
      | Some pe \<Rightarrow>
          if idle_ms inst_now (pe_delivery_time pe) \<ge> min_idle_ms
          then Some (saturating_succ_u64 (pe_delivery_count pe), bt_get id (st_entries s) i) else None)"

fun claim_loop ::
    "keyring \<Rightarrow> bytes \<Rightarrow> nat \<Rightarrow> instant \<Rightarrow> stream_data \<Rightarrow> consumer_group \<Rightarrow> stream_id list \<Rightarrow>
     stream_entries \<times> (stream_id \<times> nat) list" where
  "claim_loop kr key min_idle_ms inst_now s cg [] = ([], [])"
| "claim_loop kr key min_idle_ms inst_now s cg (i # ids) =
     (case claim_loop kr key min_idle_ms inst_now s cg ids of
        (result, claims) \<Rightarrow>
          (case claim_one min_idle_ms inst_now s cg i of
             None \<Rightarrow> (result, claims)
           | Some (n, None) \<Rightarrow> (result, (i, n) # claims)
           | Some (n, Some fs) \<Rightarrow> ((i, decrypt_stream_fields kr key fs) # result, (i, n) # claims)))"

definition preview_xclaim ::
    "keyring \<Rightarrow> bytes \<Rightarrow> bytes \<Rightarrow> nat \<Rightarrow> stream_id list \<Rightarrow> instant \<Rightarrow> instant \<Rightarrow> store \<Rightarrow>
     (stream_entries \<times> (stream_id \<times> nat) list) result" where
  "preview_xclaim kr key grp min_idle_ms ids now inst_now st =
     (case view_stream key now st of
        Inl e \<Rightarrow> Inl e
      | Inr None \<Rightarrow> Inr ([], [])
      | Inr (Some s) \<Rightarrow>
          (case hm_get (st_groups s) grp of
             None \<Rightarrow> Inl (nogroup_err grp key)
           | Some cg \<Rightarrow> Inr (claim_loop kr key min_idle_ms inst_now s cg ids)))"

record autoclaim_plan =
  ac_next_start :: stream_id
  ac_result :: stream_entries
  ac_deleted_ids :: "stream_id list"
  ac_claims :: "(stream_id \<times> nat) list"

fun autoclaim_loop ::
    "keyring \<Rightarrow> bytes \<Rightarrow> nat \<Rightarrow> nat \<Rightarrow> instant \<Rightarrow> stream_data \<Rightarrow> consumer_group \<Rightarrow> stream_id list \<Rightarrow> autoclaim_plan \<Rightarrow> autoclaim_plan" where
  "autoclaim_loop kr key max_claims min_idle_ms inst_now s cg [] plan = plan"
| "autoclaim_loop kr key max_claims min_idle_ms inst_now s cg (i # ids) plan =
     (if length (ac_result plan) \<ge> max_claims then plan\<lparr>ac_next_start := i\<rparr>
      else autoclaim_loop kr key max_claims min_idle_ms inst_now s cg ids
        (case claim_one min_idle_ms inst_now s cg i of
           None \<Rightarrow> plan
         | Some (n, None) \<Rightarrow>
             plan\<lparr>ac_claims := ac_claims plan @ [(i, n)], ac_deleted_ids := ac_deleted_ids plan @ [i]\<rparr>
         | Some (n, Some fs) \<Rightarrow>
             plan\<lparr>ac_claims := ac_claims plan @ [(i, n)],
                  ac_result := ac_result plan @ [(i, decrypt_stream_fields kr key fs)]\<rparr>))"

definition preview_xautoclaim ::
    "keyring \<Rightarrow> bytes \<Rightarrow> bytes \<Rightarrow> nat \<Rightarrow> stream_id \<Rightarrow> nat option \<Rightarrow> instant \<Rightarrow> instant \<Rightarrow> store \<Rightarrow> autoclaim_plan result" where
  "preview_xautoclaim kr key grp min_idle_ms start max_count now inst_now st =
     (case view_group key grp now st of
        Inl e \<Rightarrow> Inl e
      | Inr (s, cg) \<Rightarrow>
          Inr (autoclaim_loop kr key (case max_count of None \<Rightarrow> 100 | Some c \<Rightarrow> c) min_idle_ms inst_now s cg
            (map fst (bt_range_from start (cg_pel cg)))
            \<lparr>ac_next_start = stream_id_zero, ac_result = [], ac_deleted_ids = [], ac_claims = []\<rparr>))"

definition claim_disappeared :: "stream_id \<Rightarrow> failure" where
  "claim_disappeared i = Err (''ERR pending stream ID '' @ quoted (stream_id_to_string i) @ '' disappeared during claim'')"

fun claim_apply_loop :: "bytes \<Rightarrow> instant \<Rightarrow> (stream_id \<times> nat) list \<Rightarrow> consumer_group \<Rightarrow> unit result \<times> consumer_group" where
  "claim_apply_loop name applied_at [] cg = (Inr (), cg)"
| "claim_apply_loop name applied_at ((i, n) # claims) cg =
     (case bt_get id (cg_pel cg) i of
        None \<Rightarrow> (Inl (claim_disappeared i), cg)
      | Some pe \<Rightarrow>
          (let cg = unlink_pending i cg;
               pe = pe\<lparr>pe_consumer := name, pe_delivery_time := applied_at, pe_delivery_count := n\<rparr>
           in claim_apply_loop name applied_at claims (cg\<lparr>cg_pel := bt_insert id i pe (cg_pel cg)\<rparr>)))"

definition group_claim ::
    "bytes \<Rightarrow> (stream_id \<times> nat) list \<Rightarrow> instant \<Rightarrow> consumer_group \<Rightarrow> unit result \<times> consumer_group" where
  "group_claim name claims applied_at cg =
     (case claim_apply_loop name applied_at claims cg of
        (Inl e, cg) \<Rightarrow> (Inl e, cg)
      | (Inr _, cg) \<Rightarrow> (Inr (), extend_consumer name applied_at (map fst claims) cg))"

definition apply_lxgroupclaim ::
    "bytes \<Rightarrow> bytes \<Rightarrow> bytes \<Rightarrow> (stream_id \<times> nat) list \<Rightarrow> instant \<Rightarrow> instant \<Rightarrow> store \<Rightarrow> unit result \<times> store" where
  "apply_lxgroupclaim key grp name claims applied_at now st =
     (if claims = [] then (Inr (), st)
      else modify_stream key (Inl (nogroup_err grp key))
        (modify_group grp (Inl (nogroup_err grp key)) (group_claim name claims applied_at)) now st)"

fun claim_args :: "(stream_id \<times> nat) list \<Rightarrow> command" where
  "claim_args [] = []"
| "claim_args ((i, n) # claims) = stream_id_to_string i # nat_digits n # claim_args claims"

definition lxgroupclaim_command :: "bytes \<Rightarrow> bytes \<Rightarrow> bytes \<Rightarrow> (stream_id \<times> nat) list \<Rightarrow> command" where
  "lxgroupclaim_command key grp name claims = [ascii ''LXGROUPCLAIM'', key, grp, name] @ claim_args claims"

definition xclaim ::
    "keyring \<Rightarrow> bytes \<Rightarrow> bytes \<Rightarrow> bytes \<Rightarrow> nat \<Rightarrow> stream_id list \<Rightarrow> instant \<Rightarrow> instant \<Rightarrow> journal_io \<Rightarrow> engine \<Rightarrow>
     stream_entries result \<times> engine" where
  "xclaim kr key grp name min_idle_ms ids now inst_now io eg =
     flatten_commit (commit_prepared [ascii ''XCLAIM'', key]
       (\<lambda>st. case preview_xclaim kr key grp min_idle_ms ids now inst_now st of
               Inl e \<Rightarrow> (Inl e, st)
             | Inr (result, claims) \<Rightarrow>
                 (Inr (if claims = [] then [] else [lxgroupclaim_command key grp name claims], (result, claims)), st))
       (\<lambda>(result, claims) st. case apply_lxgroupclaim key grp name claims inst_now now st of
               (Inl e, st) \<Rightarrow> (Inl e, st)
             | (Inr _, st) \<Rightarrow> (Inr result, st))
       io eg)"

definition xautoclaim ::
    "keyring \<Rightarrow> bytes \<Rightarrow> bytes \<Rightarrow> bytes \<Rightarrow> nat \<Rightarrow> stream_id \<Rightarrow> nat option \<Rightarrow> instant \<Rightarrow> instant \<Rightarrow> journal_io \<Rightarrow> engine \<Rightarrow>
     (stream_id \<times> stream_entries \<times> stream_id list) result \<times> engine" where
  "xautoclaim kr key grp name min_idle_ms start max_count now inst_now io eg =
     flatten_commit (commit_prepared [ascii ''XAUTOCLAIM'', key]
       (\<lambda>st. case preview_xautoclaim kr key grp min_idle_ms start max_count now inst_now st of
               Inl e \<Rightarrow> (Inl e, st)
             | Inr plan \<Rightarrow>
                 (Inr (if ac_claims plan = [] then [] else [lxgroupclaim_command key grp name (ac_claims plan)], plan), st))
       (\<lambda>plan st. case apply_lxgroupclaim key grp name (ac_claims plan) inst_now now st of
               (Inl e, st) \<Rightarrow> (Inl e, st)
             | (Inr _, st) \<Rightarrow> (Inr (ac_next_start plan, ac_result plan, ac_deleted_ids plan), st))
       io eg)"

section \<open>Deleting and describing\<close>

fun xdel_loop :: "stream_id list \<Rightarrow> nat \<Rightarrow> nat \<Rightarrow> stream_entries \<Rightarrow> (nat \<times> nat) \<times> stream_entries" where
  "xdel_loop [] removed freed es = ((removed, freed), es)"
| "xdel_loop (i # ids) removed freed es =
     (case bt_get id es i of
        None \<Rightarrow> xdel_loop ids removed freed es
      | Some fs \<Rightarrow> xdel_loop ids (removed + 1) (freed + stream_entry_memory fs) (filter (\<lambda>(j, _). j \<noteq> i) es))"

definition shrink_entries ::
    "bytes \<Rightarrow> (stream_entries \<Rightarrow> (nat \<times> nat) \<times> stream_entries) \<Rightarrow> instant \<Rightarrow> store \<Rightarrow> int result \<times> store" where
  "shrink_entries key f now st =
     (let st = bump_version key st in
      case data_get st key of
        None \<Rightarrow> (Inr 0, st)
      | Some e \<Rightarrow>
          if is_expired_at e now then (Inr 0, st)
          else (case en_value e of
                  Stream s \<Rightarrow>
                    (case f (st_entries s) of
                       ((n, freed), es) \<Rightarrow>
                         (Inr (int n), mem_shrink key freed (put_value key e (Stream (s\<lparr>st_entries := es\<rparr>)) st)))
                | _ \<Rightarrow> (Inl (Err WRONGTYPE), st)))"

definition xdel :: "bytes \<Rightarrow> stream_id list \<Rightarrow> instant \<Rightarrow> store \<Rightarrow> int result \<times> store" where
  "xdel key ids = shrink_entries key (xdel_loop ids 0 0)"

definition xtrim :: "bytes \<Rightarrow> nat \<Rightarrow> instant \<Rightarrow> store \<Rightarrow> int result \<times> store" where
  "xtrim key max_len = shrink_entries key (trim_entries max_len 0 0)"

definition xinfo_stream :: "bytes \<Rightarrow> instant \<Rightarrow> store \<Rightarrow> (string \<times> bytes) list result" where
  "xinfo_stream key now st =
     (case view_stream key now st of
        Inl e \<Rightarrow> Inl e
      | Inr None \<Rightarrow> Inl (Err ''ERR no such key'')
      | Inr (Some s) \<Rightarrow>
          Inr ([(''length'', nat_digits (length (st_entries s))),
                (''last-generated-id'', stream_id_to_string (st_last_id s)),
                (''groups'', nat_digits (length (st_groups s)))] @
               (if st_entries s = [] then []
                else [(''first-entry-id'', stream_id_to_string (fst (hd (st_entries s)))),
                      (''last-entry-id'', stream_id_to_string (fst (last (st_entries s))))])))"

definition xinfo_groups :: "bytes \<Rightarrow> instant \<Rightarrow> store \<Rightarrow> (string \<times> bytes) list list result" where
  "xinfo_groups key now st =
     (case view_stream key now st of
        Inl e \<Rightarrow> Inl e
      | Inr None \<Rightarrow> Inl (Err ''ERR no such key'')
      | Inr (Some s) \<Rightarrow>
          Inr (map (\<lambda>(name, cg).
            [(''name'', name), (''consumers'', nat_digits (length (cg_consumers cg))),
             (''pending'', nat_digits (length (cg_pel cg))),
             (''last-delivered-id'', stream_id_to_string (cg_last_delivered_id cg))]) (st_groups s)))"

definition stream_last_id :: "bytes \<Rightarrow> instant \<Rightarrow> store \<Rightarrow> stream_id option" where
  "stream_last_id key now st = (case view_stream key now st of Inr (Some s) \<Rightarrow> Some (st_last_id s) | _ \<Rightarrow> None)"

section \<open>Replaying the effects\<close>

text \<open>
  The two commands of the dispatcher (\<^verbatim>\<open>src/src/cmd/mod.rs\<close>) that exist for replay
  only; the result is the error text that is written, if any.
\<close>

definition replay_lxgroupread :: "bool \<Rightarrow> command \<Rightarrow> instant \<Rightarrow> instant \<Rightarrow> store \<Rightarrow> unit result \<times> store" where
  "replay_lxgroupread wal_replaying args now inst_now st =
     (if \<not> wal_replaying then (Inl (Err (''ERR unknown command '' @ quoted (key_str (hd args)))), st)
      else if length args < 5 then (Inl (Err ''ERR invalid LXGROUPREAD journal entry''), st)
      else case stream_id_parse (key_str (args ! 3)) of
        None \<Rightarrow> (Inl (Err ''ERR invalid LXGROUPREAD stream ID''), st)
      | Some last_delivered_id \<Rightarrow>
          (let pending_ids = List.map_filter (\<lambda>arg. stream_id_parse (key_str arg)) (drop 5 args) in
           if length pending_ids \<noteq> length args - 5 then (Inl (Err ''ERR invalid LXGROUPREAD pending ID''), st)
           else apply_lxgroupread (args ! 1) (key_str (args ! 2)) (if args ! 4 = [] then None else Some (key_str (args ! 4)))
                  last_delivered_id pending_ids inst_now now st))"

fun parse_claims :: "command \<Rightarrow> (stream_id \<times> nat) list result" where
  "parse_claims (a # b # args) =
     (case stream_id_parse (key_str a) of
        None \<Rightarrow> Inl (Err ''ERR invalid LXGROUPCLAIM stream ID'')
      | Some i \<Rightarrow>
          (case parse_u64 (key_str b) of
             None \<Rightarrow> Inl (Err ''ERR invalid LXGROUPCLAIM delivery count'')
           | Some n \<Rightarrow> (case parse_claims args of Inl e \<Rightarrow> Inl e | Inr claims \<Rightarrow> Inr ((i, n) # claims))))"
| "parse_claims args = Inr []"

definition replay_lxgroupclaim :: "bool \<Rightarrow> command \<Rightarrow> instant \<Rightarrow> instant \<Rightarrow> store \<Rightarrow> unit result \<times> store" where
  "replay_lxgroupclaim wal_replaying args now inst_now st =
     (if \<not> wal_replaying then (Inl (Err (''ERR unknown command '' @ quoted (key_str (hd args)))), st)
      else if length args < 6 \<or> (length args - 4) mod 2 \<noteq> 0 then (Inl (Err ''ERR invalid LXGROUPCLAIM journal entry''), st)
      else case parse_claims (drop 4 args) of
        Inl e \<Rightarrow> (Inl e, st)
      | Inr claims \<Rightarrow> apply_lxgroupclaim (args ! 1) (key_str (args ! 2)) (key_str (args ! 3)) claims inst_now now st)"

end
