(* ===== verification/StreamGroups.thy ===== *)
theory StreamGroups
  imports StoreStreams
begin

text \<open>
  What streams promise. Identifiers grow, so entries are only ever appended; every
  pending entry of a group belongs to exactly one consumer, whatever sequence of reads,
  acknowledgements, claims and deletions has run; a group hands out each entry once;
  and the journaled effect of a read or a claim repeats it.
\<close>

section \<open>Ownership of pending entries\<close>

definition owner :: "consumer_group \<Rightarrow> stream_id \<Rightarrow> bytes option" where
  "owner cg i = map_option pe_consumer (bt_get id (cg_pel cg) i)"

definition held :: "consumer_group \<Rightarrow> bytes \<Rightarrow> stream_id set" where
  "held cg name = (case hm_get (cg_consumers cg) name of None \<Rightarrow> {} | Some c \<Rightarrow> co_pel c)"

definition maps_wf :: "consumer_group \<Rightarrow> bool" where
  "maps_wf cg \<longleftrightarrow> hm_wf (cg_consumers cg) \<and> bt_wf id (cg_pel cg) \<and> (\<forall>name. finite (held cg name))"

text \<open>While a loop runs, a consumer holds only what it owns; before and after, also the converse.\<close>

definition holds_owned :: "consumer_group \<Rightarrow> bool" where
  "holds_owned cg \<longleftrightarrow> maps_wf cg \<and> (\<forall>i name. i \<in> held cg name \<longrightarrow> owner cg i = Some name)"

definition pending_wf :: "consumer_group \<Rightarrow> bool" where
  "pending_wf cg \<longleftrightarrow> maps_wf cg \<and> (\<forall>i name. i \<in> held cg name \<longleftrightarrow> owner cg i = Some name)"

lemma pending_wf_iff: "pending_wf cg \<longleftrightarrow> holds_owned cg \<and> (\<forall>i name. owner cg i = Some name \<longrightarrow> i \<in> held cg name)"
  by (auto simp: pending_wf_def holds_owned_def)

lemma bt_get_filter:
  "bt_wf id m \<Longrightarrow> bt_get id (filter (\<lambda>(k, _). P k) m) k = (if P k then bt_get id m k else None)"
  by (induction m) (auto simp: bt_wf_Cons)

lemma bt_wf_filter [wf_intros]: "bt_wf id m \<Longrightarrow> bt_wf id (filter P m)"
  by (induction m) (auto simp: bt_wf_Cons)

lemma pending_wf_new [simp]: "pending_wf (group_new i)"
  by (simp add: pending_wf_def maps_wf_def group_new_def held_def owner_def)

lemma last_delivered_irrelevant [simp]:
  "owner (cg\<lparr>cg_last_delivered_id := i\<rparr>) = owner cg" "held (cg\<lparr>cg_last_delivered_id := i\<rparr>) = held cg"
  "maps_wf (cg\<lparr>cg_last_delivered_id := i\<rparr>) = maps_wf cg"
  by (simp_all add: owner_def held_def maps_wf_def fun_eq_iff)

lemma owner_consumers [simp]: "owner (cg\<lparr>cg_consumers := cs\<rparr>) = owner cg"
  by (simp add: owner_def fun_eq_iff)

lemma held_pel [simp]: "held (cg\<lparr>cg_pel := p\<rparr>) = held cg"
  by (simp add: held_def fun_eq_iff)

lemma held_insert [simp]: "held (cg\<lparr>cg_consumers := hm_insert n c (cg_consumers cg)\<rparr>) = (held cg)(n := co_pel c)"
  by (auto simp: held_def fun_eq_iff)

lemma maps_wf_consumer:
  "maps_wf cg \<Longrightarrow> finite (co_pel c) \<Longrightarrow> maps_wf (cg\<lparr>cg_consumers := hm_insert n c (cg_consumers cg)\<rparr>)"
  by (simp add: maps_wf_def)

lemma maps_wf_pel: "maps_wf cg \<Longrightarrow> bt_wf id p \<Longrightarrow> maps_wf (cg\<lparr>cg_pel := p\<rparr>)"
  by (simp add: maps_wf_def)

lemma maps_wf_finite [simp]: "maps_wf cg \<Longrightarrow> finite (held cg name)"
  by (simp add: maps_wf_def)

lemma hm_get_held: "hm_get (cg_consumers cg) n = Some c \<Longrightarrow> co_pel c = held cg n"
  by (simp add: held_def)

lemma owner_pel_insert:
  "maps_wf cg \<Longrightarrow> owner (cg\<lparr>cg_pel := bt_insert id i pe (cg_pel cg)\<rparr>) = (owner cg)(i \<mapsto> pe_consumer pe)"
  by (auto simp: owner_def fun_eq_iff maps_wf_def bt_get_insert)

lemma owner_pel_filter:
  "maps_wf cg \<Longrightarrow> owner (cg\<lparr>cg_pel := filter (\<lambda>(j, _). P j) (cg_pel cg)\<rparr>) = (\<lambda>j. if P j then owner cg j else None)"
  by (auto simp: owner_def fun_eq_iff maps_wf_def bt_get_filter)

section \<open>Operations on a group\<close>

lemma unlink_pending_result:
  assumes "holds_owned cg"
  shows "holds_owned (unlink_pending i cg)" and "owner (unlink_pending i cg) = owner cg"
    and "held (unlink_pending i cg) = (\<lambda>n. held cg n - {i})"
    and "cg_last_delivered_id (unlink_pending i cg) = cg_last_delivered_id cg"
    and "cg_pel (unlink_pending i cg) = cg_pel cg"
proof -
  show own: "owner (unlink_pending i cg) = owner cg" by (simp add: unlink_pending_def split: option.splits)
  show hld: "held (unlink_pending i cg) = (\<lambda>n. held cg n - {i})"
  proof (rule ext)
    fix n
    have mem: "j \<in> held cg m \<Longrightarrow> owner cg j = Some m" for j m using assms by (simp add: holds_owned_def)
    show "held (unlink_pending i cg) n = held cg n - {i}"
    proof (cases "bt_get id (cg_pel cg) i")
      case None
      then show ?thesis using mem [of i n] by (auto simp: unlink_pending_def owner_def)
    next
      case (Some pe)
      then have "n \<noteq> pe_consumer pe \<Longrightarrow> i \<notin> held cg n" using mem [of i n] by (auto simp: owner_def)
      moreover have "hm_get (cg_consumers cg) (pe_consumer pe) = None \<Longrightarrow> held cg (pe_consumer pe) = {}"
        by (simp add: held_def)
      ultimately show ?thesis using Some
        by (cases "n = pe_consumer pe") (auto simp: unlink_pending_def hm_get_held split: option.splits)
    qed
  qed
  have "maps_wf (unlink_pending i cg)"
    using assms unfolding unlink_pending_def holds_owned_def
    by (auto simp: hm_get_held intro!: maps_wf_consumer split: option.splits)
  then show "holds_owned (unlink_pending i cg)" using assms own hld by (simp add: holds_owned_def)
  show "cg_last_delivered_id (unlink_pending i cg) = cg_last_delivered_id cg" "cg_pel (unlink_pending i cg) = cg_pel cg"
    by (simp_all add: unlink_pending_def split: option.splits)
qed

text \<open>An identifier is given to a consumer in the pending list; nobody holds it until the loop is over.\<close>

lemma give_pending:
  assumes "holds_owned cg"
  shows "holds_owned ((unlink_pending i cg)\<lparr>cg_pel := bt_insert id i pe (cg_pel cg)\<rparr>)"
    and "owner ((unlink_pending i cg)\<lparr>cg_pel := bt_insert id i pe (cg_pel cg)\<rparr>) = (owner cg)(i \<mapsto> pe_consumer pe)"
    and "held ((unlink_pending i cg)\<lparr>cg_pel := bt_insert id i pe (cg_pel cg)\<rparr>) = (\<lambda>n. held cg n - {i})"
proof -
  note u = unlink_pending_result [OF assms, of i]
  have wf: "maps_wf (unlink_pending i cg)" "bt_wf id (cg_pel cg)" using u(1) u(5) by (simp_all add: holds_owned_def maps_wf_def)
  show own: "owner ((unlink_pending i cg)\<lparr>cg_pel := bt_insert id i pe (cg_pel cg)\<rparr>) = (owner cg)(i \<mapsto> pe_consumer pe)"
    using owner_pel_insert [OF wf(1), of i pe] u(2,5) by simp
  show hld: "held ((unlink_pending i cg)\<lparr>cg_pel := bt_insert id i pe (cg_pel cg)\<rparr>) = (\<lambda>n. held cg n - {i})"
    using u(3) by simp
  show "holds_owned ((unlink_pending i cg)\<lparr>cg_pel := bt_insert id i pe (cg_pel cg)\<rparr>)"
    using own hld assms maps_wf_pel [OF wf(1) bt_wf_insert [OF wf(2)]] by (simp add: holds_owned_def)
qed

definition given :: "consumer_group \<Rightarrow> stream_id set \<Rightarrow> bytes \<Rightarrow> consumer_group \<Rightarrow> bool" where
  "given cg A name cg' \<longleftrightarrow> holds_owned cg' \<and> owner cg' = (\<lambda>i. if i \<in> A then Some name else owner cg i) \<and>
     held cg' = (\<lambda>n. held cg n - A) \<and> cg_last_delivered_id cg' = cg_last_delivered_id cg"

lemma given_step:
  assumes "holds_owned cg" and "pe_consumer pe = name"
    and "given ((unlink_pending i cg)\<lparr>cg_pel := bt_insert id i pe (cg_pel cg)\<rparr>) A name cg'"
  shows "given cg (insert i A) name cg'"
  using assms(2,3) give_pending [OF assms(1), of i pe] unlink_pending_result(4) [OF assms(1), of i]
  by (auto simp: given_def fun_eq_iff)

lemma deliver_loop_given: "holds_owned cg \<Longrightarrow> given cg (set ids) name (deliver_loop name t ids cg)"
proof (induction ids arbitrary: cg)
  case (Cons i ids)
  define pe where "pe = \<lparr>pe_consumer = name, pe_delivery_time = t, pe_delivery_count = 1\<rparr>"
  have "given ((unlink_pending i cg)\<lparr>cg_pel := bt_insert id i pe (cg_pel cg)\<rparr>) (set ids) name
      (deliver_loop name t (i # ids) cg)"
    using Cons.IH [OF give_pending(1) [OF Cons.prems, of i pe]]
    by (simp add: unlink_pending_result(5) [OF Cons.prems] pe_def)
  then show ?case using given_step [OF Cons.prems, of pe name i] by (simp add: pe_def)
qed (simp add: given_def)

lemma claim_loop_given:
  "holds_owned cg \<Longrightarrow> \<forall>(i, n) \<in> set claims. owner cg i \<noteq> None \<Longrightarrow>
    fst (claim_apply_loop name t claims cg) = Inr () \<and>
    given cg (fst ` set claims) name (snd (claim_apply_loop name t claims cg))"
proof (induction claims arbitrary: cg)
  case (Cons c claims)
  obtain i n where c: "c = (i, n)" by (cases c)
  then obtain pe0 where pe0: "bt_get id (cg_pel cg) i = Some pe0" using Cons.prems(2) by (auto simp: owner_def)
  define pe where "pe = pe0\<lparr>pe_consumer := name, pe_delivery_time := t, pe_delivery_count := n\<rparr>"
  define cg1 where "cg1 = (unlink_pending i cg)\<lparr>cg_pel := bt_insert id i pe (cg_pel cg)\<rparr>"
  have "\<forall>(i, n) \<in> set claims. owner cg1 i \<noteq> None"
    using Cons.prems(2) give_pending(2) [OF Cons.prems(1), of i pe] by (auto simp: cg1_def)
  then have "fst (claim_apply_loop name t claims cg1) = Inr () \<and> given cg1 (fst ` set claims) name (snd (claim_apply_loop name t claims cg1))"
    using Cons.IH give_pending(1) [OF Cons.prems(1)] by (simp add: cg1_def)
  moreover have "claim_apply_loop name t (c # claims) cg = claim_apply_loop name t claims cg1"
    using pe0 by (simp add: c cg1_def pe_def unlink_pending_result(5) [OF Cons.prems(1)])
  ultimately show ?case
    using given_step [OF Cons.prems(1), of pe name i "fst ` set claims"] by (simp add: c cg1_def pe_def)
qed (simp add: given_def)

lemma extend_consumer_result:
  assumes "pending_wf cg" and "given cg (set ids) name cg'"
  shows "pending_wf (extend_consumer name t ids cg')"
    and "owner (extend_consumer name t ids cg') = (\<lambda>i. if i \<in> set ids then Some name else owner cg i)"
    and "cg_last_delivered_id (extend_consumer name t ids cg') = cg_last_delivered_id cg"
proof -
  define c where "c = (case hm_get (cg_consumers cg') name of None \<Rightarrow> \<lparr>co_pel = {}, co_seen_time = t\<rparr> | Some c \<Rightarrow> c)"
  have c: "co_pel c = held cg' name" by (simp add: c_def held_def split: option.splits)
  have eq: "extend_consumer name t ids cg' =
      cg'\<lparr>cg_consumers := hm_insert name (c\<lparr>co_pel := co_pel c \<union> set ids, co_seen_time := t\<rparr>) (cg_consumers cg')\<rparr>"
    by (simp add: extend_consumer_def c_def Let_def)
  have g: "maps_wf cg'" "owner cg' = (\<lambda>i. if i \<in> set ids then Some name else owner cg i)"
    "held cg' = (\<lambda>n. held cg n - set ids)" "cg_last_delivered_id cg' = cg_last_delivered_id cg"
    using assms(2) by (simp_all add: given_def holds_owned_def)
  show "owner (extend_consumer name t ids cg') = (\<lambda>i. if i \<in> set ids then Some name else owner cg i)"
    and "cg_last_delivered_id (extend_consumer name t ids cg') = cg_last_delivered_id cg"
    using g by (simp_all add: eq)
  have "maps_wf (extend_consumer name t ids cg')" using g(1) unfolding eq by (intro maps_wf_consumer) (simp_all add: c)
  then show "pending_wf (extend_consumer name t ids cg')"
    using assms(1) g(2,3) c by (auto simp: pending_wf_def eq)
qed

lemma pending_wf_holds: "pending_wf cg \<Longrightarrow> holds_owned cg"
  by (simp add: pending_wf_iff)

lemma group_deliver_result:
  assumes "pending_wf cg" and "group_deliver name_opt lst ids t cg = (r, cg')"
  shows "r = Inr ()" and "pending_wf cg'" and "cg_last_delivered_id cg' = lst"
    and "owner cg' = (\<lambda>i. case name_opt of None \<Rightarrow> owner cg i | Some name \<Rightarrow> if i \<in> set ids then Some name else owner cg i)"
proof -
  let ?cg = "cg\<lparr>cg_last_delivered_id := lst\<rparr>"
  have wf: "pending_wf ?cg" using assms(1) by (simp add: pending_wf_def)
  show "r = Inr ()" using assms(2) by (simp add: group_deliver_def Let_def)
  show "pending_wf cg'" and "cg_last_delivered_id cg' = lst"
    and "owner cg' = (\<lambda>i. case name_opt of None \<Rightarrow> owner cg i | Some name \<Rightarrow> if i \<in> set ids then Some name else owner cg i)"
    using assms(2) wf extend_consumer_result [OF wf deliver_loop_given [OF pending_wf_holds [OF wf]]]
    by (auto simp: group_deliver_def Let_def split: option.splits)
qed

lemma group_claim_result:
  assumes "pending_wf cg" and "\<forall>(i, n) \<in> set claims. owner cg i \<noteq> None" and "group_claim name claims t cg = (r, cg')"
  shows "r = Inr ()" and "pending_wf cg'" and "cg_last_delivered_id cg' = cg_last_delivered_id cg"
    and "owner cg' = (\<lambda>i. if i \<in> fst ` set claims then Some name else owner cg i)"
proof -
  note l = claim_loop_given [OF pending_wf_holds [OF assms(1)] assms(2), of name t]
  obtain cg1 where run: "claim_apply_loop name t claims cg = (Inr (), cg1)" "given cg (set (map fst claims)) name cg1"
    using l by (cases "claim_apply_loop name t claims cg") auto
  show "r = Inr ()" "pending_wf cg'" "cg_last_delivered_id cg' = cg_last_delivered_id cg"
    "owner cg' = (\<lambda>i. if i \<in> fst ` set claims then Some name else owner cg i)"
    using assms(3) run(1) extend_consumer_result [OF assms(1) run(2), of t] by (auto simp: group_claim_def)
qed

lemma xack_one_result:
  assumes "pending_wf cg" and "xack_one i cg = (b, cg')"
  shows "b \<longleftrightarrow> owner cg i \<noteq> None" and "pending_wf cg'" and "owner cg' = (owner cg)(i := None)"
    and "cg_last_delivered_id cg' = cg_last_delivered_id cg"
proof -
  let ?f = "cg\<lparr>cg_pel := filter (\<lambda>(j, _). j \<noteq> i) (cg_pel cg)\<rparr>"
  have wf: "maps_wf cg" "bt_wf id (cg_pel cg)" and mem: "j \<in> held cg n \<longleftrightarrow> owner cg j = Some n" for j n
    using assms(1) by (simp_all add: pending_wf_def maps_wf_def)
  have f: "maps_wf ?f" "owner ?f = (owner cg)(i := None)" "held ?f = held cg"
    using wf owner_pel_filter [OF wf(1), of "\<lambda>j. j \<noteq> i"] by (auto intro: maps_wf_pel bt_wf_filter)
  show "b \<longleftrightarrow> owner cg i \<noteq> None" "cg_last_delivered_id cg' = cg_last_delivered_id cg"
    using assms(2) by (auto simp: xack_one_def owner_def Let_def split: option.splits)
  show "owner cg' = (owner cg)(i := None)"
    using assms(2) f(2) owner_def [of cg i] by (auto simp: xack_one_def Let_def split: option.splits)
  show "pending_wf cg'"
  proof (cases "bt_get id (cg_pel cg) i")
    case None
    then show ?thesis using assms by (simp add: xack_one_def)
  next
    case (Some pe)
    then have "i \<in> held cg (pe_consumer pe)" using mem by (simp add: owner_def)
    then obtain c where c: "hm_get (cg_consumers cg) (pe_consumer pe) = Some c"
      by (auto simp: held_def split: option.splits)
    have eq: "cg' = ?f\<lparr>cg_consumers := hm_insert (pe_consumer pe) (c\<lparr>co_pel := co_pel c - {i}\<rparr>) (cg_consumers ?f)\<rparr>"
      using assms(2) Some c by (simp add: xack_one_def Let_def)
    have "maps_wf cg'" unfolding eq using f(1) wf(1) by (intro maps_wf_consumer) (simp_all add: hm_get_held [OF c])
    moreover have "held cg' = (held cg)(pe_consumer pe := held cg (pe_consumer pe) - {i})"
      unfolding eq held_insert using f(3) by (simp add: hm_get_held [OF c])
    moreover have "owner cg i = Some (pe_consumer pe)" using Some by (simp add: owner_def)
    ultimately show ?thesis using mem \<open>owner cg' = (owner cg)(i := None)\<close> by (auto simp: pending_wf_def)
  qed
qed

lemma xack_loop_result:
  assumes "pending_wf cg" and "xack_loop ids n cg = (r, cg')"
  shows "pending_wf cg' \<and> cg_last_delivered_id cg' = cg_last_delivered_id cg \<and>
    owner cg' = (\<lambda>i. if i \<in> set ids then None else owner cg i) \<and>
    r = Inr (n + int (card {i \<in> set ids. owner cg i \<noteq> None}))"
  using assms
proof (induction ids arbitrary: cg n)
  case (Cons i ids)
  obtain b cg1 where one: "xack_one i cg = (b, cg1)" by fastforce
  note o = xack_one_result [OF Cons.prems(1) one]
  have "xack_loop ids (if b then n + 1 else n) cg1 = (r, cg')" using Cons.prems(2) one by (cases b) simp_all
  note IH = Cons.IH [OF o(2) this]
  have "{j \<in> set (i # ids). owner cg j \<noteq> None} = (if b then insert i else id) {j \<in> set ids. owner cg1 j \<noteq> None}"
    using o(1,3) by auto
  then have "card {j \<in> set (i # ids). owner cg j \<noteq> None} = (if b then 1 else 0) + card {j \<in> set ids. owner cg1 j \<noteq> None}"
    using o(3) by simp
  then show ?case using IH o by (auto simp: fun_eq_iff)
qed simp

lemma create_consumer_result:
  assumes "pending_wf cg" and "create_consumer name now cg = (r, cg')"
  shows "pending_wf cg' \<and> owner cg' = owner cg \<and> cg_last_delivered_id cg' = cg_last_delivered_id cg"
proof (cases "hm_contains (cg_consumers cg) name")
  case False
  then have "held cg name = {}" by (simp add: hm_contains_def hm_get_def held_def)
  then show ?thesis using assms False
    by (auto simp: create_consumer_def pending_wf_def intro!: maps_wf_consumer split: if_splits)
qed (use assms in \<open>simp add: create_consumer_def\<close>)

lemma del_consumer_result:
  assumes "pending_wf cg" and "del_consumer name cg = (r, cg')"
  shows "pending_wf cg' \<and> owner cg' = (\<lambda>i. if owner cg i = Some name then None else owner cg i) \<and>
    cg_last_delivered_id cg' = cg_last_delivered_id cg \<and> r = Inr (int (card {i. owner cg i = Some name}))"
proof -
  have wf: "maps_wf cg" and mem: "j \<in> held cg n \<longleftrightarrow> owner cg j = Some n" for j n using assms(1) by (simp_all add: pending_wf_def)
  have owned: "{i. owner cg i = Some name} = held cg name" using mem by auto
  show ?thesis
  proof (cases "hm_get (cg_consumers cg) name")
    case None
    then have "held cg name = {}" by (simp add: held_def)
    then show ?thesis using None assms mem owned by (auto simp: del_consumer_def fun_eq_iff)
  next
    case (Some c)
    let ?f = "cg\<lparr>cg_pel := filter (\<lambda>(i, _). i \<notin> co_pel c) (cg_pel cg)\<rparr>"
    have c: "co_pel c = held cg name" by (rule hm_get_held [OF Some])
    have eq: "cg' = cg\<lparr>cg_consumers := hm_remove name (cg_consumers cg), cg_pel := cg_pel ?f\<rparr>" "r = Inr (int (card (held cg name)))"
      using assms(2) Some c by (simp_all add: del_consumer_def)
    have own: "owner cg' = (\<lambda>i. if owner cg i = Some name then None else owner cg i)"
      using owner_pel_filter [OF wf, of "\<lambda>i. i \<notin> co_pel c"] c mem by (auto simp: eq owner_def fun_eq_iff)
    have hld: "held cg' n = (if n = name then {} else held cg n)" for n
      using wf by (simp add: eq held_def maps_wf_def)
    have "maps_wf cg'" using wf hld unfolding eq maps_wf_def by (simp add: bt_wf_filter)
    then show ?thesis using own hld mem owned eq(2) by (auto simp: pending_wf_def eq)
  qed
qed

section \<open>Streams\<close>

definition stream_wf :: "stream_data \<Rightarrow> bool" where
  "stream_wf s \<longleftrightarrow> bt_wf id (st_entries s) \<and> (\<forall>(i, fs) \<in> set (st_entries s). i \<le> st_last_id s) \<and> hm_wf (st_groups s) \<and>
     (\<forall>grp cg. hm_get (st_groups s) grp = Some cg \<longrightarrow> pending_wf cg)"

lemma stream_wf_new [simp]: "stream_wf stream_new"
  by (simp add: stream_wf_def stream_new_def)

lemma stream_id_zero_le [simp]: "stream_id_zero \<le> i"
  using word_gt_0 [of "sid_ms i"] by (auto simp: less_eq_stream_id_def stream_id_zero_def)

lemma guarded_result:
  "(case r of Inl e \<Rightarrow> Inl e | Inr i \<Rightarrow> if A i then Inl x else if B i then Inl y else Inr i) = Inr j \<Longrightarrow> \<not> A j \<and> \<not> B j"
  by (auto split: sum.splits if_splits)

text \<open>A resolved identifier is above every identifier of the stream.\<close>

lemma resolve_xadd_id_above:
  assumes "stream_wf s" and "resolve_xadd_id clock_ms s id_input = Inr i"
  shows "\<forall>(j, fs) \<in> set (st_entries s). j < i" and "st_last_id s < i \<or> st_last_id s = stream_id_zero"
proof -
  have le: "i \<le> st_last_id s \<longleftrightarrow>
      sid_ms i < sid_ms (st_last_id s) \<or> sid_ms i = sid_ms (st_last_id s) \<and> sid_seq i \<le> sid_seq (st_last_id s)"
    by (simp add: less_eq_stream_id_def)
  have c: "\<not> (i \<le> st_last_id s \<and> st_last_id s \<noteq> stream_id_zero)" "i = stream_id_zero \<Longrightarrow> st_entries s = []"
    using guarded_result [OF assms(2) [unfolded resolve_xadd_id_def Let_def]] le by auto
  then show "st_last_id s < i \<or> st_last_id s = stream_id_zero" by auto
  have bound: "\<forall>(j, fs) \<in> set (st_entries s). j \<le> st_last_id s" using assms(1) by (simp add: stream_wf_def)
  show "\<forall>(j, fs) \<in> set (st_entries s). j < i"
  proof (cases "st_last_id s < i")
    case True
    then show ?thesis using bound by fastforce
  next
    case False
    then have z: "st_last_id s = stream_id_zero" using c(1) by auto
    show ?thesis
    proof (cases "i = stream_id_zero")
      case True
      then show ?thesis using c(2) by simp
    next
      case False
      then have "stream_id_zero < i" using stream_id_zero_le [of i] by (metis order_le_imp_less_or_eq)
      then show ?thesis using bound z by fastforce
    qed
  qed
qed

lemma trim_entries_result:
  "trim_entries m n freed es =
     ((n + (length es - m), freed + sum_list (map (\<lambda>(i, fs). stream_entry_memory fs) (take (length es - m) es))),
      drop (length es - m) es)"
  by (induction es arbitrary: n freed) (auto simp: Suc_diff_le)

lemma add_stream_entry_result:
  assumes "\<forall>(j, fs) \<in> set (st_entries s). j < i" and "add_stream_entry i flds max_len s = (freed, s')"
  shows "s' = s\<lparr>st_last_id := i, st_entries :=
    drop (case max_len of None \<Rightarrow> 0 | Some m \<Rightarrow> length (st_entries s) + 1 - m) (st_entries s @ [(i, flds)])\<rparr>"
proof -
  have "bt_insert id i flds (st_entries s) = st_entries s @ [(i, flds)]" using assms(1) by (intro bt_insert_last) auto
  then show ?thesis using assms(2) by (auto simp: add_stream_entry_def trim_entries_result Let_def split: option.splits)
qed

lemma bt_wf_drop: "bt_wf id m \<Longrightarrow> bt_wf id (drop n m)"
  by (auto simp: bt_wf_def drop_map [symmetric] sorted_wrt_drop)

lemma add_stream_entry_wf:
  assumes "stream_wf s" and "\<forall>(j, fs) \<in> set (st_entries s). j < i"
  shows "stream_wf (snd (add_stream_entry i flds max_len s))"
proof -
  define k where "k = (case max_len of None \<Rightarrow> 0 | Some m \<Rightarrow> length (st_entries s) + 1 - m)"
  have "snd (add_stream_entry i flds max_len s) = s\<lparr>st_last_id := i, st_entries := drop k (st_entries s @ [(i, flds)])\<rparr>"
    using add_stream_entry_result [OF assms(2) prod.collapse [symmetric]] by (simp add: k_def)
  moreover have "bt_wf id (drop k (st_entries s @ [(i, flds)]))"
    using assms by (intro bt_wf_drop) (auto simp: stream_wf_def bt_wf_snoc)
  moreover have "\<forall>(j, fs) \<in> set (st_entries s @ [(i, flds)]). j \<le> i" using assms(2) by auto
  ultimately show ?thesis using assms(1) set_drop_subset [of k "st_entries s @ [(i, flds)]"]
    unfolding stream_wf_def by fastforce
qed

lemma modify_group_wf:
  assumes "stream_wf s" and "\<And>cg. pending_wf cg \<Longrightarrow> pending_wf (snd (f cg))"
  shows "stream_wf (snd (modify_group grp missing f s))"
  using assms by (auto simp: modify_group_def stream_wf_def split: option.splits prod.splits) (metis snd_conv)

lemma create_group_wf: "stream_wf s \<Longrightarrow> stream_wf (snd (create_group grp id_str s))"
  by (auto simp: create_group_def Let_def stream_wf_def)

lemma destroy_group_wf: "stream_wf s \<Longrightarrow> stream_wf (s\<lparr>st_groups := hm_remove grp (st_groups s)\<rparr>)"
  by (auto simp: stream_wf_def split: if_splits)

lemma entries_subset_wf:
  "stream_wf s \<Longrightarrow> bt_wf id es \<Longrightarrow> set es \<subseteq> set (st_entries s) \<Longrightarrow> stream_wf (s\<lparr>st_entries := es\<rparr>)"
  by (auto simp: stream_wf_def)

lemma xdel_loop_result:
  "bt_wf id es \<Longrightarrow> snd (xdel_loop ids n freed es) = filter (\<lambda>(i, fs). i \<notin> set ids) es"
proof (induction ids arbitrary: n freed es)
  case (Cons i ids)
  have none: "bt_get id es i = None \<Longrightarrow> filter (\<lambda>(j, fs). j \<noteq> i) es = es"
    by (induction es) (auto split: if_splits)
  have "snd (xdel_loop (i # ids) n freed es) = filter (\<lambda>(j, fs). j \<notin> set ids) (filter (\<lambda>(j, fs). j \<noteq> i) es)"
  proof (cases "bt_get id es i")
    case None
    then show ?thesis using Cons none by simp
  next
    case (Some fs)
    then show ?thesis using Cons.IH [OF bt_wf_filter [OF Cons.prems]] by simp
  qed
  then show ?case by (simp add: case_prod_beta conj_commute)
qed simp

section \<open>The streams of a store\<close>

definition streams_wf :: "store \<Rightarrow> bool" where
  "streams_wf st \<longleftrightarrow> mem_wf st \<and> (\<forall>k e s. data_get st k = Some e \<longrightarrow> en_value e = Stream s \<longrightarrow> stream_wf s)"

lemma value_inv_Stream [simp]: "value_inv (Stream s)"
  by (simp add: value_inv_def)

lemma streams_wfD: "streams_wf st \<Longrightarrow> data_get st k = Some e \<Longrightarrow> en_value e = Stream s \<Longrightarrow> stream_wf s"
  by (auto simp: streams_wf_def)

lemma streams_wf_mem [simp]: "streams_wf st \<Longrightarrow> mem_wf st"
  by (simp add: streams_wf_def)

lemma streams_wf_simps [simp]:
  "streams_wf (bump_version k st) = streams_wf st" "streams_wf (mem_grow k n st) = streams_wf st"
  "streams_wf (mem_shrink k n st) = streams_wf st" "streams_wf (poison_journal st) = streams_wf st"
  by (simp_all add: streams_wf_def mem_grow_def mem_shrink_def mem_wf_def)

lemma streams_wf_put:
  "streams_wf st \<Longrightarrow> stream_wf s \<Longrightarrow> streams_wf (put_value key e (Stream s) st)"
  by (auto simp: streams_wf_def)

lemma poisoned_simps [simp]:
  "journal_poisoned (bump_version k st) = journal_poisoned st" "journal_poisoned (put_value k e v st) = journal_poisoned st"
  by (simp_all add: bump_version_def put_value_def data_insert_def)

lemma update_stream_wf:
  assumes "streams_wf st" and "\<And>s. stream_wf s \<Longrightarrow> stream_wf (snd (f s))"
  shows "streams_wf (snd (update_stream key missing f now st))"
proof (cases "data_get st key")
  case (Some e)
  show ?thesis
  proof (cases "en_value e")
    case (Stream s)
    then have "stream_wf (snd (f s))" using assms(2) streams_wfD [OF assms(1) Some] by simp
    then show ?thesis using assms(1) Some Stream by (auto simp: update_stream_def streams_wf_put split: prod.splits)
  qed (use assms(1) Some in \<open>simp_all add: update_stream_def\<close>)
qed (use assms(1) in \<open>simp add: update_stream_def\<close>)

lemma modify_stream_wf:
  "streams_wf st \<Longrightarrow> (\<And>s. stream_wf s \<Longrightarrow> stream_wf (snd (f s))) \<Longrightarrow> streams_wf (snd (modify_stream key missing f now st))"
  by (simp add: modify_stream_def update_stream_wf)

lemma modify_stream_poisoned [simp]:
  "journal_poisoned (snd (modify_stream key missing f now st)) = journal_poisoned st"
  by (auto simp: modify_stream_def update_stream_def split: option.splits store_value.splits prod.splits)

lemma entry_or_insert_streams:
  assumes "streams_wf st" and "entry_or_insert (Stream stream_new) key now st = (e, st')"
  shows "streams_wf st'" and "data_get st' key = Some e" and "en_value e = Stream s \<Longrightarrow> stream_wf s"
proof -
  note r = entry_or_insert_result [OF streams_wf_mem [OF assms(1)] value_inv_Stream assms(2)]
  have "stream_wf s" if "en_value e = Stream s" for s
    using r(5) that assms(1) by (auto simp: view_def streams_wf_def split: option.splits if_splits)
  then show "streams_wf st'" "data_get st' key = Some e" "en_value e = Stream s \<Longrightarrow> stream_wf s"
    using r(1,2,6) assms(1) unfolding streams_wf_def by (metis option.inject)+
qed

lemma xadd_wf: "streams_wf st \<Longrightarrow> streams_wf (snd (xadd clock_ms key id_input flds max_len now st))"
proof -
  assume wf: "streams_wf st"
  obtain e st1 where run: "entry_or_insert (Stream stream_new) key now (bump_version key st) = (e, st1)" by fastforce
  note r = entry_or_insert_streams [OF _ run, simplified, OF wf]
  show ?thesis
  proof (cases "en_value e")
    case (Stream s)
    show ?thesis
    proof (cases "resolve_xadd_id clock_ms s id_input")
      case (Inr i)
      have "stream_wf (snd (add_stream_entry i flds max_len s))"
        using add_stream_entry_wf r(3) [OF Stream] resolve_xadd_id_above(1) [OF _ Inr] by blast
      then show ?thesis using run r(1) Stream Inr
        by (auto simp: xadd_def xadd_on_shard_def Let_def streams_wf_put split: prod.splits)
    qed (use run r(1) Stream in \<open>simp add: xadd_def xadd_on_shard_def\<close>)
  qed (use run r(1) in \<open>simp_all add: xadd_def xadd_on_shard_def\<close>)
qed

lemma shrink_entries_wf:
  assumes "streams_wf st" and "\<And>es. bt_wf id es \<Longrightarrow> bt_wf id (snd (f es)) \<and> set (snd (f es)) \<subseteq> set es"
  shows "streams_wf (snd (shrink_entries key f now st))"
proof (cases "data_get st key")
  case (Some e)
  show ?thesis
  proof (cases "en_value e")
    case (Stream s)
    have wf: "stream_wf s" by (rule streams_wfD [OF assms(1) Some Stream])
    then have "stream_wf (s\<lparr>st_entries := snd (f (st_entries s))\<rparr>)"
      using assms(2) [of "st_entries s"] by (intro entries_subset_wf) (auto simp: stream_wf_def)
    then show ?thesis using assms(1) Some Stream by (auto simp: shrink_entries_def Let_def streams_wf_put split: prod.splits)
  qed (use assms(1) Some in \<open>simp_all add: shrink_entries_def Let_def\<close>)
qed (use assms(1) in \<open>simp add: shrink_entries_def Let_def\<close>)

lemma xdel_wf: "streams_wf st \<Longrightarrow> streams_wf (snd (xdel key ids now st))"
  unfolding xdel_def by (rule shrink_entries_wf) (auto simp: xdel_loop_result bt_wf_filter)

lemma xtrim_wf: "streams_wf st \<Longrightarrow> streams_wf (snd (xtrim key m now st))"
  unfolding xtrim_def by (rule shrink_entries_wf) (auto simp: trim_entries_result bt_wf_drop dest: in_set_dropD)

lemma xgroup_create_wf: "streams_wf st \<Longrightarrow> streams_wf (snd (xgroup_create key grp id_str mk now st))"
  unfolding xgroup_create_def Let_def
  by (rule update_stream_wf [OF _ create_group_wf])
    (auto intro: entry_or_insert_streams(1) [OF _ prod.collapse [symmetric], of "bump_version key st", simplified])

lemma group_command_wf:
  "streams_wf st \<Longrightarrow> (\<And>cg. pending_wf cg \<Longrightarrow> pending_wf (snd (f cg))) \<Longrightarrow>
    streams_wf (snd (modify_stream key missing (modify_group grp missing' f) now st))"
  by (rule modify_stream_wf) (auto intro: modify_group_wf)

lemma set_group_id_wf: "pending_wf cg \<Longrightarrow> pending_wf (snd (set_group_id id_str i cg))"
  by (auto simp: set_group_id_def pending_wf_def split: option.splits)

lemma xgroup_setid_wf: "streams_wf st \<Longrightarrow> streams_wf (snd (xgroup_setid key grp id_str now st))"
  unfolding xgroup_setid_def by (rule modify_stream_wf) (auto intro: modify_group_wf set_group_id_wf)

lemma xgroup_destroy_wf: "streams_wf st \<Longrightarrow> streams_wf (snd (xgroup_destroy key grp now st))"
  unfolding xgroup_destroy_def by (rule modify_stream_wf) (auto intro: destroy_group_wf)

lemma xgroup_createconsumer_wf: "streams_wf st \<Longrightarrow> streams_wf (snd (xgroup_createconsumer key grp name now st))"
  unfolding xgroup_createconsumer_def
  by (rule group_command_wf) (use create_consumer_result [OF _ prod.collapse [symmetric]] in auto)

lemma xgroup_delconsumer_wf: "streams_wf st \<Longrightarrow> streams_wf (snd (xgroup_delconsumer key grp name now st))"
  unfolding xgroup_delconsumer_def
  by (rule group_command_wf) (use del_consumer_result [OF _ prod.collapse [symmetric]] in auto)

lemma xack_wf: "streams_wf st \<Longrightarrow> streams_wf (snd (xack key grp ids now st))"
  unfolding xack_def by (rule group_command_wf) (use xack_loop_result [OF _ prod.collapse [symmetric]] in auto)

lemma apply_lxgroupread_wf: "streams_wf st \<Longrightarrow> streams_wf (snd (apply_lxgroupread key grp name_opt lst ids t now st))"
  unfolding apply_lxgroupread_def
  by (rule group_command_wf) (use group_deliver_result(2) [OF _ prod.collapse [symmetric]] in auto)

section \<open>Reads and claims\<close>

definition with_group :: "bytes \<Rightarrow> consumer_group \<Rightarrow> stream_data \<Rightarrow> stream_data" where
  "with_group grp cg s = s\<lparr>st_groups := hm_insert grp cg (st_groups s)\<rparr>"

lemma with_group_simps [simp]:
  "st_entries (with_group grp cg s) = st_entries s" "st_last_id (with_group grp cg s) = st_last_id s"
  "hm_get (st_groups (with_group grp cg s)) g = (if g = grp then Some cg else hm_get (st_groups s) g)"
  by (simp_all add: with_group_def)

lemma view_group_Inr:
  "view_group key grp now st = Inr (s, cg) \<longleftrightarrow> view_stream key now st = Inr (Some s) \<and> hm_get (st_groups s) grp = Some cg"
  by (auto simp: view_group_def split: sum.splits option.splits)

lemma view_stream_Some:
  "view_stream key now st = Inr (Some s) \<longleftrightarrow>
     (\<exists>e. data_get st key = Some e \<and> \<not> is_expired_at e now \<and> en_value e = Stream s)"
  by (auto simp: view_stream_def split: option.splits store_value.splits if_splits)

lemma group_command_result:
  assumes "mem_wf st" and "view_group key grp now st = Inr (s, cg)" and "f cg = (r, cg')"
    and "modify_stream key m (modify_group grp m' f) now st = (r', st')"
  shows "r' = r" and "mem_wf st'" and "view_stream key now st' = Inr (Some (with_group grp cg' s))"
    and "k \<noteq> key \<Longrightarrow> data_get st' k = data_get st k"
    and "view_group k g now st = Inr p \<Longrightarrow> \<exists>p. view_group k g now st' = Inr p"
proof -
  obtain e where e: "data_get st key = Some e" "\<not> is_expired_at e now" "en_value e = Stream s" "hm_get (st_groups s) grp = Some cg"
    using assms(2) by (auto simp: view_group_Inr view_stream_Some)
  have run: "r' = r" "st' = put_value key e (Stream (with_group grp cg' s)) (bump_version key st)"
    using assms(3,4) e by (auto simp: modify_stream_def update_stream_def modify_group_def with_group_def)
  have get: "data_get st' k = (if k = key then Some (e\<lparr>en_value := Stream (with_group grp cg' s)\<rparr>) else data_get st k)" for k
    using assms(1) by (simp add: run)
  show "r' = r" "mem_wf st'" using assms(1) by (simp_all add: run)
  show "view_stream key now st' = Inr (Some (with_group grp cg' s))" using get e by (simp add: view_stream_def is_expired_at_def)
  then show "\<exists>p. view_group k g now st' = Inr p" if "view_group k g now st = Inr p"
  proof (cases "k = key")
    case True
    then show ?thesis using that e \<open>view_stream key now st' = Inr (Some (with_group grp cg' s))\<close>
      by (cases p) (auto simp: view_group_def view_stream_def split: option.splits)
  next
    case False
    then show ?thesis using that get by (simp add: view_group_def view_stream_def)
  qed
  show "k \<noteq> key \<Longrightarrow> data_get st' k = data_get st k" using get by simp
qed

definition effect_valid :: "instant \<Rightarrow> store \<Rightarrow> group_read_effect \<Rightarrow> bool" where
  "effect_valid now st ef \<longleftrightarrow> (\<exists>p. view_group (ef_key ef) (ef_group ef) now st = Inr p)"

lemma apply_effect_result:
  assumes "streams_wf st" and "effect_valid now st ef" and "apply_effect t now ef st = (r, st')"
  shows "r = Inr ()" and "streams_wf st'" and "effect_valid now st ef' \<Longrightarrow> effect_valid now st' ef'"
    and "journal_poisoned st' = journal_poisoned st"
proof -
  obtain s cg where g: "view_group (ef_key ef) (ef_group ef) now st = Inr (s, cg)"
    using assms(2) by (auto simp: effect_valid_def)
  have "r = Inr () \<and> (effect_valid now st ef' \<longrightarrow> effect_valid now st' ef')"
  proof (cases ef)
    case (Deliver key grp name_opt lst ids)
    obtain r1 cg' where run: "group_deliver name_opt lst ids t cg = (r1, cg')" by fastforce
    note c = group_command_result [OF streams_wf_mem [OF assms(1)] g [unfolded Deliver group_read_effect.sel] run
        assms(3) [unfolded Deliver apply_effect_def group_read_effect.case apply_lxgroupread_def]]
    have "r1 = Inr ()" using run by (simp add: group_deliver_def Let_def)
    then show ?thesis using c(1,5) by (auto simp: effect_valid_def)
  next
    case (CreateConsumer key grp name)
    obtain r1 cg' where run: "create_consumer name now cg = (r1, cg')" by fastforce
    obtain r2 where step: "modify_stream key (Inl (nogroup_err grp key)) (modify_group grp (Inl (nogroup_err grp key))
        (create_consumer name now)) now st = (r2, st')"
      using assms(3) by (auto simp: CreateConsumer apply_effect_def xgroup_createconsumer_def split: prod.splits sum.splits)
    note c = group_command_result [OF streams_wf_mem [OF assms(1)] g [unfolded CreateConsumer group_read_effect.sel] run step]
    have "\<exists>b. r1 = Inr b" using run by (auto simp: create_consumer_def split: if_splits)
    then have "r = Inr ()"
      using assms(3) step c(1) by (auto simp: CreateConsumer apply_effect_def xgroup_createconsumer_def)
    then show ?thesis using c(5) by (auto simp: effect_valid_def)
  qed
  then show "r = Inr ()" "effect_valid now st ef' \<Longrightarrow> effect_valid now st' ef'" by simp_all
  have "st' = (case ef of
        Deliver key grp name_opt lst ids \<Rightarrow> snd (apply_lxgroupread key grp name_opt lst ids t now st)
      | CreateConsumer key grp name \<Rightarrow> snd (xgroup_createconsumer key grp name now st))"
    using assms(3) by (auto simp: apply_effect_def split: group_read_effect.splits prod.splits sum.splits)
  then show "streams_wf st'" "journal_poisoned st' = journal_poisoned st"
    using apply_lxgroupread_wf [OF assms(1)] xgroup_createconsumer_wf [OF assms(1)]
    by (simp_all add: apply_lxgroupread_def xgroup_createconsumer_def split: group_read_effect.splits)
qed

lemma apply_effects_result:
  assumes "streams_wf st" and "\<forall>ef \<in> set efs. effect_valid now st ef" and "apply_effects t now efs st = (r, st')"
  shows "r = Inr () \<and> streams_wf st' \<and> journal_poisoned st' = journal_poisoned st"
  using assms
proof (induction efs arbitrary: st)
  case (Cons ef efs)
  obtain r1 st1 where one: "apply_effect t now ef st = (r1, st1)" by fastforce
  have v: "effect_valid now st ef" using Cons.prems(2) by simp
  note o = apply_effect_result [OF Cons.prems(1) v one]
  show ?case using Cons.IH [OF o(2)] Cons.prems(2,3) o one by auto
qed simp

lemma plan_key_valid:
  assumes "plan_key kr grp name key i c noack now st = Inr (res, efs)" and "ef \<in> set efs"
  shows "effect_valid now st ef"
proof -
  obtain s cg where g: "view_group key grp now st = Inr (s, cg)"
    and p: "(res, efs) = plan_new kr grp name key c noack s cg \<or> (res, efs) = plan_history kr grp name key i c s cg"
    using assms by (auto simp: plan_key_def view_group_Inr split: sum.splits option.splits if_splits)
  have "ef_key ef = key \<and> ef_group ef = grp"
    using p assms(2) by (auto simp: plan_new_def plan_history_def Let_def split: if_splits)
  then show ?thesis using g by (auto simp: effect_valid_def)
qed

lemma preview_xreadgroup_result:
  assumes "mem_wf st" and "preview_xreadgroup hc kr grp name keys ids c noack now t st = (r, st')"
  shows "st' = st \<and> (\<forall>res efs. r = Inr (res, efs) \<longrightarrow> (\<forall>ef \<in> set efs. effect_valid now st ef))"
  using assms(2)
proof (induction keys arbitrary: ids r st')
  case (Cons key keys)
  show ?case
  proof (cases ids)
    case Nil
    then show ?thesis using Cons.prems assms(1) by auto
  next
    case ids: (Cons i ids1)
    obtain r1 st1 where rest: "preview_xreadgroup hc kr grp name keys ids1 c noack now t st = (r1, st1)" by fastforce
    show ?thesis
    proof (cases "plan_key kr grp name key i c noack now st")
      case (Inr p)
      obtain res efs where p: "p = (res, efs)" by (cases p)
      have "st' = st1" "r = (case r1 of Inl e \<Rightarrow> Inl e | Inr (res', efs') \<Rightarrow> Inr (res @ res', efs @ efs'))"
        using Cons.prems assms(1) ids rest Inr p by (auto split: sum.splits)
      then show ?thesis using Cons.IH [OF rest] plan_key_valid [OF Inr [unfolded p]] by (auto split: sum.splits)
    qed (use Cons.prems assms(1) ids in auto)
  qed
qed simp

lemma prepared_op_effect:
  assumes "flatten_commit (commit_prepared route prep app io eg) = (r, eg')"
    and "prep (eg_store eg) = (q, eg_store eg)"
    and "\<And>cs p. q = Inr (cs, p) \<Longrightarrow> app p (eg_store eg) = (Inr (res p), g p)"
    and "\<And>cs p. q = Inr (cs, p) \<Longrightarrow> journal_poisoned (g p) = journal_poisoned (eg_store eg)"
  obtains (applied) cs p where "q = Inr (cs, p)" and "r = Inr (res p)" and "eg_store eg' = g p"
  | (refused) e where "r = Inl e" and "eg_store eg' = eg_store eg \<or> eg_store eg' = poison_journal (eg_store eg)"
proof -
  obtain rc eg1 where run: "commit_prepared route prep app io eg = (rc, eg1)" by fastforce
  then have flat: "flatten_commit (rc, eg1) = (r, eg')" using assms(1) by simp
  then have eg: "eg' = eg1" by (auto simp: flatten_commit_def split: sum.splits)
  have "(\<exists>cs p x. q = Inr (cs, p) \<and> rc = Inr (Inr x) \<and> app p (eg_store eg) = (Inr x, eg_store eg1)) \<or>
      (\<nexists>x. rc = Inr (Inr x)) \<and> (eg_store eg1 = eg_store eg \<or> eg_store eg1 = poison_journal (eg_store eg))"
    by (rule commit_prepared_effect [OF run assms(2)]) (use assms(3,4) in auto)
  then show thesis
  proof
    assume "\<exists>cs p x. q = Inr (cs, p) \<and> rc = Inr (Inr x) \<and> app p (eg_store eg) = (Inr x, eg_store eg1)"
    then show thesis using applied assms(3) flat eg by (auto simp: flatten_commit_def)
  next
    assume "(\<nexists>x. rc = Inr (Inr x)) \<and> (eg_store eg1 = eg_store eg \<or> eg_store eg1 = poison_journal (eg_store eg))"
    then show thesis using refused flat eg by (cases rc; cases r) (auto simp: flatten_commit_def)
  qed
qed

lemma xreadgroup_effect:
  assumes "streams_wf (eg_store eg)" and "xreadgroup hc kr grp name keys ids c noack now t io eg = (r, eg')"
  obtains (read) res efs where "fst (preview_xreadgroup hc kr grp name keys ids c noack now t (eg_store eg)) = Inr (res, efs)"
      and "r = Inr res" and "apply_effects t now efs (eg_store eg) = (Inr (), eg_store eg')" and "streams_wf (eg_store eg')"
  | (refused) e where "r = Inl e" and "eg_store eg' = eg_store eg \<or> eg_store eg' = poison_journal (eg_store eg)"
      and "streams_wf (eg_store eg')"
proof -
  obtain p st1 where pre: "preview_xreadgroup hc kr grp name keys ids c noack now t (eg_store eg) = (p, st1)" by fastforce
  note pr = preview_xreadgroup_result [OF streams_wf_mem [OF assms(1)] pre]
  define after where "after = (\<lambda>efs. snd (apply_effects t now efs (eg_store eg)))"
  have eff: "apply_effects t now efs (eg_store eg) = (Inr (), after efs) \<and> streams_wf (after efs) \<and>
      journal_poisoned (after efs) = journal_poisoned (eg_store eg)" if "p = Inr (res, efs)" for res efs
    using apply_effects_result [OF assms(1) _ prod.collapse [symmetric], of efs now t] pr that by (simp add: after_def prod_eq_iff)
  define q where "q = (case p of Inl e \<Rightarrow> Inl e | Inr (res, efs) \<Rightarrow> Inr (map effect_command efs, (res, efs)))"
  have qp: "p = Inr (fst x, snd x)" if "q = Inr (cs, x)" for cs x using that by (cases p) (auto simp: q_def)
  have prep: "(case preview_xreadgroup hc kr grp name keys ids c noack now t (eg_store eg) of
      (Inl e, st) \<Rightarrow> (Inl e, st) | (Inr (result, effects), st) \<Rightarrow> (Inr (map effect_command effects, (result, effects)), st)) =
      (q, eg_store eg)"
    using pre pr by (cases p) (auto simp: q_def)
  show thesis
  proof (rule prepared_op_effect [OF assms(2) [unfolded xreadgroup_def] prep, of fst "\<lambda>x. after (snd x)"])
    fix cs x assume "q = Inr (cs, x)"
    note e = eff [OF qp [OF this]]
    then show "(case x of (result, effects) \<Rightarrow> \<lambda>st. case apply_effects t now effects st of
        (Inl e, st) \<Rightarrow> (Inl e, st) | (Inr _, st) \<Rightarrow> (Inr result, st)) (eg_store eg) = (Inr (fst x), after (snd x))"
      by (simp add: case_prod_beta)
    show "journal_poisoned (after (snd x)) = journal_poisoned (eg_store eg)" using e by simp
  next
    fix cs x assume "q = Inr (cs, x)" "r = Inr (fst x)" "eg_store eg' = after (snd x)"
    then show thesis using read [of "fst x" "snd x"] eff [OF qp] pre qp by simp
  next
    fix e assume "r = Inl e" "eg_store eg' = eg_store eg \<or> eg_store eg' = poison_journal (eg_store eg)"
    then show thesis using refused [of e] assms(1) by auto
  qed
qed

lemma claim_one_owned: "claim_one m t s cg i = Some p \<Longrightarrow> owner cg i \<noteq> None"
  by (auto simp: claim_one_def owner_def split: option.splits)

lemma owned_iff: "(\<forall>(i, n) \<in> set claims. owner cg i \<noteq> None) \<longleftrightarrow> fst ` set claims \<subseteq> dom (owner cg)"
  by (simp add: image_subset_iff case_prod_beta domIff)

lemma claim_loop_owned: "fst ` set (snd (claim_loop kr key m t s cg ids)) \<subseteq> dom (owner cg)"
  by (induction ids) (auto simp: image_subset_iff split: prod.splits option.splits dest: claim_one_owned)

lemma autoclaim_loop_owned:
  "fst ` set (ac_claims plan) \<subseteq> dom (owner cg) \<Longrightarrow>
    fst ` set (ac_claims (autoclaim_loop kr key mx m t s cg ids plan)) \<subseteq> dom (owner cg)"
proof (induction ids arbitrary: plan)
  case (Cons i ids)
  show ?case
  proof (cases "mx \<le> length (ac_result plan)")
    case False
    define plan' where "plan' = (case claim_one m t s cg i of
           None \<Rightarrow> plan
         | Some (n, None) \<Rightarrow>
             plan\<lparr>ac_claims := ac_claims plan @ [(i, n)], ac_deleted_ids := ac_deleted_ids plan @ [i]\<rparr>
         | Some (n, Some fs) \<Rightarrow>
             plan\<lparr>ac_claims := ac_claims plan @ [(i, n)],
                  ac_result := ac_result plan @ [(i, decrypt_stream_fields kr key fs)]\<rparr>)"
    have "fst ` set (ac_claims plan') \<subseteq> dom (owner cg)"
      using Cons.prems claim_one_owned [of m t s cg i] by (auto simp: plan'_def split: option.splits)
    then show ?thesis using Cons.IH False by (simp add: plan'_def)
  qed (use Cons.prems in simp)
qed simp

text \<open>A claim of pending entries on an existing group, applied to the store it was planned on.\<close>

lemma apply_lxgroupclaim_result:
  assumes "streams_wf st" and "claims = [] \<or> view_group key grp now st = Inr (s, cg)"
    and "fst ` set claims \<subseteq> dom (owner cg)" and "apply_lxgroupclaim key grp name claims t now st = (r, st')"
  shows "r = Inr ()" and "streams_wf st'" and "journal_poisoned st' = journal_poisoned st"
    and "\<exists>cg'. claims = [] \<and> st' = st \<or> group_claim name claims t cg = (Inr (), cg') \<and>
      view_stream key now st' = Inr (Some (with_group grp cg' s)) \<and> (\<forall>k. k \<noteq> key \<longrightarrow> data_get st' k = data_get st k)"
proof -
  have "r = Inr () \<and> streams_wf st' \<and> journal_poisoned st' = journal_poisoned st \<and>
    (\<exists>cg'. claims = [] \<and> st' = st \<or> group_claim name claims t cg = (Inr (), cg') \<and>
      view_stream key now st' = Inr (Some (with_group grp cg' s)) \<and> (\<forall>k. k \<noteq> key \<longrightarrow> data_get st' k = data_get st k))"
  proof (cases "claims = []")
    case True
    then show ?thesis using assms by (auto simp: apply_lxgroupclaim_def)
  next
    case False
    then have g: "view_group key grp now st = Inr (s, cg)" using assms(2) by simp
    then obtain e where e: "data_get st key = Some e" "\<not> is_expired_at e now" "en_value e = Stream s" "hm_get (st_groups s) grp = Some cg"
      by (auto simp: view_group_Inr view_stream_Some)
    have swf: "stream_wf s" by (rule streams_wfD [OF assms(1) e(1,3)])
    then have gwf: "pending_wf cg" using e(4) by (simp add: stream_wf_def)
    obtain rc cg' where c: "group_claim name claims t cg = (rc, cg')" by fastforce
    note gc = group_claim_result [OF gwf assms(3) [folded owned_iff] c]
    have run: "modify_stream key (Inl (nogroup_err grp key)) (modify_group grp (Inl (nogroup_err grp key)) (group_claim name claims t)) now st = (r, st')"
      using assms(4) False by (simp add: apply_lxgroupclaim_def)
    note r = group_command_result [OF streams_wf_mem [OF assms(1)] g c run]
    have "stream_wf (with_group grp cg' s)" using swf gc(2) by (auto simp: stream_wf_def with_group_def)
    moreover have "st' = put_value key e (Stream (with_group grp cg' s)) (bump_version key st)"
      using run c e by (auto simp: modify_stream_def update_stream_def modify_group_def with_group_def)
    ultimately show ?thesis using assms(1) r gc(1) c by (auto simp: streams_wf_put)
  qed
  then show "r = Inr ()" "streams_wf st'" "journal_poisoned st' = journal_poisoned st"
    "\<exists>cg'. claims = [] \<and> st' = st \<or> group_claim name claims t cg = (Inr (), cg') \<and>
      view_stream key now st' = Inr (Some (with_group grp cg' s)) \<and> (\<forall>k. k \<noteq> key \<longrightarrow> data_get st' k = data_get st k)"
    by blast+
qed

lemma preview_xclaim_owned:
  assumes "preview_xclaim kr key grp m ids now t st = Inr (res, claims)"
  obtains s cg where "claims = [] \<or> view_group key grp now st = Inr (s, cg)" and "fst ` set claims \<subseteq> dom (owner cg)"
proof (cases "view_stream key now st = Inr None")
  case True
  then show thesis using that assms by (simp add: preview_xclaim_def)
next
  case False
  then obtain s cg where g: "view_group key grp now st = Inr (s, cg)" "claims = snd (claim_loop kr key m t s cg ids)"
    using assms by (cases "view_stream key now st") (auto simp: preview_xclaim_def view_group_Inr split: option.splits) 
  then show thesis using that claim_loop_owned by blast
qed

lemma preview_xautoclaim_owned:
  assumes "preview_xautoclaim kr key grp m start c now t st = Inr plan"
  obtains s cg where "view_group key grp now st = Inr (s, cg)" and "fst ` set (ac_claims plan) \<subseteq> dom (owner cg)"
proof -
  obtain s cg where g: "view_group key grp now st = Inr (s, cg)" using assms by (auto simp: preview_xautoclaim_def split: sum.splits)
  show thesis using that [OF g] assms autoclaim_loop_owned by (auto simp: preview_xautoclaim_def g)
qed

lemma xclaim_effect:
  assumes "streams_wf (eg_store eg)" and "xclaim kr key grp name m ids now t io eg = (r, eg')"
  obtains (claimed) res claims where "preview_xclaim kr key grp m ids now t (eg_store eg) = Inr (res, claims)" and "r = Inr res"
      and "apply_lxgroupclaim key grp name claims t now (eg_store eg) = (Inr (), eg_store eg')" and "streams_wf (eg_store eg')"
  | (refused) e where "r = Inl e" and "eg_store eg' = eg_store eg \<or> eg_store eg' = poison_journal (eg_store eg)"
      and "streams_wf (eg_store eg')"
proof -
  let ?st = "eg_store eg"
  define after where "after = (\<lambda>claims. snd (apply_lxgroupclaim key grp name claims t now ?st))"
  have eff: "apply_lxgroupclaim key grp name claims t now ?st = (Inr (), after claims) \<and> streams_wf (after claims) \<and>
      journal_poisoned (after claims) = journal_poisoned ?st" if p: "preview_xclaim kr key grp m ids now t ?st = Inr (res, claims)" for res claims
  proof -
    obtain s cg where o: "claims = [] \<or> view_group key grp now ?st = Inr (s, cg)" "fst ` set claims \<subseteq> dom (owner cg)"
      by (rule preview_xclaim_owned [OF p])
    note apply_lxgroupclaim_result [OF assms(1) o prod.collapse [symmetric], of name t]
    then show ?thesis by (simp add: after_def prod_eq_iff)
  qed
  define q where "q = (case preview_xclaim kr key grp m ids now t ?st of
      Inl e \<Rightarrow> Inl e | Inr (res, claims) \<Rightarrow> Inr (if claims = [] then [] else [lxgroupclaim_command key grp name claims], (res, claims)))"
  have qp: "preview_xclaim kr key grp m ids now t ?st = Inr (fst x, snd x)" if "q = Inr (cs, x)" for cs x
    using that by (auto simp: q_def split: sum.splits prod.splits)
  have prep: "(case preview_xclaim kr key grp m ids now t ?st of
      Inl e \<Rightarrow> (Inl e, ?st) | Inr (result, claims) \<Rightarrow>
        (Inr (if claims = [] then [] else [lxgroupclaim_command key grp name claims], (result, claims)), ?st)) = (q, ?st)"
    by (simp add: q_def split: sum.splits prod.splits)
  show thesis
  proof (rule prepared_op_effect [OF assms(2) [unfolded xclaim_def] prep, of fst "\<lambda>x. after (snd x)"])
    fix cs x assume "q = Inr (cs, x)"
    note e = eff [OF qp [OF this]]
    then show "(case x of (result, claims) \<Rightarrow> \<lambda>st. case apply_lxgroupclaim key grp name claims t now st of
        (Inl e, st) \<Rightarrow> (Inl e, st) | (Inr _, st) \<Rightarrow> (Inr result, st)) ?st = (Inr (fst x), after (snd x))"
      by (simp add: case_prod_beta)
    show "journal_poisoned (after (snd x)) = journal_poisoned ?st" using e by simp
  next
    fix cs x assume "q = Inr (cs, x)" "r = Inr (fst x)" "eg_store eg' = after (snd x)"
    then show thesis using claimed [of "fst x" "snd x"] eff [OF qp] qp by simp
  next
    fix e assume "r = Inl e" "eg_store eg' = eg_store eg \<or> eg_store eg' = poison_journal (eg_store eg)"
    then show thesis using refused [of e] assms(1) by auto
  qed
qed

lemma xautoclaim_effect:
  assumes "streams_wf (eg_store eg)" and "xautoclaim kr key grp name m start c now t io eg = (r, eg')"
  obtains (claimed) plan where "preview_xautoclaim kr key grp m start c now t (eg_store eg) = Inr plan"
      and "r = Inr (ac_next_start plan, ac_result plan, ac_deleted_ids plan)"
      and "apply_lxgroupclaim key grp name (ac_claims plan) t now (eg_store eg) = (Inr (), eg_store eg')" and "streams_wf (eg_store eg')"
  | (refused) e where "r = Inl e" and "eg_store eg' = eg_store eg \<or> eg_store eg' = poison_journal (eg_store eg)"
      and "streams_wf (eg_store eg')"
proof -
  let ?st = "eg_store eg"
  define after where "after = (\<lambda>plan :: autoclaim_plan. snd (apply_lxgroupclaim key grp name (ac_claims plan) t now ?st))"
  have eff: "apply_lxgroupclaim key grp name (ac_claims plan) t now ?st = (Inr (), after plan) \<and> streams_wf (after plan) \<and>
      journal_poisoned (after plan) = journal_poisoned ?st" if p: "preview_xautoclaim kr key grp m start c now t ?st = Inr plan" for plan
  proof -
    obtain s cg where o: "view_group key grp now ?st = Inr (s, cg)" "fst ` set (ac_claims plan) \<subseteq> dom (owner cg)"
      by (rule preview_xautoclaim_owned [OF p])
    note apply_lxgroupclaim_result [OF assms(1) disjI2 [OF o(1)] o(2) prod.collapse [symmetric], of name t]
    then show ?thesis by (simp add: after_def prod_eq_iff)
  qed
  define q where "q = map_sum id (\<lambda>plan. (if ac_claims plan = [] then [] else [lxgroupclaim_command key grp name (ac_claims plan)], plan))
      (preview_xautoclaim kr key grp m start c now t ?st)"
  have qp: "preview_xautoclaim kr key grp m start c now t ?st = Inr x" if "q = Inr (cs, x)" for cs x
    using that by (cases "preview_xautoclaim kr key grp m start c now t ?st") (auto simp: q_def)
  have prep: "(case preview_xautoclaim kr key grp m start c now t ?st of
      Inl e \<Rightarrow> (Inl e, ?st) | Inr plan \<Rightarrow>
        (Inr (if ac_claims plan = [] then [] else [lxgroupclaim_command key grp name (ac_claims plan)], plan), ?st)) = (q, ?st)"
    by (cases "preview_xautoclaim kr key grp m start c now t ?st") (simp_all add: q_def)
  show thesis
  proof (rule prepared_op_effect [OF assms(2) [unfolded xautoclaim_def] prep,
        of "\<lambda>plan. (ac_next_start plan, ac_result plan, ac_deleted_ids plan)" after])
    fix cs x assume "q = Inr (cs, x)"
    note e = eff [OF qp [OF this]]
    then show "(case apply_lxgroupclaim key grp name (ac_claims x) t now ?st of
        (Inl e, st) \<Rightarrow> (Inl e, st) | (Inr _, st) \<Rightarrow> (Inr (ac_next_start x, ac_result x, ac_deleted_ids x), st)) =
        (Inr (ac_next_start x, ac_result x, ac_deleted_ids x), after x)" by simp
    show "journal_poisoned (after x) = journal_poisoned ?st" using e by simp
  next
    fix cs x assume "q = Inr (cs, x)" "r = Inr (ac_next_start x, ac_result x, ac_deleted_ids x)" "eg_store eg' = after x"
    then show thesis using claimed [of x] eff [OF qp] qp by simp
  next
    fix e assume "r = Inl e" "eg_store eg' = eg_store eg \<or> eg_store eg' = poison_journal (eg_store eg)"
    then show thesis using refused [of e] assms(1) by auto
  qed
qed

section \<open>The state machine of streams\<close>

text \<open>
  One step of the engine on its streams: a write to the store, or a read or claim that
  goes through the journal with any outcome of its file.
\<close>

inductive stream_step :: "engine \<Rightarrow> engine \<Rightarrow> bool" where
  step_xadd: "xadd clock_ms key id_input flds max_len now (eg_store eg) = (r, st) \<Longrightarrow> stream_step eg (eg\<lparr>eg_store := st\<rparr>)"
| step_xdel: "xdel key ids now (eg_store eg) = (r, st) \<Longrightarrow> stream_step eg (eg\<lparr>eg_store := st\<rparr>)"
| step_xtrim: "xtrim key max_len' now (eg_store eg) = (r, st) \<Longrightarrow> stream_step eg (eg\<lparr>eg_store := st\<rparr>)"
| step_create: "xgroup_create key grp id_input mkstream now (eg_store eg) = (ru, st) \<Longrightarrow> stream_step eg (eg\<lparr>eg_store := st\<rparr>)"
| step_destroy: "xgroup_destroy key grp now (eg_store eg) = (rb, st) \<Longrightarrow> stream_step eg (eg\<lparr>eg_store := st\<rparr>)"
| step_setid: "xgroup_setid key grp id_input now (eg_store eg) = (ru, st) \<Longrightarrow> stream_step eg (eg\<lparr>eg_store := st\<rparr>)"
| step_createconsumer: "xgroup_createconsumer key grp name now (eg_store eg) = (rb, st) \<Longrightarrow> stream_step eg (eg\<lparr>eg_store := st\<rparr>)"
| step_delconsumer: "xgroup_delconsumer key grp name now (eg_store eg) = (ri, st) \<Longrightarrow> stream_step eg (eg\<lparr>eg_store := st\<rparr>)"
| step_xack: "xack key grp ids now (eg_store eg) = (ri, st) \<Longrightarrow> stream_step eg (eg\<lparr>eg_store := st\<rparr>)"
| step_xreadgroup: "xreadgroup hc kr grp name keys id_strs c noack now t io eg = (rr, eg') \<Longrightarrow> stream_step eg eg'"
| step_xclaim: "xclaim kr key grp name min_idle ids now t io eg = (rc, eg') \<Longrightarrow> stream_step eg eg'"
| step_xautoclaim: "xautoclaim kr key grp name min_idle start c now t io eg = (ra, eg') \<Longrightarrow> stream_step eg eg'"

lemma stream_step_wf:
  assumes "stream_step eg eg'" and "streams_wf (eg_store eg)"
  shows "streams_wf (eg_store eg')"
  using assms
proof (induction rule: stream_step.induct)
  case (step_xreadgroup hc kr grp name keys id_strs c noack now t io eg rr eg')
  then show ?case by (rule_tac xreadgroup_effect) auto
next
  case (step_xclaim kr key grp name min_idle ids now t io eg rc eg')
  then show ?case by (rule_tac xclaim_effect) auto
next
  case (step_xautoclaim kr key grp name min_idle start c now t io eg ra eg')
  then show ?case by (rule_tac xautoclaim_effect) auto
qed (metis engine.select_convs(1) engine.surjective engine.update_convs(1) snd_conv xadd_wf xdel_wf xtrim_wf xgroup_create_wf
    xgroup_destroy_wf xgroup_setid_wf xgroup_createconsumer_wf xgroup_delconsumer_wf xack_wf)+

lemma pending_summary:
  assumes "pending_wf cg"
  shows "length (cg_pel cg) = (\<Sum>name \<in> fst ` set (cg_consumers cg). card (held cg name))"
proof -
  have wf: "hm_wf (cg_consumers cg)" "bt_wf id (cg_pel cg)" "finite (held cg n)" for n using assms by (simp_all add: pending_wf_def maps_wf_def)
  have mem: "i \<in> held cg n \<longleftrightarrow> owner cg i = Some n" for i n using assms by (simp add: pending_wf_def)
  have get: "bt_get id m i \<noteq> None \<longleftrightarrow> i \<in> fst ` set m" for m :: "(stream_id \<times> pending_entry) list" and i
    by (induction m) (auto split: if_splits)
  have named: "name \<in> fst ` set (cg_consumers cg)" if "i \<in> held cg name" for i name
    using that hm_get_SomeD [of "cg_consumers cg" name] by (cases "hm_get (cg_consumers cg) name") (force simp: held_def)+
  have dom: "fst ` set (cg_pel cg) = (\<Union>name \<in> fst ` set (cg_consumers cg). held cg name)"
  proof (rule set_eqI)
    fix i
    have "i \<in> fst ` set (cg_pel cg) \<longleftrightarrow> (\<exists>name. i \<in> held cg name)"
      using get [of "cg_pel cg" i] mem by (auto simp: owner_def)
    also have "\<dots> \<longleftrightarrow> (\<exists>name \<in> fst ` set (cg_consumers cg). i \<in> held cg name)"
      using named by blast
    finally show "i \<in> fst ` set (cg_pel cg) \<longleftrightarrow> i \<in> (\<Union>name \<in> fst ` set (cg_consumers cg). held cg name)" by simp
  qed
  have eq: "(\<lambda>(k :: stream_id, _ :: pending_entry). id k) = fst" by auto
  then have "distinct (map fst (cg_pel cg))" using wf(2) unfolding bt_wf_def eq strict_sorted_iff by simp
  then have "length (cg_pel cg) = card (fst ` set (cg_pel cg))" using distinct_card [of "map fst (cg_pel cg)"] by simp
  also have "\<dots> = (\<Sum>name \<in> fst ` set (cg_consumers cg). card (held cg name))"
    unfolding dom using wf(3) mem by (intro card_UN_disjoint) auto
  finally show ?thesis .
qed

section \<open>Delivery\<close>

lemma take_loop_take: "take_loop c n xs = (case c of None \<Rightarrow> xs | Some m \<Rightarrow> take (max 1 (m - n)) xs)"
proof (induction xs arbitrary: n)
  case (Cons x xs)
  show ?case
  proof (cases c)
    case (Some m)
    show ?thesis
    proof (cases "n + 1 \<ge> m")
      case True
      then have "max 1 (m - n) = 1" by simp
      then show ?thesis using Some True by simp
    next
      case False
      then have "max 1 (m - n) = Suc (max 1 (m - (n + 1)))" by simp
      then show ?thesis using Some False Cons.IH [of "n + 1"] by simp
    qed
  qed (use Cons.IH in simp)
qed (simp split: option.splits)

lemma take_loop_prefix: "\<exists>k. take_loop c 0 xs = take k xs \<and> (xs = [] \<or> 0 < k)"
  by (cases c) (auto simp: take_loop_take intro: exI [of _ "length xs"] exI [of _ "max 1 _"])

text \<open>The entries of a window of identifiers.\<close>

definition window :: "stream_id \<Rightarrow> stream_id \<Rightarrow> stream_entries \<Rightarrow> stream_entries" where
  "window a b es = filter (\<lambda>(i, _). a < i \<and> i \<le> b) es"

lemma window_empty [simp]: "window a a es = []"
  by (simp add: window_def filter_empty_conv case_prod_unfold not_le)

lemma window_split: "bt_wf id es \<Longrightarrow> a \<le> b \<Longrightarrow> b \<le> c \<Longrightarrow> window a c es = window a b es @ window b c es"
proof (induction es)
  case (Cons p es)
  obtain i fs where p: "p = (i, fs)" by (cases p)
  show ?case
  proof (cases "i \<le> b")
    case True
    then show ?thesis using Cons by (auto simp: window_def p bt_wf_Cons)
  next
    case False
    then have "\<forall>(j, fs) \<in> set es. \<not> j \<le> b" using Cons.prems(1) by (fastforce simp: p bt_wf_Cons)
    then have "window a b es = []" by (auto simp: window_def filter_empty_conv)
    then show ?thesis using Cons False by (auto simp: window_def p bt_wf_Cons)
  qed
qed (simp add: window_def)

lemma bt_wf_append: "bt_wf id (xs @ ys) \<Longrightarrow> (i, v) \<in> set xs \<Longrightarrow> (j, w) \<in> set ys \<Longrightarrow> i < j"
  by (fastforce simp: bt_wf_def sorted_wrt_append)

lemma window_take:
  assumes "bt_wf id es" and "xs = take k (filter (\<lambda>(i, _). a < i) es)" and "xs \<noteq> []"
  shows "xs = window a (fst (last xs)) es" and "a < fst (last xs)" and "last xs \<in> set es"
proof -
  define L where "L = filter (\<lambda>(i, _). a < i) es"
  have wf: "bt_wf id (take k L @ drop k L)" using assms(1) by (simp add: L_def bt_wf_filter)
  have xs: "xs = take k L" using assms(2) by (simp add: L_def)
  have mem: "last xs \<in> set xs" using assms(3) by simp
  have "filter (\<lambda>(i, _). i \<le> fst (last xs)) (drop k L) = []"
  proof -
    have "fst (last xs) < j" if "(j, fs) \<in> set (drop k L)" for j fs
      using bt_wf_append [OF wf _ that, of "fst (last xs)" "snd (last xs)"] mem by (simp add: xs)
    then show ?thesis by (fastforce simp: filter_empty_conv)
  qed
  moreover have "filter (\<lambda>(i, _). i \<le> fst (last xs)) xs = xs"
  proof -
    have "i \<le> fst (last xs)" if i: "(i, fs) \<in> set xs" for i fs
    proof -
      obtain ys y where y: "xs = ys @ [y]" using assms(3) by (metis rev_exhaust)
      then have "bt_wf id (ys @ [y])" using wf by (simp add: xs [symmetric] bt_wf_def sorted_wrt_append)
      then show ?thesis using i y by (cases y) (fastforce simp: bt_wf_snoc)
    qed
    then show ?thesis by (auto simp: filter_id_conv)
  qed
  ultimately have "xs = filter (\<lambda>(i, _). i \<le> fst (last xs)) L"
    using append_take_drop_id [of k L] xs by (metis append.right_neutral filter_append)
  moreover have "filter (\<lambda>(i, _). i \<le> b) L = window a b es" for b
    by (simp add: window_def L_def case_prod_unfold conj_commute)
  ultimately show "xs = window a (fst (last xs)) es" by simp
  have "last xs \<in> set L" using mem xs in_set_takeD by fastforce
  then show "a < fst (last xs)" "last xs \<in> set es" by (auto simp: L_def)
qed

lemma next_id_le: "sid_seq a \<noteq> - 1 \<Longrightarrow> next_id a \<le> i \<longleftrightarrow> a < i"
proof -
  assume "sid_seq a \<noteq> - 1"
  then show ?thesis by (auto simp: next_id_def less_eq_stream_id_def less_stream_id_def inc_less_eq_iff)
qed

lemma decrypt_entries_simps [simp]:
  "decrypt_entries kr key (xs @ ys) = decrypt_entries kr key xs @ decrypt_entries kr key ys"
  "map fst (decrypt_entries kr key xs) = map fst xs" "decrypt_entries kr key [] = []"
  "decrypt_entries kr key (take n xs) = take n (decrypt_entries kr key xs)" "decrypt_entries kr key xs = [] \<longleftrightarrow> xs = []"
  by (auto simp: decrypt_entries_def take_map)

text \<open>A key that holds a stream and has no deadline.\<close>

definition stream_at :: "store \<Rightarrow> bytes \<Rightarrow> stream_data \<Rightarrow> bool" where
  "stream_at st key s \<longleftrightarrow> (\<exists>e. data_get st key = Some e \<and> en_value e = Stream s \<and> en_expires_at e = None)"

lemma stream_at_view: "stream_at st key s \<Longrightarrow> view_stream key now st = Inr (Some s)"
  by (auto simp: stream_at_def view_stream_def is_expired_at_def)

lemma stream_at_wf: "streams_wf st \<Longrightarrow> stream_at st key s \<Longrightarrow> stream_wf s"
  by (auto simp: stream_at_def dest: streams_wfD)

lemma stream_at_unique: "stream_at st key s \<Longrightarrow> stream_at st key s' \<Longrightarrow> s' = s"
  by (auto simp: stream_at_def)

lemma stream_at_poison [simp]: "stream_at (poison_journal st) key s = stream_at st key s"
  by (simp add: stream_at_def)

lemma stream_at_group_command:
  assumes "mem_wf st" and "stream_at st key s" and "hm_get (st_groups s) grp = Some cg" and "f cg = (r, cg')"
    and "modify_stream key m (modify_group grp m' f) now st = (r', st')"
  shows "stream_at st' key (with_group grp cg' s)"
  using assms by (auto simp: stream_at_def modify_stream_def update_stream_def modify_group_def with_group_def is_expired_at_def)

lemma xadd_stream_at:
  assumes "streams_wf st" and "stream_at st key s" and "xadd clock_ms key id_input flds None now st = (r, st')"
  shows "\<exists>s'. stream_at st' key s' \<and> st_groups s' = st_groups s \<and>
    (case r of Inl _ \<Rightarrow> st_entries s' = st_entries s | Inr i \<Rightarrow> st_entries s' = st_entries s @ [(i, flds)])"
proof -
  obtain e where e: "data_get st key = Some e" "en_value e = Stream s" "en_expires_at e = None"
    using assms(2) by (auto simp: stream_at_def)
  have ins: "entry_or_insert (Stream stream_new) key now (bump_version key st) = (e, bump_version key st)"
    using e by (simp add: entry_or_insert_def is_expired_at_def)
  note swf = stream_at_wf [OF assms(1,2)]
  show ?thesis
  proof (cases "resolve_xadd_id clock_ms s id_input")
    case (Inl err)
    then have "r = Inl err" "st' = bump_version key st" using assms(3) ins e by (simp_all add: xadd_def xadd_on_shard_def)
    then show ?thesis using assms(2) by (auto simp: stream_at_def)
  next
    case (Inr i)
    obtain freed s' where a: "add_stream_entry i flds None s = (freed, s')" by fastforce
    have "s' = s\<lparr>st_last_id := i, st_entries := st_entries s @ [(i, flds)]\<rparr>"
      using add_stream_entry_result [OF resolve_xadd_id_above(1) [OF swf Inr] a] by simp
    moreover have "r = Inr i" "data_get st' key = Some (e\<lparr>en_value := Stream s'\<rparr>)"
      using assms(1,3) ins e Inr a
      by (simp_all add: xadd_def xadd_on_shard_def Let_def mem_grow_def mem_shrink_def split: if_splits) force+
    ultimately show ?thesis using e by (auto simp: stream_at_def)
  qed
qed

text \<open>
  A run of the clients of one group of one stream: producers append, consumers read new
  entries, acknowledge and claim, in any order and with any outcome of the journal. The
  list is what the successful reads returned, in their order.
\<close>

inductive group_run :: "(bytes \<Rightarrow> nat) \<Rightarrow> keyring \<Rightarrow> bytes \<Rightarrow> bytes \<Rightarrow> engine \<Rightarrow> stream_entries \<Rightarrow> engine \<Rightarrow> bool"
  for hc kr key grp where
  run_done: "group_run hc kr key grp eg [] eg"
| run_add: "xadd clock_ms key id_input flds None now (eg_store eg) = (r, st) \<Longrightarrow>
    group_run hc kr key grp (eg\<lparr>eg_store := st\<rparr>) es eg' \<Longrightarrow> group_run hc kr key grp eg es eg'"
| run_ack: "xack key grp ids now (eg_store eg) = (n, st) \<Longrightarrow>
    group_run hc kr key grp (eg\<lparr>eg_store := st\<rparr>) es eg' \<Longrightarrow> group_run hc kr key grp eg es eg'"
| run_claim: "xclaim kr key grp name min_idle ids now t io eg = (rc, eg1) \<Longrightarrow>
    group_run hc kr key grp eg1 es eg' \<Longrightarrow> group_run hc kr key grp eg es eg'"
| run_read: "xreadgroup hc kr grp name [key] [ascii ''>''] c noack now t io eg = (Inr res, eg1) \<Longrightarrow>
    group_run hc kr key grp eg1 es eg' \<Longrightarrow> group_run hc kr key grp eg (concat (map snd res) @ es) eg'"
| run_refused: "xreadgroup hc kr grp name [key] [ascii ''>''] c noack now t io eg = (Inl e, eg1) \<Longrightarrow>
    group_run hc kr key grp eg1 es eg' \<Longrightarrow> group_run hc kr key grp eg es eg'"

lemma xack_stream_at:
  assumes "streams_wf st" and "stream_at st key s" and "hm_get (st_groups s) grp = Some cg" and "xack key grp ids now st = (r, st')"
  obtains cg' where "stream_at st' key (with_group grp cg' s)" and "cg_last_delivered_id cg' = cg_last_delivered_id cg"
proof -
  obtain r1 cg' where run: "xack_loop ids 0 cg = (r1, cg')" by fastforce
  have "pending_wf cg" using stream_at_wf [OF assms(1,2)] assms(3) by (simp add: stream_wf_def)
  then have "cg_last_delivered_id cg' = cg_last_delivered_id cg" using xack_loop_result [OF _ run] by simp
  then show thesis
    using that stream_at_group_command [where f = "xack_loop ids 0", OF streams_wf_mem [OF assms(1)] assms(2,3) run assms(4) [unfolded xack_def]] by blast
qed

lemma xclaim_stream_at:
  assumes "streams_wf (eg_store eg)" and "stream_at (eg_store eg) key s" and "hm_get (st_groups s) grp = Some cg"
    and "xclaim kr key grp name m ids now t io eg = (r, eg')"
  obtains cg' where "stream_at (eg_store eg') key (with_group grp cg' s) \<or> stream_at (eg_store eg') key s \<and> cg' = cg"
    and "cg_last_delivered_id cg' = cg_last_delivered_id cg"
  using assms(1,4)
proof (cases rule: xclaim_effect)
  case (claimed res claims)
  have pwf: "pending_wf cg" using stream_at_wf [OF assms(1,2)] assms(3) by (simp add: stream_wf_def)
  have "view_group key grp now (eg_store eg) = Inr (s, cg)" using stream_at_view [OF assms(2)] assms(3) by (simp add: view_group_Inr)
  then have own: "fst ` set claims \<subseteq> dom (owner cg)"
    using preview_xclaim_owned [OF claimed(1)] by (metis Inr_inject Pair_inject empty_subsetI image_empty list.set(1))
  obtain rc cg' where run: "group_claim name claims t cg = (rc, cg')" by fastforce
  show thesis
  proof (cases "claims = []")
    case True
    then show thesis using that [of cg] claimed(3) assms(2) by (simp add: apply_lxgroupclaim_def)
  next
    case False
    then show thesis
      using that [of cg'] group_claim_result(3) [OF pwf own [folded owned_iff] run] claimed(3)
        stream_at_group_command [where f = "group_claim name claims t", OF streams_wf_mem [OF assms(1)] assms(2,3) run]
      by (auto simp: apply_lxgroupclaim_def)
  qed
next
  case (refused e)
  then show thesis using that [of cg] assms(2) by auto
qed

lemma plan_new_window:
  assumes "stream_wf s" and "sid_seq (cg_last_delivered_id cg) \<noteq> - 1" and "plan_new kr grp name key c noack s cg = (res, efs)"
  obtains (nothing) "res = []" and "efs = []"
  | (delivered) es where "res = [(key, decrypt_entries kr key es)]" and "es \<noteq> []"
      and "es = window (cg_last_delivered_id cg) (fst (last es)) (st_entries s)"
      and "cg_last_delivered_id cg < fst (last es)" and "last es \<in> set (st_entries s)"
      and "efs = [Deliver key grp (if noack then None else Some name) (fst (last es)) (if noack then [] else map fst es)]"
proof -
  let ?a = "cg_last_delivered_id cg"
  define L where "L = filter (\<lambda>(i, _). ?a < i) (st_entries s)"
  have range: "bt_range_from (next_id ?a) (st_entries s) = L" by (simp add: bt_range_from_def L_def next_id_le [OF assms(2)])
  obtain k where k: "take_loop c 0 (decrypt_entries kr key L) = take k (decrypt_entries kr key L)"
    using take_loop_prefix [of c "decrypt_entries kr key L"] by blast
  define es where "es = take k L"
  have dec: "take_loop c 0 (decrypt_entries kr key L) = decrypt_entries kr key es" by (simp add: k es_def)
  have wf: "bt_wf id (st_entries s)" using assms(1) by (simp add: stream_wf_def)
  have lst: "fst (last (decrypt_entries kr key es)) = fst (last es)" if "es \<noteq> []"
    using that last_map [of "decrypt_entries kr key es" fst] last_map [of es fst] by (metis decrypt_entries_simps(2,5))
  show thesis
  proof (cases "es = []")
    case True
    then have "res = []" "efs = []" using assms(3) by (simp_all add: plan_new_def range dec Let_def)
    then show thesis by (rule nothing)
  next
    case False
    note w = window_take [OF wf es_def [unfolded L_def] False]
    show thesis using delivered [OF _ False w] False lst assms(3) by (auto simp: plan_new_def range dec Let_def)
  qed
qed

lemma xreadgroup_stream_at:
  assumes "streams_wf (eg_store eg)" and "stream_at (eg_store eg) key s" and "hm_get (st_groups s) grp = Some cg"
    and "sid_seq (cg_last_delivered_id cg) \<noteq> - 1"
    and "xreadgroup hc kr grp name [key] [ascii ''>''] c noack now t io eg = (Inr res, eg')"
  obtains cg' where "stream_at (eg_store eg') key (with_group grp cg' s) \<or> stream_at (eg_store eg') key s \<and> cg' = cg"
    and "concat (map snd res) = decrypt_entries kr key (window (cg_last_delivered_id cg) (cg_last_delivered_id cg') (st_entries s))"
    and "cg_last_delivered_id cg \<le> cg_last_delivered_id cg'"
    and "cg' = cg \<or> (\<exists>fs. (cg_last_delivered_id cg', fs) \<in> set (st_entries s))"
  using assms(1,5)
proof (cases rule: xreadgroup_effect)
  case (read res' efs)
  have swf: "stream_wf s" and pwf: "pending_wf cg" using stream_at_wf [OF assms(1,2)] assms(3) by (auto simp: stream_wf_def)
  have plan: "plan_new kr grp name key c noack s cg = (res, efs)"
    using read(1,2) stream_at_view [OF assms(2), of now] assms(1,3) by (simp add: plan_key_def split: prod.splits)
  show thesis
  proof (cases rule: plan_new_window [OF swf assms(4) plan])
    case 1
    then show thesis using that [of cg] read(3) assms(2) by simp
  next
    case (2 es)
    obtain r1 cg' where run: "group_deliver (if noack then None else Some name) (fst (last es)) (if noack then [] else map fst es) t cg = (r1, cg')"
      by fastforce
    note gd = group_deliver_result [OF pwf run]
    have step: "apply_lxgroupread key grp (if noack then None else Some name) (fst (last es)) (if noack then [] else map fst es) t now
        (eg_store eg) = (Inr (), eg_store eg')"
      using read(3) 2(6) by (auto simp: apply_effect_def split: prod.splits sum.splits)
    have at: "stream_at (eg_store eg') key (with_group grp cg' s)"
      by (rule stream_at_group_command [OF streams_wf_mem [OF assms(1)] assms(2,3) run step [unfolded apply_lxgroupread_def]])
    show thesis
    proof (rule that [of cg'])
      show "concat (map snd res) = decrypt_entries kr key (window (cg_last_delivered_id cg) (cg_last_delivered_id cg') (st_entries s))"
        using 2(1,3) gd(3) by simp
      show "cg' = cg \<or> (\<exists>fs. (cg_last_delivered_id cg', fs) \<in> set (st_entries s))"
        using 2(5) gd(3) by (metis prod.collapse)
    qed (use at gd(3) 2(4) in simp_all)
  qed
qed simp

lemma xreadgroup_same_entries:
  assumes "streams_wf (eg_store eg)" and "stream_at (eg_store eg) key s" and "hm_get (st_groups s) grp = Some cg"
    and "xreadgroup hc kr grp name [key] [ascii ''>''] c noack now t io eg = (r, eg')"
  shows "\<exists>cg'. stream_at (eg_store eg') key (with_group grp cg' s) \<or> stream_at (eg_store eg') key s"
  using assms(1,4)
proof (cases rule: xreadgroup_effect)
  case (read res efs)
  have "plan_new kr grp name key c noack s cg = (res, efs)"
    using read(1,2) stream_at_view [OF assms(2), of now] assms(1,3) by (simp add: plan_key_def split: prod.splits)
  then consider "efs = []" | name_opt lst ids where "efs = [Deliver key grp name_opt lst ids]"
    by (auto simp: plan_new_def Let_def split: if_splits)
  then show ?thesis
  proof cases
    case 2
    obtain r1 cg' where run: "group_deliver name_opt lst ids t cg = (r1, cg')" by fastforce
    have step: "apply_lxgroupread key grp name_opt lst ids t now (eg_store eg) = (Inr (), eg_store eg')"
      using read(3) 2 by (auto simp: apply_effect_def split: prod.splits sum.splits)
    show ?thesis
      using stream_at_group_command [OF streams_wf_mem [OF assms(1)] assms(2,3) run step [unfolded apply_lxgroupread_def]] by blast
  qed (use read(3) assms(2) in auto)
qed (use assms(2) in auto)

definition group_state :: "engine \<Rightarrow> bytes \<Rightarrow> bytes \<Rightarrow> stream_data \<Rightarrow> consumer_group \<Rightarrow> bool" where
  "group_state eg key grp s cg \<longleftrightarrow> streams_wf (eg_store eg) \<and> stream_at (eg_store eg) key s \<and> hm_get (st_groups s) grp = Some cg"

lemma group_state_unique: "group_state eg key grp s cg \<Longrightarrow> group_state eg key grp s' cg' \<Longrightarrow> s' = s \<and> cg' = cg"
  using stream_at_unique [of "eg_store eg" key s s'] by (auto simp: group_state_def)

lemma group_state_with:
  "streams_wf (eg_store eg) \<Longrightarrow> stream_at (eg_store eg) key (with_group grp cg s) \<Longrightarrow> group_state eg key grp (with_group grp cg s) cg"
  by (simp add: group_state_def)

text \<open>Each step leads to a state of the group with the entries there were, and the new one after an append.\<close>

lemma group_step_add:
  assumes "group_state eg key grp s cg" and "xadd clock_ms key id_input flds None now (eg_store eg) = (r, st)"
  shows "\<exists>s' added. group_state (eg\<lparr>eg_store := st\<rparr>) key grp s' cg \<and> st_entries s' = st_entries s @ added"
proof -
  have g: "streams_wf (eg_store eg)" "stream_at (eg_store eg) key s" "hm_get (st_groups s) grp = Some cg"
    using assms(1) by (simp_all add: group_state_def)
  obtain s' where s': "stream_at st key s'" "st_groups s' = st_groups s"
    "case r of Inl _ \<Rightarrow> st_entries s' = st_entries s | Inr i \<Rightarrow> st_entries s' = st_entries s @ [(i, flds)]"
    using xadd_stream_at [OF g(1,2) assms(2)] by blast
  have "streams_wf st" using xadd_wf [OF g(1), of clock_ms key id_input flds None now] assms(2) by simp
  then have "group_state (eg\<lparr>eg_store := st\<rparr>) key grp s' cg" using s' g(3) by (simp add: group_state_def)
  moreover have "\<exists>added. st_entries s' = st_entries s @ added" using s'(3) by (cases r) auto
  ultimately show ?thesis by blast
qed

lemma group_step_ack:
  assumes "group_state eg key grp s cg" and "xack key grp ids now (eg_store eg) = (r, st)"
  shows "\<exists>s' cg'. group_state (eg\<lparr>eg_store := st\<rparr>) key grp s' cg' \<and> st_entries s' = st_entries s \<and>
    cg_last_delivered_id cg' = cg_last_delivered_id cg"
proof -
  have g: "streams_wf (eg_store eg)" "stream_at (eg_store eg) key s" "hm_get (st_groups s) grp = Some cg"
    using assms(1) by (simp_all add: group_state_def)
  have "streams_wf st" using xack_wf [OF g(1), of key grp ids now] assms(2) by simp
  then show ?thesis using xack_stream_at [OF g assms(2)] group_state_with [of "eg\<lparr>eg_store := st\<rparr>" key grp _ s]
    by (metis (no_types, lifting) engine.select_convs(1) engine.surjective engine.update_convs(1) with_group_simps(1))
qed

lemma group_step_claim:
  assumes "group_state eg key grp s cg" and "xclaim kr key grp name m ids now t io eg = (r, eg1)"
  shows "\<exists>s' cg'. group_state eg1 key grp s' cg' \<and> st_entries s' = st_entries s \<and>
    cg_last_delivered_id cg' = cg_last_delivered_id cg"
proof -
  have g: "streams_wf (eg_store eg)" "stream_at (eg_store eg) key s" "hm_get (st_groups s) grp = Some cg"
    using assms(1) by (simp_all add: group_state_def)
  have wf: "streams_wf (eg_store eg1)" by (rule stream_step_wf [OF step_xclaim [OF assms(2)] g(1)])
  obtain cg' where c: "stream_at (eg_store eg1) key (with_group grp cg' s) \<or> stream_at (eg_store eg1) key s \<and> cg' = cg"
    "cg_last_delivered_id cg' = cg_last_delivered_id cg"
    by (rule xclaim_stream_at [OF g assms(2)])
  show ?thesis using c g(3) wf group_state_with [OF wf, of key grp cg' s] by (auto simp: group_state_def)
qed

lemma group_step_read:
  assumes "group_state eg key grp s cg" and "xreadgroup hc kr grp name [key] [ascii ''>''] c noack now t io eg = (r, eg1)"
  shows "\<exists>s' cg'. group_state eg1 key grp s' cg' \<and> st_entries s' = st_entries s"
proof -
  have g: "streams_wf (eg_store eg)" "stream_at (eg_store eg) key s" "hm_get (st_groups s) grp = Some cg"
    using assms(1) by (simp_all add: group_state_def)
  have wf: "streams_wf (eg_store eg1)" by (rule stream_step_wf [OF step_xreadgroup [OF assms(2)] g(1)])
  show ?thesis using xreadgroup_same_entries [OF g assms(2)] g(3) wf group_state_with [OF wf, of key grp _ s]
    by (auto simp: group_state_def)
qed

lemma group_run_extends:
  assumes "group_run hc kr key grp eg es eg'" and "group_state eg key grp s cg"
  shows "\<exists>s' cg' added. group_state eg' key grp s' cg' \<and> st_entries s' = st_entries s @ added"
  using assms
proof (induction arbitrary: s cg rule: group_run.induct)
  case (run_add clock_ms id_input flds now eg r st es eg')
  then show ?case using group_step_add [OF run_add.prems run_add.hyps(1)] by fastforce
next
  case (run_ack ids now eg n st es eg')
  then show ?case using group_step_ack [OF run_ack.prems run_ack.hyps(1)] by fastforce
next
  case (run_claim name min_idle ids now t io eg rc eg1 es eg')
  then show ?case using group_step_claim [OF run_claim.prems run_claim.hyps(1)] by fastforce
next
  case (run_read name c noack now t io eg res eg1 es eg')
  then show ?case using group_step_read [OF run_read.prems run_read.hyps(1)] by fastforce
next
  case (run_refused name c noack now t io eg e eg1 es eg')
  then show ?case using group_step_read [OF run_refused.prems run_refused.hyps(1)] by fastforce
qed blast

lemma window_extend:
  assumes "bt_wf id (es @ added)" and "b = a \<or> (\<exists>fs. (b, fs) \<in> set es)"
  shows "window a b (es @ added) = window a b es"
proof (cases "b = a")
  case False
  then obtain fs where b: "(b, fs) \<in> set es" using assms(2) by blast
  have "b < j" if "(j, w) \<in> set added" for j w by (rule bt_wf_append [OF assms(1) b that])
  then have "window a b added = []" by (fastforce simp: window_def filter_empty_conv)
  then show ?thesis by (simp add: window_def)
qed simp

lemma group_run_delivers:
  assumes "group_run hc kr key grp eg es eg'" and "group_state eg key grp s cg" and "group_state eg' key grp s' cg'"
    and "\<forall>(i, fs) \<in> set (st_entries s'). sid_seq i \<noteq> - 1" and "sid_seq (cg_last_delivered_id cg) \<noteq> - 1"
  shows "cg_last_delivered_id cg \<le> cg_last_delivered_id cg' \<and>
    es = decrypt_entries kr key (window (cg_last_delivered_id cg) (cg_last_delivered_id cg') (st_entries s'))"
  using assms
proof (induction arbitrary: s cg rule: group_run.induct)
  case (run_done eg)
  then show ?case using group_state_unique [OF run_done.prems(1,2)] by simp
next
  case (run_add clock_ms id_input flds now eg r st es eg')
  obtain s1 where "group_state (eg\<lparr>eg_store := st\<rparr>) key grp s1 cg"
    using group_step_add [OF run_add.prems(1) run_add.hyps(1)] by blast
  then show ?case by (rule run_add.IH [OF _ run_add.prems(2-4)])
next
  case (run_ack ids now eg n st es eg')
  obtain s1 cg1 where s1: "group_state (eg\<lparr>eg_store := st\<rparr>) key grp s1 cg1" "cg_last_delivered_id cg1 = cg_last_delivered_id cg"
    using group_step_ack [OF run_ack.prems(1) run_ack.hyps(1)] by blast
  then show ?case using run_ack.IH [OF s1(1) run_ack.prems(2,3)] run_ack.prems(4) by simp
next
  case (run_claim name min_idle ids now t io eg rc eg1 es eg')
  obtain s1 cg1 where s1: "group_state eg1 key grp s1 cg1" "cg_last_delivered_id cg1 = cg_last_delivered_id cg"
    using group_step_claim [OF run_claim.prems(1) run_claim.hyps(1)] by blast
  then show ?case using run_claim.IH [OF s1(1) run_claim.prems(2,3)] run_claim.prems(4) by simp
next
  case (run_read name c noack now t io eg res eg1 es eg')
  have g: "streams_wf (eg_store eg)" "stream_at (eg_store eg) key s" "hm_get (st_groups s) grp = Some cg"
    using run_read.prems(1) by (simp_all add: group_state_def)
  have wf1: "streams_wf (eg_store eg1)" by (rule stream_step_wf [OF step_xreadgroup [OF run_read.hyps(1)] g(1)])
  obtain cg1 where c: "stream_at (eg_store eg1) key (with_group grp cg1 s) \<or> stream_at (eg_store eg1) key s \<and> cg1 = cg"
    "concat (map snd res) = decrypt_entries kr key (window (cg_last_delivered_id cg) (cg_last_delivered_id cg1) (st_entries s))"
    "cg_last_delivered_id cg \<le> cg_last_delivered_id cg1" "cg1 = cg \<or> (\<exists>fs. (cg_last_delivered_id cg1, fs) \<in> set (st_entries s))"
    by (rule xreadgroup_stream_at [OF g run_read.prems(4) run_read.hyps(1)])
  obtain s1 where s1: "group_state eg1 key grp s1 cg1" "st_entries s1 = st_entries s"
    using c(1) g(3) wf1 group_state_with [OF wf1, of key grp cg1 s] by (metis group_state_def with_group_simps(1))
  obtain added where added: "st_entries s' = st_entries s @ added"
    using group_run_extends [OF run_read.hyps(2) s1(1)] group_state_unique [OF run_read.prems(2)] s1(2) by metis
  have swf: "bt_wf id (st_entries s')"
    using run_read.prems(2) stream_at_wf by (auto simp: group_state_def stream_wf_def)
  have "sid_seq (cg_last_delivered_id cg1) \<noteq> - 1" using c(4) run_read.prems(3,4) added by auto
  note IH = run_read.IH [OF s1(1) run_read.prems(2,3) this]
  have "window (cg_last_delivered_id cg) (cg_last_delivered_id cg1) (st_entries s) =
      window (cg_last_delivered_id cg) (cg_last_delivered_id cg1) (st_entries s')"
    unfolding added by (rule window_extend [OF swf [unfolded added], symmetric]) (use c(4) in auto)
  then show ?case using IH c(2,3) window_split [OF swf c(3) conjunct1 [OF IH]]
      order_trans [OF c(3) conjunct1 [OF IH]] by simp
next
  case (run_refused name c noack now t io eg e eg1 es eg')
  have g: "streams_wf (eg_store eg)" "stream_at (eg_store eg) key s" "hm_get (st_groups s) grp = Some cg"
    using run_refused.prems(1) by (simp_all add: group_state_def)
  have "group_state eg1 key grp s cg"
  proof (cases rule: xreadgroup_effect [OF g(1) run_refused.hyps(1)])
    case (2 e)
    then show ?thesis using g by (auto simp: group_state_def)
  qed simp
  then show ?case by (rule run_refused.IH [OF _ run_refused.prems(2-4)])
qed

end
