(* ===== verification/StreamProps.thy ===== *)
theory StreamProps
  imports StreamGroups
begin

text \<open>
  The properties of streams and consumer groups, and what the journal keeps of them:
  the commands a read or a claim writes are parsed back to the same change.
\<close>

section \<open>Replay\<close>

lemma digits_ascii: "\<forall>b \<in> set (nat_digits n). b < 0x80"
proof -
  have "b < 0x80" if "is_digit b" for b :: byte using that by (auto simp: is_digit_def intro: le_less_trans)
  then show ?thesis using nat_digits_digits by (fastforce simp: list_all_iff)
qed

lemma key_str_digits [simp]: "key_str (nat_digits n) = nat_digits n"
  by (intro key_str_valid utf8_valid_ascii digits_ascii)

lemma key_str_stream_id [simp]: "key_str (stream_id_to_string i) = stream_id_to_string i"
  using digits_ascii by (intro key_str_valid utf8_valid_ascii) (auto simp: stream_id_to_string_def)

lemma map_filter_stream_ids: "List.map_filter (\<lambda>arg. stream_id_parse (key_str arg)) (map stream_id_to_string ids) = ids"
  by (induction ids) (simp_all add: List.map_filter_simps)

lemma replay_deliver:
  assumes "utf8_valid grp" and "\<forall>name. name_opt = Some name \<longrightarrow> utf8_valid name"
  shows "replay_lxgroupread True (effect_command (Deliver key grp name_opt lst ids)) now t st =
    apply_lxgroupread key grp (if name_opt = Some [] then None else name_opt) lst ids t now st"
  using assms by (cases name_opt) (auto simp: replay_lxgroupread_def effect_command_def map_filter_stream_ids)

lemma parse_claim_args: "\<forall>(i, n) \<in> set claims. n \<le> usize_max \<Longrightarrow> parse_claims (claim_args claims) = Inr claims"
  by (induction claims rule: claim_args.induct) (auto simp: parse_u64_digits)

lemma length_claim_args [simp]: "length (claim_args claims) = 2 * length claims"
  by (induction claims rule: claim_args.induct) auto

text \<open>
  Claim C25. The journaled effect repeats the operation. The command that \<open>XREADGROUP\<close>
  writes for a delivery, and the one \<open>XCLAIM\<close> and \<open>XAUTOCLAIM\<close> write for their claims,
  are parsed by the replay to the very change that was applied, for every group, every
  consumer with a name and any identifiers and counts.
\<close>

theorem group_effects_replay:
  assumes "utf8_valid grp" and "utf8_valid name" and "name \<noteq> []" and "claims \<noteq> []" and "\<forall>(i, n) \<in> set claims. n \<le> usize_max"
  shows "replay_lxgroupread True (effect_command (Deliver key grp (if noack then None else Some name) lst ids)) now t st =
      apply_lxgroupread key grp (if noack then None else Some name) lst ids t now st \<and>
    replay_lxgroupclaim True (lxgroupclaim_command key grp name claims) now t st =
      apply_lxgroupclaim key grp name claims t now st"
proof
  show "replay_lxgroupread True (effect_command (Deliver key grp (if noack then None else Some name) lst ids)) now t st =
      apply_lxgroupread key grp (if noack then None else Some name) lst ids t now st"
    using replay_deliver [OF assms(1), of "if noack then None else Some name"] assms(2,3) by (cases noack) simp_all
  have "0 < length claims" using assms(4) by simp
  then show "replay_lxgroupclaim True (lxgroupclaim_command key grp name claims) now t st =
      apply_lxgroupclaim key grp name claims t now st"
    using assms(1,2) parse_claim_args [OF assms(5)] by (simp add: replay_lxgroupclaim_def lxgroupclaim_command_def)
qed

text \<open>
  A consumer with the empty name loses its pending entries in a restart: the
  journal writes the empty name for such a delivery and also for one without
  acknowledgement, and the replay reads it as the latter.
\<close>

theorem empty_consumer_not_replayed:
  assumes "streams_wf st" and "view_group key grp now st = Inr (s, cg)" and "utf8_valid grp" and "i \<in> set ids" and "owner cg i = None"
    and "apply_effect t now (Deliver key grp (Some []) lst ids) st = (r1, st1)"
    and "replay_lxgroupread True (effect_command (Deliver key grp (Some []) lst ids)) now t st = (r2, st2)"
  shows "\<exists>cg1 cg2. view_group key grp now st1 = Inr (with_group grp cg1 s, cg1) \<and> owner cg1 i = Some [] \<and>
    view_group key grp now st2 = Inr (with_group grp cg2 s, cg2) \<and> owner cg2 i = None"
proof -
  have wf: "mem_wf st" "pending_wf cg" using assms(1,2) streams_wfD [OF assms(1)]
    by (auto simp: view_group_Inr view_stream_Some stream_wf_def)
  obtain q1 cg1 where d1: "group_deliver (Some []) lst ids t cg = (q1, cg1)" by fastforce
  obtain q2 cg2 where d2: "group_deliver None lst ids t cg = (q2, cg2)" by fastforce
  have "view_stream key now st1 = Inr (Some (with_group grp cg1 s))"
    by (rule group_command_result(3) [where f = "group_deliver (Some []) lst ids t", OF wf(1) assms(2) d1
        assms(6) [unfolded apply_effect_def group_read_effect.case apply_lxgroupread_def]])
  moreover have "apply_lxgroupread key grp None lst ids t now st = (r2, st2)"
    using assms(7) replay_deliver [OF assms(3), of "Some []"] by simp
  then have "view_stream key now st2 = Inr (Some (with_group grp cg2 s))"
    unfolding apply_lxgroupread_def by (rule group_command_result(3) [where f = "group_deliver None lst ids t", OF wf(1) assms(2) d2])
  moreover have "owner cg1 i = Some []" "owner cg2 i = None"
    using group_deliver_result(4) [OF wf(2) d1] group_deliver_result(4) [OF wf(2) d2] assms(4,5) by simp_all
  ultimately show ?thesis by (auto simp: view_group_Inr)
qed

section \<open>Appending\<close>

text \<open>
  \<open>XADD\<close> appends. When it succeeds the identifier is the one the preview gave
  to the journal, it is above every identifier of the stream, the entry is the last one
  and only the oldest entries beyond the maximal length are gone; the groups and all
  other keys are unchanged, the stream stays well-formed, and \<open>XRANGE\<close> returns the
  entries between its bounds.
\<close>

theorem xadd_appends:
  assumes "streams_wf st" and "xadd clock_ms key id_input flds max_len now st = (Inr i, st')"
    and "view_stream key now st = Inr so" and "s = (case so of None \<Rightarrow> stream_new | Some s \<Rightarrow> s)" and "lo \<le> hi"
  shows "preview_xadd_id clock_ms key id_input now st = Inr i \<and> (\<forall>(j, fs) \<in> set (st_entries s). j < i) \<and>
    (\<exists>s'. view_stream key now st' = Inr (Some s') \<and> stream_wf s' \<and> st_last_id s' = i \<and> st_groups s' = st_groups s \<and>
       st_entries s' = drop (case max_len of None \<Rightarrow> 0 | Some m \<Rightarrow> length (st_entries s) + 1 - m) (st_entries s @ [(i, flds)]) \<and>
       xrange kr key lo hi None now st' = Inr (decrypt_entries kr key (filter (\<lambda>(j, _). lo \<le> j \<and> j \<le> hi) (st_entries s')))) \<and>
    (\<forall>k. k \<noteq> key \<longrightarrow> data_get st' k = data_get st k)"
proof -
  obtain e st1 where run: "entry_or_insert (Stream stream_new) key now (bump_version key st) = (e, st1)" by fastforce
  have wf: "mem_wf (bump_version key st)" using assms(1) by simp
  note r = entry_or_insert_result [OF wf value_inv_Stream run]
  have e: "en_value e = Stream s"
    using r(5) assms(3,4) by (auto simp: view_stream_def view_def split: option.splits store_value.splits if_splits)
  have swf: "stream_wf s" by (rule entry_or_insert_streams(3) [OF _ run e]) (use assms(1) in simp)
  have res: "resolve_xadd_id clock_ms s id_input = Inr i"
    using assms(2) run e by (auto simp: xadd_def xadd_on_shard_def Let_def split: sum.splits prod.splits)
  note above = resolve_xadd_id_above(1) [OF swf res]
  obtain freed s' where a: "add_stream_entry i flds max_len s = (freed, s')" by fastforce
  have s': "s' = s\<lparr>st_last_id := i, st_entries :=
      drop (case max_len of None \<Rightarrow> 0 | Some m \<Rightarrow> length (st_entries s) + 1 - m) (st_entries s @ [(i, flds)])\<rparr>"
    by (rule add_stream_entry_result [OF above a])
  have get: "data_get st' k = (if k = key then Some (e\<lparr>en_value := Stream s'\<rparr>) else data_get st1 k)" for k
    using assms(2) run e res a r(1) by (auto simp: xadd_def xadd_on_shard_def Let_def mem_grow_def mem_shrink_def split: if_splits)
  have view: "view_stream key now st' = Inr (Some s')" using get r(3) by (simp add: view_stream_def is_expired_at_def)
  have "stream_wf s'" using add_stream_entry_wf [OF swf above, of flds max_len] a by simp
  moreover have "preview_xadd_id clock_ms key id_input now st = Inr i"
    using assms(3,4) res by (simp add: preview_xadd_id_def split: option.splits)
  moreover have "xrange kr key lo hi None now st' = Inr (decrypt_entries kr key (filter (\<lambda>(j, _). lo \<le> j \<and> j \<le> hi) (st_entries s')))"
    using assms(5) by (simp add: xrange_def view bt_range_def take_loop_take)
  ultimately show ?thesis using above view s' get r(6) by simp
qed

section \<open>Groups\<close>

text \<open>
  Claim C17. Pending entries are consistent in every reachable state. From any store
  with well-formed streams, after any sequence of appends, trims, deletions, group and
  consumer commands, reads, acknowledgements and claims, with any outcome of the
  journal: a consumer holds exactly the entries that the group lists as pending for it,
  so no entry is pending for two consumers and none is lost, the group's total is the
  sum over its consumers, and the entries are ordered and not above the last identifier.
\<close>

theorem pending_entries_consistent:
  assumes "stream_step\<^sup>*\<^sup>* eg eg'" and "streams_wf (eg_store eg)"
    and "view_group key grp now (eg_store eg') = Inr (s, cg)"
  shows "(\<forall>i name. i \<in> held cg name \<longleftrightarrow> owner cg i = Some name) \<and>
    length (cg_pel cg) = (\<Sum>name \<in> fst ` set (cg_consumers cg). card (held cg name)) \<and>
    sorted_wrt (<) (map fst (st_entries s)) \<and> (\<forall>(i, fs) \<in> set (st_entries s). i \<le> st_last_id s)"
proof -
  have "streams_wf (eg_store eg')" using assms(1,2) by (induction rule: rtranclp_induct) (auto intro: stream_step_wf)
  then have swf: "stream_wf s" using assms(3) streams_wfD by (auto simp: view_group_Inr view_stream_Some)
  then have pwf: "pending_wf cg" using assms(3) unfolding stream_wf_def view_group_Inr by blast
  have eq: "(\<lambda>(k :: stream_id, _ :: (bytes \<times> bytes) list). id k) = fst" by auto
  have "sorted_wrt (<) (map fst (st_entries s))" using swf unfolding stream_wf_def bt_wf_def eq by simp
  then show ?thesis using pwf pending_summary [OF pwf] swf by (simp add: pending_wf_def stream_wf_def)
qed

text \<open>
  Claim C18. A group delivers every entry once and in order. Whatever producers append and
  consumers read, acknowledge and claim, in any order and with any failures of the
  journal, the entries that the reads returned are, one after the other, exactly those
  between the position of the group at the start and its position at the end: none is
  skipped and none is repeated. The hypotheses on sequence numbers exclude the largest
  one, where the position cannot advance.
\<close>

theorem group_delivers_once:
  assumes "group_run hc kr key grp eg es eg'" and "streams_wf (eg_store eg)"
    and "stream_at (eg_store eg) key s" and "hm_get (st_groups s) grp = Some cg" and "stream_at (eg_store eg') key s'"
    and "sid_seq (cg_last_delivered_id cg) \<noteq> - 1" and "\<forall>(i, fs) \<in> set (st_entries s'). sid_seq i \<noteq> - 1"
  shows "\<exists>cg'. hm_get (st_groups s') grp = Some cg' \<and> cg_last_delivered_id cg \<le> cg_last_delivered_id cg' \<and>
    es = decrypt_entries kr key (window (cg_last_delivered_id cg) (cg_last_delivered_id cg') (st_entries s')) \<and>
    distinct (map fst es)"
proof -
  have g: "group_state eg key grp s cg" using assms(2-4) by (simp add: group_state_def)
  obtain s'' cg' where g': "group_state eg' key grp s'' cg'" using group_run_extends [OF assms(1) g] by blast
  then have eq: "s'' = s'" using stream_at_unique [OF assms(5)] by (simp add: group_state_def)
  note d = group_run_delivers [OF assms(1) g g' [unfolded eq] assms(7,6)]
  have "bt_wf id (window a b (st_entries s'))" for a b
    using g' eq stream_at_wf by (auto simp: group_state_def stream_wf_def window_def intro: bt_wf_filter)
  then have "distinct (map fst (window a b (st_entries s')))" for a b
    by (simp add: bt_wf_def strict_sorted_iff case_prod_unfold)
  then show ?thesis using d g' eq by (auto simp: group_state_def)
qed

text \<open>
  A reversed range aborts the server: on any live stream \<open>XRANGE\<close> and
  \<open>XREVRANGE\<close> with a lower bound above the upper one, and \<open>XPENDING\<close> with such bounds on
  any group, panic in \<open>BTreeMap::range\<close>.
\<close>

theorem reversed_range_aborts:
  assumes "view_group key grp now st = Inr (s, cg)" and "hi < lo"
  shows "xrange kr key lo hi c now st = Inl Panic \<and> xrevrange kr key hi lo c now st = Inl Panic \<and>
    xpending_range key grp lo hi n flt now t st = Inl Panic"
proof -
  have "view_stream key now st = Inr (Some s)" using assms(1) by (simp add: view_group_Inr)
  then show ?thesis using assms by (simp add: xrange_def xrevrange_def xpending_range_def bt_range_def)
qed

text \<open>
  At the largest sequence number the next identifier wraps to the start of the same
  millisecond, so \<open>XREAD\<close> after it returns the entry again.
\<close>

lemma top_sequence_read_again:
  assumes "mem_wf st" and "view_stream key now st = Inr (Some s)" and "(StreamId ms (- 1), fs) \<in> set (st_entries s)"
  shows "\<exists>es. xread hc kr [key] [StreamId ms (- 1)] None now t st = (Inr [(key, es)], st) \<and>
    (StreamId ms (- 1), decrypt_stream_fields kr key fs) \<in> set es"
proof -
  define es where "es = decrypt_entries kr key (bt_range_from (next_id (StreamId ms (- 1))) (st_entries s))"
  have "(StreamId ms (- 1), decrypt_stream_fields kr key fs) \<in> set es"
    using assms(3) by (force simp: es_def decrypt_entries_def bt_range_from_def next_id_def less_eq_stream_id_def)
  moreover have "xread hc kr [key] [StreamId ms (- 1)] None now t st = (Inr [(key, es)], st)"
    using assms(1,2) calculation by (auto simp: xread_def es_def take_loop_take)
  ultimately show ?thesis by blast
qed

section \<open>Examples\<close>

definition demo_group :: consumer_group where
  "demo_group = \<lparr>cg_last_delivered_id = StreamId 1 0,
     cg_consumers = [(ascii ''c'', \<lparr>co_pel = {StreamId 1 0}, co_seen_time = 0\<rparr>)],
     cg_pel = [(StreamId 1 0, \<lparr>pe_consumer = ascii ''c'', pe_delivery_time = 0, pe_delivery_count = 1\<rparr>)]\<rparr>"

definition demo_stream :: stream_data where
  "demo_stream = \<lparr>st_entries = [(StreamId 1 0, [(ascii ''f'', ascii ''x'')]), (StreamId 2 0, [(ascii ''f'', ascii ''y'')])],
     st_last_id = StreamId 2 0, st_groups = [(ascii ''g'', demo_group)]\<rparr>"

definition demo_stream_store :: store where
  "demo_stream_store = demo_store [(ascii ''s'', Stream demo_stream)]"

definition demo_stream_engine :: engine where
  "demo_stream_engine = demo_engine\<lparr>eg_store := demo_stream_store, eg_journal := None\<rparr>"

lemma demo_group_wf: "pending_wf demo_group"
proof -
  have "held demo_group n = (if n = ascii ''c'' then {StreamId 1 0} else {})" for n
    by (simp add: held_def demo_group_def hm_get_def)
  moreover have "owner demo_group i = (if i = StreamId 1 0 then Some (ascii ''c'') else None)" for i
    by (simp add: owner_def demo_group_def)
  ultimately show ?thesis
    by (auto simp: pending_wf_def maps_wf_def demo_group_def hm_wf_def bt_wf_Cons split: if_splits)
qed

lemma demo_stream_wf: "stream_wf demo_stream"
  using demo_group_wf
  by (auto simp: stream_wf_def demo_stream_def bt_wf_Cons hm_wf_def hm_get_def less_stream_id_def less_eq_stream_id_def split: if_splits)

lemma demo_stream_facts:
  "stream_at demo_stream_store (ascii ''s'') demo_stream" "streams_wf demo_stream_store"
  "hm_get (st_groups demo_stream) (ascii ''g'') = Some demo_group"
  "view_group (ascii ''s'') (ascii ''g'') now demo_stream_store = Inr (demo_stream, demo_group)"
proof -
  have wf0: "mem_wf (new_store 2 None)" using demo_store_wf [of "[]"] by simp
  have wf: "mem_wf demo_stream_store" unfolding demo_stream_store_def by (rule demo_store_wf) simp
  have get: "data_get demo_stream_store k = (if k = ascii ''s'' then
      Some \<lparr>en_value = Stream demo_stream, en_expires_at = None, en_lru_clock = 0\<rparr> else None)" for k
    using wf0 by (simp add: demo_stream_store_def)
  show at: "stream_at demo_stream_store (ascii ''s'') demo_stream" by (simp add: stream_at_def get)
  show "streams_wf demo_stream_store" using wf demo_stream_wf unfolding streams_wf_def get by auto
  show g: "hm_get (st_groups demo_stream) (ascii ''g'') = Some demo_group" by (simp add: demo_stream_def hm_get_def)
  show "view_group (ascii ''s'') (ascii ''g'') now demo_stream_store = Inr (demo_stream, demo_group)"
    using stream_at_view [OF at] g by (simp add: view_group_Inr)
qed

lemma demo_names: "utf8_valid (ascii ''g'')" "utf8_valid (ascii ''c'')"
  by (rule utf8_valid_ascii, simp add: ascii_def)+

theorem group_effects_replay_witness:
  "replay_lxgroupclaim True (lxgroupclaim_command (ascii ''s'') (ascii ''g'') (ascii ''c'') [(StreamId 1 0, 2)]) 0 0 demo_stream_store =
     apply_lxgroupclaim (ascii ''s'') (ascii ''g'') (ascii ''c'') [(StreamId 1 0, 2)] 0 0 demo_stream_store"
proof -
  have "ascii ''c'' \<noteq> []" "\<forall>(i, n) \<in> set [(StreamId 1 0, 2)]. n \<le> usize_max" by (simp_all add: ascii_def usize_max_def)
  then show ?thesis using group_effects_replay [OF demo_names, of "[(StreamId 1 0, 2)]" "ascii ''s''" False _ _ 0 0 demo_stream_store] by blast
qed

theorem empty_consumer_not_replayed_witness:
  "\<exists>st1 st2 cg1 cg2 r1 r2.
     apply_effect 0 0 (Deliver (ascii ''s'') (ascii ''g'') (Some []) (StreamId 2 0) [StreamId 2 0]) demo_stream_store = (r1, st1) \<and>
     replay_lxgroupread True (effect_command (Deliver (ascii ''s'') (ascii ''g'') (Some []) (StreamId 2 0) [StreamId 2 0])) 0 0
       demo_stream_store = (r2, st2) \<and>
     view_group (ascii ''s'') (ascii ''g'') 0 st1 = Inr (with_group (ascii ''g'') cg1 demo_stream, cg1) \<and> owner cg1 (StreamId 2 0) = Some [] \<and>
     view_group (ascii ''s'') (ascii ''g'') 0 st2 = Inr (with_group (ascii ''g'') cg2 demo_stream, cg2) \<and> owner cg2 (StreamId 2 0) = None"
proof -
  let ?ef = "Deliver (ascii ''s'') (ascii ''g'') (Some []) (StreamId 2 0) [StreamId 2 0]"
  obtain r1 st1 where l: "apply_effect 0 0 ?ef demo_stream_store = (r1, st1)" by fastforce
  obtain r2 st2 where r: "replay_lxgroupread True (effect_command ?ef) 0 0 demo_stream_store = (r2, st2)" by fastforce
  have "StreamId 2 0 \<in> set [StreamId 2 0]" "owner demo_group (StreamId 2 0) = None" by (simp_all add: owner_def demo_group_def)
  then show ?thesis
    using empty_consumer_not_replayed [OF demo_stream_facts(2,4) demo_names(1) _ _ l r] l r by blast
qed

lemma demo_xadd:
  "\<exists>st'. xadd 5 (ascii ''s'') (ascii ''*'') [(ascii ''f'', ascii ''z'')] None 0 demo_stream_store = (Inr (StreamId 5 0), st')"
proof -
  have e: "\<exists>e. data_get demo_stream_store (ascii ''s'') = Some e \<and> en_value e = Stream demo_stream \<and> en_expires_at e = None"
    using demo_stream_facts(1) by (simp add: stream_at_def)
  have "resolve_xadd_id 5 demo_stream (ascii ''*'') = Inr (StreamId 5 0)"
    by (simp add: resolve_xadd_id_def demo_stream_def less_eq_stream_id_def stream_id_zero_def)
  then show ?thesis using e
    by (auto simp: xadd_def xadd_on_shard_def entry_or_insert_def is_expired_at_def Let_def split: prod.splits)
qed

theorem xadd_appends_witness:
  "\<exists>st' s'. xadd 5 (ascii ''s'') (ascii ''*'') [(ascii ''f'', ascii ''z'')] None 0 demo_stream_store = (Inr (StreamId 5 0), st') \<and>
     view_stream (ascii ''s'') 0 st' = Inr (Some s') \<and>
     st_entries s' = st_entries demo_stream @ [(StreamId 5 0, [(ascii ''f'', ascii ''z'')])]"
proof -
  obtain st' where run: "xadd 5 (ascii ''s'') (ascii ''*'') [(ascii ''f'', ascii ''z'')] None 0 demo_stream_store = (Inr (StreamId 5 0), st')"
    using demo_xadd by blast
  have s: "demo_stream = (case Some demo_stream of None \<Rightarrow> stream_new | Some s \<Rightarrow> s)" by simp
  show ?thesis
    using xadd_appends [OF demo_stream_facts(2) run stream_at_view [OF demo_stream_facts(1)] s order_refl [of stream_id_zero], of kr0] run
    by auto
qed

theorem pending_entries_consistent_witness:
  "\<exists>eg' s cg. stream_step\<^sup>*\<^sup>* demo_stream_engine eg' \<and> view_group (ascii ''s'') (ascii ''g'') 0 (eg_store eg') = Inr (s, cg) \<and>
     (\<forall>i name. i \<in> held cg name \<longleftrightarrow> owner cg i = Some name)"
proof -
  have st: "eg_store demo_stream_engine = demo_stream_store" by (simp add: demo_stream_engine_def)
  obtain r st' where run: "xack (ascii ''s'') (ascii ''g'') [StreamId 1 0] 0 (eg_store demo_stream_engine) = (r, st')" by fastforce
  obtain cg' where at: "stream_at st' (ascii ''s'') (with_group (ascii ''g'') cg' demo_stream)"
    by (rule xack_stream_at [OF demo_stream_facts(2,1,3) run [unfolded st]])
  have step: "stream_step\<^sup>*\<^sup>* demo_stream_engine (demo_stream_engine\<lparr>eg_store := st'\<rparr>)" using step_xack [OF run] by blast
  have view: "view_group (ascii ''s'') (ascii ''g'') 0 (eg_store (demo_stream_engine\<lparr>eg_store := st'\<rparr>)) =
      Inr (with_group (ascii ''g'') cg' demo_stream, cg')"
    using stream_at_view [OF at] by (simp add: view_group_Inr)
  show ?thesis using pending_entries_consistent [OF step _ view] step view st demo_stream_facts(2) by auto
qed

theorem reversed_range_aborts_witness:
  "xrange kr0 (ascii ''s'') (StreamId 5 0) (StreamId 3 0) None 0 demo_stream_store = Inl Panic"
proof -
  have "StreamId 3 0 < StreamId 5 0" by (simp add: less_stream_id_def)
  then show ?thesis using reversed_range_aborts [OF demo_stream_facts(4)] by blast
qed

text \<open>Without a journal a prepared change is simply applied.\<close>

lemma commit_prepared_memory:
  assumes "eg_accepting eg" and "\<not> poisoned eg" and "eg_journal eg = None"
    and "prepare (eg_store eg) = (Inr (cs, p), eg_store eg)" and "f p (eg_store eg) = (Inr x, st)" and "\<not> journal_poisoned st"
  shows "commit_prepared route prepare f io eg = (Inr (Inr x), eg\<lparr>eg_store := st\<rparr>)"
  using assms
  by (simp add: commit_prepared_def prepare_journaled_batch_def ensure_accepting_mutations_def ensure_journal_healthy_def
      apply_live_def commit_batch_def complete_def)

lemma demo_read:
  "\<exists>eg1. xreadgroup hc kr0 (ascii ''g'') (ascii ''d'') [ascii ''s''] [ascii ''>''] None False 0 0 io demo_stream_engine =
     (Inr [(ascii ''s'', [(StreamId 2 0, [(ascii ''f'', ascii ''y'')])])], eg1)"
proof -
  let ?st = demo_stream_store and ?res = "[(ascii ''s'', [(StreamId 2 0, [(ascii ''f'', ascii ''y'')])])]"
  let ?ef = "Deliver (ascii ''s'') (ascii ''g'') (Some (ascii ''d'')) (StreamId 2 0) [StreamId 2 0]"
  have plan: "plan_new kr0 (ascii ''g'') (ascii ''d'') (ascii ''s'') None False demo_stream demo_group = (?res, [?ef])"
    by (simp add: plan_new_def demo_stream_def demo_group_def bt_range_from_def next_id_def less_eq_stream_id_def take_loop_take
        decrypt_entries_def decrypt_stream_fields_def decrypt_stream_value_def kr0_def)
  have pre: "preview_xreadgroup hc kr0 (ascii ''g'') (ascii ''d'') [ascii ''s''] [ascii ''>''] None False 0 0 ?st = (Inr (?res, [?ef]), ?st)"
    using streams_wf_mem [OF demo_stream_facts(2)] stream_at_view [OF demo_stream_facts(1)] demo_stream_facts(3) plan
    by (simp add: plan_key_def)
  have "effect_valid 0 ?st ?ef" using demo_stream_facts(4) by (simp add: effect_valid_def)
  then obtain st' where app: "apply_effects 0 0 [?ef] ?st = (Inr (), st')" "journal_poisoned st' = journal_poisoned ?st"
    using apply_effects_result [OF demo_stream_facts(2) _ prod.collapse [symmetric], of "[?ef]" 0 0] by (metis (no_types, lifting) empty_iff empty_set prod.collapse set_ConsD)
  have "\<not> journal_poisoned ?st" by (simp add: demo_stream_store_def data_insert_def new_store_def)
  then show ?thesis unfolding xreadgroup_def
    by (subst commit_prepared_memory [where cs = "[effect_command ?ef]" and p = "(?res, [?ef])" and x = ?res and st = st'])
      (use app in \<open>simp_all add: demo_stream_engine_def demo_engine_def pre flatten_commit_def del: preview_xreadgroup.simps apply_effects.simps\<close>)
qed

theorem group_delivers_once_witness:
  "\<exists>eg' s' cg'. group_run (\<lambda>_. 0) kr0 (ascii ''s'') (ascii ''g'') demo_stream_engine [(StreamId 2 0, [(ascii ''f'', ascii ''y'')])] eg' \<and>
     stream_at (eg_store eg') (ascii ''s'') s' \<and> hm_get (st_groups s') (ascii ''g'') = Some cg' \<and>
     StreamId 1 0 \<le> cg_last_delivered_id cg'"
proof -
  let ?s = "ascii ''s''" and ?g = "ascii ''g''" and ?io = "\<lparr>ji_write = Written, ji_fsync = True, ji_rollback = RolledBack\<rparr>"
  obtain eg1 where read: "xreadgroup (\<lambda>_. 0) kr0 ?g (ascii ''d'') [?s] [ascii ''>''] None False 0 0 ?io demo_stream_engine =
      (Inr [(?s, [(StreamId 2 0, [(ascii ''f'', ascii ''y'')])])], eg1)"
    using demo_read by blast
  have run: "group_run (\<lambda>_. 0) kr0 ?s ?g demo_stream_engine [(StreamId 2 0, [(ascii ''f'', ascii ''y'')])] eg1"
    using group_run.run_read [OF read group_run.run_done] by simp
  have st: "eg_store demo_stream_engine = demo_stream_store" by (simp add: demo_stream_engine_def)
  obtain cg1 s1 where at: "stream_at (eg_store eg1) ?s s1" "st_entries s1 = st_entries demo_stream"
    using xreadgroup_same_entries [OF _ _ demo_stream_facts(3) read] demo_stream_facts(1,2) st by (metis with_group_simps(1))
  have seq: "sid_seq (cg_last_delivered_id demo_group) \<noteq> - 1" "\<forall>(i, fs) \<in> set (st_entries s1). sid_seq i \<noteq> - 1"
    by (simp_all add: at(2) demo_group_def demo_stream_def)
  show ?thesis
    using group_delivers_once [OF run _ _ demo_stream_facts(3) at(1) seq] run at(1) demo_stream_facts(1,2) st
    by (auto simp: demo_group_def)
qed

end
