(* ===== verification/Keyspace.thy ===== *)
theory Keyspace
  imports StoreKeys StoreHashes
begin

text \<open>
  The keyspace as a client sees it. Every command on one key keeps the contract of
  an operation on one key, so that any sequence of them, at any times, behaves like a
  sequence of updates of a map from keys to values with deadlines: the shards, the
  counters, the lazily removed expired entries and the in-place updates cannot be
  observed.
\<close>

section \<open>Commands\<close>

datatype keyed_cmd =
    CGet bytes | CStrlen bytes | CSet bytes bytes "duration option" | CSetNx bytes bytes | CGetSet bytes bytes
  | CIncr bytes int | CAppend bytes bytes | CGetDel bytes | CGetEx bytes "duration option" bool | CSetRange bytes nat bytes
  | CLPush bytes "bytes list" | CRPush bytes "bytes list" | CLPop bytes | CRPop bytes | CLRange bytes int int
  | CLSet bytes int bytes | CLInsert bytes bool bytes bytes | CLRem bytes int bytes | CLTrim bytes int int
  | CLPushX bytes "bytes list" | CRPushX bytes "bytes list"
  | CSAdd bytes "bytes list" | CSRem bytes "bytes list" | CSPop bytes nat | CSIsMember bytes bytes
  | CHSet bytes "(bytes \<times> bytes) list" int | CHDel bytes "bytes list" int | CHIncrBy bytes bytes int int
  | CHSetNx bytes bytes bytes | CHExpire bytes "bytes list" int hexpire_cond int | CHPersist bytes "bytes list" int
  | CDel bytes | CDelIfEq bytes bytes | CPExpire bytes nat | CPersist bytes | CPttl bytes

datatype reply =
    RUnit unit | RBool bool | RInt int | RBytes "bytes option" | RUnitR "unit result" | RBoolR "bool result"
  | RIntR "int result" | RBytesR "bytes list result" | RIntsR "int list result"

fun cmd_key :: "keyed_cmd \<Rightarrow> bytes" where
  "cmd_key (CGet k) = k" | "cmd_key (CStrlen k) = k" | "cmd_key (CSet k _ _) = k" | "cmd_key (CSetNx k _) = k"
| "cmd_key (CGetSet k _) = k" | "cmd_key (CIncr k _) = k" | "cmd_key (CAppend k _) = k" | "cmd_key (CGetDel k) = k"
| "cmd_key (CGetEx k _ _) = k" | "cmd_key (CSetRange k _ _) = k" | "cmd_key (CLPush k _) = k" | "cmd_key (CRPush k _) = k"
| "cmd_key (CLPop k) = k" | "cmd_key (CRPop k) = k" | "cmd_key (CLRange k _ _) = k" | "cmd_key (CLSet k _ _) = k"
| "cmd_key (CLInsert k _ _ _) = k" | "cmd_key (CLRem k _ _) = k" | "cmd_key (CLTrim k _ _) = k" | "cmd_key (CLPushX k _) = k"
| "cmd_key (CRPushX k _) = k" | "cmd_key (CSAdd k _) = k" | "cmd_key (CSRem k _) = k" | "cmd_key (CSPop k _) = k"
| "cmd_key (CSIsMember k _) = k" | "cmd_key (CHSet k _ _) = k" | "cmd_key (CHDel k _ _) = k" | "cmd_key (CHIncrBy k _ _ _) = k"
| "cmd_key (CHSetNx k _ _) = k" | "cmd_key (CHExpire k _ _ _ _) = k" | "cmd_key (CHPersist k _ _) = k" | "cmd_key (CDel k) = k"
| "cmd_key (CDelIfEq k _) = k" | "cmd_key (CPExpire k _) = k" | "cmd_key (CPersist k) = k" | "cmd_key (CPttl k) = k"

text \<open>
  Running a command on the store. The parameters are the cardinality estimate of a
  sketch and the clock reading of a promotion; the wall-clock readings of the hash
  commands are part of the command.
\<close>

fun run_cmd :: "(bytes \<Rightarrow> nat) \<Rightarrow> instant \<Rightarrow> keyed_cmd \<Rightarrow> instant \<Rightarrow> store \<Rightarrow> reply \<times> store" where
  "run_cmd hc u (CGet k) = (\<lambda>now st. map_prod RBytes id (store_get hc k now u st))"
| "run_cmd hc u (CStrlen k) = (\<lambda>now st. map_prod RInt id ((strlen k now st, st)))"
| "run_cmd hc u (CSet k v d) = (\<lambda>now st. map_prod RUnit id (((), store_set k v d now st)))"
| "run_cmd hc u (CSetNx k v) = (\<lambda>now st. map_prod RBool id (set_nx k v now st))"
| "run_cmd hc u (CGetSet k v) = (\<lambda>now st. map_prod RBytes id (get_set k v now st))"
| "run_cmd hc u (CIncr k n) = (\<lambda>now st. map_prod RIntR id (incr hc k n now u st))"
| "run_cmd hc u (CAppend k v) = (\<lambda>now st. map_prod RInt id (store_append k v now st))"
| "run_cmd hc u (CGetDel k) = (\<lambda>now st. map_prod RBytes id (getdel k now st))"
| "run_cmd hc u (CGetEx k d p) = (\<lambda>now st. map_prod RBytes id (getex k d p now st))"
| "run_cmd hc u (CSetRange k i v) = (\<lambda>now st. map_prod RIntR id (setrange k i v now st))"
| "run_cmd hc u (CLPush k vs) = (\<lambda>now st. map_prod RIntR id (lpush k vs now st))"
| "run_cmd hc u (CRPush k vs) = (\<lambda>now st. map_prod RIntR id (rpush k vs now st))"
| "run_cmd hc u (CLPop k) = (\<lambda>now st. map_prod RBytes id (lpop k now st))"
| "run_cmd hc u (CRPop k) = (\<lambda>now st. map_prod RBytes id (rpop k now st))"
| "run_cmd hc u (CLRange k a b) = (\<lambda>now st. map_prod RBytesR id ((lrange k a b now st, st)))"
| "run_cmd hc u (CLSet k i v) = (\<lambda>now st. map_prod RUnitR id (lset k i v now st))"
| "run_cmd hc u (CLInsert k b p v) = (\<lambda>now st. map_prod RIntR id (linsert k b p v now st))"
| "run_cmd hc u (CLRem k n v) = (\<lambda>now st. map_prod RIntR id (lrem k n v now st))"
| "run_cmd hc u (CLTrim k a b) = (\<lambda>now st. map_prod RUnitR id (ltrim k a b now st))"
| "run_cmd hc u (CLPushX k vs) = (\<lambda>now st. map_prod RInt id (lpushx k vs now st))"
| "run_cmd hc u (CRPushX k vs) = (\<lambda>now st. map_prod RInt id (rpushx k vs now st))"
| "run_cmd hc u (CSAdd k ms) = (\<lambda>now st. map_prod RIntR id (sadd hc k ms now u st))"
| "run_cmd hc u (CSRem k ms) = (\<lambda>now st. map_prod RIntR id (srem hc k ms now u st))"
| "run_cmd hc u (CSPop k n) = (\<lambda>now st. map_prod RBytesR id (spop_on_shard k n now st))"
| "run_cmd hc u (CSIsMember k m) = (\<lambda>now st. map_prod RBoolR id ((sismember k m now st, st)))"
| "run_cmd hc u (CHSet k ps t) = (\<lambda>now st. map_prod RIntR id (hset hc k ps t now u st))"
| "run_cmd hc u (CHDel k fs t) = (\<lambda>now st. map_prod RIntR id (hdel hc k fs t now u st))"
| "run_cmd hc u (CHIncrBy k f d t) = (\<lambda>now st. map_prod RIntR id (hincrby k f d t now st))"
| "run_cmd hc u (CHSetNx k f v) = (\<lambda>now st. map_prod RBoolR id (hsetnx k f v now st))"
| "run_cmd hc u (CHExpire k fs x c t) = (\<lambda>now st. map_prod RIntsR id (hexpire_fields k fs x c t now st))"
| "run_cmd hc u (CHPersist k fs t) = (\<lambda>now st. map_prod RIntsR id (hpersist_fields k fs t now st))"
| "run_cmd hc u (CDel k) = (\<lambda>now st. map_prod RInt id (del [k] now st))"
| "run_cmd hc u (CDelIfEq k v) = (\<lambda>now st. map_prod RBoolR id (delifeq k v now st))"
| "run_cmd hc u (CPExpire k ms) = (\<lambda>now st. map_prod RBool id (pexpire k ms now st))"
| "run_cmd hc u (CPersist k) = (\<lambda>now st. map_prod RBool id (persist k now st))"
| "run_cmd hc u (CPttl k) = (\<lambda>now st. map_prod RInt id ((pttl k now st, st)))"

section \<open>The map a client sees\<close>

definition slot_strlen :: "slot \<Rightarrow> int" where
  "slot_strlen s = (case slot_string s of None \<Rightarrow> 0 | Some b \<Rightarrow> int (length b))"

definition slot_lrange :: "int \<Rightarrow> int \<Rightarrow> slot \<Rightarrow> bytes list result" where
  "slot_lrange a b s =
     (case s of
        None \<Rightarrow> Inr []
      | Some (List l, _) \<Rightarrow>
          (let i = range_from (int (length l)) a; j = range_to (int (length l)) b in
           if i \<ge> j then Inr [] else if (j - i) * 32 > nat i64_max then Inl Panic else Inr (take (j - i) (drop i l)))
      | Some _ \<Rightarrow> Inl (Err WRONGTYPE))"

definition slot_sismember :: "bytes \<Rightarrow> slot \<Rightarrow> bool result" where
  "slot_sismember m s =
     (case s of
        None \<Rightarrow> Inr False
      | Some (Set d, _) \<Rightarrow> Inr (set_contains (key_str m) d)
      | Some _ \<Rightarrow> Inl (Err WRONGTYPE))"

definition slot_pttl :: "instant \<Rightarrow> slot \<Rightarrow> int" where
  "slot_pttl now s =
     (case s of
        None \<Rightarrow> - 2
      | Some (_, None) \<Rightarrow> - 1
      | Some (_, Some x) \<Rightarrow> wrap_i64 (int (as_millis (x - now))))"

fun cmd_spec :: "keyed_cmd \<Rightarrow> instant \<Rightarrow> slot \<Rightarrow> reply \<times> slot" where
  "cmd_spec (CGet k) = (\<lambda>now s. map_prod RBytes id ((slot_string s, s)))"
| "cmd_spec (CStrlen k) = (\<lambda>now s. map_prod RInt id ((slot_strlen s, s)))"
| "cmd_spec (CSet k v d) = (\<lambda>now s. map_prod RUnit id (set_spec v d now s))"
| "cmd_spec (CSetNx k v) = (\<lambda>now s. map_prod RBool id (set_nx_spec v now s))"
| "cmd_spec (CGetSet k v) = (\<lambda>now s. map_prod RBytes id (get_set_spec v now s))"
| "cmd_spec (CIncr k n) = (\<lambda>now s. map_prod RIntR id (incr_spec n now s))"
| "cmd_spec (CAppend k v) = (\<lambda>now s. map_prod RInt id (append_spec v now s))"
| "cmd_spec (CGetDel k) = (\<lambda>now s. map_prod RBytes id (getdel_spec now s))"
| "cmd_spec (CGetEx k d p) = (\<lambda>now s. map_prod RBytes id (getex_spec d p now s))"
| "cmd_spec (CSetRange k i v) = (\<lambda>now s. map_prod RIntR id (setrange_spec i v now s))"
| "cmd_spec (CLPush k vs) = (\<lambda>now s. map_prod RIntR id (push_spec (push_front_all vs) now s))"
| "cmd_spec (CRPush k vs) = (\<lambda>now s. map_prod RIntR id (push_spec (push_back_all vs) now s))"
| "cmd_spec (CLPop k) = (\<lambda>now s. map_prod RBytes id (pop_spec True now s))"
| "cmd_spec (CRPop k) = (\<lambda>now s. map_prod RBytes id (pop_spec False now s))"
| "cmd_spec (CLRange k a b) = (\<lambda>now s. map_prod RBytesR id ((slot_lrange a b s, s)))"
| "cmd_spec (CLSet k i v) = (\<lambda>now s. map_prod RUnitR id (on_list (Inl (Err ''ERR no such key'')) (Inl (Err WRONGTYPE)) (lset_spec i v) now s))"
| "cmd_spec (CLInsert k b p v) = (\<lambda>now s. map_prod RIntR id (on_list (Inr 0) (Inl (Err WRONGTYPE)) (linsert_spec b p v) now s))"
| "cmd_spec (CLRem k n v) = (\<lambda>now s. map_prod RIntR id (on_list (Inr 0) (Inl (Err WRONGTYPE)) (lrem_spec n v) now s))"
| "cmd_spec (CLTrim k a b) = (\<lambda>now s. map_prod RUnitR id (on_list (Inr ()) (Inl (Err WRONGTYPE)) (ltrim_spec a b) now s))"
| "cmd_spec (CLPushX k vs) = (\<lambda>now s. map_prod RInt id (on_list 0 0 (pushx_spec (push_front_all vs)) now s))"
| "cmd_spec (CRPushX k vs) = (\<lambda>now s. map_prod RInt id (on_list 0 0 (pushx_spec (push_back_all vs)) now s))"
| "cmd_spec (CSAdd k ms) = (\<lambda>now s. map_prod RIntR id (sadd_spec ms now s))"
| "cmd_spec (CSRem k ms) = (\<lambda>now s. map_prod RIntR id (srem_spec ms now s))"
| "cmd_spec (CSPop k n) = (\<lambda>now s. map_prod RBytesR id (spop_spec n now s))"
| "cmd_spec (CSIsMember k m) = (\<lambda>now s. map_prod RBoolR id ((slot_sismember m s, s)))"
| "cmd_spec (CHSet k ps t) = (\<lambda>now s. map_prod RIntR id (upsert_hash_spec (hset_fields ps t) now s))"
| "cmd_spec (CHDel k fs t) = (\<lambda>now s. map_prod RIntR id (modify_hash_spec True 0 (hdel_loop fs t 0 0) now s))"
| "cmd_spec (CHIncrBy k f d t) = (\<lambda>now s. map_prod RIntR id (upsert_hash_spec (hincrby_field f d t) now s))"
| "cmd_spec (CHSetNx k f v) = (\<lambda>now s. map_prod RBoolR id (upsert_hash_spec (hsetnx_field f v) now s))"
| "cmd_spec (CHExpire k fs x c t) = (\<lambda>now s. map_prod RIntsR id (modify_hash_spec True (map (\<lambda>_. - 2) fs) (\<lambda>h. hexpire_loop fs x c t 0 (snd (purge_expired t h))) now s))"
| "cmd_spec (CHPersist k fs t) = (\<lambda>now s. map_prod RIntsR id (modify_hash_spec False (map (\<lambda>_. - 2) fs)
       (\<lambda>h. case hpersist_loop fs (snd (purge_expired t h)) of (rs, h) \<Rightarrow> ((rs, 0 :: nat), h)) now s))"
| "cmd_spec (CDel k) = (\<lambda>now s. map_prod RInt id (del_spec now s))"
| "cmd_spec (CDelIfEq k v) = (\<lambda>now s. map_prod RBoolR id (delifeq_spec v now s))"
| "cmd_spec (CPExpire k ms) = (\<lambda>now s. map_prod RBool id (pexpire_spec ms now s))"
| "cmd_spec (CPersist k) = (\<lambda>now s. map_prod RBool id (persist_spec now s))"
| "cmd_spec (CPttl k) = (\<lambda>now s. map_prod RInt id ((slot_pttl now s, s)))"

interpretation get_op: counted_op "\<lambda>now st. store_get hc k now u st" k "\<lambda>now s. (slot_string s, s)" for hc k u
  by (rule reader_op)
    (auto simp: store_get_def get_checked_def get_from_shard_view split: option.splits)

interpretation strlen_op: counted_op "\<lambda>now st. (strlen k now st, st)" k "\<lambda>now s. (slot_strlen s, s)" for k
  by (rule reader_op) (auto simp: strlen_def slot_strlen_def slot_string_def view_def split: option.splits)

interpretation lrange_op: counted_op "\<lambda>now st. (lrange k a b now st, st)" k "\<lambda>now s. (slot_lrange a b s, s)" for k a b
  by (rule reader_op)
    (auto simp: lrange_def slot_lrange_def live_list_def view_def split: option.splits store_value.splits)

interpretation sismember_op: counted_op "\<lambda>now st. (sismember k m now st, st)" k "\<lambda>now s. (slot_sismember m s, s)" for k m
  by (rule reader_op)
    (auto simp: sismember_def slot_sismember_def view_set_view split: option.splits store_value.splits)

interpretation pttl_op: counted_op "\<lambda>now st. (pttl k now st, st)" k "\<lambda>now s. (slot_pttl now s, s)" for k
  by (rule reader_op) (auto simp: pttl_def slot_pttl_def view_def is_expired_at_def split: option.splits)

lemmas cmd_ops =
  get_op.counted_op_axioms
  strlen_op.counted_op_axioms
  set_op.counted_op_axioms
  set_nx_op.counted_op_axioms
  get_set_op.counted_op_axioms
  incr_op.counted_op_axioms
  append_op.counted_op_axioms
  getdel_op.counted_op_axioms
  getex_op.counted_op_axioms
  setrange_op.counted_op_axioms
  lpush_op.counted_op_axioms
  rpush_op.counted_op_axioms
  lpop_op.counted_op_axioms
  rpop_op.counted_op_axioms
  lrange_op.counted_op_axioms
  lset_op.counted_op_axioms
  linsert_op.counted_op_axioms
  lrem_op.counted_op_axioms
  ltrim_op.counted_op_axioms
  lpushx_op.counted_op_axioms
  rpushx_op.counted_op_axioms
  sadd_op.counted_op_axioms
  srem_op.counted_op_axioms
  spop_op.counted_op_axioms
  sismember_op.counted_op_axioms
  hset_op.counted_op_axioms
  hdel_op.counted_op_axioms
  hincrby_op.counted_op_axioms
  hsetnx_op.counted_op_axioms
  hexpire_op.counted_op_axioms
  hpersist_op.counted_op_axioms
  del_op.counted_op_axioms
  delifeq_op.counted_op_axioms
  pexpire_op.counted_op_axioms
  persist_op.counted_op_axioms
  pttl_op.counted_op_axioms

interpretation keyspace: command_set "run_cmd hc u" cmd_key cmd_spec for hc u
proof (rule command_set.intro)
  fix c
  note ops = cmd_ops [THEN counted_op_map]
  show "counted_op (run_cmd hc u c) (cmd_key c) (cmd_spec c)"
    by (cases c) (simp_all add: ops del: map_prod_simp)
qed

text \<open>
  Claim C2. The keyspace is a map. Running any sequence of the commands on single
  keys, at non-decreasing times and from any well-formed store in memory mode, gives
  exactly the replies of the corresponding updates of a map from keys to values with
  deadlines, in which a key disappears when its deadline has passed, and ends in the
  map that the store then shows; the number of keys stays exact.
\<close>

theorem store_refines_map:
  assumes "mem_wf st" and "timed t cs" and "run_all (run_cmd hc u) cs st = (rs, st')"
  shows "mem_wf st' \<and> spec_all cmd_key cmd_spec cs (view st t) = (rs, view st' (end_time t cs)) \<and>
    (keys_exact st \<longrightarrow> keys_exact st')"
  using keyspace.run_all_refines [OF assms] keyspace.run_all_keys [OF assms(1) _ assms(3)] by blast

text \<open>
  Claim C34. Commands on different keys commute: in either order they give the same
  replies and leave the same keyspace, so the shards may execute them concurrently.
\<close>

theorem commands_commute:
  assumes "mem_wf st" and "cmd_key c1 \<noteq> cmd_key c2"
    and "run_all (run_cmd hc u) [(now, c1), (now, c2)] st = ([r1, r2], st12)"
    and "run_all (run_cmd hc u) [(now, c2), (now, c1)] st = ([s2, s1], st21)"
  shows "s1 = r1 \<and> s2 = r2 \<and> view st21 now = view st12 now"
  by (rule keyspace.run_commute [OF assms])

section \<open>Types\<close>

text \<open>
  The type of value a command works on; \<open>None\<close> for the commands on keys of any type,
  \<open>getex\<close> among them (it moves the deadline of a key of any type).
\<close>

fun cmd_type :: "keyed_cmd \<Rightarrow> string option" where
  "cmd_type (CGet _) = Some ''string''" | "cmd_type (CStrlen _) = Some ''string''" | "cmd_type (CSet _ _ _) = Some ''string''"
| "cmd_type (CSetNx _ _) = Some ''string''" | "cmd_type (CGetSet _ _) = Some ''string''" | "cmd_type (CIncr _ _) = Some ''string''"
| "cmd_type (CAppend _ _) = Some ''string''" | "cmd_type (CGetDel _) = Some ''string''" | "cmd_type (CSetRange _ _ _) = Some ''string''"
| "cmd_type (CDelIfEq _ _) = Some ''string''"
| "cmd_type (CLPush _ _) = Some ''list''" | "cmd_type (CRPush _ _) = Some ''list''" | "cmd_type (CLPop _) = Some ''list''"
| "cmd_type (CRPop _) = Some ''list''" | "cmd_type (CLRange _ _ _) = Some ''list''" | "cmd_type (CLSet _ _ _) = Some ''list''"
| "cmd_type (CLInsert _ _ _ _) = Some ''list''" | "cmd_type (CLRem _ _ _) = Some ''list''" | "cmd_type (CLTrim _ _ _) = Some ''list''"
| "cmd_type (CLPushX _ _) = Some ''list''" | "cmd_type (CRPushX _ _) = Some ''list''"
| "cmd_type (CSAdd _ _) = Some ''set''" | "cmd_type (CSRem _ _) = Some ''set''" | "cmd_type (CSPop _ _) = Some ''set''"
| "cmd_type (CSIsMember _ _) = Some ''set''"
| "cmd_type (CHSet _ _ _) = Some ''hash''" | "cmd_type (CHDel _ _ _) = Some ''hash''" | "cmd_type (CHIncrBy _ _ _ _) = Some ''hash''"
| "cmd_type (CHSetNx _ _ _) = Some ''hash''" | "cmd_type (CHExpire _ _ _ _ _) = Some ''hash''" | "cmd_type (CHPersist _ _ _) = Some ''hash''"
| "cmd_type _ = None"

text \<open>The commands that replace a value of any type.\<close>

fun overwrites :: "keyed_cmd \<Rightarrow> bool" where
  "overwrites (CSet _ _ _) = True"
| "overwrites (CGetSet _ _) = True"
| "overwrites (CAppend _ _) = True"
| "overwrites _ = False"

text \<open>The replies of a command on a value of another type: the type error, or nothing.\<close>

fun refusal :: "reply \<Rightarrow> bool" where
  "refusal (RUnit _) = False"
| "refusal (RBool b) = (\<not> b)"
| "refusal (RInt n) = (n = 0)"
| "refusal (RBytes b) = (b = None)"
| "refusal (RUnitR r) = (r = Inl (Err WRONGTYPE))"
| "refusal (RBoolR r) = (r = Inl (Err WRONGTYPE))"
| "refusal (RIntR r) = (r = Inl (Err WRONGTYPE))"
| "refusal (RBytesR r) = (r = Inl (Err WRONGTYPE) \<or> r = Inr [])"
| "refusal (RIntsR r) = (r = Inl (Err WRONGTYPE))"

lemmas slot_specs = set_spec_def set_nx_spec_def get_set_spec_def incr_spec_def append_spec_def getdel_spec_def
  getex_spec_def setrange_spec_def push_spec_def pop_spec_def on_list_def sadd_spec_def srem_spec_def spop_spec_def
  upsert_hash_spec_def modify_hash_spec_def del_spec_def delifeq_spec_def pexpire_spec_def persist_spec_def
  slot_string_def slot_strlen_def slot_lrange_def slot_sismember_def slot_value_def

lemma cmd_spec_other_type:
  assumes "cmd_type c = Some ty" and "\<not> overwrites c" and "type_name v \<noteq> ty"
  shows "snd (cmd_spec c now (Some (v, x))) = Some (v, x) \<and> refusal (fst (cmd_spec c now (Some (v, x))))"
  using assms by (cases c; cases v) (simp_all add: slot_specs type_name_def)

lemma cmd_spec_types:
  assumes "snd (cmd_spec c now s) = Some (v', x')" and "\<not> overwrites c"
  shows "case s of Some (v, _) \<Rightarrow> type_name v' = type_name v | None \<Rightarrow> cmd_type c = Some (type_name v')"
proof (cases s)
  case None
  with assms show ?thesis
    by (cases c) (auto simp: slot_specs type_name_def split: if_splits prod.splits)
next
  case (Some p)
  obtain v x where p: "p = (v, x)" by (cases p)
  with Some assms show ?thesis
    by (cases c; cases v)
      (auto simp: slot_specs type_name_def split: if_splits prod.splits option.splits sum.splits)
qed


section \<open>Examples\<close>

text \<open>A key set with a time to live of 5 is counted up at 3 and gone at 9.\<close>

definition demo_cmds :: "(instant \<times> keyed_cmd) list" where
  "demo_cmds = [(1, CSet (ascii ''a'') (ascii ''41'') (Some 5)), (3, CIncr (ascii ''a'') 1), (9, CGet (ascii ''a''))]"

theorem store_refines_map_witness:
  "\<exists>rs st'. run_all (run_cmd (\<lambda>_. 0) 0) demo_cmds (demo_store []) = (rs, st') \<and>
     rs = [RUnit (), RIntR (Inr 42), RBytes None] \<and> keys_exact st'"
proof -
  obtain rs st' where run: "run_all (run_cmd (\<lambda>_. 0) 0) demo_cmds (demo_store []) = (rs, st')" by fastforce
  have wf: "mem_wf (demo_store [])" "keys_exact (demo_store [])" "timed 0 demo_cmds"
    using demo_store_wf [of "[]"] new_store_exact(1) [of 2 None] by (simp_all add: demo_cmds_def)
  have valid: "utf8_valid (ascii ''41'')" by (rule utf8_valid_ascii) (simp add: ascii_def)
  have parse: "parse_i64 (ascii ''41'') = Some 41"
    by (simp add: parse_i64_def ascii_def is_digit_def digit_val_def checked_i64_def is_i64_def i64_min_def i64_max_def)
  have "fst (spec_all cmd_key cmd_spec demo_cmds (view (demo_store []) 0)) = [RUnit (), RIntR (Inr 42), RBytes None]"
    using valid parse
    by (simp add: demo_cmds_def set_spec_def incr_spec_def age_def slot_string_def is_i64_def i64_min_def i64_max_def Let_def)
  then show ?thesis using store_refines_map [OF wf(1,3) run] wf(2) run by simp
qed

theorem commands_commute_witness:
  "\<exists>r1 r2 st12 s1 s2 st21.
     run_all (run_cmd (\<lambda>_. 0) 0) [(1, CSet (ascii ''a'') [1] None), (1, CLPush (ascii ''b'') [[2]])] (demo_store []) = ([r1, r2], st12) \<and>
     run_all (run_cmd (\<lambda>_. 0) 0) [(1, CLPush (ascii ''b'') [[2]]), (1, CSet (ascii ''a'') [1] None)] (demo_store []) = ([s2, s1], st21) \<and>
     s1 = r1 \<and> s2 = r2 \<and> view st21 1 = view st12 1"
proof -
  let ?a = "CSet (ascii ''a'') [1] None" and ?b = "CLPush (ascii ''b'') [[2]]" and ?run = "run_all (run_cmd (\<lambda>_. 0) 0)"
  have two: "\<exists>r r' st. ?run [(1, c), (1, c')] (demo_store []) = ([r, r'], st)" for c c'
    by (simp add: split_def)
  obtain r1 r2 st12 where ab: "?run [(1, ?a), (1, ?b)] (demo_store []) = ([r1, r2], st12)" using two by blast
  obtain s1 s2 st21 where ba: "?run [(1, ?b), (1, ?a)] (demo_store []) = ([s2, s1], st21)" using two by blast
  have "cmd_key ?a \<noteq> cmd_key ?b" by (simp add: ascii_def)
  with commands_commute [OF _ this ab ba] demo_store_wf [of "[]"] ab ba show ?thesis by auto
qed


end
