(* ===== verification/Eviction.thy ===== *)
theory Eviction
  imports JournalCommit
begin

text \<open>
  Memory pressure (\<^verbatim>\<open>src/src/eviction.rs\<close>): the choice of a victim by approximate
  recency or by position, its eviction (to the disk tier, or as a journaled deletion
  in memory mode), and the loop that runs before a write. What the disk, the journal
  and the clock do in each round is an input. The loop has no bound of its own in
  tiered mode, so it is a partial function and that it returns is a theorem.
\<close>

section \<open>Configuration\<close>

datatype eviction_policy = NoEviction | AllKeysLru | VolatileLru | AllKeysRandom | VolatileRandom

record eviction_config =
  ec_max_memory :: nat
  ec_policy :: eviction_policy
  ec_sample_size :: nat

definition eviction_config_default :: eviction_config where
  "eviction_config_default = \<lparr>ec_max_memory = 0, ec_policy = NoEviction, ec_sample_size = 5\<rparr>"

definition eviction_enabled :: "eviction_config \<Rightarrow> bool" where
  "eviction_enabled cfg \<longleftrightarrow> ec_max_memory cfg > 0"

record evict_env =
  ev_now :: instant
  ev_disk :: write_outcome
  ev_compaction :: "replace_outcome option"
  ev_journal :: journal_io

section \<open>Choosing a victim\<close>

definition evictable :: "bool \<Rightarrow> bool \<Rightarrow> bytes \<Rightarrow> entry \<Rightarrow> bool" where
  "evictable volatile_only protect_tables key e \<longleftrightarrow>
     \<not> (volatile_only \<and> en_expires_at e = None) \<and> \<not> is_vector (en_value e) \<and>
     \<not> (protect_tables \<and> is_table_storage_key key)"

fun lru_scan :: "nat \<Rightarrow> bool \<Rightarrow> bool \<Rightarrow> (bytes \<times> entry) list \<Rightarrow> nat \<Rightarrow> bytes option \<Rightarrow> u32 \<Rightarrow> nat \<times> bytes option" where
  "lru_scan sample_size volatile_only protect_tables [] sampled best_key best_clock = (sampled, best_key)"
| "lru_scan sample_size volatile_only protect_tables ((key, e) # es) sampled best_key best_clock =
     (if sampled \<ge> sample_size then (sampled, best_key)
      else if \<not> evictable volatile_only protect_tables key e then
        lru_scan sample_size volatile_only protect_tables es sampled best_key best_clock
      else if en_lru_clock e < best_clock then
        lru_scan sample_size volatile_only protect_tables es (sampled + 1) (Some key) (en_lru_clock e)
      else lru_scan sample_size volatile_only protect_tables es (sampled + 1) best_key best_clock)"

fun lru_shards :: "nat \<Rightarrow> bool \<Rightarrow> nat \<Rightarrow> nat list \<Rightarrow> store \<Rightarrow> (nat \<times> bytes) option" where
  "lru_shards sample_size volatile_only start_shard [] st = None"
| "lru_shards sample_size volatile_only start_shard (offset # offsets) st =
     (let shard_idx = (start_shard + offset) mod length (shards st);
          es = sh_data (shards st ! shard_idx)
      in if es = [] then lru_shards sample_size volatile_only start_shard offsets st
         else case lru_scan sample_size volatile_only (\<not> is_tiered st) es 0 None (- 1) of
           (sampled, best_key) \<Rightarrow>
             if sampled > 0 then map_option (\<lambda>k. (shard_idx, k)) best_key
             else lru_shards sample_size volatile_only start_shard offsets st)"

fun random_shards :: "bool \<Rightarrow> nat \<Rightarrow> nat list \<Rightarrow> store \<Rightarrow> (nat \<times> bytes) option" where
  "random_shards volatile_only start_shard [] st = None"
| "random_shards volatile_only start_shard (offset # offsets) st =
     (let shard_idx = (start_shard + offset) mod length (shards st);
          es = sh_data (shards st ! shard_idx)
      in if es = [] then random_shards volatile_only start_shard offsets st
         else case find (\<lambda>(k, e). evictable volatile_only (\<not> is_tiered st) k e) es of
           Some (k, _) \<Rightarrow> Some (shard_idx, k)
         | None \<Rightarrow> random_shards volatile_only start_shard offsets st)"

section \<open>Evicting\<close>

definition evict_selected_key ::
    "(bytes \<Rightarrow> nat) \<Rightarrow> nat \<Rightarrow> bytes \<Rightarrow> evict_env \<Rightarrow> engine \<Rightarrow> bool result \<times> engine" where
  "evict_selected_key hll_count shard_idx key env eg =
     (if is_tiered (eg_store eg) then
        map_prod Inr id (apply_live (evict_key hll_count shard_idx key (ev_now env) (ev_disk env) (ev_compaction env)) eg)
      else
        commit_journaled [ascii ''DEL'', key]
          (evict_key hll_count shard_idx key (ev_now env) (ev_disk env) (ev_compaction env)) (ev_journal env) eg)"

definition evict_lru :: "(bytes \<Rightarrow> nat) \<Rightarrow> nat \<Rightarrow> bool \<Rightarrow> evict_env \<Rightarrow> engine \<Rightarrow> bool result \<times> engine" where
  "evict_lru hll_count sample_size volatile_only env eg =
     (let st = eg_store eg; n = length (shards st) in
      case lru_shards sample_size volatile_only (used_memory st mod n) [0..<n] st of
        Some (shard_idx, key) \<Rightarrow> evict_selected_key hll_count shard_idx key env eg
      | None \<Rightarrow> (Inr False, eg))"

definition evict_random :: "(bytes \<Rightarrow> nat) \<Rightarrow> bool \<Rightarrow> evict_env \<Rightarrow> engine \<Rightarrow> bool result \<times> engine" where
  "evict_random hll_count volatile_only env eg =
     (let st = eg_store eg; n = length (shards st) in
      case random_shards volatile_only (used_memory st mod n) [0..<n] st of
        Some (shard_idx, key) \<Rightarrow> evict_selected_key hll_count shard_idx key env eg
      | None \<Rightarrow> (Inr False, eg))"

definition evict_one :: "(bytes \<Rightarrow> nat) \<Rightarrow> eviction_config \<Rightarrow> evict_env \<Rightarrow> engine \<Rightarrow> bool result \<times> engine" where
  "evict_one hll_count cfg env eg =
     (case ec_policy cfg of
        AllKeysLru \<Rightarrow> evict_lru hll_count (ec_sample_size cfg) False env eg
      | VolatileLru \<Rightarrow> evict_lru hll_count (ec_sample_size cfg) True env eg
      | AllKeysRandom \<Rightarrow> evict_random hll_count False env eg
      | VolatileRandom \<Rightarrow> evict_random hll_count True env eg
      | NoEviction \<Rightarrow> (Inr False, eg))"

definition OOM :: failure where
  "OOM = Err (''OOM command not allowed when used memory > '' @ [CHR 0x27] @ ''maxmemory'' @ [CHR 0x27])"

partial_function (option) evict_loop ::
    "(bytes \<Rightarrow> nat) \<Rightarrow> eviction_config \<Rightarrow> (nat \<Rightarrow> evict_env) \<Rightarrow> bool \<Rightarrow> nat \<Rightarrow> engine \<Rightarrow> (unit result \<times> engine) option" where
  "evict_loop hll_count cfg env tiered iterations eg =
     (if used_memory (eg_store eg) > ec_max_memory cfg then
        if \<not> tiered \<and> iterations + 1 > 128 then Some (Inl OOM, eg)
        else
          let evicted = evict_one hll_count cfg (env iterations) eg in
          if fst evicted = Inr True then evict_loop hll_count cfg env tiered (iterations + 1) (snd evicted)
          else
            Some (case fst evicted of
                Inl e \<Rightarrow> Inl (Err ''ERR WAL append failed'')
              | Inr _ \<Rightarrow> if tiered then Inr () else Inl OOM, snd evicted)
      else Some (Inr (), eg))"

definition evict_if_needed ::
    "(bytes \<Rightarrow> nat) \<Rightarrow> eviction_config \<Rightarrow> bool \<Rightarrow> (nat \<Rightarrow> evict_env) \<Rightarrow> engine \<Rightarrow> (unit result \<times> engine) option" where
  "evict_if_needed hll_count cfg replaying env eg =
     (if \<not> eviction_enabled cfg then Some (Inr (), eg)
      else if replaying then Some (Inr (), eg)
      else evict_loop hll_count cfg env (is_tiered (eg_store eg)) 0 eg)"

section \<open>The victim\<close>

definition victim :: "bool \<Rightarrow> store \<Rightarrow> nat \<Rightarrow> bytes \<Rightarrow> bool" where
  "victim volatile_only st i key \<longleftrightarrow> i < length (shards st) \<and>
     (\<exists>e. (key, e) \<in> set (sh_data (shards st ! i)) \<and> evictable volatile_only (\<not> is_tiered st) key e)"

lemma lru_scan_result:
  assumes "lru_scan n vol prot es sampled best clock = (sampled', Some k)" and "best \<noteq> Some k"
  shows "\<exists>e. (k, e) \<in> set es \<and> evictable vol prot k e"
  using assms
proof (induction es arbitrary: sampled best clock)
  case (Cons p es)
  obtain key e where p: "p = (key, e)" by (cases p)
  show ?case
  proof (cases "\<exists>s b c. lru_scan n vol prot es s b c = (sampled', Some k) \<and> b \<noteq> Some k")
    case True
    then show ?thesis using Cons.IH by fastforce
  next
    case False
    then show ?thesis using Cons.prems by (auto simp: p split: if_splits)
  qed
qed simp

lemma lru_shards_victim:
  "shards st \<noteq> [] \<Longrightarrow> lru_shards n vol start offsets st = Some (i, k) \<Longrightarrow> victim vol st i k"
proof (induction offsets)
  case (Cons offset offsets)
  let ?i = "(start + offset) mod length (shards st)"
  have i: "?i < length (shards st)" using Cons.prems(1) by simp
  obtain sampled best where s: "lru_scan n vol (\<not> is_tiered st) (sh_data (shards st ! ?i)) 0 None (- 1) = (sampled, best)"
    by fastforce
  show ?case
  proof (cases "sh_data (shards st ! ?i) \<noteq> [] \<and> sampled > 0")
    case True
    then have "best = Some k" "i = ?i" using Cons.prems(2) s by (auto simp: Let_def)
    then show ?thesis using lru_scan_result [of n vol "\<not> is_tiered st" _ 0 None "- 1" sampled k] s i by (auto simp: victim_def)
  next
    case False
    then show ?thesis using Cons s by (auto simp: Let_def split: if_splits)
  qed
qed simp

lemma random_shards_victim:
  "shards st \<noteq> [] \<Longrightarrow> random_shards vol start offsets st = Some (i, k) \<Longrightarrow> victim vol st i k"
proof (induction offsets)
  case (Cons offset offsets)
  let ?i = "(start + offset) mod length (shards st)"
  have i: "?i < length (shards st)" using Cons.prems(1) by simp
  show ?case using Cons i
    by (auto simp: Let_def victim_def find_Some_iff in_set_conv_nth split: if_splits option.splits) (metis nth_mem)
qed simp

section \<open>The effect of an eviction\<close>

lemma drop_evicted_fields [simp]:
  "journal_poisoned (drop_evicted i k m st) = journal_poisoned st"
  "length (shards (drop_evicted i k m st)) = length (shards st)"
  by (simp_all add: drop_evicted_def Let_def mem_sub_def key_removed_def)

lemma total_keys_cong: "datas st' = datas st \<Longrightarrow> total_keys st' = total_keys st"
  unfolding total_keys_def by (rule store_sum_cong)

lemma evict_key_effect:
  assumes "store_wf st" and "i < length (shards st)" and "(key, e) \<in> set (sh_data (shards st ! i))"
    and "evict_key hc i key now io compaction st = (evicted, st')"
  shows "store_wf st' \<and> is_tiered st' = is_tiered st \<and>
    data_get st' = (if evicted then (data_get st)(key := None) else data_get st) \<and>
    (if evicted then total_keys st' + 1 = total_keys st else total_keys st' = total_keys st)"
proof -
  have pl: "placed st i" using assms(1,2) by (simp add: store_wf_def)
  then have get: "hm_get (sh_data (shards st ! i)) key = Some e" using assms(3) by (simp add: placed_def hm_get_Some_iff)
  then have i: "i = shard_index st key" using pl by (simp add: placed_def)
  have dg: "data_get st key = Some e" using get by (simp add: data_get_def shard_at_def i)
  have drop: "store_wf (drop_evicted i key m st1) \<and> data_get (drop_evicted i key m st1) = (data_get st)(key := None) \<and>
      total_keys (drop_evicted i key m st1) + 1 = total_keys st"
    if "datas st1 = datas st" "store_wf st1" for m st1
  proof -
    have i1: "i = shard_index st1 key" using that(1) i by (simp add: shard_index_datas)
    have g1: "data_get st1 = data_get st" using data_get_cong [OF that(1)] by auto
    have "total_keys (drop_evicted i key m st1) = total_keys (data_remove key st1)"
      by (rule total_keys_cong) (simp add: i1 drop_evicted_datas)
    moreover have "total_keys st1 = total_keys st" using that(1) by (rule total_keys_cong)
    ultimately show ?thesis
      using that(2) g1 dg total_keys_remove [OF that(2), of key] by (auto simp: i1 fun_eq_iff)
  qed
  show ?thesis
  proof (cases "disk_shards st")
    case None
    then have "evicted" "st' = drop_evicted i key (estimate_entry_memory key (en_value e)) st"
      using assms(4) get by (simp_all add: evict_key_def Let_def)
    then show ?thesis using drop [OF refl assms(1)] by (simp add: is_tiered_def)
  next
    case (Some ds)
    let ?ks = "key_string key" and ?d = "disk_at ds key"
    let ?dump = "entry_to_dump ?ks (en_value e) (evicted_ttl_ms e now)"
    obtain r d1 where p: "ds_put ?ks ?dump now io ?d = (r, d1)" by fastforce
    have t: "is_tiered (set_disk key d st)" for d using Some by (simp add: is_tiered_def set_disk_def)
    consider "is_vector (en_value e)" | err where "\<not> is_vector (en_value e)" "r = Inl err" | "\<not> is_vector (en_value e)" "r = Inr ()"
      by (cases r) auto
    then show ?thesis
    proof cases
      case 1
      then show ?thesis using assms(1,4) get Some by (simp add: evict_key_def Let_def)
    next
      case 2
      then have "\<not> evicted" "st' = record_disk_write_error (set_disk key d1 st)"
        using assms(4) get Some p by (simp_all add: evict_key_def Let_def)
      moreover have "total_keys (record_disk_write_error (set_disk key d1 st)) = total_keys st" by (rule total_keys_cong) simp
      ultimately show ?thesis using assms(1) Some by (simp add: is_tiered_def disk_shards_set_disk)
    next
      case 3
      then obtain d2 where "evicted" "st' = drop_evicted i key (estimate_entry_memory key (en_value e)) (set_disk key d2 st)"
        using assms(4) get Some p by (auto simp: evict_key_def Let_def)
      then show ?thesis using drop [of "set_disk key d2 st"] assms(1) t [of d2] Some by (simp add: is_tiered_def)
    qed
  qed
qed

text \<open>
  What one round may do: a successful eviction removes one evictable key; anything
  else leaves the data alone.
\<close>

definition evicts :: "bool \<Rightarrow> engine \<Rightarrow> bool \<Rightarrow> engine \<Rightarrow> bool" where
  "evicts tiered eg evicted eg' \<longleftrightarrow> store_wf (eg_store eg') \<and> is_tiered (eg_store eg') = tiered \<and>
     (if evicted then
        (\<exists>key e. data_get (eg_store eg) key = Some e \<and> evictable False (\<not> tiered) key e \<and>
           data_get (eg_store eg') = (data_get (eg_store eg))(key := None)) \<and>
        total_keys (eg_store eg') + 1 = total_keys (eg_store eg)
      else data_get (eg_store eg') = data_get (eg_store eg) \<and> total_keys (eg_store eg') = total_keys (eg_store eg))"

lemma victim_data:
  assumes "store_wf st" and "victim vol st i key"
  shows "\<exists>e. i < length (shards st) \<and> (key, e) \<in> set (sh_data (shards st ! i)) \<and> data_get st key = Some e \<and>
    evictable False (\<not> is_tiered st) key e"
proof -
  obtain e where e: "i < length (shards st)" "(key, e) \<in> set (sh_data (shards st ! i))" "evictable vol (\<not> is_tiered st) key e"
    using assms(2) by (auto simp: victim_def)
  have pl: "placed st i" using assms(1) e(1) by (simp add: store_wf_def)
  then have get: "hm_get (sh_data (shards st ! i)) key = Some e" using e(2) by (simp add: placed_def hm_get_Some_iff)
  then have "i = shard_index st key" using pl by (simp add: placed_def)
  then have "data_get st key = Some e" using get by (simp add: data_get_def shard_at_def)
  then show ?thesis using e by (auto simp: evictable_def)
qed

lemma evict_key_poisoned: "journal_poisoned (snd (evict_key hc i key now io compaction st)) = journal_poisoned st"
  by (auto simp: evict_key_def Let_def record_disk_write_error_def set_disk_def split: option.splits prod.splits sum.splits)

lemma evict_selected_key_evicts:
  assumes "store_wf (eg_store eg)" and "victim vol (eg_store eg) i key"
    and "evict_selected_key hc i key env eg = (r, eg')"
  shows "evicts (is_tiered (eg_store eg)) eg (r = Inr True) eg'"
proof -
  let ?st = "eg_store eg"
  obtain e where e: "i < length (shards ?st)" "(key, e) \<in> set (sh_data (shards ?st ! i))" "data_get ?st key = Some e"
    "evictable False (\<not> is_tiered ?st) key e"
    using victim_data [OF assms(1,2)] by blast
  obtain b st' where k: "evict_key hc i key (ev_now env) (ev_disk env) (ev_compaction env) ?st = (b, st')" by fastforce
  note eff = evict_key_effect [OF assms(1) e(1,2) k]
  have moved: "evicts (is_tiered ?st) eg b eg1" if "eg_store eg1 = st'" for eg1
    using eff e(3,4) that by (auto simp: evicts_def)
  show ?thesis
  proof (cases "is_tiered ?st")
    case True
    then have "r = Inr b" "eg' = eg\<lparr>eg_store := st'\<rparr>" using assms(3) k by (auto simp: evict_selected_key_def apply_live_def)
    then show ?thesis using moved by auto
  next
    case False
    then have c: "commit_journaled [ascii ''DEL'', key]
        (evict_key hc i key (ev_now env) (ev_disk env) (ev_compaction env)) (ev_journal env) eg = (r, eg')"
      using assms(3) by (simp add: evict_selected_key_def)
    note ce = commit_journaled_effect [OF c evict_key_poisoned]
    show ?thesis
    proof (cases r)
      case (Inl err)
      have "total_keys (poison_journal ?st) = total_keys ?st" by (rule total_keys_cong) simp
      then show ?thesis using ce Inl assms(1) False by (auto simp: evicts_def is_tiered_def)
    next
      case (Inr x)
      then have "x = b" "eg_store eg' = st'" using ce k by auto
      then show ?thesis using moved [of eg'] Inr by simp
    qed
  qed
qed

lemma evict_one_evicts:
  assumes "store_wf (eg_store eg)" and "evict_one hc cfg env eg = (r, eg')"
  shows "evicts (is_tiered (eg_store eg)) eg (r = Inr True) eg'"
proof -
  have ne: "shards (eg_store eg) \<noteq> []" using shards_nonempty [OF assms(1)] .
  have idle: "evicts (is_tiered (eg_store eg)) eg False eg" using assms(1) by (simp add: evicts_def)
  have lru: "evicts (is_tiered (eg_store eg)) eg (r = Inr True) eg'" if "evict_lru hc n vol env eg = (r, eg')" for n vol
    using that idle evict_selected_key_evicts [OF assms(1) lru_shards_victim [OF ne]]
    by (auto simp: evict_lru_def Let_def split: option.splits)
  have rnd: "evicts (is_tiered (eg_store eg)) eg (r = Inr True) eg'" if "evict_random hc vol env eg = (r, eg')" for vol
    using that idle evict_selected_key_evicts [OF assms(1) random_shards_victim [OF ne]]
    by (auto simp: evict_random_def Let_def split: option.splits)
  show ?thesis using assms(2) lru rnd idle by (cases "ec_policy cfg") (auto simp: evict_one_def)
qed

section \<open>The loop returns\<close>

text \<open>What any number of rounds may do.\<close>

definition evicted_to :: "engine \<Rightarrow> engine \<Rightarrow> bool" where
  "evicted_to eg eg' \<longleftrightarrow> store_wf (eg_store eg') \<and> is_tiered (eg_store eg') = is_tiered (eg_store eg) \<and>
     total_keys (eg_store eg') \<le> total_keys (eg_store eg) \<and>
     (\<forall>k. data_get (eg_store eg') k \<noteq> data_get (eg_store eg) k \<longrightarrow>
        data_get (eg_store eg') k = None \<and>
        (\<exists>e. data_get (eg_store eg) k = Some e \<and> evictable False (\<not> is_tiered (eg_store eg)) k e))"

lemma evicted_to_refl: "store_wf (eg_store eg) \<Longrightarrow> evicted_to eg eg"
  by (simp add: evicted_to_def)

lemma evicts_evicted_to: "evicts (is_tiered (eg_store eg)) eg b eg' \<Longrightarrow> evicted_to eg eg'"
  by (auto simp: evicts_def evicted_to_def split: if_splits)

lemma evicted_to_key:
  "evicted_to eg eg' \<Longrightarrow> data_get (eg_store eg') k = data_get (eg_store eg) k \<or>
     data_get (eg_store eg') k = None \<and>
     (\<exists>e. data_get (eg_store eg) k = Some e \<and> evictable False (\<not> is_tiered (eg_store eg)) k e)"
  unfolding evicted_to_def by blast

lemma evicted_to_trans:
  assumes "evicted_to a b" and "evicted_to b c"
  shows "evicted_to a c"
proof -
  have t: "is_tiered (eg_store b) = is_tiered (eg_store a)" using assms(1) by (simp add: evicted_to_def)
  have "data_get (eg_store c) k = data_get (eg_store a) k \<or> data_get (eg_store c) k = None \<and>
      (\<exists>e. data_get (eg_store a) k = Some e \<and> evictable False (\<not> is_tiered (eg_store a)) k e)" for k
    using evicted_to_key [OF assms(1), of k] evicted_to_key [OF assms(2), of k, unfolded t] by (elim disjE conjE exE) (simp_all, metis)
  then show ?thesis using assms unfolding evicted_to_def by (metis le_trans)
qed

lemma evict_loop_returns:
  assumes "store_wf (eg_store eg)" and "tiered = is_tiered (eg_store eg)"
  shows "\<exists>r eg'. evict_loop hc cfg env tiered iterations eg = Some (r, eg') \<and> evicted_to eg eg' \<and>
    (r = Inr () \<longrightarrow> tiered \<or> used_memory (eg_store eg') \<le> ec_max_memory cfg) \<and>
    (\<not> tiered \<longrightarrow> total_keys (eg_store eg) \<le> total_keys (eg_store eg') + (128 - iterations))"
  using assms
proof (induction "total_keys (eg_store eg)" arbitrary: eg iterations rule: less_induct)
  case less
  note refl = evicted_to_refl [OF less.prems(1)]
  consider "used_memory (eg_store eg) \<le> ec_max_memory cfg"
    | "used_memory (eg_store eg) > ec_max_memory cfg" "\<not> tiered" "iterations + 1 > 128"
    | "used_memory (eg_store eg) > ec_max_memory cfg" "tiered \<or> iterations + 1 \<le> 128" by linarith
  then show ?case
  proof cases
    case 1
    then show ?thesis using refl by (subst evict_loop.simps) simp
  next
    case 2
    then show ?thesis using refl by (subst evict_loop.simps) simp
  next
    case 3
    obtain r eg1 where one: "evict_one hc cfg (env iterations) eg = (r, eg1)" by fastforce
    note ev = evict_one_evicts [OF less.prems(1) one]
    have step: "evict_loop hc cfg env tiered iterations eg =
        (if r = Inr True then evict_loop hc cfg env tiered (iterations + 1) eg1
         else Some (case r of Inl e \<Rightarrow> Inl (Err ''ERR WAL append failed'') | Inr _ \<Rightarrow> if tiered then Inr () else Inl OOM, eg1))"
      using 3 one by (subst evict_loop.simps) (auto simp: Let_def)
    show ?thesis
    proof (cases "r = Inr True")
      case True
      then have dec: "total_keys (eg_store eg1) + 1 = total_keys (eg_store eg)" "store_wf (eg_store eg1)"
        "tiered = is_tiered (eg_store eg1)"
        using ev less.prems(2) by (simp_all add: evicts_def)
      then obtain r' eg' where r': "evict_loop hc cfg env tiered (iterations + 1) eg1 = Some (r', eg')" "evicted_to eg1 eg'"
        "r' = Inr () \<longrightarrow> tiered \<or> used_memory (eg_store eg') \<le> ec_max_memory cfg"
        "\<not> tiered \<longrightarrow> total_keys (eg_store eg1) \<le> total_keys (eg_store eg') + (128 - (iterations + 1))"
        using less.hyps [of eg1 "iterations + 1"] by auto
      have "evicted_to eg eg'" using evicted_to_trans [OF evicts_evicted_to [OF ev] r'(2)] .
      then show ?thesis using step True r' dec(1) 3(2) by auto
    next
      case False
      then have "total_keys (eg_store eg1) = total_keys (eg_store eg)" using ev by (simp add: evicts_def)
      then show ?thesis using step False evicts_evicted_to [OF ev] by (auto split: sum.splits if_splits)
    qed
  qed
qed


section \<open>Witnesses\<close>


end
