(* ===== verification/WhereLang.thy ===== *)
theory WhereLang
  imports Text
begin

text \<open>
  The WHERE language of the table engine: the tokenizer and the recursive parser of
  \<^verbatim>\<open>src/src/tables/mod.rs\<close>, and the evaluation of parsed conditions on a row and the
  LIKE matcher of \<^verbatim>\<open>src/src/tables/select.rs\<close>. A \<open>String\<close> of a query is the list of its
  characters, for the characters U+0000 to U+00FF; the parser's index into the token
  slice is the list of the tokens still ahead. JSON parsing (\<open>serde_json\<close>) and the
  arithmetic of \<open>f64\<close> are arguments of the evaluation.
\<close>

section \<open>Characters and words\<close>

abbreviation quote_char :: char where "quote_char \<equiv> CHR 0x27"
abbreviation backslash :: char where "backslash \<equiv> CHR 0x5C"

definition qt :: "string \<Rightarrow> string" where
  "qt s = [quote_char] @ s @ [quote_char]"

text \<open>\<open>char::is_whitespace\<close> below U+0100.\<close>

definition is_whitespace :: "char \<Rightarrow> bool" where
  "is_whitespace c \<longleftrightarrow>
     (let n = (of_char c :: nat) in (9 \<le> n \<and> n \<le> 13) \<or> n = 32 \<or> n = 0x85 \<or> n = 0xA0)"

definition lower_char :: "char \<Rightarrow> char" where
  "lower_char c = (let n = (of_char c :: nat) in if 65 \<le> n \<and> n \<le> 90 then char_of (n + 32) else c)"

text \<open>
  \<open>str::eq_ignore_ascii_case\<close>. It is also how \<open>to_uppercase() == "IN"\<close> reads on
  these characters: none of them but the ASCII letters has the letters of a keyword
  as its upper case.
\<close>

definition eq_ic :: "string \<Rightarrow> string \<Rightarrow> bool" where
  "eq_ic s t \<longleftrightarrow> map lower_char s = map lower_char t"

definition trim :: "string \<Rightarrow> string" where
  "trim s = rev (dropWhile is_whitespace (rev (dropWhile is_whitespace s)))"

section \<open>The tokenizer\<close>

text \<open>
  The loop of \<open>tokenize_where\<close>: the characters ahead, the token under construction,
  whether one is under construction, whether the scan is inside quotes, and the
  tokens so far.
\<close>

definition is_cmp_char :: "char \<Rightarrow> bool" where
  "is_cmp_char c \<longleftrightarrow> c = CHR ''='' \<or> c = CHR ''<'' \<or> c = CHR ''>''"

definition peek_eq :: "string \<Rightarrow> bool" where
  "peek_eq cs \<longleftrightarrow> (case cs of [] \<Rightarrow> False | c # _ \<Rightarrow> c = CHR ''='')"

fun scan_where :: "string \<Rightarrow> string \<Rightarrow> bool \<Rightarrow> bool \<Rightarrow> string list \<Rightarrow> string list result" where
  "scan_where [] current building in_quote tokens =
     (if in_quote then Inl (Err ''unterminated quote in where value'')
      else Inr (if building then tokens @ [current] else tokens))"
| "scan_where (c # cs) current building in_quote tokens =
     (if in_quote then
        if c = backslash then
          (case cs of
             [] \<Rightarrow> Inl (Err ''unterminated escape in where value'')
           | d # ds \<Rightarrow>
               if d = quote_char then scan_where ds (current @ [quote_char]) building in_quote tokens
               else if d = backslash then scan_where ds (current @ [backslash]) building in_quote tokens
               else scan_where ds (current @ [backslash, d]) building in_quote tokens)
        else if c = quote_char then scan_where cs current building False tokens
        else scan_where cs (current @ [c]) building in_quote tokens
      else if c = quote_char \<and> \<not> building then scan_where cs current True True tokens
      else if is_cmp_char c \<or> (c = CHR ''!'' \<and> peek_eq cs) then
        (let tokens' = (if building then tokens @ [current] else tokens);
             current' = (if building then [] else current)
         in if (c = CHR ''!'' \<or> c = CHR ''<'' \<or> c = CHR ''>'') \<and> peek_eq cs
            then scan_where (tl cs) current' False False (tokens' @ [[c, CHR ''='']])
            else scan_where cs current' False False (tokens' @ [[c]]))
      else if is_whitespace c then
        (if building then scan_where cs [] False False (tokens @ [current])
         else scan_where cs current False False tokens)
      else scan_where cs (current @ [c]) True False tokens)"

definition tokenize_where :: "string \<Rightarrow> string list result" where
  "tokenize_where s = scan_where s [] False False []"

section \<open>Conditions\<close>

datatype cmp_op = Eq | Ne | Gt | Lt | Ge | Le | Like | ILike | In | NotIn
  | IsValid | IsNotValid | IsNull | IsNotNull | Contains | Or

datatype where_clause = WhereClause (wfield: string) (wop: cmp_op) (wvalue: string)
  (wvalues: "string list") (or_clauses: "where_clause list")

definition single :: "string \<Rightarrow> cmp_op \<Rightarrow> string \<Rightarrow> where_clause" where
  "single field op value = WhereClause field op value [] []"

definition in_list :: "string \<Rightarrow> cmp_op \<Rightarrow> string list \<Rightarrow> where_clause" where
  "in_list field op vals = WhereClause field op [] vals []"

definition or_group :: "where_clause list \<Rightarrow> where_clause" where
  "or_group cs = WhereClause [] Or [] [] cs"

definition parse_cmp_op :: "string \<Rightarrow> cmp_op result" where
  "parse_cmp_op s =
     (if s = ''='' then Inr Eq
      else if s = ''!='' then Inr Ne
      else if s = ''>'' then Inr Gt
      else if s = ''<'' then Inr Lt
      else if s = ''>='' then Inr Ge
      else if s = ''<='' then Inr Le
      else if eq_ic s ''LIKE'' then Inr Like
      else if eq_ic s ''ILIKE'' then Inr ILike
      else Inl (Err (''ERR unknown operator '' @ qt s)))"

section \<open>The parser\<close>

definition next_is :: "string list \<Rightarrow> string \<Rightarrow> bool" where
  "next_is args kw \<longleftrightarrow> (case args of [] \<Rightarrow> False | a # _ \<Rightarrow> eq_ic a kw)"

definition parse_in_list :: "string list \<Rightarrow> (string list \<times> string list) result" where
  "parse_in_list args =
     (if args = [] \<or> hd args \<noteq> ''('' then
        Inl (Err ''ERR IN operator requires a parenthesized list, e.g. IN ( a b c )'')
      else
        let rest = tl args in
        if next_is rest ''SELECT'' then
          Inl (Err ''ERR subqueries (IN ( SELECT ... )) are only supported in grant predicates, not in a query WHERE'')
        else
          let vals = takeWhile (\<lambda>a. a \<noteq> '')'') rest;
              after = dropWhile (\<lambda>a. a \<noteq> '')'') rest
          in if after = [] then Inl (Err (''ERR unterminated IN list: missing '' @ qt '')''))
             else if vals = [] then Inl (Err ''ERR IN list must contain at least one value'')
             else Inr (vals, tl after))"

definition parse_where_condition :: "string list \<Rightarrow> (where_clause \<times> string list) result" where
  "parse_where_condition args =
     (case args of
        [] \<Rightarrow> Inl (Err ''ERR incomplete WHERE clause: expected field'')
      | [field] \<Rightarrow> Inl (Err (''ERR incomplete WHERE clause: missing operator after '' @ qt field))
      | field # op_str # rest \<Rightarrow>
          if eq_ic op_str ''IN'' then
            map_sum id (\<lambda>(vals, r). (in_list field In vals, r)) (parse_in_list rest)
          else if eq_ic op_str ''NOT'' then
            (if next_is rest ''IN''
             then map_sum id (\<lambda>(vals, r). (in_list field NotIn vals, r)) (parse_in_list (tl rest))
             else Inl (Err (''ERR expected '' @ qt ''IN'' @ '' after '' @ qt ''NOT'' @ '' in WHERE clause'')))
          else if eq_ic op_str ''IS'' then
            (if next_is rest ''VALID'' then Inr (single field IsValid [], tl rest)
             else if next_is rest ''NULL'' then Inr (single field IsNull [], tl rest)
             else if next_is rest ''NOT'' \<and> next_is (tl rest) ''VALID''
             then Inr (single field IsNotValid [], tl (tl rest))
             else if next_is rest ''NOT'' \<and> next_is (tl rest) ''NULL''
             then Inr (single field IsNotNull [], tl (tl rest))
             else Inl (Err (''ERR expected '' @ qt ''VALID'' @ '', '' @ qt ''NOT VALID'' @ '', '' @ qt ''NULL'' @ '' or ''
               @ qt ''NOT NULL'' @ '' after '' @ qt ''IS'')))
          else if eq_ic op_str ''CONTAINS'' then
            (case rest of
               [] \<Rightarrow> Inl (Err ''ERR missing value after CONTAINS'')
             | value # r \<Rightarrow> Inr (single field Contains value, r))
          else
            (case rest of
               [] \<Rightarrow> Inl (Err (''ERR incomplete WHERE clause: missing value after '' @ qt op_str))
             | value # r \<Rightarrow> map_sum id (\<lambda>op. (single field op value, r)) (parse_cmp_op op_str)))"

lemma map_sum_Inr_iff: "map_sum f g x = Inr y \<longleftrightarrow> (\<exists>z. x = Inr z \<and> y = g z)"
  by (cases x) auto

lemma parse_in_list_shorter: "parse_in_list args = Inr (vals, r) \<Longrightarrow> length r < length args"
  using length_dropWhile_le [of "\<lambda>a. a \<noteq> '')''" "tl args"]
  by (cases args) (auto simp: parse_in_list_def Let_def split: if_splits)

lemma parse_where_condition_shorter:
  "parse_where_condition args = Inr (c, r) \<Longrightarrow> length r < length args"
  by (auto simp: parse_where_condition_def next_is_def map_sum_Inr_iff split: list.splits if_splits
        dest!: parse_in_list_shorter)

text \<open>\<open>parse_where_or_group\<close>: conditions joined by OR, which binds tighter than AND.\<close>

function or_conditions :: "string list \<Rightarrow> (where_clause list \<times> string list) result" where
  "or_conditions args =
     (case parse_where_condition args of
        Inl e \<Rightarrow> Inl e
      | Inr (c, r) \<Rightarrow>
          if next_is r ''OR'' then map_sum id (\<lambda>(cs, r'). (c # cs, r')) (or_conditions (tl r))
          else Inr ([c], r))"
  by pat_completeness auto
termination
  by (relation "measure length") (auto dest!: parse_where_condition_shorter sym [of "Inr _"])

declare or_conditions.simps [simp del]

definition parse_where_or_group :: "string list \<Rightarrow> (where_clause \<times> string list) result" where
  "parse_where_or_group args =
     map_sum id (\<lambda>(cs, r). (if length cs = 1 then hd cs else or_group cs, r)) (or_conditions args)"

lemma or_conditions_shorter: "or_conditions args = Inr (cs, r) \<Longrightarrow> length r < length args"
proof (induction args arbitrary: cs rule: or_conditions.induct)
  case (1 args)
  from "1.prems" obtain c r' where c: "parse_where_condition args = Inr (c, r')"
    by (subst (asm) or_conditions.simps) (auto split: sum.splits)
  with parse_where_condition_shorter [OF c] "1.IH" [OF c refl] "1.prems" show ?case
    by (subst (asm) (2) or_conditions.simps) (fastforce simp: map_sum_Inr_iff split: if_splits)
qed

lemma parse_where_or_group_shorter:
  "parse_where_or_group args = Inr (c, r) \<Longrightarrow> length r < length args"
  by (auto simp: parse_where_or_group_def map_sum_Inr_iff dest: or_conditions_shorter)

text \<open>\<open>parse_where_conditions\<close>: OR groups, with an optional AND after each.\<close>

function parse_where_conditions :: "string list \<Rightarrow> where_clause list result" where
  "parse_where_conditions args =
     (if args = [] then Inr []
      else case parse_where_or_group args of
        Inl e \<Rightarrow> Inl e
      | Inr (c, r) \<Rightarrow>
          map_sum id ((#) c) (parse_where_conditions (if next_is r ''AND'' then tl r else r)))"
  by pat_completeness auto
termination
  by (relation "measure length") (auto dest!: parse_where_or_group_shorter sym [of "Inr _"])

declare parse_where_conditions.simps [simp del]

section \<open>Tokens of a text\<close>

text \<open>The scan of a text that ends outside quotes does not depend on what follows the next blank.\<close>

lemma whitespace_char:
  assumes "is_whitespace w"
  shows "w \<noteq> quote_char" "w \<noteq> CHR ''!''" "w \<noteq> CHR ''=''" "\<not> is_cmp_char w" "w \<noteq> backslash"
  using assms by (auto simp: is_whitespace_def is_cmp_char_def)

lemma peek_eq_append: "peek_eq (cs @ w # rest) \<longleftrightarrow> peek_eq cs \<or> (cs = [] \<and> w = CHR ''='')"
  by (cases cs) (auto simp: peek_eq_def)

lemma peek_eqD: "peek_eq cs \<Longrightarrow> cs \<noteq> []"
  by (auto simp: peek_eq_def)

text \<open>The branches of the scan, and induction along them.\<close>

definition unescape :: "char \<Rightarrow> string" where
  "unescape d = (if d = quote_char then [quote_char] else if d = backslash then [backslash] else [backslash, d])"

definition is_op_start :: "char \<Rightarrow> string \<Rightarrow> bool" where
  "is_op_start c cs \<longleftrightarrow> is_cmp_char c \<or> (c = CHR ''!'' \<and> peek_eq cs)"

definition two_char_op :: "char \<Rightarrow> string \<Rightarrow> bool" where
  "two_char_op c cs \<longleftrightarrow> (c = CHR ''!'' \<or> c = CHR ''<'' \<or> c = CHR ''>'') \<and> peek_eq cs"

definition flush :: "string list \<Rightarrow> bool \<Rightarrow> string \<Rightarrow> string list" where
  "flush tokens building current = (if building then tokens @ [current] else tokens)"

lemma scan_operator:
  "is_op_start c cs \<Longrightarrow> scan_where (c # cs) cur b False toks
     = scan_where (if two_char_op c cs then tl cs else cs) (if b then [] else cur) False False
         (flush toks b cur @ [if two_char_op c cs then [c, CHR ''=''] else [c]])"
  by (cases b; cases "two_char_op c cs")
    (auto simp: flush_def is_op_start_def two_char_op_def Let_def is_cmp_char_def)

lemma scan_branches:
  "scan_where [] cur b q toks = (if q then Inl (Err ''unterminated quote in where value'') else Inr (flush toks b cur))"
  "scan_where [backslash] cur b True toks = Inl (Err ''unterminated escape in where value'')"
  "scan_where (backslash # d # ds) cur b True toks = scan_where ds (cur @ unescape d) b True toks"
  "scan_where (quote_char # cs) cur b True toks = scan_where cs cur b False toks"
  "c \<noteq> backslash \<Longrightarrow> c \<noteq> quote_char \<Longrightarrow> scan_where (c # cs) cur b True toks = scan_where cs (cur @ [c]) b True toks"
  "scan_where (quote_char # cs) cur False False toks = scan_where cs cur True True toks"
  "is_whitespace c \<Longrightarrow> scan_where (c # cs) cur b False toks
     = scan_where cs (if b then [] else cur) False False (flush toks b cur)"
  "\<not> is_op_start c cs \<Longrightarrow> \<not> is_whitespace c \<Longrightarrow> c = quote_char \<longrightarrow> b \<Longrightarrow>
     scan_where (c # cs) cur b False toks = scan_where cs (cur @ [c]) True False toks"
  using whitespace_char [of c] by (auto simp: unescape_def flush_def is_op_start_def)

lemma scan_induct [case_names finish escape_end escape close inside start operator blank char]:
  assumes "\<And>cur b q toks. P [] cur b q toks"
    and "\<And>cur b toks. P [backslash] cur b True toks"
    and "\<And>d ds cur b toks. P ds (cur @ unescape d) b True toks \<Longrightarrow> P (backslash # d # ds) cur b True toks"
    and "\<And>cs cur b toks. P cs cur b False toks \<Longrightarrow> P (quote_char # cs) cur b True toks"
    and "\<And>c cs cur b toks. c \<noteq> backslash \<Longrightarrow> c \<noteq> quote_char \<Longrightarrow> P cs (cur @ [c]) b True toks
      \<Longrightarrow> P (c # cs) cur b True toks"
    and "\<And>cs cur toks. P cs cur True True toks \<Longrightarrow> P (quote_char # cs) cur False False toks"
    and "\<And>c cs cur b toks. is_op_start c cs \<Longrightarrow>
      P (if two_char_op c cs then tl cs else cs) (if b then [] else cur) False False
        (flush toks b cur @ [if two_char_op c cs then [c, CHR ''=''] else [c]])
      \<Longrightarrow> P (c # cs) cur b False toks"
    and "\<And>c cs cur b toks. is_whitespace c \<Longrightarrow> P cs (if b then [] else cur) False False (flush toks b cur)
      \<Longrightarrow> P (c # cs) cur b False toks"
    and "\<And>c cs cur b toks. \<not> is_op_start c cs \<Longrightarrow> \<not> is_whitespace c \<Longrightarrow> c = quote_char \<longrightarrow> b
      \<Longrightarrow> P cs (cur @ [c]) True False toks \<Longrightarrow> P (c # cs) cur b False toks"
  shows "P cs cur b q toks"
proof (induction "length cs" arbitrary: cs cur b q toks rule: less_induct)
  case less
  then have IH: "length cs' < length cs \<Longrightarrow> P cs' cur' b' q' toks'" for cs' cur' b' q' toks' by blast
  show ?case
  proof (cases cs)
    case (Cons c cs')
    note IH' = IH [unfolded Cons]
    show ?thesis
    proof (cases q)
      case True
      then show ?thesis
        unfolding Cons
        by (cases "c = backslash"; cases "c = quote_char"; cases cs') (simp_all add: assms(2-5) IH')
    next
      case False
      have "length (if two_char_op c cs' then tl cs' else cs') < length (c # cs')" by (simp add: less_Suc_eq_le)
      note op = assms(7) [OF _ IH' [OF this]]
      from False show ?thesis
        unfolding Cons
        by (cases "is_op_start c cs'"; cases "is_whitespace c"; cases "c = quote_char \<and> \<not> b")
          (simp_all add: op assms(6,8,9) IH')
    qed
  qed (simp add: assms(1))
qed

lemma op_start_append:
  assumes "is_whitespace w"
  shows "is_op_start c (cs @ w # rest) \<longleftrightarrow> is_op_start c cs" "two_char_op c (cs @ w # rest) \<longleftrightarrow> two_char_op c cs"
  using whitespace_char [OF assms] by (auto simp: is_op_start_def two_char_op_def peek_eq_append)

lemma two_char_opD: "two_char_op c cs \<Longrightarrow> cs \<noteq> []"
  by (auto simp: two_char_op_def dest: peek_eqD)

lemma scan_where_split:
  assumes "scan_where cs cur b q toks = Inr ts" and "is_whitespace w" and "b \<or> (\<not> q \<and> cur = [])"
  shows "scan_where (cs @ w # rest) cur b q toks = scan_where rest [] False False ts"
  using assms(1,3)
proof (induction cs cur b q toks rule: scan_induct)
  case (finish cur b q toks)
  then show ?case
    using assms(2) by (auto simp: scan_branches simp del: scan_where.simps split: if_splits)
next
  case (operator c cs cur b toks)
  then show ?case
    using assms(2) two_char_opD [of c cs]
    by (cases "two_char_op c cs"; cases b) (simp_all add: scan_operator op_start_append del: scan_where.simps)
qed (simp_all add: scan_branches op_start_append assms(2) del: scan_where.simps split: if_splits)

lemma scan_where_tokens:
  "scan_where cs cur b q (pre @ toks) = map_sum id ((@) pre) (scan_where cs cur b q toks)"
proof (induction cs cur b q toks rule: scan_induct)
  case (operator c cs cur b toks)
  then show ?case
    by (cases b; cases "two_char_op c cs") (simp_all add: scan_operator flush_def del: scan_where.simps)
next
  case (blank c cs cur b toks)
  then show ?case by (cases b) (simp_all add: scan_branches(7) flush_def del: scan_where.simps)
qed (simp_all add: scan_branches flush_def del: scan_where.simps)

lemma scan_where_trailing:
  assumes "scan_where (cs @ [w]) cur b q toks = Inr ts" and "is_whitespace w" and "b \<or> (\<not> q \<and> cur = [])"
  shows "scan_where cs cur b q toks = Inr ts"
  using assms(1,3)
proof (induction cs cur b q toks rule: scan_induct)
  case (finish cur b q toks)
  then show ?case
    using assms(2) whitespace_char [OF assms(2)]
    by (cases q) (auto simp: scan_branches flush_def simp del: scan_where.simps)
next
  case (operator c cs cur b toks)
  then show ?case
    using assms(2) two_char_opD [of c cs]
    by (cases "two_char_op c cs"; cases b) (simp_all add: scan_operator op_start_append del: scan_where.simps)
qed (simp_all add: scan_branches op_start_append assms(2) del: scan_where.simps split: if_splits)

lemma tokenize_where_join:
  assumes "tokenize_where s = Inr ts" and "is_whitespace w"
  shows "tokenize_where (s @ w # s') = map_sum id ((@) ts) (tokenize_where s')"
  using scan_where_split [of s "[]" False False "[]" ts w s'] assms
    scan_where_tokens [of s' "[]" False False ts "[]"]
  by (simp add: tokenize_where_def)

lemma whitespace_space [simp]: "is_whitespace CHR '' ''"
  by (simp add: is_whitespace_def)

lemma tokenize_where_space:
  assumes "tokenize_where s = Inr ts" and "tokenize_where s' = Inr ts'"
  shows "tokenize_where (s @ '' '' @ s') = Inr (ts @ ts')"
  using tokenize_where_join [OF assms(1) whitespace_space, of s'] assms(2) by simp

text \<open>Words and quoted values.\<close>

definition word_char :: "char \<Rightarrow> bool" where
  "word_char c \<longleftrightarrow> \<not> is_whitespace c \<and> \<not> is_cmp_char c \<and> c \<noteq> CHR ''!'' \<and> c \<noteq> quote_char"

definition plain_word :: "string \<Rightarrow> bool" where
  "plain_word s \<longleftrightarrow> s \<noteq> [] \<and> list_all word_char s"

lemma scan_word: "list_all word_char s \<Longrightarrow>
  scan_where (s @ rest) cur True False toks = scan_where rest (cur @ s) True False toks"
  by (induction s arbitrary: cur) (auto simp: word_char_def)

lemma tokenize_word: "plain_word s \<Longrightarrow> tokenize_where s = Inr [s]"
  using scan_word [of "tl s" "[]" "[hd s]" "[]"]
  by (cases s) (auto simp: plain_word_def tokenize_where_def word_char_def)

text \<open>\<open>quote_where_value\<close> of \<^verbatim>\<open>src/src/auth.rs\<close>.\<close>

fun escape_char :: "char \<Rightarrow> string" where
  "escape_char c = (if c = backslash then [backslash, backslash]
     else if c = quote_char then [backslash, quote_char] else [c])"

definition quote_where_value :: "string \<Rightarrow> string" where
  "quote_where_value value = qt (concat (map escape_char value))"

lemma scan_quoted:
  "scan_where (concat (map escape_char v) @ quote_char # rest) cur True True toks
     = scan_where rest (cur @ v) True False toks"
  by (induction v arbitrary: cur) simp_all

lemma tokenize_quoted: "tokenize_where (quote_where_value v) = Inr [v]"
  using scan_quoted [of v "[]" "[]" "[]"]
  by (simp add: quote_where_value_def qt_def tokenize_where_def)

lemma tokenize_cmp:
  "tokenize_where ''='' = Inr [''='']" "tokenize_where ''!='' = Inr [''!='']"
  "tokenize_where ''>'' = Inr [''>'']" "tokenize_where ''<'' = Inr [''<'']"
  "tokenize_where ''>='' = Inr [''>='']" "tokenize_where ''<='' = Inr [''<='']"
  by (simp_all add: tokenize_where_def is_cmp_char_def peek_eq_def)

text \<open>Leading and trailing blanks are not part of any token.\<close>

lemma scan_where_leading:
  "list_all is_whitespace ws \<Longrightarrow> scan_where (ws @ s) [] False False toks = scan_where s [] False False toks"
  by (induction ws) (auto simp: whitespace_char)

lemma tokenize_trailing:
  "\<lbrakk>tokenize_where (s @ ws) = Inr ts; list_all is_whitespace ws\<rbrakk> \<Longrightarrow> tokenize_where s = Inr ts"
proof (induction ws rule: rev_induct)
  case (snoc w ws)
  then show ?case
    using scan_where_trailing [of "s @ ws" w "[]" False False "[]" ts] by (simp add: tokenize_where_def)
qed simp

lemma trim_split:
  obtains ws ws' where "s = ws @ trim s @ ws'" "list_all is_whitespace ws" "list_all is_whitespace ws'"
proof
  let ?t = "dropWhile is_whitespace s"
  have "?t = rev (dropWhile is_whitespace (rev ?t)) @ rev (takeWhile is_whitespace (rev ?t))"
    by (metis rev_append rev_rev_ident takeWhile_dropWhile_id)
  then show "s = takeWhile is_whitespace s @ trim s @ rev (takeWhile is_whitespace (rev ?t))"
    by (metis trim_def takeWhile_dropWhile_id)
qed (auto simp: list_all_iff dest: set_takeWhileD)

lemma tokenize_trim:
  assumes "tokenize_where s = Inr ts"
  shows "tokenize_where (trim s) = Inr ts"
proof -
  obtain ws ws' where s: "s = ws @ trim s @ ws'" "list_all is_whitespace ws" "list_all is_whitespace ws'"
    by (rule trim_split)
  have "tokenize_where (trim s @ ws') = Inr ts"
    using assms scan_where_leading [OF s(2), of "trim s @ ws'" "[]"] s(1) by (simp add: tokenize_where_def)
  then show ?thesis by (rule tokenize_trailing [OF _ s(3)])
qed

section \<open>Conditions followed by more tokens\<close>

lemma next_is_append: "next_is (r @ ys) kw \<longleftrightarrow> (if r = [] then next_is ys kw else next_is r kw)"
  by (cases r) (auto simp: next_is_def)

lemma next_is_Cons: "next_is r kw \<Longrightarrow> \<exists>a r'. r = a # r' \<and> eq_ic a kw"
  by (cases r) (auto simp: next_is_def)

lemma parse_in_list_parts:
  assumes "parse_in_list args = Inr (vals, r)"
  shows "args = ''('' # vals @ '')'' # r" "'')'' \<notin> set vals" "vals \<noteq> []" "\<not> eq_ic (hd vals) ''SELECT''"
proof -
  let ?p = "\<lambda>a. a \<noteq> '')''"
  from assms obtain rest where a: "args = ''('' # rest" "vals = takeWhile ?p rest" "vals \<noteq> []"
      "dropWhile ?p rest \<noteq> []" "r = tl (dropWhile ?p rest)" "\<not> next_is rest ''SELECT''"
    by (cases args) (auto simp: parse_in_list_def Let_def split: if_splits)
  have "dropWhile ?p rest = '')'' # r"
    using hd_dropWhile [OF a(4)] a(4,5) by (metis list.collapse)
  then show "args = ''('' # vals @ '')'' # r" using a(1,2) takeWhile_dropWhile_id [of ?p rest] by simp
  show "'')'' \<notin> set vals" using a(2) by (auto dest: set_takeWhileD)
  show "vals \<noteq> []" by fact
  show "\<not> eq_ic (hd vals) ''SELECT''"
    using a(2,3,6) by (cases rest) (auto simp: next_is_def split: if_splits)
qed

lemma parse_in_list_intro:
  assumes "'')'' \<notin> set vals" and "vals \<noteq> []" and "\<not> eq_ic (hd vals) ''SELECT''"
  shows "parse_in_list (''('' # vals @ '')'' # r) = Inr (vals, r)"
proof -
  have "\<forall>a\<in>set vals. a \<noteq> '')''" using assms(1) by auto
  then have "takeWhile (\<lambda>a. a \<noteq> '')'') (vals @ '')'' # r) = vals"
      "dropWhile (\<lambda>a. a \<noteq> '')'') (vals @ '')'' # r) = '')'' # r"
    by (simp_all add: takeWhile_append2 dropWhile_append2)
  with assms(2,3) show ?thesis
    by (cases vals) (simp_all add: parse_in_list_def next_is_def Let_def)
qed

lemma parse_in_list_append:
  "parse_in_list args = Inr (vals, r) \<Longrightarrow> parse_in_list (args @ ys) = Inr (vals, r @ ys)"
  using parse_in_list_parts [of args vals r] parse_in_list_intro [of vals "r @ ys"] by simp

lemma parse_where_condition_Cons:
  assumes "parse_where_condition args = Inr (c, r)"
  obtains field op rest where "args = field # op # rest"
  using assms by (auto simp: parse_where_condition_def split: list.splits)

lemma parse_where_condition_append:
  assumes "parse_where_condition args = Inr (c, r)"
  shows "parse_where_condition (args @ ys) = Inr (c, r @ ys)"
proof -
  obtain field op rest where a: "args = field # op # rest"
    using assms by (rule parse_where_condition_Cons)
  show ?thesis
  proof (cases "eq_ic op ''IN'' \<or> eq_ic op ''NOT''")
    case True
    then show ?thesis
      using assms unfolding a
      by (cases rest) (auto simp: parse_where_condition_def map_sum_Inr_iff next_is_def
          dest: parse_in_list_append [of _ _ _ ys] split: if_splits)
  next
    case False
    then show ?thesis
      using assms unfolding a
      by (cases rest; cases "tl rest") (auto simp: parse_where_condition_def map_sum_Inr_iff next_is_def split: if_splits)
  qed
qed

lemma parse_where_condition_suffix:
  assumes "parse_where_condition args = Inr (c, r)"
  shows "\<exists>p. p \<noteq> [] \<and> args = p @ r"
proof -
  obtain field op rest where a: "args = field # op # rest"
    using assms by (rule parse_where_condition_Cons)
  have "\<exists>p. rest = p @ r"
  proof (cases "eq_ic op ''IN'' \<or> eq_ic op ''NOT''")
    case True
    then show ?thesis
      using assms unfolding a
      by (cases rest) (auto simp: parse_where_condition_def map_sum_Inr_iff next_is_def
          dest: parse_in_list_parts(1) split: if_splits)
  next
    case False
    then show ?thesis
      using assms unfolding a
      by (cases rest; cases "tl rest") (auto simp: parse_where_condition_def map_sum_Inr_iff next_is_def split: if_splits)
  qed
  then show ?thesis using a by auto
qed

lemma or_conditions_unfold:
  "parse_where_condition args = Inr (c, r) \<Longrightarrow> or_conditions args =
     (if next_is r ''OR'' then map_sum id (\<lambda>(cs, r'). (c # cs, r')) (or_conditions (tl r)) else Inr ([c], r))"
  by (subst or_conditions.simps) simp

lemma or_conditions_append:
  "\<lbrakk>or_conditions args = Inr (cs, r); \<not> next_is ys ''OR''\<rbrakk> \<Longrightarrow> or_conditions (args @ ys) = Inr (cs, r @ ys)"
proof (induction args arbitrary: cs rule: or_conditions.induct)
  case (1 args)
  from "1.prems"(1) obtain c r' where c: "parse_where_condition args = Inr (c, r')"
    by (subst (asm) or_conditions.simps) (auto split: sum.splits)
  note u = or_conditions_unfold [OF c] or_conditions_unfold [OF parse_where_condition_append [OF c, of ys]]
  show ?case
  proof (cases "next_is r' ''OR''")
    case True
    then have "tl (r' @ ys) = tl r' @ ys" "next_is (r' @ ys) ''OR''"
      by (cases r'; simp add: next_is_def)+
    with True "1.IH" [OF c refl True] "1.prems" show ?thesis by (auto simp: u map_sum_Inr_iff)
  next
    case False
    with "1.prems" show ?thesis by (simp add: u next_is_append)
  qed
qed

lemma or_conditions_suffix: "or_conditions args = Inr (cs, r) \<Longrightarrow> \<exists>p. p \<noteq> [] \<and> args = p @ r"
proof (induction args arbitrary: cs rule: or_conditions.induct)
  case (1 args)
  from "1.prems"(1) obtain c r' where c: "parse_where_condition args = Inr (c, r')"
    by (subst (asm) or_conditions.simps) (auto split: sum.splits)
  obtain p where p: "p \<noteq> []" "args = p @ r'" using parse_where_condition_suffix [OF c] by blast
  show ?case
  proof (cases "next_is r' ''OR''")
    case True
    then obtain a where a: "r' = a # tl r'" by (cases r') (auto simp: next_is_def)
    from True "1.prems" obtain cs' where "or_conditions (tl r') = Inr (cs', r)"
      by (auto simp: or_conditions_unfold [OF c] map_sum_Inr_iff)
    with "1.IH" [OF c refl True] obtain p' where "tl r' = p' @ r" by blast
    with a p show ?thesis by (metis append.assoc append_Cons append_is_Nil_conv)
  next
    case False
    with "1.prems" have "r' = r" by (simp add: or_conditions_unfold [OF c])
    with p show ?thesis by blast
  qed
qed

lemma parse_where_or_group_append:
  "\<lbrakk>parse_where_or_group args = Inr (c, r); \<not> next_is ys ''OR''\<rbrakk>
   \<Longrightarrow> parse_where_or_group (args @ ys) = Inr (c, r @ ys)"
  by (auto simp: parse_where_or_group_def map_sum_Inr_iff or_conditions_append)

lemma parse_where_or_group_suffix:
  "parse_where_or_group args = Inr (c, r) \<Longrightarrow> \<exists>p. p \<noteq> [] \<and> args = p @ r"
  by (auto simp: parse_where_or_group_def map_sum_Inr_iff dest: or_conditions_suffix)

lemma parse_where_conditions_unfold:
  "parse_where_or_group args = Inr (c, r) \<Longrightarrow> parse_where_conditions args =
     map_sum id ((#) c) (parse_where_conditions (if next_is r ''AND'' then tl r else r))"
  using parse_where_or_group_shorter [of args c r] by (subst parse_where_conditions.simps) auto

lemma parse_where_conditions_Nil [simp]: "parse_where_conditions [] = Inr []"
  by (simp add: parse_where_conditions.simps)

lemma eq_ic_AND_OR: "eq_ic a ''AND'' \<Longrightarrow> \<not> eq_ic a ''OR''"
  by (auto simp: eq_ic_def)

text \<open>
  A WHERE text that is complete, followed by AND and more conditions, means the
  conjunction: OR binds tighter than AND.
\<close>

lemma parse_where_conditions_and:
  "\<lbrakk>parse_where_conditions args = Inr cs; args \<noteq> []; \<not> eq_ic (last args) ''AND''; eq_ic kw ''AND''\<rbrakk>
   \<Longrightarrow> parse_where_conditions (args @ kw # ys) = map_sum id ((@) cs) (parse_where_conditions ys)"
proof (induction args arbitrary: cs rule: parse_where_conditions.induct)
  case (1 args)
  have kw: "\<not> next_is (kw # ys) ''OR''" "next_is (kw # ys) ''AND''"
    using "1.prems"(4) eq_ic_AND_OR [of kw] by (auto simp: next_is_def)
  from "1.prems"(1,2) obtain c r where c: "parse_where_or_group args = Inr (c, r)"
    by (subst (asm) parse_where_conditions.simps) (auto split: sum.splits)
  obtain p where p: "args = p @ r" using parse_where_or_group_suffix [OF c] by blast
  let ?r = "if next_is r ''AND'' then tl r else r"
  from "1.prems"(1) obtain cs' where cs: "parse_where_conditions ?r = Inr cs'" "cs = c # cs'"
    by (auto simp: parse_where_conditions_unfold [OF c] map_sum_Inr_iff)
  note u = parse_where_conditions_unfold [OF parse_where_or_group_append [OF c kw(1)]]
  show ?case
  proof (cases "r = []")
    case True
    with cs show ?thesis using kw(2) by (simp add: u next_is_def sum.map_comp comp_def id_def)
  next
    case False
    then have last: "last r = last args" using p by simp
    with False "1.prems"(3) have ne: "?r \<noteq> []" "last ?r = last args"
      by (cases r; auto simp: next_is_def split: if_splits)+
    have "parse_where_conditions (?r @ kw # ys) = map_sum id ((@) cs') (parse_where_conditions ys)"
      using "1.IH" [OF "1.prems"(2) c refl cs(1) ne(1)] ne(2) "1.prems"(3,4) by (simp add: id_def)
    moreover have "(if next_is (r @ kw # ys) ''AND'' then tl (r @ kw # ys) else r @ kw # ys) = ?r @ kw # ys"
      using False by (simp add: next_is_append)
    ultimately show ?thesis
      using cs(2) by (simp add: u sum.map_comp comp_def id_def)
  qed
qed

end
