(* ===== verification/WhereEval.thy ===== *)
theory WhereEval
  imports WhereLang
begin

text \<open>
  The evaluation of WHERE conditions on a row (\<^verbatim>\<open>src/src/tables/select.rs\<close>): comparisons
  by the type of the column, membership lists, dotted paths into a JSON column, and the
  linear LIKE matcher with its proof against the declarative reading of a pattern. The
  operations on \<open>f64\<close> and \<open>serde_json::from_str\<close> are fields of the record \<open>eval_ops\<close>.
\<close>

section \<open>LIKE\<close>

text \<open>\<open>str::to_lowercase\<close> below U+0100.\<close>

definition lowercase_char :: "char \<Rightarrow> char" where
  "lowercase_char c = (let n = (of_char c :: nat) in
     if (65 \<le> n \<and> n \<le> 90) \<or> (0xC0 \<le> n \<and> n \<le> 0xDE \<and> n \<noteq> 0xD7) then char_of (n + 32) else c)"

definition to_lowercase :: "string \<Rightarrow> string" where
  "to_lowercase s = map lowercase_char s"

text \<open>
  The loop of \<open>sql_like_matches\<close>: the text and the pattern ahead of the two positions,
  and, once a \<open>%\<close> was met, the pattern after the last one and the text where it was met.
\<close>

function like_loop :: "string \<Rightarrow> string \<Rightarrow> (string \<times> string) option \<Rightarrow> bool" where
  "like_loop tx pat percent =
     (case tx of
        [] \<Rightarrow> list_all (\<lambda>c. c = CHR ''%'') pat
      | c # tx' \<Rightarrow>
          if pat \<noteq> [] \<and> (hd pat = CHR ''_'' \<or> hd pat = c) then like_loop tx' (tl pat) percent
          else if pat \<noteq> [] \<and> hd pat = CHR ''%'' then like_loop tx (tl pat) (Some (tl pat, tx))
          else (case percent of
              Some (after, at) \<Rightarrow> like_loop (tl at) after (Some (after, tl at))
            | None \<Rightarrow> False))"
  by pat_completeness auto
termination
proof (relation "measures
    [\<lambda>(tx, pat, percent). case percent of None \<Rightarrow> 0 | Some (after, at) \<Rightarrow> if length pat \<le> length after then 0 else 1,
     \<lambda>(tx, pat, percent). case percent of None \<Rightarrow> length pat | Some (after, at) \<Rightarrow> length after,
     \<lambda>(tx, pat, percent). case percent of None \<Rightarrow> 0 | Some (after, at) \<Rightarrow> length at,
     \<lambda>(tx, pat, percent). length tx]", goal_cases)
  case (2 tx pat percent c tx')
  then show ?case by (cases pat; cases percent) (auto split: if_splits)
next
  case (3 tx pat percent c tx')
  then show ?case by (cases pat; cases percent) auto
next
  case (4 tx pat percent c tx' p after at)
  then show ?case by (cases at) auto
qed simp

declare like_loop.simps [simp del]

definition sql_like_matches :: "string \<Rightarrow> string \<Rightarrow> bool \<Rightarrow> bool" where
  "sql_like_matches actual pattern case_insensitive =
     (let (actual, pattern) =
        (if case_insensitive then (to_lowercase actual, to_lowercase pattern) else (actual, pattern))
      in like_loop actual pattern None)"

text \<open>What a pattern means: \<open>_\<close> is any character, \<open>%\<close> any sequence of characters.\<close>

fun like_spec :: "string \<Rightarrow> string \<Rightarrow> bool" where
  "like_spec [] text \<longleftrightarrow> text = []"
| "like_spec (p # ps) text \<longleftrightarrow>
     (if p = CHR ''%'' then list_ex (\<lambda>n. like_spec ps (drop n text)) [0..<Suc (length text)]
      else text \<noteq> [] \<and> (p = CHR ''_'' \<or> p = hd text) \<and> like_spec ps (tl text))"

lemma like_spec_Cons [simp]:
  "like_spec (p # ps) text \<longleftrightarrow>
     (if p = CHR ''%'' then \<exists>n \<le> length text. like_spec ps (drop n text)
      else text \<noteq> [] \<and> (p = CHR ''_'' \<or> p = hd text) \<and> like_spec ps (tl text))"
  by (auto simp: list_ex_iff less_Suc_eq_le simp del: upt_Suc)

declare like_spec.simps(2) [simp del]

lemma like_spec_percents: "list_all (\<lambda>c. c = CHR ''%'') pat \<longleftrightarrow> like_spec pat []"
  by (induction pat) auto

lemma like_spec_step:
  "p \<noteq> CHR ''%'' \<Longrightarrow> like_spec (p # ps) (c # t) \<longleftrightarrow> (p = CHR ''_'' \<or> p = c) \<and> like_spec ps t"
  by simp

lemma like_spec_percent:
  "like_spec (CHR ''%'' # ps) (c # t) \<longleftrightarrow> like_spec ps (c # t) \<or> like_spec (CHR ''%'' # ps) t"
proof -
  have "(\<exists>n \<le> length (c # t). like_spec ps (drop n (c # t)))
      \<longleftrightarrow> like_spec ps (c # t) \<or> (\<exists>n \<le> length t. like_spec ps (drop n t))" (is "?l \<longleftrightarrow> ?r")
  proof
    assume ?l
    then obtain n where "n \<le> length (c # t)" "like_spec ps (drop n (c # t))" by blast
    then show ?r by (cases n) auto
  next
    assume ?r
    then show ?l
    proof
      assume "like_spec ps (c # t)"
      then show ?l by (intro exI [of _ 0]) simp
    next
      assume "\<exists>n \<le> length t. like_spec ps (drop n t)"
      then obtain n where "n \<le> length t" "like_spec ps (drop n t)" by blast
      then show ?l by (intro exI [of _ "Suc n"]) simp
    qed
  qed
  then show ?thesis by simp
qed

lemma like_spec_percent_suffix:
  "like_spec (CHR ''%'' # ps) (drop k t) \<Longrightarrow> like_spec (CHR ''%'' # ps) t"
proof -
  assume "like_spec (CHR ''%'' # ps) (drop k t)"
  then obtain n where n: "n \<le> length t - k" "like_spec ps (drop n (drop k t))" by auto
  show ?thesis
  proof (cases "k \<le> length t")
    case True
    with n show ?thesis by (auto intro!: exI [of _ "n + k"] simp: add.commute)
  next
    case False
    with n have "like_spec ps (drop (length t) t)" by simp
    then show ?thesis by auto
  qed
qed

text \<open>
  A pattern piece without \<open>%\<close> consumes one character per pattern character, so what
  the text must match after it begins a fixed distance further.
\<close>

lemma like_spec_piece:
  "\<lbrakk>CHR ''%'' \<notin> set q; like_spec (q @ ps) t\<rbrakk> \<Longrightarrow> length q \<le> length t \<and> like_spec ps (drop (length q) t)"
proof (induction q arbitrary: t)
  case (Cons p q)
  then show ?case by (cases t) auto
qed simp

definition percent_inv :: "string \<Rightarrow> string \<Rightarrow> (string \<times> string) option \<Rightarrow> bool" where
  "percent_inv tx pat percent \<longleftrightarrow> (\<forall>after at. percent = Some (after, at) \<longrightarrow>
     CHR ''%'' \<notin> set at \<and>
     (\<exists>q u. after = q @ pat \<and> at = u @ tx \<and> length q = length u \<and> CHR ''%'' \<notin> set q))"

definition retry_spec :: "(string \<times> string) option \<Rightarrow> bool" where
  "retry_spec percent \<longleftrightarrow> (case percent of None \<Rightarrow> False | Some (after, at) \<Rightarrow> like_spec (CHR ''%'' # after) (tl at))"

lemma percent_inv_step:
  assumes "percent_inv (c # tx) (p # ps) percent" and "p \<noteq> CHR ''%''"
  shows "percent_inv tx ps percent"
  unfolding percent_inv_def
proof (intro allI impI)
  fix after at
  assume "percent = Some (after, at)"
  with assms(1) obtain q u where "CHR ''%'' \<notin> set at" "after = q @ p # ps" "at = u @ c # tx" "length q = length u"
      "CHR ''%'' \<notin> set q"
    unfolding percent_inv_def by blast
  with assms(2) show "CHR ''%'' \<notin> set at \<and>
      (\<exists>q u. after = q @ ps \<and> at = u @ tx \<and> length q = length u \<and> CHR ''%'' \<notin> set q)"
    by (auto intro!: exI [of _ "q @ [p]"] exI [of _ "u @ [c]"])
qed

lemma retry_after:
  assumes "percent_inv tx pat percent" and "retry_spec percent"
  shows "\<exists>k. k \<le> length tx \<and> like_spec pat (drop k tx) \<and> (tx = [] \<longrightarrow> like_spec pat [])"
proof -
  from assms(2) obtain after at where a: "percent = Some (after, at)" "like_spec (CHR ''%'' # after) (tl at)"
    by (auto simp: retry_spec_def split: option.splits)
  with assms(1) obtain q u where q: "after = q @ pat" "at = u @ tx" "length q = length u" "CHR ''%'' \<notin> set q"
    unfolding percent_inv_def by blast
  from a(2) q(1) obtain n where n: "n \<le> length (tl at)" "like_spec (q @ pat) (drop n (tl at))" by auto
  then have l: "length q \<le> length (drop n (tl at))" "like_spec pat (drop (length q) (drop n (tl at)))"
    using like_spec_piece [OF q(4), of pat "drop n (tl at)"] by auto
  have "drop (length q) (drop n (tl at)) = drop (Suc (length q + n)) at"
    by (simp add: drop_Suc add.commute)
  also have "\<dots> = drop (Suc n) tx" using q(2,3) by (simp add: drop_append)
  finally have "drop (length q) (drop n (tl at)) = drop (Suc n) tx" .
  then show ?thesis
    using l(2) by (intro exI [of _ "min (Suc n) (length tx)"]) (auto simp: min_def)
qed

lemma like_loop_spec:
  "\<lbrakk>CHR ''%'' \<notin> set tx; percent_inv tx pat percent\<rbrakk>
   \<Longrightarrow> like_loop tx pat percent \<longleftrightarrow> like_spec pat tx \<or> retry_spec percent"
proof (induction tx pat percent rule: like_loop.induct)
  case (1 tx pat percent)
  show ?case
  proof (cases tx)
    case Nil
    then show ?thesis
      using retry_after [OF "1.prems"(2)] by (subst like_loop.simps) (auto simp: like_spec_percents)
  next
    case (Cons c tx')
    consider (char) "pat \<noteq> [] \<and> (hd pat = CHR ''_'' \<or> hd pat = c)"
      | (percent) "\<not> (pat \<noteq> [] \<and> (hd pat = CHR ''_'' \<or> hd pat = c))" "pat \<noteq> [] \<and> hd pat = CHR ''%''"
      | (mismatch) "\<not> (pat \<noteq> [] \<and> (hd pat = CHR ''_'' \<or> hd pat = c))" "\<not> (pat \<noteq> [] \<and> hd pat = CHR ''%'')"
      by blast
    then show ?thesis
    proof cases
      case char
      then obtain p ps where p: "pat = p # ps" "p = CHR ''_'' \<or> p = c" by (cases pat) auto
      with "1.prems"(1) Cons have "p \<noteq> CHR ''%''" by auto
      with p char Cons "1.IH"(1) [OF Cons char] "1.prems" percent_inv_step [of c tx' p ps percent]
      show ?thesis by (subst like_loop.simps) auto
    next
      case percent
      then obtain ps where p: "pat = CHR ''%'' # ps" by (cases pat) auto
      have "percent_inv tx ps (Some (ps, tx))" using "1.prems"(1) by (auto simp: percent_inv_def)
      with p percent Cons "1.IH"(2) [OF Cons percent] "1.prems"(1)
      have "like_loop tx pat percent \<longleftrightarrow> like_spec ps tx \<or> like_spec (CHR ''%'' # ps) (tl tx)"
        by (subst like_loop.simps) (simp add: retry_spec_def)
      also have "\<dots> \<longleftrightarrow> like_spec pat tx" using p Cons like_spec_percent [of ps c tx'] by simp
      also have "\<dots> \<longleftrightarrow> like_spec pat tx \<or> retry_spec percent"
        using retry_after [OF "1.prems"(2)] like_spec_percent_suffix [of ps _ tx] p by blast
      finally show ?thesis .
    next
      case mismatch
      then have no: "\<not> like_spec pat tx" using Cons by (cases pat) auto
      show ?thesis
      proof (cases percent)
        case None
        with no mismatch Cons show ?thesis by (subst like_loop.simps) (auto simp: retry_spec_def)
      next
        case (Some pr)
        obtain after at where pr: "pr = (after, at)" by (cases pr)
        have at: "CHR ''%'' \<notin> set (tl at)" using "1.prems"(2) Some pr
          by (cases at) (auto simp: percent_inv_def)
        then have "percent_inv (tl at) after (Some (after, tl at))" by (auto simp: percent_inv_def)
        with at mismatch Cons Some pr "1.IH"(3) [OF Cons mismatch Some pr [symmetric]]
        have "like_loop tx pat percent \<longleftrightarrow> like_spec after (tl at) \<or> like_spec (CHR ''%'' # after) (tl (tl at))"
          by (subst like_loop.simps) (auto simp: retry_spec_def)
        also have "\<dots> \<longleftrightarrow> like_spec (CHR ''%'' # after) (tl at)"
          using like_spec_percent [of after] by (cases "tl at") auto
        finally show ?thesis using no Some pr by (simp add: retry_spec_def)
      qed
    qed
  qed
qed

lemma lowercase_char_percent: "lowercase_char c = CHR ''%'' \<longleftrightarrow> c = CHR ''%''"
proof (cases "lowercase_char c = c")
  case False
  define n where "n = (of_char c :: nat)"
  from False have l: "lowercase_char c = char_of (n + 32)" "65 \<le> n" "n \<le> 0xDE"
    by (auto simp: lowercase_char_def n_def Let_def split: if_splits)
  have "n + 32 < 256" "(of_char (lowercase_char c) :: nat) = n + 32" using l by auto
  moreover have "(of_char CHR ''%'' :: nat) = 37" by simp
  ultimately have "lowercase_char c \<noteq> CHR ''%''" "c \<noteq> CHR ''%''" using l(2) n_def by auto
  then show ?thesis by simp
qed simp

lemma to_lowercase_percent: "CHR ''%'' \<in> set (to_lowercase s) \<longleftrightarrow> CHR ''%'' \<in> set s"
proof -
  have "CHR ''%'' \<in> lowercase_char ` set s \<longleftrightarrow> CHR ''%'' \<in> set s"
    using lowercase_char_percent by (metis (no_types, lifting) image_iff)
  then show ?thesis by (simp add: to_lowercase_def)
qed

section \<open>Columns and rows\<close>

datatype column_type = TStr | TInt | TFloat | TBool | TTimestamp | TUuid | TVector nat | TJson | TArray | TRef string

text \<open>The fields of \<open>FieldDef\<close> that the evaluation and the grant layer read.\<close>

record field_def =
  fd_name :: string
  fd_type :: column_type
  fd_primary :: bool
  fd_encrypted :: bool
  fd_searchable :: bool

type_synonym row = "(string \<times> string) list"

text \<open>\<open>serde_json::Value\<close>; a number is kept as the text \<open>Number::to_string\<close> gives.\<close>

datatype json = JNull | JBool bool | JNumber string | JString string
  | JArray "json list" | JObject "(string \<times> json) list"

record 'f eval_ops =
  f64_parse :: "string \<Rightarrow> 'f option"
  f64_zero :: 'f
  f64_epsilon :: 'f
  f64_eq :: "'f \<Rightarrow> 'f \<Rightarrow> bool"
  f64_lt :: "'f \<Rightarrow> 'f \<Rightarrow> bool"
  f64_le :: "'f \<Rightarrow> 'f \<Rightarrow> bool"
  f64_distance :: "'f \<Rightarrow> 'f \<Rightarrow> 'f"
  json_from_str :: "string \<Rightarrow> json option"

fun str_less :: "string \<Rightarrow> string \<Rightarrow> bool" where
  "str_less s [] = False"
| "str_less [] (d # ds) = True"
| "str_less (c # cs) (d # ds) = (if c = d then str_less cs ds else (of_char c :: nat) < of_char d)"

definition str_cmp :: "cmp_op \<Rightarrow> string \<Rightarrow> string \<Rightarrow> bool" where
  "str_cmp op a b = (case op of
     Eq \<Rightarrow> a = b | Ne \<Rightarrow> a \<noteq> b | Gt \<Rightarrow> str_less b a | Lt \<Rightarrow> str_less a b
   | Ge \<Rightarrow> \<not> str_less a b | Le \<Rightarrow> \<not> str_less b a | _ \<Rightarrow> False)"

definition int_cmp :: "cmp_op \<Rightarrow> int \<Rightarrow> int \<Rightarrow> bool" where
  "int_cmp op a b = (case op of
     Eq \<Rightarrow> a = b | Ne \<Rightarrow> a \<noteq> b | Gt \<Rightarrow> a > b | Lt \<Rightarrow> a < b | Ge \<Rightarrow> a \<ge> b | Le \<Rightarrow> a \<le> b | _ \<Rightarrow> False)"

definition f64_cmp :: "'f eval_ops \<Rightarrow> cmp_op \<Rightarrow> 'f \<Rightarrow> 'f \<Rightarrow> bool" where
  "f64_cmp en op a b = (case op of
     Eq \<Rightarrow> f64_eq en a b | Ne \<Rightarrow> \<not> f64_eq en a b | Gt \<Rightarrow> f64_lt en b a | Lt \<Rightarrow> f64_lt en a b
   | Ge \<Rightarrow> f64_le en b a | Le \<Rightarrow> f64_le en a b | _ \<Rightarrow> False)"

definition parse_i64_or_0 :: "string \<Rightarrow> int" where
  "parse_i64_or_0 s = (case parse_i64 (ascii s) of Some n \<Rightarrow> n | None \<Rightarrow> 0)"

definition parse_f64_or_0 :: "'f eval_ops \<Rightarrow> string \<Rightarrow> 'f" where
  "parse_f64_or_0 en s = (case f64_parse en s of Some x \<Rightarrow> x | None \<Rightarrow> f64_zero en)"

definition bool_true :: "string \<Rightarrow> bool" where
  "bool_true s \<longleftrightarrow> s = ''1'' \<or> s = ''true''"

definition elem_eq :: "'f eval_ops \<Rightarrow> column_type \<Rightarrow> string \<Rightarrow> string \<Rightarrow> bool" where
  "elem_eq en ft lhs rhs = (case ft of
     TBool \<Rightarrow> bool_true lhs = bool_true rhs
   | TInt \<Rightarrow> parse_i64_or_0 lhs = parse_i64_or_0 rhs
   | TTimestamp \<Rightarrow> parse_i64_or_0 lhs = parse_i64_or_0 rhs
   | TRef _ \<Rightarrow> parse_i64_or_0 lhs = parse_i64_or_0 rhs
   | TFloat \<Rightarrow> f64_lt en (f64_distance en (parse_f64_or_0 en lhs) (parse_f64_or_0 en rhs)) (f64_epsilon en)
   | _ \<Rightarrow> lhs = rhs)"

definition compare_condition_value :: "'f eval_ops \<Rightarrow> string \<Rightarrow> cmp_op \<Rightarrow> string \<Rightarrow> bool" where
  "compare_condition_value en actual op expected =
     (if op = IsNull then False
      else if op = IsNotNull then True
      else case (f64_parse en actual, f64_parse en expected) of
        (Some a, Some e) \<Rightarrow> f64_cmp en op a e
      | _ \<Rightarrow>
        if op = Like then sql_like_matches actual expected False
        else if op = ILike then sql_like_matches actual expected True
        else str_cmp op actual expected)"

section \<open>Dotted paths into JSON\<close>

fun split_dot :: "string \<Rightarrow> string \<Rightarrow> string list" where
  "split_dot seg [] = [seg]"
| "split_dot seg (c # cs) = (if c = CHR ''.'' then seg # split_dot [] cs else split_dot (seg @ [c]) cs)"

datatype json_resolve = Resolved json | Absent | Invalid

fun json_walk :: "json \<Rightarrow> string list \<Rightarrow> json_resolve" where
  "json_walk cur [] = Resolved cur"
| "json_walk cur (seg # segs) =
     (case cur of
        JObject m \<Rightarrow> (case map_of m seg of Some v \<Rightarrow> json_walk v segs | None \<Rightarrow> Absent)
      | JArray arr \<Rightarrow>
          (case parse_u64 (ascii seg) of
             Some idx \<Rightarrow> if idx < length arr then json_walk (arr ! idx) segs else Absent
           | None \<Rightarrow> Invalid)
      | _ \<Rightarrow> Invalid)"

definition json_path_get :: "json \<Rightarrow> string \<Rightarrow> json_resolve" where
  "json_path_get root path = json_walk root (split_dot [] path)"

definition json_scalar_string :: "json \<Rightarrow> string option" where
  "json_scalar_string v = (case v of
     JString s \<Rightarrow> Some s | JNumber n \<Rightarrow> Some n | JBool b \<Rightarrow> Some (if b then ''true'' else ''false'') | _ \<Rightarrow> None)"

definition json_array_contains :: "'f eval_ops \<Rightarrow> string \<Rightarrow> string \<Rightarrow> bool" where
  "json_array_contains en raw needle = (case json_from_str en raw of
     Some (JArray arr) \<Rightarrow> list_ex (\<lambda>el. json_scalar_string el = Some needle) arr
   | _ \<Rightarrow> False)"

definition eval_json_path_text :: "'f eval_ops \<Rightarrow> string option \<Rightarrow> string \<Rightarrow> where_clause \<Rightarrow> bool" where
  "eval_json_path_text en raw path cond =
     (case raw of None \<Rightarrow> wop cond = IsNotValid
      | Some raw \<Rightarrow>
        (case json_from_str en raw of None \<Rightarrow> wop cond = IsNotValid
         | Some parsed \<Rightarrow>
           let resolved = json_path_get parsed path;
               present = (case resolved of Resolved v \<Rightarrow> v \<noteq> JNull | _ \<Rightarrow> False)
           in if wop cond = IsValid then present
              else if wop cond = IsNotValid then \<not> present
              else if wop cond = Contains then
                (case resolved of
                   Resolved (JArray arr) \<Rightarrow> list_ex (\<lambda>el. json_scalar_string el = Some (wvalue cond)) arr
                 | _ \<Rightarrow> False)
              else if \<not> present then False
              else (case resolved of
                  Resolved v \<Rightarrow>
                    (case json_scalar_string v of None \<Rightarrow> False
                     | Some actual \<Rightarrow>
                       if wop cond = In then list_ex (compare_condition_value en actual Eq) (wvalues cond)
                       else if wop cond = NotIn then \<not> list_ex (compare_condition_value en actual Eq) (wvalues cond)
                       else compare_condition_value en actual (wop cond) (wvalue cond))
                | _ \<Rightarrow> False)))"

definition row_get :: "row \<Rightarrow> string \<Rightarrow> string option" where
  "row_get row col = map_of row col"

section \<open>A condition on a row\<close>

definition eval_json_path_condition :: "'f eval_ops \<Rightarrow> row \<Rightarrow> string \<Rightarrow> string \<Rightarrow> where_clause \<Rightarrow> bool" where
  "eval_json_path_condition en row root path cond = eval_json_path_text en (row_get row root) path cond"

text \<open>The comparison by the type of the column, the last part of \<open>matches_condition\<close>.\<close>

definition typed_compare :: "'f eval_ops \<Rightarrow> column_type \<Rightarrow> string \<Rightarrow> cmp_op \<Rightarrow> string \<Rightarrow> bool" where
  "typed_compare en ft val op value =
     (let by_int = int_cmp op (parse_i64_or_0 val) (parse_i64_or_0 value) in
      case ft of
        TBool \<Rightarrow> (case op of Eq \<Rightarrow> bool_true val = bool_true value | Ne \<Rightarrow> bool_true val \<noteq> bool_true value | _ \<Rightarrow> False)
      | TInt \<Rightarrow> by_int
      | TTimestamp \<Rightarrow> by_int
      | TRef _ \<Rightarrow> by_int
      | TFloat \<Rightarrow>
          (let lhs = parse_f64_or_0 en val; rhs = parse_f64_or_0 en value in
           case op of
             Eq \<Rightarrow> f64_lt en (f64_distance en lhs rhs) (f64_epsilon en)
           | Ne \<Rightarrow> f64_le en (f64_epsilon en) (f64_distance en lhs rhs)
           | _ \<Rightarrow> f64_cmp en op lhs rhs)
      | _ \<Rightarrow>
          if op = Like then sql_like_matches val value False
          else if op = ILike then sql_like_matches val value True
          else str_cmp op val value)"

fun matches_condition :: "'f eval_ops \<Rightarrow> row \<Rightarrow> where_clause \<Rightarrow> field_def \<Rightarrow> bool" where
  "matches_condition en row (WhereClause field op value vals ors) fd =
     (if op = Or then list_ex (\<lambda>c. matches_condition en row c fd) ors
      else case row_get row field of
        None \<Rightarrow> op = Ne \<or> op = IsNull
      | Some val \<Rightarrow>
          if op = IsNull then False
          else if op = IsNotNull then True
          else if op = In then list_ex (elem_eq en (fd_type fd) val) vals
          else if op = NotIn then \<not> list_ex (elem_eq en (fd_type fd) val) vals
          else if op = IsValid \<or> op = IsNotValid then False
          else if op = Contains then json_array_contains en val value
          else typed_compare en (fd_type fd) val op value)"

definition bare_col :: "string \<Rightarrow> string" where
  "bare_col col = rev (takeWhile (\<lambda>c. c \<noteq> CHR ''.'') (rev col))"

definition split_once_dot :: "string \<Rightarrow> (string \<times> string) option" where
  "split_once_dot s = (if CHR ''.'' \<in> set s
     then Some (takeWhile (\<lambda>c. c \<noteq> CHR ''.'') s, tl (dropWhile (\<lambda>c. c \<noteq> CHR ''.'') s)) else None)"

definition json_column :: "field_def list \<Rightarrow> string \<Rightarrow> bool" where
  "json_column schema root \<longleftrightarrow> list_ex (\<lambda>f. fd_name f = root \<and> (fd_type f = TJson \<or> fd_type f = TArray)) schema"

text \<open>The condition of one clause of \<open>row_matches_base_conditions\<close> that is not an OR group.\<close>

definition column_matches :: "'f eval_ops \<Rightarrow> row \<Rightarrow> field_def list \<Rightarrow> field_def option \<Rightarrow> where_clause \<Rightarrow> bool" where
  "column_matches en row schema implicit_id cond =
     (let bare = bare_col (wfield cond);
          cond' = WhereClause bare (wop cond) (wvalue cond) (wvalues cond) []
      in case find (\<lambda>f. fd_name f = bare) schema of
           Some fd \<Rightarrow> matches_condition en row cond' fd
         | None \<Rightarrow>
             if bare = ''id''
             then (case implicit_id of Some fd \<Rightarrow> matches_condition en row cond' fd | None \<Rightarrow> True)
             else True)"

definition row_matches_leaf :: "'f eval_ops \<Rightarrow> row \<Rightarrow> field_def list \<Rightarrow> field_def option \<Rightarrow> where_clause \<Rightarrow> bool" where
  "row_matches_leaf en row schema implicit_id cond =
     (case split_once_dot (wfield cond) of
        Some (root, path) \<Rightarrow>
          if json_column schema root then eval_json_path_condition en row root path cond
          else column_matches en row schema implicit_id cond
      | None \<Rightarrow> column_matches en row schema implicit_id cond)"

fun row_matches_clause :: "'f eval_ops \<Rightarrow> row \<Rightarrow> field_def list \<Rightarrow> field_def option \<Rightarrow> where_clause \<Rightarrow> bool" where
  "row_matches_clause en row schema implicit_id (WhereClause field op value vals ors) =
     (if op = Or then list_ex (row_matches_clause en row schema implicit_id) ors
      else row_matches_leaf en row schema implicit_id (WhereClause field op value vals ors))"

definition row_matches_base_conditions ::
  "'f eval_ops \<Rightarrow> row \<Rightarrow> field_def list \<Rightarrow> field_def option \<Rightarrow> where_clause list \<Rightarrow> bool" where
  "row_matches_base_conditions en row schema implicit_id conditions =
     list_all (row_matches_clause en row schema implicit_id) conditions"

definition implicit_id_field_for :: "field_def list \<Rightarrow> field_def option" where
  "implicit_id_field_for schema =
     (if list_ex fd_primary schema then None
      else Some \<lparr>fd_name = ''id'', fd_type = TInt, fd_primary = True, fd_encrypted = False, fd_searchable = False\<rparr>)"

definition is_json_path_field :: "string \<Rightarrow> field_def list \<Rightarrow> bool" where
  "is_json_path_field field schema \<longleftrightarrow>
     (case split_once_dot field of Some (root, _) \<Rightarrow> json_column schema root | None \<Rightarrow> False)"

fun validate_where_field :: "field_def list \<Rightarrow> bool \<Rightarrow> where_clause \<Rightarrow> unit result"
  and validate_where_fields :: "field_def list \<Rightarrow> bool \<Rightarrow> where_clause list \<Rightarrow> unit result" where
  "validate_where_field schema has_implicit_pk (WhereClause field op value vals ors) =
     (if op = Or then validate_where_fields schema has_implicit_pk ors
      else if (has_implicit_pk \<and> field = ''id'') \<or> is_json_path_field field schema
        \<or> list_ex (\<lambda>f. fd_name f = field) schema then Inr ()
      else Inl (Err (''ERR unknown field '' @ qt field @ '' in WHERE clause'')))"
| "validate_where_fields schema has_implicit_pk [] = Inr ()"
| "validate_where_fields schema has_implicit_pk (c # cs) =
     (case validate_where_field schema has_implicit_pk c of
        Inl e \<Rightarrow> Inl e
      | Inr _ \<Rightarrow> validate_where_fields schema has_implicit_pk cs)"

section \<open>Membership and absence\<close>

text \<open>A column the grant and query layers accept: one of the table, or a path into a JSON column.\<close>

definition known_column :: "field_def list \<Rightarrow> string \<Rightarrow> bool" where
  "known_column schema col \<longleftrightarrow> is_json_path_field col schema \<or>
     (CHR ''.'' \<notin> set col \<and> (list_ex (\<lambda>f. fd_name f = col) schema \<or> (col = ''id'' \<and> \<not> list_ex fd_primary schema)))"

lemma bare_col_plain [simp]: "CHR ''.'' \<notin> set col \<Longrightarrow> bare_col col = col"
proof -
  assume "CHR ''.'' \<notin> set col"
  then have "takeWhile (\<lambda>c. c \<noteq> CHR ''.'') (rev col) = rev col" by (auto simp: takeWhile_eq_all_conv)
  then show ?thesis by (simp only: bare_col_def rev_rev_ident)
qed

lemma typed_compare_Eq: "typed_compare en ft val Eq v = elem_eq en ft val v"
  by (cases ft) (simp_all add: typed_compare_def elem_eq_def int_cmp_def str_cmp_def)

lemma matches_condition_In:
  "matches_condition en row (WhereClause f In v vs []) fd
     = list_ex (\<lambda>v. matches_condition en row (WhereClause f Eq v [] []) fd) vs"
  by (cases "row_get row f") (simp_all add: typed_compare_Eq list_ex_iff)

lemma column_matches_In:
  "vs \<noteq> [] \<Longrightarrow> column_matches en row schema iid (in_list f In vs)
     = list_ex (\<lambda>v. column_matches en row schema iid (single f Eq v)) vs"
  by (cases vs) (auto simp: column_matches_def in_list_def single_def matches_condition_In Let_def
      simp del: matches_condition.simps split: option.splits)

lemma eval_json_In:
  "eval_json_path_text en raw path (in_list f In vs)
     = list_ex (\<lambda>v. eval_json_path_text en raw path (single f Eq v)) vs"
  by (auto simp: eval_json_path_text_def in_list_def single_def list_ex_iff Let_def
      split: option.splits json_resolve.splits)

lemma wfield_simps [simp]: "wfield (in_list f op vs) = f" "wfield (single f op v) = f"
  by (simp_all add: in_list_def single_def)

definition path_of :: "string \<Rightarrow> string \<times> string" where
  "path_of col = the (split_once_dot col)"

lemma row_matches_leaf_eq:
  "row_matches_leaf en row schema iid c =
     (if is_json_path_field (wfield c) schema
      then eval_json_path_text en (row_get row (fst (path_of (wfield c)))) (snd (path_of (wfield c))) c
      else column_matches en row schema iid c)"
  by (auto simp: row_matches_leaf_def is_json_path_field_def path_of_def eval_json_path_condition_def split: option.splits)

lemma row_matches_leaf_In:
  "vs \<noteq> [] \<Longrightarrow> row_matches_leaf en row schema iid (in_list f In vs)
     = list_ex (\<lambda>v. row_matches_leaf en row schema iid (single f Eq v)) vs"
  by (cases "is_json_path_field f schema")
    (simp_all add: row_matches_leaf_eq column_matches_In eval_json_In)

lemma row_matches_leaf_null:
  assumes "known_column schema f"
  shows "\<not> (row_matches_leaf en row schema (implicit_id_field_for schema) (single f IsNull [])
       \<and> row_matches_leaf en row schema (implicit_id_field_for schema) (single f IsNotNull []))"
proof (cases "is_json_path_field f schema")
  case True
  then show ?thesis
    by (auto simp: row_matches_leaf_eq single_def eval_json_path_text_def compare_condition_value_def Let_def
        split: option.splits json_resolve.splits if_splits)
next
  case False
  with assms have f: "CHR ''.'' \<notin> set f"
      "find (\<lambda>d. fd_name d = f) schema = None \<Longrightarrow> f = ''id'' \<and> implicit_id_field_for schema \<noteq> None"
    by (auto simp: known_column_def find_None_iff list_ex_iff implicit_id_field_for_def)
  show ?thesis
  proof (cases "find (\<lambda>d. fd_name d = f) schema")
    case None
    with False f show ?thesis
      by (cases "row_get row f") (auto simp: row_matches_leaf_eq single_def column_matches_def)
  next
    case (Some fd)
    with False f(1) show ?thesis
      by (cases "row_get row f") (simp_all add: row_matches_leaf_eq single_def column_matches_def)
  qed
qed

lemma row_matches_single:
  "op \<noteq> Or \<Longrightarrow> row_matches_clause en row schema iid (single f op v) = row_matches_leaf en row schema iid (single f op v)"
  "op \<noteq> Or \<Longrightarrow> row_matches_clause en row schema iid (in_list f op vs) = row_matches_leaf en row schema iid (in_list f op vs)"
  by (simp_all add: single_def in_list_def)

lemma row_matches_or_group:
  "row_matches_clause en row schema iid (or_group cs) = list_ex (row_matches_clause en row schema iid) cs"
  by (simp add: or_group_def)

lemma row_matches_append:
  "row_matches_base_conditions en row schema iid (cs @ cs') \<longleftrightarrow>
     row_matches_base_conditions en row schema iid cs \<and> row_matches_base_conditions en row schema iid cs'"
  by (simp add: row_matches_base_conditions_def)

section \<open>LIKE against its meaning\<close>

text \<open>
  Claim C30. On a value without \<open>%\<close>, the linear LIKE matcher accepts exactly what the
  pattern means, with and without regard to case. On a value that contains \<open>%\<close> it does
  not: the loop compares the characters before it looks for a wildcard, so a \<open>%\<close> of the
  pattern that meets a \<open>%\<close> of the value is taken literally, and the pattern \<open>%\<close>, which
  means everything, does not match the value \<open>%a\<close>.
\<close>

theorem like_matches_reference:
  "(CHR ''%'' \<notin> set actual \<longrightarrow>
     sql_like_matches actual pattern False = like_spec pattern actual \<and>
     sql_like_matches actual pattern True = like_spec (to_lowercase pattern) (to_lowercase actual))
   \<and> like_spec ''%'' ''%a'' \<and> \<not> sql_like_matches ''%a'' ''%'' False"
proof (intro conjI impI)
  have inv: "percent_inv tx pat None" "\<not> retry_spec None" for tx pat
    by (simp_all add: percent_inv_def retry_spec_def)
  assume a: "CHR ''%'' \<notin> set actual"
  show "sql_like_matches actual pattern False = like_spec pattern actual"
    using like_loop_spec [OF a inv(1)] inv(2) by (simp add: sql_like_matches_def)
  show "sql_like_matches actual pattern True = like_spec (to_lowercase pattern) (to_lowercase actual)"
    using like_loop_spec [of "to_lowercase actual", OF _ inv(1)] a inv(2)
    by (simp add: sql_like_matches_def to_lowercase_percent)
next
  show "like_spec ''%'' ''%a''" by (simp add: exI [of _ 2])
  show "\<not> sql_like_matches ''%a'' ''%'' False"
    by (simp add: sql_like_matches_def like_loop.simps)
qed

theorem like_matches_reference_witness:
  "CHR ''%'' \<notin> set ''banana'' \<and> sql_like_matches ''banana'' ''b%n_'' False \<and> \<not> sql_like_matches ''banana'' ''b%n'' False"
  using like_matches_reference [of "''banana''" "''b%n_''"] like_matches_reference [of "''banana''" "''b%n''"]
  by code_simp

end
