(* ===== verification/Grants.thy ===== *)
theory Grants
  imports WhereEval
begin

text \<open>
  Row-level access grants (\<^verbatim>\<open>src/src/grants.rs\<close>): the GRANT language with its parser and
  printer, the resolution of \<open>auth.*\<close> operands against a principal, and the checks on a
  row and on the fields an UPDATE sets. The parser's index into the tokens is the list of
  the tokens ahead; ranges of tokens are the tokens themselves. The numeric comparison of
  \<open>cmp\<close> uses the \<open>f64\<close> operations of the record \<open>eval_ops\<close>.
\<close>

section \<open>The language\<close>

datatype scope = Read | Write

definition scope_as_str :: "scope \<Rightarrow> string" where
  "scope_as_str sc = (case sc of Read \<Rightarrow> ''read'' | Write \<Rightarrow> ''write'')"

definition scope_parse :: "string \<Rightarrow> scope option" where
  "scope_parse s = (if eq_ic s ''read'' then Some Read else if eq_ic s ''write'' then Some Write else None)"

datatype operand = AuthUid | AuthClaim string | Literal string

datatype condition =
    Cmp string string operand
  | InSubquery string bool subquery
and subquery = Subquery (projected: string) (sub_table: string) (sub_inner: predicate)
and predicate = Predicate (conditions: "condition list") (alternatives: "condition list list")

definition clauses :: "predicate \<Rightarrow> condition list list" where
  "clauses p = conditions p # alternatives p"

definition append_alternatives :: "predicate \<Rightarrow> predicate \<Rightarrow> predicate" where
  "append_alternatives self other =
     (if conditions self = [] \<or> conditions other = [] then Predicate [] []
      else Predicate (conditions self) (alternatives self @ [conditions other] @ alternatives other))"

record grant =
  g_table :: string
  g_scopes :: "scope list"
  g_predicate :: predicate

section \<open>The parser\<close>

definition VALID_OPS :: "string list" where
  "VALID_OPS = [''='', ''!='', ''>'', ''<'', ''>='', ''<='']"

definition strip_prefix :: "string \<Rightarrow> string \<Rightarrow> string option" where
  "strip_prefix pre s = (if take (length pre) s = pre then Some (drop (length pre) s) else None)"

definition parse_operand :: "string \<Rightarrow> operand" where
  "parse_operand tok =
     (if eq_ic tok ''auth.uid()'' then AuthUid
      else case strip_prefix ''auth.'' tok of
        Some claim \<Rightarrow> AuthClaim claim
      | None \<Rightarrow> (case strip_prefix ''AUTH.'' tok of Some claim \<Rightarrow> AuthClaim claim | None \<Rightarrow> Literal tok))"

text \<open>\<open>split_top_level\<close>: the pieces between separators outside parentheses.\<close>

fun split_top_level :: "string list \<Rightarrow> string \<Rightarrow> nat \<Rightarrow> string list \<Rightarrow> string list list" where
  "split_top_level [] sep depth piece = [piece]"
| "split_top_level (tok # toks) sep depth piece =
     (if tok = ''('' then split_top_level toks sep (depth + 1) (piece @ [tok])
      else if tok = '')'' then split_top_level toks sep (depth - 1) (piece @ [tok])
      else if depth = 0 \<and> eq_ic tok sep then piece # split_top_level toks sep depth []
      else split_top_level toks sep depth (piece @ [tok]))"

definition expect :: "string list \<Rightarrow> string \<Rightarrow> string list result" where
  "expect toks want = (case toks of
     t # r \<Rightarrow> if eq_ic t want then Inr r
       else Inl (Err (''ERR expected '' @ qt want @ '' in grant subquery, got '' @ qt t))
   | [] \<Rightarrow> Inl (Err (''ERR grant subquery ended early (expected '' @ qt want @ '')'')))"

text \<open>The tokens of an inner WHERE, up to the matching parenthesis.\<close>

fun gather_inner :: "string list \<Rightarrow> nat \<Rightarrow> string list \<Rightarrow> string list \<times> string list" where
  "gather_inner [] depth acc = (acc, [])"
| "gather_inner (tok # toks) depth acc =
     (if tok = '')'' then
        (if depth = 0 then (acc, tok # toks) else gather_inner toks (depth - 1) (acc @ [tok]))
      else gather_inner toks (if tok = ''('' then depth + 1 else depth) (acc @ [tok]))"

definition reserved_prefix :: "string \<Rightarrow> bool" where
  "reserved_prefix table \<longleftrightarrow> strip_prefix ''auth.'' table \<noteq> None \<or> strip_prefix ''push.'' table \<noteq> None"

text \<open>
  \<open>parse_subquery\<close> up to the inner predicate: the column, the table, the inner tokens
  and the tokens after the closing parenthesis.
\<close>

definition subquery_tail :: "string \<Rightarrow> string \<Rightarrow> string list \<Rightarrow> (string \<times> string \<times> string list \<times> string list) result" where
  "subquery_tail proj table toks =
     (let (inner, after) = (if next_is toks ''WHERE'' then gather_inner (tl toks) 0 [] else ([], toks))
      in map_sum id (\<lambda>r. (proj, table, inner, r)) (expect after '')''))"

definition subquery_head :: "string list \<Rightarrow> (string \<times> string \<times> string list \<times> string list) result" where
  "subquery_head toks =
     (case expect toks ''('' of Inl e \<Rightarrow> Inl e | Inr t1 \<Rightarrow>
      case expect t1 ''SELECT'' of Inl e \<Rightarrow> Inl e | Inr t2 \<Rightarrow>
      case t2 of [] \<Rightarrow> Inl (Err ''ERR grant subquery expects a column after SELECT'') | proj # t3 \<Rightarrow>
      if proj = '')'' \<or> eq_ic proj ''FROM''
      then Inl (Err ''ERR grant subquery expects a single column after SELECT'')
      else case expect t3 ''FROM'' of Inl e \<Rightarrow> Inl e | Inr t4 \<Rightarrow>
      case t4 of [] \<Rightarrow> Inl (Err ''ERR grant subquery expects a table after FROM'') | table # t5 \<Rightarrow>
      if reserved_prefix (map lower_char table)
      then Inl (Err ''ERR grant subquery may not read reserved system tables'')
      else subquery_tail proj table t5)"

text \<open>
  \<open>parse_one_condition\<close> up to the inner predicate of a subquery: what the condition is,
  and the tokens after it.
\<close>

datatype condition_shape =
    CmpShape string string operand
  | SubShape string bool string string "string list"

definition sub_shape :: "string \<Rightarrow> bool \<Rightarrow> string list \<Rightarrow> (condition_shape \<times> string list) result" where
  "sub_shape column negated toks =
     map_sum id (\<lambda>(proj, table, inner, r). (SubShape column negated proj table inner, r)) (subquery_head toks)"

definition condition_head :: "string list \<Rightarrow> (condition_shape \<times> string list) result" where
  "condition_head toks =
     (case toks of
        [] \<Rightarrow> Inl (Err ''ERR incomplete grant predicate (expected column)'')
      | [column] \<Rightarrow> Inl (Err (''ERR incomplete grant condition after '' @ qt column))
      | column # op_tok # rest \<Rightarrow>
          if eq_ic op_tok ''IN'' then sub_shape column False rest
          else if eq_ic op_tok ''NOT'' then
            (case rest of
               [] \<Rightarrow> Inl (Err (''ERR expected '' @ qt ''IN'' @ '' after '' @ qt ''NOT'' @ '' for column '' @ qt column))
             | in_tok # rest' \<Rightarrow>
                 if eq_ic in_tok ''IN'' then sub_shape column True rest'
                 else Inl (Err (''ERR expected '' @ qt ''IN'' @ '' after '' @ qt ''NOT'' @ '', got '' @ qt in_tok)))
          else if op_tok \<notin> set VALID_OPS then
            Inl (Err (''ERR unsupported operator '' @ qt op_tok @ '' in grant (use = != > < >= <= or [NOT] IN)''))
          else (case rest of
              [] \<Rightarrow> Inl (Err (''ERR grant condition '' @ qt (column @ '' '' @ op_tok) @ '' is missing its value''))
            | operand_tok # rest' \<Rightarrow> Inr (CmpShape column op_tok (parse_operand operand_tok), rest')))"

lemma gather_inner_length:
  "gather_inner toks depth acc = (inner, after) \<Longrightarrow> length inner + length after = length acc + length toks"
  by (induction toks depth acc rule: gather_inner.induct) (auto split: if_splits)

lemma expect_Inr: "expect toks want = Inr r \<Longrightarrow> \<exists>t. toks = t # r \<and> eq_ic t want"
  by (auto simp: expect_def split: list.splits if_splits)

lemma subquery_tail_length:
  "subquery_tail proj table toks = Inr (proj', table', inner, r) \<Longrightarrow> length inner + length r < length toks"
  by (cases toks) (auto simp: subquery_tail_def map_sum_Inr_iff next_is_def split: if_splits prod.splits
      dest!: expect_Inr gather_inner_length)

lemma subquery_head_length:
  "subquery_head toks = Inr (proj, table, inner, r) \<Longrightarrow> length inner + length r < length toks"
  by (fastforce simp: subquery_head_def split: sum.splits list.splits if_splits
      dest!: expect_Inr subquery_tail_length)

lemma condition_head_length:
  assumes "condition_head toks = Inr (shape, r)"
  shows "length r < length toks" "shape = SubShape c n p t inner \<Longrightarrow> length inner + 2 \<le> length toks"
  using assms
  by (auto simp: condition_head_def sub_shape_def map_sum_Inr_iff split: list.splits if_splits
      dest!: subquery_head_length)

lemma split_top_level_length:
  "sum_list (map (\<lambda>c. 3 * length c + 2) (split_top_level toks sep depth piece))
     \<le> 3 * length toks + 3 * length piece + 2"
  by (induction toks sep depth piece rule: split_top_level.induct) auto

function parse_predicate :: "string list \<Rightarrow> predicate result"
  and parse_clauses :: "string list list \<Rightarrow> condition list list result"
  and parse_predicate_inner :: "string list \<Rightarrow> condition list result" where
  "parse_predicate toks =
     map_sum id (\<lambda>cl. Predicate (hd cl) (tl cl)) (parse_clauses (split_top_level toks ''OR'' 0 []))"
| "parse_clauses cls =
     (case cls of
        [] \<Rightarrow> Inr []
      | c # cs \<Rightarrow>
          (case parse_predicate_inner c of
             Inl e \<Rightarrow> Inl e
           | Inr conds \<Rightarrow> map_sum id ((#) conds) (parse_clauses cs)))"
| "parse_predicate_inner toks =
     (if toks = [] then Inr []
      else case condition_head toks of
        Inl e \<Rightarrow> Inl e
      | Inr (shape, rest) \<Rightarrow>
          (case (case shape of
                   CmpShape column op x \<Rightarrow> Inr (Cmp column op x)
                 | SubShape column negated proj table inner \<Rightarrow>
                     map_sum id (\<lambda>q. InSubquery column negated (Subquery proj table q)) (parse_predicate inner)) of
             Inl e \<Rightarrow> Inl e
           | Inr cond \<Rightarrow>
               (case rest of
                  [] \<Rightarrow> Inr [cond]
                | t # rest' \<Rightarrow>
                    if eq_ic t ''AND'' then
                      (if rest' = [] then Inl (Err (''ERR trailing '' @ qt ''AND'' @ '' in grant predicate''))
                       else map_sum id ((#) cond) (parse_predicate_inner rest'))
                    else Inl (Err (''ERR expected '' @ qt ''AND'' @ '' or '' @ qt ''OR''
                      @ '' between grant conditions, got '' @ qt t)))))"
  by pat_completeness auto
termination
proof (relation "measure (\<lambda>x. case x of
    Inl toks \<Rightarrow> 3 * length toks + 3
  | Inr (Inl cls) \<Rightarrow> sum_list (map (\<lambda>c. 3 * length c + 2) cls)
  | Inr (Inr toks) \<Rightarrow> 3 * length toks + 1)", goal_cases)
  case (2 toks)
  then show ?case using split_top_level_length [of toks "''OR''" 0 "[]"] by simp
next
  case (5 toks p shape rest x1 x2 x3 x4 inner)
  then show ?case using condition_head_length(2) [of toks shape rest] by fastforce
next
  case (6 toks p shape rest cond t rest')
  then show ?case using condition_head_length(1) [of toks shape rest] by fastforce
qed auto

declare parse_predicate.simps [simp del] parse_clauses.simps [simp del] parse_predicate_inner.simps [simp del]

section \<open>GRANT and REVOKE\<close>

definition trim_end_comma :: "string \<Rightarrow> string" where
  "trim_end_comma s = rev (dropWhile (\<lambda>c. c = CHR '','') (rev s))"

text \<open>The scopes before ON, commas removed; GRANT keeps the first of equal ones.\<close>

fun parse_scopes :: "bool \<Rightarrow> string \<Rightarrow> string list \<Rightarrow> scope list \<Rightarrow> scope list result" where
  "parse_scopes dedup hint [] scopes = Inr scopes"
| "parse_scopes dedup hint (tok # toks) scopes =
     (let s = trim_end_comma tok in
      if s = [] then parse_scopes dedup hint toks scopes
      else case scope_parse s of
        None \<Rightarrow> Inl (Err (''ERR invalid scope '' @ qt s @ hint))
      | Some sc \<Rightarrow> parse_scopes dedup hint toks (if dedup \<and> sc \<in> set scopes then scopes else scopes @ [sc]))"

definition before_kw :: "string \<Rightarrow> string list \<Rightarrow> string list" where
  "before_kw kw toks = takeWhile (\<lambda>t. \<not> eq_ic t kw) toks"

definition after_kw :: "string \<Rightarrow> string list \<Rightarrow> string list" where
  "after_kw kw toks = tl (dropWhile (\<lambda>t. \<not> eq_ic t kw) toks)"

definition has_kw :: "string \<Rightarrow> string list \<Rightarrow> bool" where
  "has_kw kw toks \<longleftrightarrow> list_ex (\<lambda>t. eq_ic t kw) toks"

definition parse_grant :: "string list \<Rightarrow> grant result" where
  "parse_grant toks =
     (if \<not> has_kw ''ON'' toks then Inl (Err ''ERR usage: GRANT <read[, write]> ON <table> [WHERE <predicate>]'')
      else if before_kw ''ON'' toks = [] then Inl (Err ''ERR GRANT requires at least one scope'')
      else case parse_scopes True '' (use read/write)'' (before_kw ''ON'' toks) [] of
        Inl e \<Rightarrow> Inl e
      | Inr scopes \<Rightarrow>
          if scopes = [] then Inl (Err ''ERR GRANT requires at least one scope'')
          else (case after_kw ''ON'' toks of
              [] \<Rightarrow> Inl (Err ''ERR GRANT requires a table name after ON'')
            | table # _ \<Rightarrow>
                map_sum id (\<lambda>p. \<lparr>g_table = table, g_scopes = scopes, g_predicate = p\<rparr>)
                  (if has_kw ''WHERE'' toks then parse_predicate (after_kw ''WHERE'' toks)
                   else Inr (Predicate [] []))))"

definition parse_revoke :: "string list \<Rightarrow> (string \<times> scope list) result" where
  "parse_revoke toks =
     (if \<not> has_kw ''ON'' toks then Inl (Err ''ERR usage: REVOKE <read[, write]> ON <table>'')
      else case parse_scopes False [] (before_kw ''ON'' toks) [] of
        Inl e \<Rightarrow> Inl e
      | Inr scopes \<Rightarrow>
          (case after_kw ''ON'' toks of
             [] \<Rightarrow> Inl (Err ''ERR REVOKE requires a table name after ON'')
           | table # _ \<Rightarrow>
               if scopes = [] then Inl (Err ''ERR REVOKE requires at least one scope'') else Inr (table, scopes)))"

section \<open>The printer\<close>

fun join :: "string \<Rightarrow> string list \<Rightarrow> string" where
  "join sep [] = []"
| "join sep [s] = s"
| "join sep (s # t # ss) = s @ sep @ join sep (t # ss)"

definition operand_to_string :: "operand \<Rightarrow> string" where
  "operand_to_string x = (case x of
     AuthUid \<Rightarrow> ''auth.uid()'' | AuthClaim name \<Rightarrow> ''auth.'' @ name | Literal v \<Rightarrow> quote_where_value v)"

definition in_kw :: "bool \<Rightarrow> string" where
  "in_kw negated = (if negated then ''NOT IN'' else ''IN'')"

fun predicate_to_string :: "predicate \<Rightarrow> string"
  and condition_to_string :: "condition \<Rightarrow> string" where
  "predicate_to_string (Predicate conds alts) =
     join '' OR '' (map (\<lambda>cs. join '' AND '' (map condition_to_string cs)) (conds # alts))"
| "condition_to_string (Cmp column op x) = column @ '' '' @ op @ '' '' @ operand_to_string x"
| "condition_to_string (InSubquery column negated (Subquery proj table inner)) =
     (let text = predicate_to_string inner in
      if text = [] then column @ '' '' @ in_kw negated @ '' ( SELECT '' @ proj @ '' FROM '' @ table @ '' )''
      else column @ '' '' @ in_kw negated @ '' ( SELECT '' @ proj @ '' FROM '' @ table @ '' WHERE '' @ text @ '' )'')"

section \<open>Resolution and checks\<close>

datatype resolved_condition =
    RCmp string string string
  | InSubqueryResolved string bool string string "resolved_condition list"

datatype enforced_condition =
    ECmp string string string
  | InSet string bool "string list"

definition resolve_operand :: "string \<Rightarrow> (string \<Rightarrow> string option) \<Rightarrow> operand \<Rightarrow> string result" where
  "resolve_operand uid claim x = (case x of
     AuthUid \<Rightarrow> Inr uid
   | AuthClaim name \<Rightarrow>
       (case claim name of
          Some v \<Rightarrow> Inr v
        | None \<Rightarrow> Inl (Err (''ERR grant references auth.'' @ name @ '' but it is not present'')))
   | Literal v \<Rightarrow> Inr v)"

fun resolve_predicate :: "string \<Rightarrow> (string \<Rightarrow> string option) \<Rightarrow> condition list \<Rightarrow> resolved_condition list result" where
  "resolve_predicate uid claim [] = Inr []"
| "resolve_predicate uid claim (Cmp column op x # cs) =
     (case resolve_operand uid claim x of
        Inl e \<Rightarrow> Inl e
      | Inr v \<Rightarrow> map_sum id ((#) (RCmp column op v)) (resolve_predicate uid claim cs))"
| "resolve_predicate uid claim (InSubquery column negated (Subquery proj table (Predicate ic ia)) # cs) =
     (if ia \<noteq> [] then Inl (Err ''ERR OR inside grant subquery is not supported'')
      else case resolve_predicate uid claim ic of
        Inl e \<Rightarrow> Inl e
      | Inr inner \<Rightarrow>
          map_sum id ((#) (InSubqueryResolved column negated table proj inner)) (resolve_predicate uid claim cs))"

fun collect_clauses :: "'a result list \<Rightarrow> 'a list result" where
  "collect_clauses [] = Inr []"
| "collect_clauses (r # rs) = (case r of Inl e \<Rightarrow> Inl e | Inr x \<Rightarrow> map_sum id ((#) x) (collect_clauses rs))"

definition resolve_clauses :: "predicate \<Rightarrow> string \<Rightarrow> (string \<Rightarrow> string option) \<Rightarrow> resolved_condition list list result" where
  "resolve_clauses pred uid claim = collect_clauses (map (resolve_predicate uid claim) (clauses pred))"

definition grant_op :: "string \<Rightarrow> cmp_op option" where
  "grant_op op =
     (if op = ''='' then Some Eq else if op = ''!='' then Some Ne else if op = ''>'' then Some Gt
      else if op = ''<'' then Some Lt else if op = ''>='' then Some Ge else if op = ''<='' then Some Le else None)"

text \<open>\<open>cmp\<close>.\<close>

definition grant_cmp :: "'f eval_ops \<Rightarrow> string \<Rightarrow> string \<Rightarrow> string \<Rightarrow> bool" where
  "grant_cmp en actual op target =
     (case grant_op op of None \<Rightarrow> False
      | Some c \<Rightarrow>
          (case (f64_parse en actual, f64_parse en target) of
             (Some a, Some t) \<Rightarrow> f64_cmp en c a t
           | _ \<Rightarrow> str_cmp c actual target))"

definition in_set :: "string \<Rightarrow> bool \<Rightarrow> string list \<Rightarrow> bool" where
  "in_set value negated vals \<longleftrightarrow> (value \<in> set vals) \<noteq> negated"

fun cond_column :: "enforced_condition \<Rightarrow> string" where
  "cond_column (ECmp column op target) = column"
| "cond_column (InSet column negated vals) = column"

fun value_satisfies :: "'f eval_ops \<Rightarrow> enforced_condition \<Rightarrow> string \<Rightarrow> bool" where
  "value_satisfies en (ECmp column op target) v = grant_cmp en v op target"
| "value_satisfies en (InSet column negated vals) v = in_set v negated vals"

definition enforced_row_satisfies :: "'f eval_ops \<Rightarrow> enforced_condition list \<Rightarrow> (string \<Rightarrow> string option) \<Rightarrow> bool" where
  "enforced_row_satisfies en conds value =
     list_all (\<lambda>c. case value (cond_column c) of None \<Rightarrow> False | Some v \<Rightarrow> value_satisfies en c v) conds"

definition enforced_set_satisfies :: "'f eval_ops \<Rightarrow> enforced_condition list \<Rightarrow> (string \<times> string) list \<Rightarrow> bool" where
  "enforced_set_satisfies en conds set_fields =
     list_all (\<lambda>c. case map_of set_fields (cond_column c) of None \<Rightarrow> True | Some v \<Rightarrow> value_satisfies en c v) conds"

end
