(* ===== verification/GrantText.thy ===== *)
theory GrantText
  imports Grants
begin

text \<open>
  The stored form of a grant: printing a predicate and reading the text back with the
  tokenizer and the parser gives the predicate.
\<close>

section \<open>Predicates whose text can be read back\<close>

text \<open>
  Names are words; a literal is any text but a lone parenthesis, the keyword OR, and what
  reads as an \<open>auth.*\<close> operand. The parser itself produces no other literal outside
  parentheses, except a parenthesis.
\<close>

definition word_ok :: "string \<Rightarrow> bool" where
  "word_ok w \<longleftrightarrow> plain_word w \<and> w \<noteq> ''('' \<and> w \<noteq> '')'' \<and> \<not> eq_ic w ''OR''"

definition operand_wf :: "operand \<Rightarrow> bool" where
  "operand_wf x = (case x of
     AuthUid \<Rightarrow> True
   | AuthClaim n \<Rightarrow> list_all word_char n \<and> \<not> eq_ic (''auth.'' @ n) ''auth.uid()''
   | Literal v \<Rightarrow> parse_operand v = Literal v \<and> v \<noteq> ''('' \<and> v \<noteq> '')'' \<and> \<not> eq_ic v ''OR'')"

fun predicate_wf :: "predicate \<Rightarrow> bool" and condition_wf :: "condition \<Rightarrow> bool" where
  "predicate_wf (Predicate conds alts) = (list_all condition_wf conds \<and> list_all (list_all condition_wf) alts)"
| "condition_wf (Cmp column op x) = (word_ok column \<and> op \<in> set VALID_OPS \<and> operand_wf x)"
| "condition_wf (InSubquery column negated (Subquery proj table inner)) =
     (word_ok column \<and> word_ok proj \<and> \<not> eq_ic proj ''FROM'' \<and> word_ok table
      \<and> \<not> reserved_prefix (map lower_char table) \<and> predicate_wf inner)"

section \<open>The tokens of a predicate\<close>

fun join_tokens :: "string \<Rightarrow> string list list \<Rightarrow> string list" where
  "join_tokens kw [] = []"
| "join_tokens kw [ts] = ts"
| "join_tokens kw (ts # us # tss) = ts @ kw # join_tokens kw (us # tss)"

definition operand_token :: "operand \<Rightarrow> string" where
  "operand_token x = (case x of AuthUid \<Rightarrow> ''auth.uid()'' | AuthClaim name \<Rightarrow> ''auth.'' @ name | Literal v \<Rightarrow> v)"

definition in_tokens :: "bool \<Rightarrow> string list" where
  "in_tokens negated = (if negated then [''NOT'', ''IN''] else [''IN''])"

fun predicate_tokens :: "predicate \<Rightarrow> string list" and condition_tokens :: "condition \<Rightarrow> string list" where
  "predicate_tokens (Predicate conds alts) =
     join_tokens ''OR'' (map (\<lambda>cs. join_tokens ''AND'' (map condition_tokens cs)) (conds # alts))"
| "condition_tokens (Cmp column op x) = [column, op, operand_token x]"
| "condition_tokens (InSubquery column negated (Subquery proj table inner)) =
     column # in_tokens negated @ ''('' # ''SELECT'' # proj # ''FROM'' # table
       # (if inner = Predicate [] [] then [] else ''WHERE'' # predicate_tokens inner) @ ['')'']"

lemma join_space_Cons: "ss \<noteq> [] \<Longrightarrow> join sep (s # ss) = s @ sep @ join sep ss"
  by (cases ss) auto

lemma join_tokens_Cons: "tss \<noteq> [] \<Longrightarrow> join_tokens kw (ts # tss) = ts @ kw # join_tokens kw tss"
  by (cases tss) auto

lemma tokenize_empty [simp]: "tokenize_where [] = Inr []"
  by (simp add: tokenize_where_def)

lemma tokenize_join_space:
  "list_all2 (\<lambda>s ts. tokenize_where s = Inr ts) ss tss \<Longrightarrow> tokenize_where (join '' '' ss) = Inr (concat tss)"
proof (induction rule: list_all2_induct)
  case (Cons s ss ts tss)
  then show ?case
    using tokenize_where_space [of s ts "join '' '' ss" "concat tss"]
    by (cases ss) (auto simp: join_space_Cons)
qed simp

lemma tokenize_join_kw:
  assumes "plain_word kw"
  shows "list_all2 (\<lambda>s ts. tokenize_where s = Inr ts) ss tss
    \<Longrightarrow> tokenize_where (join ('' '' @ kw @ '' '') ss) = Inr (join_tokens kw tss)"
proof (induction rule: list_all2_induct)
  case (Cons s ss ts tss)
  show ?case
  proof (cases "ss = []")
    case True
    with Cons show ?thesis by simp
  next
    case False
    with Cons have "tss \<noteq> []" by auto
    with False Cons show ?thesis
      using tokenize_where_space [OF Cons.hyps(1) tokenize_where_space [OF tokenize_word [OF assms] Cons.IH]]
      by (simp add: join_space_Cons join_tokens_Cons)
  qed
qed simp

lemma plain_keywords [simp]:
  "plain_word ''OR''" "plain_word ''AND''" "plain_word ''IN''" "plain_word ''NOT''" "plain_word ''(''" "plain_word '')''"
  "plain_word ''SELECT''" "plain_word ''FROM''" "plain_word ''WHERE''" "plain_word ''auth.uid()''"
  "plain_word ''IS''" "plain_word ''NULL''"
  by code_simp+

lemma tokenize_op: "op \<in> set VALID_OPS \<Longrightarrow> tokenize_where op = Inr [op]"
  by (auto simp: VALID_OPS_def tokenize_cmp)

lemma tokenize_operand: "operand_wf x \<Longrightarrow> tokenize_where (operand_to_string x) = Inr [operand_token x]"
  by (cases x) (auto simp: operand_to_string_def operand_token_def operand_wf_def tokenize_quoted tokenize_word
      plain_word_def word_char_def is_whitespace_def is_cmp_char_def)

lemma condition_to_string_ne: "condition_to_string c \<noteq> []"
  by (cases c rule: condition_to_string.cases) (auto simp: Let_def)

lemma predicate_to_string_empty: "predicate_to_string p = [] \<longleftrightarrow> p = Predicate [] []"
proof (cases p)
  case (Predicate conds alts)
  have "join '' AND '' (map condition_to_string cs) = [] \<longleftrightarrow> cs = []" for cs
    by (cases cs; cases "tl cs") (auto simp: condition_to_string_ne)
  with Predicate show ?thesis by (cases alts) (auto simp: join_space_Cons)
qed

lemma tokenize_in_kw: "tokenize_where (in_kw negated) = Inr (in_tokens negated)"
  using tokenize_where_space [OF tokenize_word [of "''NOT''"] tokenize_word [of "''IN''"]]
  by (simp add: in_kw_def in_tokens_def tokenize_word)

lemma tokenize_printed:
  "condition_wf c \<Longrightarrow> tokenize_where (condition_to_string c) = Inr (condition_tokens c)"
  "predicate_wf (sub_inner q) \<Longrightarrow> tokenize_where (predicate_to_string (sub_inner q)) = Inr (predicate_tokens (sub_inner q))"
  "predicate_wf p \<Longrightarrow> tokenize_where (predicate_to_string p) = Inr (predicate_tokens p)"
proof (induction c and q and p)
  case (Cmp column op x)
  then show ?case
    using tokenize_join_space [of "[column, op, operand_to_string x]" "[[column], [op], [operand_token x]]"]
    by (simp add: tokenize_op tokenize_operand tokenize_word word_ok_def)
next
  case (InSubquery column negated q)
  obtain proj table inner where q: "q = Subquery proj table inner" by (cases q)
  let ?pre = "[column, in_kw negated, ''('', ''SELECT'', proj, ''FROM'', table]"
  let ?pre' = "[[column], in_tokens negated, [''(''], [''SELECT''], [proj], [''FROM''], [table]]"
  have pre: "list_all2 (\<lambda>s ts. tokenize_where s = Inr ts) ?pre ?pre'"
    using InSubquery.prems q by (simp add: tokenize_word tokenize_in_kw word_ok_def)
  show ?case
  proof (cases "inner = Predicate [] []")
    case True
    then show ?thesis
      using tokenize_join_space [OF list_all2_appendI [OF pre, of "['')'']" "[['')'']]"]] predicate_to_string_empty [of inner] q
      by (simp add: tokenize_word Let_def)
  next
    case False
    then show ?thesis
      using tokenize_join_space [OF list_all2_appendI [OF pre,
          of "[''WHERE'', predicate_to_string inner, '')'']" "[[''WHERE''], predicate_tokens inner, ['')'']]"]]
        predicate_to_string_empty [of inner] q InSubquery
      by (simp add: tokenize_word Let_def)
  qed
next
  case (Subquery proj table inner)
  then show ?case by simp
next
  case (Predicate conds alts)
  have cl: "tokenize_where (join '' AND '' (map condition_to_string cs)) = Inr (join_tokens ''AND'' (map condition_tokens cs))"
    if "cs \<in> set (conds # alts)" for cs
  proof -
    have "list_all2 (\<lambda>s ts. tokenize_where s = Inr ts) (map condition_to_string cs) (map condition_tokens cs)"
      using that Predicate by (auto simp: list_all2_map1 list_all2_map2 list_all2_same list_all_iff)
    then show ?thesis using tokenize_join_kw [of "''AND''"] by simp
  qed
  then have "list_all2 (\<lambda>s ts. tokenize_where s = Inr ts)
      (map (\<lambda>cs. join '' AND '' (map condition_to_string cs)) (conds # alts))
      (map (\<lambda>cs. join_tokens ''AND'' (map condition_tokens cs)) (conds # alts))"
    unfolding list_all2_map1 list_all2_map2 list_all2_same by blast
  then show ?case using tokenize_join_kw [of "''OR''"] by simp
qed

section \<open>Reading the tokens back\<close>

text \<open>
  A balanced piece passes through the search for the closing parenthesis and, inside
  parentheses, through the search for OR; an inert piece also outside of them.
\<close>

definition balanced :: "string list \<Rightarrow> bool" where
  "balanced ts \<longleftrightarrow>
     (\<forall>d rest acc. gather_inner (ts @ rest) d acc = gather_inner rest d (acc @ ts)) \<and>
     (\<forall>d rest piece. split_top_level (ts @ rest) ''OR'' (Suc d) piece = split_top_level rest ''OR'' (Suc d) (piece @ ts))"

definition inert :: "string list \<Rightarrow> bool" where
  "inert ts \<longleftrightarrow> balanced ts \<and>
     (\<forall>d rest piece. split_top_level (ts @ rest) ''OR'' d piece = split_top_level rest ''OR'' d (piece @ ts))"

lemma balanced_append: "balanced ts \<Longrightarrow> balanced us \<Longrightarrow> balanced (ts @ us)"
  by (simp add: balanced_def)

lemma inert_append: "inert ts \<Longrightarrow> inert us \<Longrightarrow> inert (ts @ us)"
  by (simp add: inert_def balanced_append)

lemma balanced_token: "t \<noteq> ''('' \<Longrightarrow> t \<noteq> '')'' \<Longrightarrow> balanced [t]"
  by (simp add: balanced_def)

lemma inert_token: "t \<noteq> ''('' \<Longrightarrow> t \<noteq> '')'' \<Longrightarrow> \<not> eq_ic t ''OR'' \<Longrightarrow> inert [t]"
  by (simp add: inert_def balanced_token)

lemma balanced_Nil [simp]: "balanced []" and inert_Nil [simp]: "inert []"
  by (simp_all add: balanced_def inert_def)

lemma inert_parens: "balanced ts \<Longrightarrow> inert (''('' # ts @ ['')''])"
  by (simp add: inert_def balanced_def)

lemma inert_Cons: "inert [t] \<Longrightarrow> inert ts \<Longrightarrow> inert (t # ts)"
  using inert_append [of "[t]" ts] by simp

lemma balanced_Cons: "balanced [t] \<Longrightarrow> balanced ts \<Longrightarrow> balanced (t # ts)"
  using balanced_append [of "[t]" ts] by simp

lemma inert_balanced: "inert ts \<Longrightarrow> balanced ts"
  by (simp add: inert_def)

lemma balanced_join: "\<lbrakk>list_all balanced tss; balanced [kw]\<rbrakk> \<Longrightarrow> balanced (join_tokens kw tss)"
  by (induction kw tss rule: join_tokens.induct) (auto intro: balanced_append balanced_Cons)

lemma inert_join: "\<lbrakk>list_all inert tss; inert [kw]\<rbrakk> \<Longrightarrow> inert (join_tokens kw tss)"
  by (induction kw tss rule: join_tokens.induct) (auto intro: inert_append inert_Cons)

lemma inert_tokens: "list_all (\<lambda>t. inert [t]) ts \<Longrightarrow> inert ts"
  by (induction ts) (simp_all add: inert_Cons)

lemma inert_word: "word_ok w \<Longrightarrow> inert [w]"
  by (simp add: word_ok_def inert_token)

lemma inert_operand: "operand_wf x \<Longrightarrow> inert [operand_token x]"
  by (cases x) (auto intro!: inert_token simp: operand_token_def operand_wf_def eq_ic_def)

lemma inert_keywords:
  "inert [''AND'']" "inert [''IN'']" "inert [''NOT'']" "inert [''SELECT'']" "inert [''FROM'']" "inert [''WHERE'']"
  by (auto intro!: inert_token simp: eq_ic_def lower_char_def)

lemma valid_ops_plain:
  assumes "op \<in> set VALID_OPS"
  shows "op \<noteq> ''(''" "op \<noteq> '')''" "\<not> eq_ic op ''OR''" "\<not> eq_ic op ''IN''" "\<not> eq_ic op ''NOT''"
proof -
  have "list_all (\<lambda>op. op \<noteq> ''('' \<and> op \<noteq> '')'' \<and> \<not> eq_ic op ''OR'' \<and> \<not> eq_ic op ''IN'' \<and> \<not> eq_ic op ''NOT'') VALID_OPS"
    by code_simp
  with assms show "op \<noteq> ''(''" "op \<noteq> '')''" "\<not> eq_ic op ''OR''" "\<not> eq_ic op ''IN''" "\<not> eq_ic op ''NOT''"
    by (auto simp: list_all_iff)
qed

lemma inert_op: "op \<in> set VALID_OPS \<Longrightarrow> inert [op]"
  by (simp add: inert_token valid_ops_plain)

lemma tokens_inert:
  "condition_wf c \<Longrightarrow> inert (condition_tokens c)"
  "predicate_wf (sub_inner q) \<Longrightarrow> balanced (predicate_tokens (sub_inner q))"
  "predicate_wf p \<Longrightarrow> balanced (predicate_tokens p)"
proof (induction c and q and p)
  case (Cmp column op x)
  then have "list_all (\<lambda>t. inert [t]) [column, op, operand_token x]"
    by (simp add: inert_word inert_op inert_operand)
  from inert_tokens [OF this] show ?case by simp
next
  case (InSubquery column negated q)
  obtain proj table inner where q: "q = Subquery proj table inner" by (cases q)
  let ?inner = "if inner = Predicate [] [] then [] else ''WHERE'' # predicate_tokens inner"
  have wf: "word_ok proj" "word_ok table" "word_ok column" "predicate_wf inner" using InSubquery.prems q by simp_all
  have "balanced (predicate_tokens inner)" using InSubquery.IH wf(4) q by simp
  then have "balanced ?inner" using balanced_Cons [OF inert_balanced [OF inert_keywords(6)]] by simp
  moreover have words: "inert [proj]" "inert [table]" "inert [column]" using wf(1-3) by (simp_all only: inert_word)
  moreover from words have "inert [''SELECT'', proj, ''FROM'', table]"
    by (intro inert_tokens) (simp add: inert_keywords)
  ultimately have "balanced ([''SELECT'', proj, ''FROM'', table] @ ?inner)"
    by (metis balanced_append inert_balanced)
  then have "inert (''('' # ([''SELECT'', proj, ''FROM'', table] @ ?inner) @ ['')''])" by (rule inert_parens)
  moreover have "inert (in_tokens negated)" by (intro inert_tokens) (simp add: in_tokens_def inert_keywords)
  ultimately have "inert ((column # in_tokens negated) @ ''('' # ([''SELECT'', proj, ''FROM'', table] @ ?inner) @ ['')''])"
    by (intro inert_append inert_Cons [OF words(3)])
  then show ?case using q by simp
next
  case (Predicate conds alts)
  have "inert (join_tokens ''AND'' (map condition_tokens cs))" if "cs \<in> set (conds # alts)" for cs
    using that Predicate by (intro inert_join) (auto simp: list_all_iff inert_keywords)
  moreover have "balanced [''OR'']" by (rule balanced_token) simp_all
  ultimately show ?case
    unfolding predicate_tokens.simps by (intro balanced_join) (auto simp: list_all_iff inert_balanced)
qed simp

lemma split_joined:
  "\<lbrakk>list_all inert (c # cs)\<rbrakk> \<Longrightarrow> split_top_level (join_tokens ''OR'' (c # cs)) ''OR'' 0 piece = (piece @ c) # cs"
proof (induction cs arbitrary: c piece)
  case Nil
  then have "inert c" by simp
  then have "split_top_level (c @ []) ''OR'' 0 piece = split_top_level [] ''OR'' 0 (piece @ c)"
    unfolding inert_def by blast
  then show ?case by simp
next
  case (Cons c' cs)
  have "split_top_level (c @ ''OR'' # join_tokens ''OR'' (c' # cs)) ''OR'' 0 piece
      = split_top_level (''OR'' # join_tokens ''OR'' (c' # cs)) ''OR'' 0 (piece @ c)"
    using Cons.prems by (simp add: inert_def)
  with Cons show ?case by (simp add: eq_ic_def)
qed

lemma parse_operand_token: "operand_wf x \<Longrightarrow> parse_operand (operand_token x) = x"
  by (cases x) (auto simp: operand_token_def operand_wf_def parse_operand_def strip_prefix_def eq_ic_def)

lemma eq_ic_refl [simp]: "eq_ic s s"
  by (simp add: eq_ic_def)

lemma where_not_paren: "\<not> eq_ic '')'' ''WHERE''"
  by (simp add: eq_ic_def)

lemma subquery_head_tokens:
  assumes "word_ok proj" "\<not> eq_ic proj ''FROM''" "\<not> reserved_prefix (map lower_char table)"
    and "balanced inner"
  shows "subquery_head (''('' # ''SELECT'' # proj # ''FROM'' # table # ''WHERE'' # inner @ '')'' # r) = Inr (proj, table, inner, r)"
    and "subquery_head (''('' # ''SELECT'' # proj # ''FROM'' # table # '')'' # r) = Inr (proj, table, [], r)"
proof -
  have "gather_inner (inner @ '')'' # r) 0 [] = (inner, '')'' # r)" using assms(4) by (simp add: balanced_def)
  then show "subquery_head (''('' # ''SELECT'' # proj # ''FROM'' # table # ''WHERE'' # inner @ '')'' # r) = Inr (proj, table, inner, r)"
    and "subquery_head (''('' # ''SELECT'' # proj # ''FROM'' # table # '')'' # r) = Inr (proj, table, [], r)"
    using assms(1-3) where_not_paren
    by (simp_all add: subquery_head_def expect_def subquery_tail_def next_is_def word_ok_def)
qed

lemma condition_head_tokens:
  assumes "condition_wf c"
  shows "condition_head (condition_tokens c @ r) = Inr (case c of
      Cmp column op x \<Rightarrow> (CmpShape column op x, r)
    | InSubquery column negated q \<Rightarrow> (SubShape column negated (projected q) (sub_table q)
        (if sub_inner q = Predicate [] [] then [] else predicate_tokens (sub_inner q)), r))"
proof (cases c)
  case (Cmp column op x)
  with assms show ?thesis by (simp add: condition_head_def valid_ops_plain parse_operand_token)
next
  case (InSubquery column negated q)
  obtain proj table inner where q: "q = Subquery proj table inner" by (cases q)
  have kw: "\<not> eq_ic ''NOT'' ''IN''" by (simp add: eq_ic_def)
  have wf: "word_ok proj" "\<not> eq_ic proj ''FROM''" "\<not> reserved_prefix (map lower_char table)" "predicate_wf inner"
    using assms InSubquery q by simp_all
  note head = subquery_head_tokens [OF wf(1-3) tokens_inert(3) [OF wf(4)], of r]
  show ?thesis
    using InSubquery q kw head
    by (cases negated; cases "inner = Predicate [] []") (simp_all add: condition_head_def in_tokens_def sub_shape_def)
qed

lemma condition_tokens_ne: "condition_tokens c \<noteq> []"
  by (cases c rule: condition_tokens.cases) simp_all

lemma parse_predicate_empty [simp]: "parse_predicate [] = Inr (Predicate [] [])"
  by (simp add: parse_predicate.simps parse_clauses.simps parse_predicate_inner.simps)

lemma parse_inner_tokens:
  "\<lbrakk>list_all condition_wf cs;
    \<forall>column negated q. InSubquery column negated q \<in> set cs \<longrightarrow>
      parse_predicate (predicate_tokens (sub_inner q)) = Inr (sub_inner q)\<rbrakk>
   \<Longrightarrow> parse_predicate_inner (join_tokens ''AND'' (map condition_tokens cs)) = Inr cs"
proof (induction cs)
  case Nil
  then show ?case by (simp add: parse_predicate_inner.simps)
next
  case (Cons c cs)
  have wf: "condition_wf c" using Cons.prems by simp
  have shape: "(case (case c of
        Cmp column op x \<Rightarrow> CmpShape column op x
      | InSubquery column negated q \<Rightarrow> SubShape column negated (projected q) (sub_table q)
          (if sub_inner q = Predicate [] [] then [] else predicate_tokens (sub_inner q))) of
        CmpShape column op x \<Rightarrow> Inr (Cmp column op x)
      | SubShape column negated proj table inner \<Rightarrow>
          map_sum id (\<lambda>q. InSubquery column negated (Subquery proj table q)) (parse_predicate inner)) = Inr c"
    using Cons.prems(2) by (cases c) (auto, metis subquery.collapse)
  show ?case
  proof (cases "cs = []")
    case True
    then show ?thesis
      using condition_head_tokens [OF wf, of "[]"] shape condition_tokens_ne [of c]
      by (subst parse_predicate_inner.simps) (cases c, auto)
  next
    case False
    let ?rest = "join_tokens ''AND'' (map condition_tokens cs)"
    have ne: "?rest \<noteq> []" using False condition_tokens_ne by (cases cs; cases "tl cs") auto
    show ?thesis
      using False condition_head_tokens [OF wf, of "''AND'' # ?rest"] shape condition_tokens_ne [of c] Cons ne
      by (subst parse_predicate_inner.simps) (cases c, auto simp: join_tokens_Cons)
  qed
qed

lemma parse_clauses_all:
  "list_all2 (\<lambda>ts cs. parse_predicate_inner ts = Inr cs) tss css \<Longrightarrow> parse_clauses tss = Inr css"
proof (induction rule: list_all2_induct)
  case Nil
  then show ?case by (simp add: parse_clauses.simps)
next
  case (Cons ts tss cs css)
  then show ?case by (simp add: parse_clauses.simps [of "ts # tss"])
qed

lemma parse_predicate_tokens:
  "condition_wf c \<Longrightarrow> (case c of Cmp column op x \<Rightarrow> True
     | InSubquery column negated q \<Rightarrow> parse_predicate (predicate_tokens (sub_inner q)) = Inr (sub_inner q))"
  "predicate_wf (sub_inner q) \<Longrightarrow> parse_predicate (predicate_tokens (sub_inner q)) = Inr (sub_inner q)"
  "predicate_wf p \<Longrightarrow> parse_predicate (predicate_tokens p) = Inr p"
proof (induction c and q and p)
  case (InSubquery column negated q)
  then show ?case by (cases q) simp
next
  case (Predicate conds alts)
  let ?toks = "\<lambda>cs. join_tokens ''AND'' (map condition_tokens cs)"
  have cl: "inert (?toks cs)" "parse_predicate_inner (?toks cs) = Inr cs" if "cs \<in> set (conds # alts)" for cs
  proof -
    have wf: "list_all condition_wf cs" using that Predicate.prems by (auto simp: list_all_iff)
    then show "inert (?toks cs)"
      by (intro inert_join inert_keywords) (auto simp: list_all_iff intro: tokens_inert(1))
    have "\<forall>column negated q. InSubquery column negated q \<in> set cs \<longrightarrow>
        parse_predicate (predicate_tokens (sub_inner q)) = Inr (sub_inner q)"
      using that Predicate.IH wf by (fastforce simp: list_all_iff)
    with wf show "parse_predicate_inner (?toks cs) = Inr cs" by (rule parse_inner_tokens)
  qed
  have "split_top_level (predicate_tokens (Predicate conds alts)) ''OR'' 0 [] = map ?toks (conds # alts)"
    using split_joined [of "?toks conds" "map ?toks alts" "[]"] cl(1) by (simp add: list_all_iff)
  moreover have "parse_clauses (map ?toks (conds # alts)) = Inr (conds # alts)"
  proof (rule parse_clauses_all)
    show "list_all2 (\<lambda>ts cs. parse_predicate_inner ts = Inr cs) (map ?toks (conds # alts)) (conds # alts)"
      unfolding list_all2_map1 list_all2_same using cl(2) by blast
  qed
  ultimately show ?case by (simp add: parse_predicate.simps del: predicate_tokens.simps)
qed simp_all

text \<open>
  Claim C29. The text under which a grant is stored gives the grant back: tokenizing and
  parsing the printed form of a predicate, with its alternatives, its literals of any
  characters and its nested subqueries, is the predicate.
\<close>

theorem grant_text_round_trip:
  assumes "predicate_wf p"
  shows "\<exists>toks. tokenize_where (predicate_to_string p) = Inr toks \<and> parse_predicate toks = Inr p"
  using tokenize_printed(3) [OF assms] parse_predicate_tokens(3) [OF assms] by blast

definition demo_predicate :: predicate where
  "demo_predicate = Predicate
     [Cmp ''owner'' ''='' AuthUid, Cmp ''city'' ''!='' (Literal (''O'' @ [quote_char] @ ''Brien AND co''))]
     [[InSubquery ''team'' True (Subquery ''id'' ''teams'' (Predicate [Cmp ''kind'' ''='' (AuthClaim ''role'')] []))]]"

theorem grant_text_round_trip_witness:
  "\<exists>toks. tokenize_where (predicate_to_string demo_predicate) = Inr toks \<and> parse_predicate toks = Inr demo_predicate"
proof -
  have "predicate_wf demo_predicate" by code_simp
  then show ?thesis by (rule grant_text_round_trip)
qed

end
