(* ===== verification/GrantFilter.thy ===== *)
theory GrantFilter
  imports GrantText
begin

text \<open>
  How a resolved grant scopes a query (\<^verbatim>\<open>src/src/auth.rs\<close>, \<^verbatim>\<open>src/src/http.rs\<close>): the rendering of
  its conditions as a WHERE fragment, the collapse of alternatives on one column, and the
  conjunction with the WHERE text of the client. Reading the combined text back and
  evaluating it on a row gives the client's conditions and the grant.
\<close>

section \<open>Rendering\<close>

definition qualified_grant_column :: "string \<Rightarrow> string option \<Rightarrow> string" where
  "qualified_grant_column column qualifier = (case qualifier of Some q \<Rightarrow> q @ ''.'' @ column | None \<Rightarrow> column)"

definition null_contradiction :: "string \<Rightarrow> string" where
  "null_contradiction column = column @ '' IS NULL AND '' @ column @ '' IS NOT NULL''"

definition in_part :: "string \<Rightarrow> bool \<Rightarrow> string list \<Rightarrow> string" where
  "in_part column negated vals = column @ '' '' @ in_kw negated @ '' ( '' @ join '' '' (map quote_where_value vals) @ '' )''"

definition cmp_part :: "string \<Rightarrow> string \<Rightarrow> string \<Rightarrow> string" where
  "cmp_part column op value = column @ '' '' @ op @ '' '' @ quote_where_value value"

fun clause_parts :: "string option \<Rightarrow> enforced_condition \<Rightarrow> string list" where
  "clause_parts q (ECmp column op value) = [cmp_part (qualified_grant_column column q) op value]"
| "clause_parts q (InSet column negated vals) =
     (if vals = [] then if negated then [] else [null_contradiction (qualified_grant_column column q)]
      else [in_part (qualified_grant_column column q) negated vals])"

definition render_enforced_clause :: "enforced_condition list \<Rightarrow> string option \<Rightarrow> string" where
  "render_enforced_clause conds q = join '' AND '' (concat (map (clause_parts q) conds))"

fun collapse_loop :: "enforced_condition list list \<Rightarrow> string option \<Rightarrow> string list \<Rightarrow> enforced_condition option" where
  "collapse_loop [] column vals = (case column of None \<Rightarrow> None | Some c \<Rightarrow> Some (InSet c False vals))"
| "collapse_loop (clause # cls) column vals =
     (if length clause \<noteq> 1 then None
      else case hd clause of
        ECmp c op v \<Rightarrow>
          if op \<noteq> ''='' then None
          else if column \<noteq> None \<and> column \<noteq> Some c then None
          else collapse_loop cls (Some c) (if v \<in> set vals then vals else vals @ [v])
      | InSet c negated vs \<Rightarrow>
          if negated then None
          else if column \<noteq> None \<and> column \<noteq> Some c then None
          else collapse_loop cls (Some c) (fold (\<lambda>v acc. if v \<in> set acc then acc else acc @ [v]) vs vals))"

definition collapse_same_column_or_clauses :: "enforced_condition list list \<Rightarrow> enforced_condition option" where
  "collapse_same_column_or_clauses cls = collapse_loop cls None []"

text \<open>The parts of one branch; \<open>None\<close> is a branch that no row satisfies.\<close>

fun branch_parts :: "string option \<Rightarrow> enforced_condition list \<Rightarrow> string list \<Rightarrow> string list option" where
  "branch_parts q [] parts = Some parts"
| "branch_parts q (ECmp column op value # conds) parts =
     branch_parts q conds (parts @ [cmp_part (qualified_grant_column column q) op value])"
| "branch_parts q (InSet column negated vals # conds) parts =
     (if vals = [] then if negated then branch_parts q conds parts else None
      else branch_parts q conds (parts @ [in_part (qualified_grant_column column q) negated vals]))"

text \<open>The branches of the disjunction; \<open>None\<close> when one of them is unconditional.\<close>

fun or_branches :: "string option \<Rightarrow> enforced_condition list list \<Rightarrow> string list \<Rightarrow> string list option result" where
  "or_branches q [] branches = Inr (Some branches)"
| "or_branches q (clause # cls) branches =
     (if clause = [] then Inr None
      else case branch_parts q clause [] of
        None \<Rightarrow> or_branches q cls branches
      | Some parts \<Rightarrow>
          if parts = [] then Inr None
          else if length parts \<noteq> 1 then Inl (Err ''OR grants with multi-condition branches are not supported yet'')
          else or_branches q cls (branches @ [hd parts]))"

definition render_enforced_or_clauses :: "enforced_condition list list \<Rightarrow> string option \<Rightarrow> string result" where
  "render_enforced_or_clauses cls q =
     (case collapse_same_column_or_clauses cls of
        Some cond \<Rightarrow> Inr (render_enforced_clause [cond] q)
      | None \<Rightarrow>
          map_sum id (\<lambda>r. case r of
              None \<Rightarrow> []
            | Some branches \<Rightarrow>
                if branches = [] then
                  (case concat cls of
                     [] \<Rightarrow> []
                   | cond # _ \<Rightarrow> null_contradiction (qualified_grant_column (cond_column cond) q))
                else join '' OR '' branches)
            (or_branches q cls []))"

definition render_enforced_clauses :: "enforced_condition list list \<Rightarrow> string option \<Rightarrow> string result" where
  "render_enforced_clauses cls q =
     (if length cls = 1 then Inr (render_enforced_clause (hd cls) q) else render_enforced_or_clauses cls q)"

section \<open>The WHERE of a scoped statement\<close>

definition combine_where :: "string \<Rightarrow> string \<Rightarrow> string" where
  "combine_where user grant =
     (if trim user = [] then trim grant
      else if trim grant = [] then trim user
      else trim user @ '' AND '' @ trim grant)"

definition parse_http_where_tokens :: "string \<Rightarrow> string list result" where
  "parse_http_where_tokens s =
     (case tokenize_where s of
        Inl e \<Rightarrow> Inl e
      | Inr toks \<Rightarrow> if toks = [] then Inl (Err ''invalid where parameter'') else Inr toks)"

text \<open>
  The conditions an UPDATE or DELETE of a token user runs with
  (\<open>route_table_update\<close>, \<open>route_table_delete\<close> and the scan below them).
\<close>

definition scoped_conditions :: "string \<Rightarrow> string \<Rightarrow> where_clause list result" where
  "scoped_conditions user grant =
     (case parse_http_where_tokens (combine_where user grant) of
        Inl e \<Rightarrow> Inl e
      | Inr toks \<Rightarrow> parse_where_conditions toks)"

text \<open>The conditions of one branch as query conditions (\<open>inner_conds_to_where\<close>).\<close>

fun cond_to_where :: "enforced_condition \<Rightarrow> where_clause list result" where
  "cond_to_where (ECmp column op value) = map_sum id (\<lambda>c. [single column c value]) (parse_cmp_op op)"
| "cond_to_where (InSet column negated vals) = Inr
     (if vals = [] then if negated then [] else [single column IsNull [], single column IsNotNull []]
      else [in_list column (if negated then NotIn else In) vals])"

fun inner_conds_to_where :: "enforced_condition list \<Rightarrow> where_clause list result" where
  "inner_conds_to_where [] = Inr []"
| "inner_conds_to_where (c # cs) =
     (case cond_to_where c of Inl e \<Rightarrow> Inl e | Inr ws \<Rightarrow> map_sum id ((@) ws) (inner_conds_to_where cs))"

section \<open>Reading rendered conditions\<close>

text \<open>
  Names are words and operators those of grants. A value is any text but a closing
  parenthesis and the keyword SELECT: both have a meaning inside a list, quoted or not
  (the subquery scan keeps only values without blanks, quotes and parentheses).
\<close>

definition value_ok :: "string \<Rightarrow> bool" where
  "value_ok v \<longleftrightarrow> v \<noteq> '')'' \<and> \<not> eq_ic v ''SELECT''"

fun enforced_wf :: "enforced_condition \<Rightarrow> bool" where
  "enforced_wf (ECmp column op value) = (plain_word column \<and> op \<in> set VALID_OPS \<and> value_ok value)"
| "enforced_wf (InSet column negated vals) = (plain_word column \<and> list_all value_ok vals)"

lemma enforced_wf_word: "enforced_wf x \<Longrightarrow> plain_word (cond_column x)"
  by (cases x) simp_all

definition reads :: "string \<Rightarrow> where_clause \<Rightarrow> bool" where
  "reads s c \<longleftrightarrow> (\<exists>ts. tokenize_where s = Inr ts \<and> parse_where_condition ts = Inr (c, []))"

lemma valid_op_parse:
  assumes "op \<in> set VALID_OPS"
  shows "\<exists>c. grant_op op = Some c \<and> parse_cmp_op op = Inr c \<and> c \<notin> {In, NotIn, IsNull, IsNotNull, Or}"
    and "\<not> eq_ic op ''IN''" "\<not> eq_ic op ''NOT''" "\<not> eq_ic op ''IS''" "\<not> eq_ic op ''CONTAINS''"
proof -
  have "list_all (\<lambda>op. \<not> eq_ic op ''IN'' \<and> \<not> eq_ic op ''NOT'' \<and> \<not> eq_ic op ''IS'' \<and> \<not> eq_ic op ''CONTAINS'') VALID_OPS"
    by code_simp
  with assms show "\<not> eq_ic op ''IN''" "\<not> eq_ic op ''NOT''" "\<not> eq_ic op ''IS''" "\<not> eq_ic op ''CONTAINS''"
    by (auto simp: list_all_iff)
  show "\<exists>c. grant_op op = Some c \<and> parse_cmp_op op = Inr c \<and> c \<notin> {In, NotIn, IsNull, IsNotNull, Or}"
    using assms by (auto simp: VALID_OPS_def grant_op_def parse_cmp_op_def)
qed

lemma reads_cmp:
  assumes "plain_word column" and "op \<in> set VALID_OPS" and "parse_cmp_op op = Inr c"
  shows "reads (cmp_part column op value) (single column c value)"
proof -
  have "tokenize_where (cmp_part column op value) = Inr [column, op, value]"
    using tokenize_join_space [of "[column, op, quote_where_value value]" "[[column], [op], [value]]"] assms(1,2)
    by (simp add: cmp_part_def tokenize_word tokenize_op tokenize_quoted)
  then show ?thesis
    using assms(3) valid_op_parse(2-5) [OF assms(2)] by (simp add: reads_def parse_where_condition_def)
qed

lemma tokenize_values: "tokenize_where (join '' '' (map quote_where_value vs)) = Inr vs"
proof -
  have "concat (map (\<lambda>v. [v]) vs) = vs" by (induction vs) simp_all
  moreover have "list_all2 (\<lambda>s ts. tokenize_where s = Inr ts) (map quote_where_value vs) (map (\<lambda>v. [v]) vs)"
    by (simp add: list_all2_map1 list_all2_map2 list_all2_same tokenize_quoted)
  ultimately show ?thesis using tokenize_join_space by fastforce
qed

lemma in_keywords: "\<not> eq_ic ''NOT'' ''IN''" "\<not> eq_ic ''IS'' ''IN''" "\<not> eq_ic ''IS'' ''NOT''"
  "\<not> eq_ic ''NULL'' ''VALID''" "\<not> eq_ic ''NOT'' ''VALID''" "\<not> eq_ic ''NOT'' ''NULL''" "\<not> eq_ic ''AND'' ''OR''"
  by code_simp+

lemma reads_in:
  assumes "plain_word column" and "list_all value_ok vs" and "vs \<noteq> []"
  shows "reads (in_part column negated vs) (in_list column (if negated then NotIn else In) vs)"
proof -
  have "tokenize_where (in_part column negated vs) = Inr (column # in_tokens negated @ ''('' # vs @ ['')''])"
    using tokenize_join_space [of "[column, in_kw negated, ''('', join '' '' (map quote_where_value vs), '')'']"
        "[[column], in_tokens negated, [''(''], vs, ['')'']]"] assms(1)
    by (simp add: in_part_def tokenize_word tokenize_in_kw tokenize_values)
  then show ?thesis
    using parse_in_list_intro [of vs "[]"] assms(2,3) in_keywords
    by (cases negated; cases vs)
      (auto simp: reads_def in_tokens_def parse_where_condition_def next_is_def value_ok_def list_all_iff)
qed

lemma reads_null:
  assumes "plain_word column"
  shows "reads (column @ '' IS NULL'') (single column IsNull [])"
    and "reads (column @ '' IS NOT NULL'') (single column IsNotNull [])"
proof -
  have "tokenize_where (column @ '' IS NULL'') = Inr [column, ''IS'', ''NULL'']"
    using tokenize_join_space [of "[column, ''IS'', ''NULL'']" "[[column], [''IS''], [''NULL'']]"] assms
    by (simp add: tokenize_word)
  then show "reads (column @ '' IS NULL'') (single column IsNull [])"
    using in_keywords by (simp add: reads_def parse_where_condition_def next_is_def)
  have "tokenize_where (column @ '' IS NOT NULL'') = Inr [column, ''IS'', ''NOT'', ''NULL'']"
    using tokenize_join_space [of "[column, ''IS'', ''NOT'', ''NULL'']" "[[column], [''IS''], [''NOT''], [''NULL'']]"] assms
    by (simp add: tokenize_word)
  then show "reads (column @ '' IS NOT NULL'') (single column IsNotNull [])"
    using in_keywords by (simp add: reads_def parse_where_condition_def next_is_def)
qed

lemma reads_tokens:
  assumes "list_all2 reads ss cs"
  obtains tss where "list_all2 (\<lambda>s ts. tokenize_where s = Inr ts) ss tss"
    "list_all2 (\<lambda>ts c. parse_where_condition ts = Inr (c, [])) tss cs"
proof -
  have "\<exists>tss. list_all2 (\<lambda>s ts. tokenize_where s = Inr ts) ss tss
      \<and> list_all2 (\<lambda>ts c. parse_where_condition ts = Inr (c, [])) tss cs"
    using assms
  proof (induction rule: list_all2_induct)
    case (Cons s ss c cs)
    then obtain ts tss where "tokenize_where s = Inr ts" "parse_where_condition ts = Inr (c, [])"
        "list_all2 (\<lambda>s ts. tokenize_where s = Inr ts) ss tss"
        "list_all2 (\<lambda>ts c. parse_where_condition ts = Inr (c, [])) tss cs"
      unfolding reads_def by blast
    then show ?case by (intro exI [of _ "ts # tss"]) simp
  qed simp
  then show ?thesis using that by blast
qed

lemma condition_ne: "parse_where_condition ts = Inr (c, r) \<Longrightarrow> ts \<noteq> []"
  by (auto simp: parse_where_condition_def)

lemma parse_group_single:
  assumes "parse_where_condition ts = Inr (c, [])" and "\<not> next_is r ''OR''"
  shows "parse_where_or_group (ts @ r) = Inr (c, r)"
  using or_conditions_unfold [OF parse_where_condition_append [OF assms(1), of r]] assms(2)
  by (simp add: parse_where_or_group_def)

lemma parse_joined_and:
  "list_all2 (\<lambda>ts c. parse_where_condition ts = Inr (c, [])) tss cs
   \<Longrightarrow> parse_where_conditions (join_tokens ''AND'' tss) = Inr cs"
proof (induction rule: list_all2_induct)
  case (Cons ts tss c cs)
  show ?case
  proof (cases "tss = []")
    case True
    with Cons parse_group_single [OF Cons.hyps(1), of "[]"] show ?thesis
      by (simp add: parse_where_conditions_unfold next_is_def)
  next
    case False
    let ?r = "''AND'' # join_tokens ''AND'' tss"
    have "parse_where_or_group (ts @ ?r) = Inr (c, ?r)"
      using Cons.hyps(1) in_keywords(7) by (intro parse_group_single) (simp_all add: next_is_def)
    with False Cons.IH show ?thesis
      by (simp add: parse_where_conditions_unfold next_is_def join_tokens_Cons)
  qed
qed simp

lemma or_conditions_joined:
  "\<lbrakk>list_all2 (\<lambda>ts c. parse_where_condition ts = Inr (c, [])) tss cs; tss \<noteq> []\<rbrakk>
   \<Longrightarrow> or_conditions (join_tokens ''OR'' tss) = Inr (cs, [])"
proof (induction rule: list_all2_induct)
  case (Cons ts tss c cs)
  show ?case
  proof (cases "tss = []")
    case True
    with Cons.hyps show ?thesis using or_conditions_unfold [OF Cons.hyps(1)] by (simp add: next_is_def)
  next
    case False
    with Cons show ?thesis
      using or_conditions_unfold [OF parse_where_condition_append [OF Cons.hyps(1), of "''OR'' # join_tokens ''OR'' tss"]]
      by (simp add: next_is_def join_tokens_Cons)
  qed
qed simp

definition or_of :: "where_clause list \<Rightarrow> where_clause" where
  "or_of cs = (if length cs = 1 then hd cs else or_group cs)"

lemma parse_joined_or:
  assumes "list_all2 (\<lambda>ts c. parse_where_condition ts = Inr (c, [])) tss cs" and "tss \<noteq> []"
  shows "parse_where_conditions (join_tokens ''OR'' tss) = Inr [or_of cs]"
proof -
  have "parse_where_or_group (join_tokens ''OR'' tss) = Inr (or_of cs, [])"
    using or_conditions_joined [OF assms] by (simp add: parse_where_or_group_def or_of_def)
  then show ?thesis by (simp add: parse_where_conditions_unfold next_is_def)
qed

definition reads_all :: "string \<Rightarrow> where_clause list \<Rightarrow> bool" where
  "reads_all s cs \<longleftrightarrow> (\<exists>ts. tokenize_where s = Inr ts \<and> parse_where_conditions ts = Inr cs)"

lemma reads_all_and: "list_all2 reads ss cs \<Longrightarrow> reads_all (join '' AND '' ss) cs"
proof -
  assume a: "list_all2 reads ss cs"
  obtain tss where t: "list_all2 (\<lambda>s ts. tokenize_where s = Inr ts) ss tss"
      "list_all2 (\<lambda>ts c. parse_where_condition ts = Inr (c, [])) tss cs"
    using reads_tokens [OF a] .
  then show ?thesis
    using tokenize_join_kw [of "''AND''", OF _ t(1)] parse_joined_and [OF t(2)] by (simp add: reads_all_def)
qed

lemma reads_all_or: "list_all2 reads ss cs \<Longrightarrow> ss \<noteq> [] \<Longrightarrow> reads_all (join '' OR '' ss) [or_of cs]"
proof -
  assume a: "list_all2 reads ss cs" and ne: "ss \<noteq> []"
  obtain tss where t: "list_all2 (\<lambda>s ts. tokenize_where s = Inr ts) ss tss"
      "list_all2 (\<lambda>ts c. parse_where_condition ts = Inr (c, [])) tss cs"
    using reads_tokens [OF a] .
  then have "tss \<noteq> []" using ne by auto
  then show ?thesis
    using tokenize_join_kw [of "''OR''", OF _ t(1)] parse_joined_or [OF t(2)] by (simp add: reads_all_def)
qed

section \<open>The fragment of one branch\<close>

text \<open>The conditions of a branch, the contradiction of an empty membership set as two.\<close>

fun cond_texts :: "enforced_condition \<Rightarrow> string list" where
  "cond_texts (ECmp column op value) = [cmp_part column op value]"
| "cond_texts (InSet column negated vals) =
     (if vals = [] then if negated then [] else [column @ '' IS NULL'', column @ '' IS NOT NULL'']
      else [in_part column negated vals])"

lemma clause_parts_texts:
  "clause_parts None c = (if cond_texts c = [] then [] else [join '' AND '' (cond_texts c)])"
  by (cases c) (simp_all add: qualified_grant_column_def null_contradiction_def)

lemma join_append: "xs \<noteq> [] \<Longrightarrow> ys \<noteq> [] \<Longrightarrow> join sep (xs @ ys) = join sep xs @ sep @ join sep ys"
proof (induction xs)
  case (Cons x xs)
  then show ?case by (cases xs) (simp_all add: join_space_Cons)
qed simp

lemma join_flatten:
  "join sep (concat (map (\<lambda>c. if f c = [] then [] else [join sep (f c)]) cs)) = join sep (concat (map f cs))"
proof (induction cs)
  case (Cons c cs)
  let ?g = "\<lambda>c. if f c = [] then [] else [join sep (f c)]"
  have ne: "concat (map ?g cs) = [] \<longleftrightarrow> concat (map f cs) = []" by auto
  show ?case
  proof (cases "f c = [] \<or> concat (map f cs) = []")
    case True
    with Cons.IH ne show ?thesis by (cases "f c = []") (simp_all del: concat_eq_Nil_conv)
  next
    case False
    then have "join sep (?g c @ concat (map ?g cs)) = join sep (f c) @ sep @ join sep (concat (map f cs))"
      using Cons.IH ne by (simp add: join_space_Cons del: concat_eq_Nil_conv)
    also have "\<dots> = join sep (f c @ concat (map f cs))" using False by (subst join_append) auto
    finally show ?thesis by simp
  qed
qed simp

lemma render_enforced_clause_texts:
  "render_enforced_clause conds None = join '' AND '' (concat (map cond_texts conds))"
  unfolding render_enforced_clause_def clause_parts_texts by (rule join_flatten)

lemma cond_texts_read:
  assumes "enforced_wf c"
  shows "\<exists>ws. cond_to_where c = Inr ws \<and> list_all2 reads (cond_texts c) ws"
proof (cases c)
  case (ECmp column op v)
  with assms valid_op_parse(1) [of op] show ?thesis by (auto simp: reads_cmp)
next
  case (InSet column negated vals)
  with assms show ?thesis using reads_in [of column vals negated] reads_null [of column] by (cases vals) auto
qed

lemma clause_texts_read:
  "list_all enforced_wf conds \<Longrightarrow>
   \<exists>ws. inner_conds_to_where conds = Inr ws \<and> list_all2 reads (concat (map cond_texts conds)) ws"
proof (induction conds)
  case (Cons c conds)
  then obtain ws ws' where "cond_to_where c = Inr ws" "list_all2 reads (cond_texts c) ws"
      "inner_conds_to_where conds = Inr ws'" "list_all2 reads (concat (map cond_texts conds)) ws'"
    using cond_texts_read [of c] by auto
  then show ?case by (simp add: list_all2_appendI)
qed simp

text \<open>The fragment of one branch is read back as the conditions the subquery path would run with.\<close>

lemma render_enforced_clause_reads:
  assumes "list_all enforced_wf conds"
  shows "\<exists>ws. inner_conds_to_where conds = Inr ws \<and> reads_all (render_enforced_clause conds None) ws"
  using clause_texts_read [OF assms] reads_all_and by (auto simp: render_enforced_clause_texts)

section \<open>What a grant means on a row\<close>

fun cond_holds :: "(where_clause \<Rightarrow> bool) \<Rightarrow> enforced_condition \<Rightarrow> bool" where
  "cond_holds ev (ECmp column op value) =
     (case grant_op op of Some c \<Rightarrow> ev (single column c value) | None \<Rightarrow> False)"
| "cond_holds ev (InSet column negated vals) =
     (if vals = [] then negated else ev (in_list column (if negated then NotIn else In) vals))"

definition grant_holds :: "(where_clause \<Rightarrow> bool) \<Rightarrow> enforced_condition list list \<Rightarrow> bool" where
  "grant_holds ev cls = list_ex (list_all (cond_holds ev)) cls"

definition clauses_ok :: "(string \<Rightarrow> bool) \<Rightarrow> enforced_condition list list \<Rightarrow> bool" where
  "clauses_ok known cls \<longleftrightarrow> list_all (list_all (\<lambda>c. enforced_wf c \<and> known (cond_column c))) cls"

text \<open>What the rendering relies on in the evaluation of conditions on a row.\<close>

locale row_evaluation =
  fixes ev :: "where_clause \<Rightarrow> bool"
    and known :: "string \<Rightarrow> bool"
  assumes ev_in: "vs \<noteq> [] \<Longrightarrow> ev (in_list column In vs) = list_ex (\<lambda>v. ev (single column Eq v)) vs"
    and ev_or: "ev (or_group cs) = list_ex ev cs"
    and ev_null: "known column \<Longrightarrow> \<not> (ev (single column IsNull []) \<and> ev (single column IsNotNull []))"
begin

lemma ev_or_of: "cs \<noteq> [] \<Longrightarrow> ev (or_of cs) = list_ex ev cs"
  by (cases cs; cases "tl cs") (auto simp: or_of_def ev_or)

lemma cond_to_where_holds:
  assumes "cond_to_where c = Inr ws" and "enforced_wf c" and "known (cond_column c)"
  shows "list_all ev ws \<longleftrightarrow> cond_holds ev c"
proof (cases c)
  case (ECmp column op v)
  then show ?thesis using assms(1,2) valid_op_parse(1) [of op] by auto
next
  case (InSet column negated vals)
  then show ?thesis using assms ev_null [of column] by (auto split: if_splits)
qed

lemma inner_conds_to_where_holds:
  "\<lbrakk>inner_conds_to_where conds = Inr ws; list_all enforced_wf conds; list_all (\<lambda>c. known (cond_column c)) conds\<rbrakk>
   \<Longrightarrow> list_all ev ws \<longleftrightarrow> list_all (cond_holds ev) conds"
proof (induction conds arbitrary: ws)
  case (Cons c conds)
  then show ?case
    using cond_to_where_holds [of c] by (auto simp: map_sum_Inr_iff split: sum.splits)
qed simp

lemma in_set_holds: "cond_holds ev (InSet column False vs) \<longleftrightarrow> (\<exists>v\<in>set vs. ev (single column Eq v))"
  by (simp add: ev_in list_ex_iff)

lemma set_fold_insert:
  "set (fold (\<lambda>v acc. if v \<in> set acc then acc else acc @ [v]) vs acc) = set acc \<union> set (vs :: string list)"
  by (induction vs arbitrary: acc) auto

lemma collapse_loop_step:
  assumes "collapse_loop (clause # cls) column vals = Some e"
  obtains x c vs vals' where "clause = [x]" "cond_column x = c" "\<forall>c0. column = Some c0 \<longrightarrow> c0 = c"
    "collapse_loop cls (Some c) vals' = Some e" "set vals' = set vals \<union> set vs"
    "cond_holds ev x \<longleftrightarrow> (\<exists>v\<in>set vs. ev (single c Eq v))" "enforced_wf x \<longrightarrow> list_all value_ok vs"
proof -
  from assms obtain x where x: "clause = [x]" by (cases clause; cases "tl clause") (auto split: if_splits)
  show ?thesis
  proof (cases x)
    case (ECmp c op v)
    with assms x have "op = ''=''" "column = None \<or> column = Some c"
        "collapse_loop cls (Some c) (if v \<in> set vals then vals else vals @ [v]) = Some e"
      by (simp_all split: if_splits)
    with ECmp x show ?thesis by (intro that [of x c _ "[v]"]) (auto simp: grant_op_def split: if_splits)
  next
    case (InSet c negated vs)
    with assms x have "\<not> negated" "column = None \<or> column = Some c"
        "collapse_loop cls (Some c) (fold (\<lambda>v acc. if v \<in> set acc then acc else acc @ [v]) vs vals) = Some e"
      by (simp_all split: if_splits)
    with InSet x show ?thesis
      by (intro that [of x c _ vs]) (auto simp: set_fold_insert in_set_holds simp del: cond_holds.simps)
  qed
qed

lemma collapse_loop_holds:
  "collapse_loop cls column vals = Some e \<Longrightarrow> \<exists>c vs. e = InSet c False vs \<and> (\<forall>c0. column = Some c0 \<longrightarrow> c0 = c)
     \<and> ((\<exists>v\<in>set vs. ev (single c Eq v)) \<longleftrightarrow> (\<exists>v\<in>set vals. ev (single c Eq v)) \<or> grant_holds ev cls)
     \<and> (cls \<noteq> [] \<longrightarrow> (\<exists>x \<in> set (concat cls). cond_column x = c))
     \<and> (list_all value_ok vals \<longrightarrow> list_all (list_all enforced_wf) cls \<longrightarrow> list_all value_ok vs)"
proof (induction cls arbitrary: column vals)
  case Nil
  then show ?case by (auto simp: grant_holds_def split: option.splits)
next
  case (Cons clause cls)
  obtain x c vs vals' where x: "clause = [x]" "cond_column x = c"
      "\<forall>c0. column = Some c0 \<longrightarrow> c0 = c" "collapse_loop cls (Some c) vals' = Some e" "set vals' = set vals \<union> set vs"
      "cond_holds ev x \<longleftrightarrow> (\<exists>v\<in>set vs. ev (single c Eq v))" "enforced_wf x \<longrightarrow> list_all value_ok vs"
    by (rule collapse_loop_step [OF Cons.prems])
  from Cons.IH [OF x(4)] obtain us where us: "e = InSet c False us"
      "(\<exists>v\<in>set us. ev (single c Eq v)) \<longleftrightarrow> (\<exists>v\<in>set vals'. ev (single c Eq v)) \<or> grant_holds ev cls"
      "list_all value_ok vals' \<longrightarrow> list_all (list_all enforced_wf) cls \<longrightarrow> list_all value_ok us"
    by auto
  moreover have "grant_holds ev (clause # cls) \<longleftrightarrow> (\<exists>v\<in>set vs. ev (single c Eq v)) \<or> grant_holds ev cls"
    using x(1,6) by (simp add: grant_holds_def)
  moreover have "list_all value_ok vals \<longrightarrow> list_all (list_all enforced_wf) (clause # cls) \<longrightarrow> list_all value_ok vals'"
    using x(1,5,7) by (auto simp: list_all_iff)
  ultimately show ?case using x(1-3,5) by auto
qed

text \<open>A branch that is not trivially false has the parts of its conditions.\<close>

lemma branch_parts_eq:
  "branch_parts None conds parts =
     (if list_ex (\<lambda>c. \<exists>column. c = InSet column False []) conds then None
      else Some (parts @ concat (map (clause_parts None) conds)))"
proof (induction conds arbitrary: parts)
  case (Cons c conds)
  then show ?case by (cases c) auto
qed simp

lemma false_branch: "list_ex (\<lambda>c. \<exists>column. c = InSet column False []) conds \<Longrightarrow> \<not> list_all (cond_holds ev) conds"
  by (induction conds) auto

lemma empty_branch:
  "\<lbrakk>\<not> list_ex (\<lambda>c. \<exists>column. c = InSet column False []) conds; concat (map (clause_parts None) conds) = []\<rbrakk>
   \<Longrightarrow> list_all (cond_holds ev) conds"
proof (induction conds)
  case (Cons c conds)
  then show ?case by (cases c) (auto split: if_splits)
qed simp

lemma single_branch:
  assumes "\<not> list_ex (\<lambda>c. \<exists>column. c = InSet column False []) conds"
    and "concat (map (clause_parts None) conds) = [p]" and "list_all enforced_wf conds"
    and "list_all (\<lambda>c. known (cond_column c)) conds"
  shows "\<exists>w. reads p w \<and> (ev w \<longleftrightarrow> list_all (cond_holds ev) conds)"
  using assms
proof (induction conds)
  case (Cons c conds)
  show ?case
  proof (cases "clause_parts None c = []")
    case True
    then have "cond_holds ev c" using Cons.prems(1) by (cases c) (auto split: if_splits)
    with True Cons show ?thesis by auto
  next
    case False
    then have p: "clause_parts None c = [p]" "concat (map (clause_parts None) conds) = []"
      using Cons.prems(2) by (cases "clause_parts None c"; auto)+
    have "list_all (cond_holds ev) conds" using empty_branch Cons.prems(1) p(2) by simp
    moreover have "cond_texts c = [p]" using p(1) Cons.prems(1)
      by (cases c) (auto simp: qualified_grant_column_def split: if_splits)
    moreover obtain ws where ws: "cond_to_where c = Inr ws" "list_all2 reads (cond_texts c) ws"
      using cond_texts_read Cons.prems(3) by auto
    ultimately obtain w where "ws = [w]" "reads p w" by (auto simp: list_all2_Cons1)
    with ws cond_to_where_holds [OF ws(1)] Cons.prems(3,4) \<open>list_all (cond_holds ev) conds\<close> show ?thesis by auto
  qed
qed simp

lemma or_branches_hold:
  assumes "or_branches None cls branches = Inr r" and "clauses_ok known cls"
  shows "case r of
      None \<Rightarrow> grant_holds ev cls
    | Some branches' \<Rightarrow> \<exists>ps ws. branches' = branches @ ps \<and> list_all2 reads ps ws \<and> (list_ex ev ws \<longleftrightarrow> grant_holds ev cls)"
  using assms
proof (induction cls arbitrary: branches)
  case Nil
  then show ?case by (auto simp: grant_holds_def)
next
  case (Cons conds cls)
  have ok: "clauses_ok known cls" "list_all enforced_wf conds" "list_all (\<lambda>c. known (cond_column c)) conds"
    using Cons.prems(2) by (auto simp: clauses_ok_def list_all_iff)
  have step: "grant_holds ev (conds # cls) \<longleftrightarrow> list_all (cond_holds ev) conds \<or> grant_holds ev cls"
    by (simp add: grant_holds_def)
  consider (unconditional) "list_all (cond_holds ev) conds" "r = None"
    | (false) "\<not> list_all (cond_holds ev) conds" "or_branches None cls branches = Inr r"
    | (one) p where "\<not> list_ex (\<lambda>c. \<exists>column. c = InSet column False []) conds"
        "concat (map (clause_parts None) conds) = [p]" "or_branches None cls (branches @ [p]) = Inr r"
    using Cons.prems(1) false_branch [of conds] empty_branch [of conds]
    by (cases "conds = []"; cases "list_ex (\<lambda>c. \<exists>column. c = InSet column False []) conds";
        cases "concat (map (clause_parts None) conds)"; cases "tl (concat (map (clause_parts None) conds))")
      (auto simp: branch_parts_eq split: if_splits)
  then show ?case
  proof cases
    case unconditional
    then show ?thesis using step by simp
  next
    case false
    then show ?thesis using Cons.IH [OF false(2) ok(1)] step by (cases r) simp_all
  next
    case (one p)
    obtain w where w: "reads p w" "ev w \<longleftrightarrow> list_all (cond_holds ev) conds"
      using single_branch [OF one(1,2) ok(2,3)] by blast
    show ?thesis
    proof (cases r)
      case None
      then show ?thesis using Cons.IH [OF one(3) ok(1)] step by simp
    next
      case (Some branches')
      then obtain ps ws where "branches' = (branches @ [p]) @ ps" "list_all2 reads ps ws"
          "list_ex ev ws \<longleftrightarrow> grant_holds ev cls"
        using Cons.IH [OF one(3) ok(1)] by auto
      with Some w step show ?thesis
        by (simp only: option.case) (intro exI [of _ "p # ps"] exI [of _ "w # ws"], simp)
    qed
  qed
qed

lemma contradiction_reads:
  "plain_word column \<Longrightarrow> reads_all (null_contradiction column) [single column IsNull [], single column IsNotNull []]"
  using reads_all_and [of "[column @ '' IS NULL'', column @ '' IS NOT NULL'']"] reads_null [of column]
  by (simp add: null_contradiction_def)

lemma branch_exact:
  assumes "list_all enforced_wf conds" and "list_all (\<lambda>c. known (cond_column c)) conds"
  shows "\<exists>ws. reads_all (render_enforced_clause conds None) ws \<and> (list_all ev ws \<longleftrightarrow> list_all (cond_holds ev) conds)"
  using render_enforced_clause_reads [OF assms(1)] inner_conds_to_where_holds [OF _ assms] by blast

lemma clauses_okD:
  assumes "clauses_ok known cls" and "x \<in> set (concat cls)"
  shows "enforced_wf x" "known (cond_column x)"
  using assms by (auto simp: clauses_ok_def list_all_iff)

lemma collapsed_exact:
  assumes "collapse_same_column_or_clauses cls = Some e" and "cls \<noteq> []" and "clauses_ok known cls"
  shows "\<exists>ws. reads_all (render_enforced_clause [e] None) ws \<and> (list_all ev ws \<longleftrightarrow> grant_holds ev cls)"
proof -
  have "list_all (list_all enforced_wf) cls" using assms(3) by (auto simp: clauses_ok_def list_all_iff)
  then obtain c vs where e: "e = InSet c False vs" "cond_holds ev e \<longleftrightarrow> grant_holds ev cls"
      "\<exists>x \<in> set (concat cls). cond_column x = c" "list_all value_ok vs"
    using collapse_loop_holds [of cls None "[]" e] assms(1,2) in_set_holds
    by (auto simp: collapse_same_column_or_clauses_def simp del: cond_holds.simps)
  then have "plain_word c" "known c" using clauses_okD [OF assms(3)] enforced_wf_word by blast+
  with e(1,4) have "list_all enforced_wf [e]" "list_all (\<lambda>c. known (cond_column c)) [e]" by simp_all
  from branch_exact [OF this] e(2) show ?thesis by (simp del: cond_holds.simps)
qed

lemma branches_exact:
  assumes "collapse_same_column_or_clauses cls = None" and "render_enforced_or_clauses cls None = Inr g"
    and "cls \<noteq> []" and "clauses_ok known cls"
  shows "\<exists>ws. reads_all g ws \<and> (list_all ev ws \<longleftrightarrow> grant_holds ev cls)"
proof -
  from assms(1,2) obtain r where r: "or_branches None cls [] = Inr r"
    by (auto simp: render_enforced_or_clauses_def map_sum_Inr_iff)
  note holds = or_branches_hold [OF r assms(4)] and g = assms(2) [unfolded render_enforced_or_clauses_def assms(1) r]
  show ?thesis
  proof (cases r)
    case None
    with holds g show ?thesis using reads_all_and [of "[]" "[]"] by auto
  next
    case (Some ps)
    then obtain ws where ws: "list_all2 reads ps ws" "list_ex ev ws \<longleftrightarrow> grant_holds ev cls" using holds by auto
    show ?thesis
    proof (cases "ps = []")
      case False
      then have "ws \<noteq> []" "g = join '' OR '' ps" using ws(1) g Some by auto
      with reads_all_or [OF ws(1) False] ev_or_of ws(2) show ?thesis by auto
    next
      case True
      then have no: "\<not> grant_holds ev cls" using ws by simp
      then obtain x xs where x: "concat cls = x # xs"
        using assms(3) by (cases "concat cls"; cases cls) (auto simp: grant_holds_def)
      then have ok: "plain_word (cond_column x)" "known (cond_column x)"
        using clauses_okD [OF assms(4), of x] enforced_wf_word by auto
      have "g = null_contradiction (cond_column x)" using True x g Some by (simp add: qualified_grant_column_def)
      with no contradiction_reads [OF ok(1)] ev_null [OF ok(2)] show ?thesis by auto
    qed
  qed
qed

text \<open>The rendered filter is read back as conditions that hold exactly where the grant does.\<close>

lemma rendered_filter_exact:
  assumes "render_enforced_clauses cls None = Inr g" and "cls \<noteq> []" and "clauses_ok known cls"
  shows "\<exists>ws. reads_all g ws \<and> (list_all ev ws \<longleftrightarrow> grant_holds ev cls)"
proof (cases "length cls = 1")
  case True
  then obtain conds where c: "cls = [conds]" by (cases cls) auto
  with assms(3) branch_exact [of conds] have
    "\<exists>ws. reads_all (render_enforced_clause conds None) ws \<and> (list_all ev ws \<longleftrightarrow> list_all (cond_holds ev) conds)"
    by (auto simp: clauses_ok_def list_all_iff)
  with c assms(1) show ?thesis by (simp add: render_enforced_clauses_def grant_holds_def)
next
  case False
  then have g: "render_enforced_or_clauses cls None = Inr g" using assms(1) by (simp add: render_enforced_clauses_def)
  show ?thesis
  proof (cases "collapse_same_column_or_clauses cls")
    case None
    then show ?thesis using branches_exact g assms(2,3) by blast
  next
    case (Some e)
    then show ?thesis using collapsed_exact [OF Some assms(2,3)] g by (simp add: render_enforced_or_clauses_def)
  qed
qed

end

interpretation row_matches: row_evaluation
  "row_matches_clause en row schema (implicit_id_field_for schema)" "known_column schema" for en row schema
proof
  show "row_matches_clause en row schema (implicit_id_field_for schema) (in_list column In vs)
      = list_ex (\<lambda>v. row_matches_clause en row schema (implicit_id_field_for schema) (single column Eq v)) vs"
    if "vs \<noteq> []" for vs column
    using row_matches_leaf_In [OF that] by (simp add: row_matches_single)
  show "row_matches_clause en row schema (implicit_id_field_for schema) (or_group cs)
      = list_ex (row_matches_clause en row schema (implicit_id_field_for schema)) cs" for cs
    by (rule row_matches_or_group)
  show "\<not> (row_matches_clause en row schema (implicit_id_field_for schema) (single column IsNull [])
      \<and> row_matches_clause en row schema (implicit_id_field_for schema) (single column IsNotNull []))"
    if "known_column schema column" for column
    using row_matches_leaf_null [OF that] by (simp add: row_matches_single)
qed

section \<open>A statement scoped by a grant\<close>

lemma reads_all_fun: "reads_all s cs \<Longrightarrow> reads_all s cs' \<Longrightarrow> cs = cs'"
  by (auto simp: reads_all_def)

lemma scoped_conditions_and:
  assumes "tokenize_where user = Inr tu" and "tu \<noteq> []" and "parse_where_conditions tu = Inr cu"
    and "\<not> eq_ic (last tu) ''AND''" and "reads_all g ws"
  shows "scoped_conditions user g = Inr (cu @ ws)"
proof -
  obtain tg where tg: "tokenize_where g = Inr tg" "parse_where_conditions tg = Inr ws"
    using assms(5) by (auto simp: reads_all_def)
  note trimmed = tokenize_trim [OF assms(1)] tokenize_trim [OF tg(1)]
  have ne: "trim user \<noteq> []" using trimmed(1) assms(2) by auto
  show ?thesis
  proof (cases "trim g = []")
    case True
    then have "tg = []" using trimmed(2) by simp
    then have "ws = []" using tg(2) by simp
    with True ne trimmed(1) assms(2,3) show ?thesis
      by (simp add: scoped_conditions_def combine_where_def parse_http_where_tokens_def)
  next
    case False
    have "tokenize_where (trim user @ '' AND '' @ trim g) = Inr (tu @ ''AND'' # tg)"
      using tokenize_where_space [OF trimmed(1) tokenize_where_space [OF tokenize_word [of "''AND''"] trimmed(2)]]
      by simp
    moreover have "parse_where_conditions (tu @ ''AND'' # tg) = Inr (cu @ ws)"
      using parse_where_conditions_and [OF assms(3,2,4), of "''AND''" tg] tg(2) by simp
    ultimately show ?thesis using False ne
      by (simp add: scoped_conditions_def combine_where_def parse_http_where_tokens_def)
  qed
qed

text \<open>
  Claim C19. The WHERE text of an UPDATE or DELETE, combined with the rendered write grant
  and parsed again, selects exactly the rows that satisfy the client's conditions and some
  branch of the grant, for a client text that is complete by itself: OR groups of either
  side, collapsed alternatives, empty membership sets and quoted values included.
\<close>

theorem grant_scopes_statement:
  assumes "tokenize_where user = Inr tu" and "tu \<noteq> []" and "parse_where_conditions tu = Inr cu"
    and "\<not> eq_ic (last tu) ''AND''"
    and "render_enforced_clauses cls None = Inr g" and "cls \<noteq> []" and "clauses_ok (known_column schema) cls"
  shows "\<exists>cs. scoped_conditions user g = Inr cs \<and>
    (\<forall>row. row_matches_base_conditions en row schema (implicit_id_field_for schema) cs \<longleftrightarrow>
       row_matches_base_conditions en row schema (implicit_id_field_for schema) cu \<and>
       grant_holds (row_matches_clause en row schema (implicit_id_field_for schema)) cls)"
proof -
  obtain ws where ws: "reads_all g ws"
    using row_matches.rendered_filter_exact [OF assms(5-7)] by blast
  have "list_all (row_matches_clause en row schema (implicit_id_field_for schema)) ws
      \<longleftrightarrow> grant_holds (row_matches_clause en row schema (implicit_id_field_for schema)) cls" for row
    using row_matches.rendered_filter_exact [OF assms(5-7)] reads_all_fun [OF ws] by blast
  with scoped_conditions_and [OF assms(1-4) ws] show ?thesis by (auto simp: row_matches_base_conditions_def)
qed

definition demo_ops :: "unit eval_ops" where
  "demo_ops = \<lparr>f64_parse = (\<lambda>_. None), f64_zero = (), f64_epsilon = (), f64_eq = (\<lambda>_ _. True), f64_lt = (\<lambda>_ _. False),
     f64_le = (\<lambda>_ _. True), f64_distance = (\<lambda>_ _. ()), json_from_str = (\<lambda>_. None)\<rparr>"

definition demo_schema :: "field_def list" where
  "demo_schema = map (\<lambda>(n, t). \<lparr>fd_name = n, fd_type = t, fd_primary = False, fd_encrypted = False, fd_searchable = False\<rparr>)
     [(''id'', TInt), (''owner'', TStr), (''team'', TStr)]"

definition demo_clauses :: "enforced_condition list list" where
  "demo_clauses = [[ECmp ''owner'' ''='' ''u1''], [InSet ''team'' False [''a'', ''b'']]]"

definition demo_filter :: string where
  "demo_filter = ''owner = '' @ qt ''u1'' @ '' OR team IN ( '' @ qt ''a'' @ '' '' @ qt ''b'' @ '' )''"

theorem grant_scopes_statement_witness:
  "\<exists>cs. scoped_conditions ''id > 5 OR id = 2'' demo_filter = Inr cs \<and>
    (\<forall>row. row_matches_base_conditions demo_ops row demo_schema (implicit_id_field_for demo_schema) cs \<longleftrightarrow>
       row_matches_base_conditions demo_ops row demo_schema (implicit_id_field_for demo_schema)
         [or_group [single ''id'' Gt ''5'', single ''id'' Eq ''2'']] \<and>
       grant_holds (row_matches_clause demo_ops row demo_schema (implicit_id_field_for demo_schema)) demo_clauses)"
proof (rule grant_scopes_statement [of _ "[''id'', ''>'', ''5'', ''OR'', ''id'', ''='', ''2'']"])
  show "tokenize_where ''id > 5 OR id = 2'' = Inr [''id'', ''>'', ''5'', ''OR'', ''id'', ''='', ''2'']" by code_simp
  show "parse_where_conditions [''id'', ''>'', ''5'', ''OR'', ''id'', ''='', ''2'']
      = Inr [or_group [single ''id'' Gt ''5'', single ''id'' Eq ''2'']]" by code_simp
  show "\<not> eq_ic (last [''id'', ''>'', ''5'', ''OR'', ''id'', ''='', ''2'']) ''AND''" by code_simp
  show "render_enforced_clauses demo_clauses None = Inr demo_filter" by code_simp
  show "clauses_ok (known_column demo_schema) demo_clauses" by code_simp
qed (simp_all add: demo_clauses_def)

lemma dropWhile_hd: "s \<noteq> [] \<Longrightarrow> \<not> P (hd s) \<Longrightarrow> dropWhile P s = s"
  by (cases s) auto

lemma trim_id: "s \<noteq> [] \<Longrightarrow> \<not> is_whitespace (hd s) \<Longrightarrow> \<not> is_whitespace (last s) \<Longrightarrow> trim s = s"
  by (simp add: trim_def dropWhile_hd hd_rev)

lemma escape_plain: "list_all (\<lambda>c. word_char c \<and> c \<noteq> backslash) v \<Longrightarrow> concat (map escape_char v) = v"
  by (induction v) (auto simp: word_char_def)

lemma open_quote_tokens:
  assumes "list_all word_char v"
  shows "tokenize_where (''id != '' @ quote_char # ''x AND owner = '' @ quote_char # v @ [quote_char])
    = Inr [''id'', ''!='', ''x AND owner = '' @ v @ [quote_char]]"
proof -
  have "tokenize_where (''id != '' @ quote_char # ''x AND owner = '' @ quote_char # v @ [quote_char])
      = scan_where (v @ [quote_char]) ''x AND owner = '' True False [''id'', ''!='']"
    by (simp add: tokenize_where_def is_cmp_char_def peek_eq_def is_whitespace_def)
  then show ?thesis
    using scan_word [OF assms] by (simp add: is_cmp_char_def is_whitespace_def)
qed



section \<open>Checks on writes\<close>

text \<open>\<open>WriteGrant::check\<close> and \<open>check_update_set\<close>, on the resolved clauses of the write grant.\<close>

definition write_grant_check :: "'f eval_ops \<Rightarrow> string \<Rightarrow> enforced_condition list list \<Rightarrow> (string \<Rightarrow> string option) \<Rightarrow> unit result" where
  "write_grant_check en table cls row_value =
     (if list_ex (\<lambda>clause. enforced_row_satisfies en clause row_value) cls then Inr ()
      else Inl (Err (''row not permitted by write grant on '' @ qt table)))"

definition check_update_set :: "'f eval_ops \<Rightarrow> string \<Rightarrow> enforced_condition list list \<Rightarrow> (string \<times> string) list \<Rightarrow> unit result" where
  "check_update_set en table cls set_fields =
     (if list_ex (\<lambda>clause. enforced_set_satisfies en clause set_fields) cls then Inr ()
      else Inl (Err (''update would move a row outside the write grant on '' @ qt table)))"

text \<open>The row after an UPDATE that sets the fields.\<close>

definition updated :: "(string \<times> string) list \<Rightarrow> (string \<Rightarrow> string option) \<Rightarrow> string \<Rightarrow> string option" where
  "updated set_fields old column = (case map_of set_fields column of Some v \<Rightarrow> Some v | None \<Rightarrow> old column)"

lemma updated_satisfies:
  assumes "enforced_row_satisfies en conds old" and "enforced_set_satisfies en conds set_fields"
  shows "enforced_row_satisfies en conds (updated set_fields old)"
  using assms
  by (induction conds)
    (auto simp: enforced_row_satisfies_def enforced_set_satisfies_def updated_def split: option.splits)

text \<open>
  Claim C37. A row inside a write grant of one branch stays inside it after an UPDATE whose set
  values pass the check. A grant with alternatives has no such guarantee: the check accepts
  an UPDATE when the set values agree with any branch, also with one the row never
  satisfied, so a row owned by the caller can be given away.
\<close>

theorem update_check_one_branch:
  assumes "write_grant_check en table [conds] old = Inr ()" and "check_update_set en table [conds] set_fields = Inr ()"
  shows "write_grant_check en table [conds] (updated set_fields old) = Inr ()
    \<and> (\<exists>cls old' fields'. write_grant_check en table cls old' = Inr () \<and> check_update_set en table cls fields' = Inr ()
      \<and> write_grant_check en table cls (updated fields' old') \<noteq> Inr ())"
proof
  show "write_grant_check en table [conds] (updated set_fields old) = Inr ()"
    using assms updated_satisfies [of en conds old set_fields]
    by (simp add: write_grant_check_def check_update_set_def split: if_splits)
  let ?cls = "[[InSet ''owner'' False [''u1'']], [InSet ''team'' False [''a'']]]"
    and ?old = "map_of [(''owner'', ''u1''), (''team'', ''b'')]"
  have "write_grant_check en table ?cls ?old = Inr ()" "check_update_set en table ?cls [(''owner'', ''u2'')] = Inr ()"
      "write_grant_check en table ?cls (updated [(''owner'', ''u2'')] ?old) \<noteq> Inr ()"
    by (simp_all add: write_grant_check_def check_update_set_def enforced_row_satisfies_def
        enforced_set_satisfies_def in_set_def updated_def)
  then show "\<exists>cls old' fields'. write_grant_check en table cls old' = Inr () \<and> check_update_set en table cls fields' = Inr ()
      \<and> write_grant_check en table cls (updated fields' old') \<noteq> Inr ()" by blast
qed

theorem update_check_one_branch_witness:
  "write_grant_check demo_ops ''notes'' [[ECmp ''owner'' ''='' ''u1'']]
     (updated [(''text'', ''hi'')] (map_of [(''owner'', ''u1'')])) = Inr ()"
proof -
  have "write_grant_check demo_ops ''notes'' [[ECmp ''owner'' ''='' ''u1'']] (map_of [(''owner'', ''u1'')]) = Inr ()"
      "check_update_set demo_ops ''notes'' [[ECmp ''owner'' ''='' ''u1'']] [(''text'', ''hi'')] = Inr ()"
    by code_simp+
  from update_check_one_branch [OF this] show ?thesis by (rule conjunct1)
qed

end
