(* ===== verification/GrantStore.thy ===== *)
theory GrantStore
  imports GrantFilter
begin

text \<open>
  The storage of grants (\<^verbatim>\<open>src/src/auth.rs\<close>): GRANT and REVOKE on the table of grants, with the
  checks on reserved tables and encrypted columns, and the predicate a later request
  loads, down to the filter and the check of a request. A row of the table is its id with
  the text of the predicate, and writing it succeeds; the schemas of the other tables and the scan of a table for
  the values of a subquery (\<open>scan_projected_column\<close>) are arguments.
\<close>

section \<open>Validation\<close>

definition is_reserved_system_table :: "string \<Rightarrow> bool" where
  "is_reserved_system_table table \<longleftrightarrow> strip_prefix ''auth.'' table \<noteq> None \<or> strip_prefix ''push.'' table \<noteq> None"

definition reserved_table_error :: "string \<Rightarrow> string" where
  "reserved_table_error table =
     ''ERR table '' @ qt table @ '' is managed by ''
       @ (if strip_prefix ''push.'' table \<noteq> None then ''Lux Push'' else ''Lux Auth'') @ ''; use its API''"

definition reserved_table_access_error :: "string \<Rightarrow> string option" where
  "reserved_table_access_error table =
     (if is_reserved_system_table table then Some (reserved_table_error table) else None)"

definition and_then :: "unit result \<Rightarrow> unit result \<Rightarrow> unit result" where
  "and_then r s = (case r of Inl e \<Rightarrow> Inl e | Inr _ \<Rightarrow> s)"

definition table_access :: "string \<Rightarrow> unit result" where
  "table_access table = (case reserved_table_access_error table of Some e \<Rightarrow> Inl (Err e) | None \<Rightarrow> Inr ())"

fun reserved_conditions :: "condition list \<Rightarrow> unit result"
  and reserved_clauses :: "condition list list \<Rightarrow> unit result" where
  "reserved_conditions [] = Inr ()"
| "reserved_conditions (Cmp column op x # cs) = reserved_conditions cs"
| "reserved_conditions (InSubquery column negated (Subquery proj table (Predicate ic ia)) # cs) =
     and_then (and_then (table_access table) (and_then (reserved_conditions ic) (reserved_clauses ia))) (reserved_conditions cs)"
| "reserved_clauses [] = Inr ()"
| "reserved_clauses (c # cls) = and_then (reserved_conditions c) (reserved_clauses cls)"

definition validate_grant_reserved_tables :: "string \<Rightarrow> predicate \<Rightarrow> unit result" where
  "validate_grant_reserved_tables table pred = and_then (table_access table) (reserved_clauses (clauses pred))"

definition validate_grant_column_filter :: "string \<Rightarrow> field_def list \<Rightarrow> string \<Rightarrow> string \<Rightarrow> unit result" where
  "validate_grant_column_filter table schema column op =
     (let path = (case split_once_dot column of
            Some (root, rest) \<Rightarrow> if rest \<noteq> [] \<and> list_ex (\<lambda>f. fd_name f = root \<and> fd_encrypted f) schema then Some root else None
          | None \<Rightarrow> None)
      in case path of
        Some root \<Rightarrow> Inl (Err (''ERR encrypted column '' @ qt root @ '' in grant on '' @ qt table
          @ '' does not support JSON path filters''))
      | None \<Rightarrow>
          (case find (\<lambda>f. fd_name f = takeWhile (\<lambda>c. c \<noteq> CHR ''.'') column) schema of
             None \<Rightarrow> Inr ()
           | Some field \<Rightarrow>
               if \<not> fd_encrypted field then Inr ()
               else if op = ''='' \<and> fd_searchable field then Inr ()
               else if op = ''='' then
                 Inl (Err (''ERR encrypted column '' @ qt (fd_name field) @ '' in grant on '' @ qt table
                   @ '' must be SEARCHABLE for equality filters''))
               else Inl (Err (''ERR encrypted column '' @ qt (fd_name field) @ '' in grant on '' @ qt table
                   @ '' only supports equality filters when SEARCHABLE''))))"

type_synonym schemas = "string \<Rightarrow> field_def list option"

text \<open>\<open>validate_grant_predicate_columns\<close> and \<open>validate_grant_condition_columns\<close>.\<close>

fun validate_grant_columns :: "schemas \<Rightarrow> string \<Rightarrow> field_def list \<Rightarrow> condition list \<Rightarrow> unit result"
  and validate_grant_clauses :: "schemas \<Rightarrow> string \<Rightarrow> field_def list \<Rightarrow> condition list list \<Rightarrow> unit result" where
  "validate_grant_columns sch table schema [] = Inr ()"
| "validate_grant_columns sch table schema (Cmp column op x # cs) =
     and_then (validate_grant_column_filter table schema column op) (validate_grant_columns sch table schema cs)"
| "validate_grant_columns sch table schema (InSubquery column negated (Subquery proj sub (Predicate ic ia)) # cs) =
     and_then (validate_grant_column_filter table schema column (in_kw negated))
       (and_then
         (case sch sub of
            Some inner \<Rightarrow> and_then (validate_grant_columns sch sub inner ic) (validate_grant_clauses sch sub inner ia)
          | None \<Rightarrow> Inr ())
         (validate_grant_columns sch table schema cs))"
| "validate_grant_clauses sch table schema [] = Inr ()"
| "validate_grant_clauses sch table schema (c # cls) =
     and_then (validate_grant_columns sch table schema c) (validate_grant_clauses sch table schema cls)"

definition validate_grant_predicate_for_schema :: "schemas \<Rightarrow> string \<Rightarrow> predicate \<Rightarrow> unit result" where
  "validate_grant_predicate_for_schema sch table pred =
     (case sch table of None \<Rightarrow> Inr () | Some schema \<Rightarrow> validate_grant_clauses sch table schema (clauses pred))"

section \<open>GRANT and REVOKE\<close>

type_synonym grants_table = "(string, string) hash_map"

definition grant_id :: "string \<Rightarrow> scope \<Rightarrow> string" where
  "grant_id table sc = table @ '':'' @ scope_as_str sc"

definition load_grant_predicate :: "grants_table \<Rightarrow> string \<Rightarrow> scope \<Rightarrow> predicate option result" where
  "load_grant_predicate grants table sc =
     (case hm_get grants (grant_id table sc) of
        None \<Rightarrow> Inr None
      | Some text \<Rightarrow>
          (case tokenize_where text of
             Inl e \<Rightarrow> Inl e
           | Inr toks \<Rightarrow>
               (case parse_predicate toks of
                  Inl e \<Rightarrow> Inl e
                | Inr pred \<Rightarrow>
                    (case validate_grant_reserved_tables table pred of
                       Inl e \<Rightarrow> Inl e
                     | Inr _ \<Rightarrow> Inr (Some pred)))))"

definition merged_predicate :: "predicate option \<Rightarrow> predicate \<Rightarrow> predicate" where
  "merged_predicate old new = (case old of Some p \<Rightarrow> append_alternatives p new | None \<Rightarrow> new)"

fun put_scopes :: "schemas \<Rightarrow> grant \<Rightarrow> scope list \<Rightarrow> grants_table \<Rightarrow> unit result \<times> grants_table" where
  "put_scopes sch g [] grants = (Inr (), grants)"
| "put_scopes sch g (sc # scs) grants =
     (case load_grant_predicate grants (g_table g) sc of
        Inl e \<Rightarrow> (Inl e, grants)
      | Inr old \<Rightarrow>
          let pred = merged_predicate old (g_predicate g) in
          (case validate_grant_predicate_for_schema sch (g_table g) pred of
             Inl e \<Rightarrow> (Inl e, grants)
           | Inr _ \<Rightarrow> put_scopes sch g scs (hm_insert (grant_id (g_table g) sc) (predicate_to_string pred) grants)))"

definition put_grant :: "schemas \<Rightarrow> grant \<Rightarrow> grants_table \<Rightarrow> unit result \<times> grants_table" where
  "put_grant sch g grants =
     (case validate_grant_reserved_tables (g_table g) (g_predicate g) of
        Inl e \<Rightarrow> (Inl e, grants)
      | Inr _ \<Rightarrow> put_scopes sch g (g_scopes g) grants)"

definition delete_grant :: "string \<Rightarrow> scope \<Rightarrow> grants_table \<Rightarrow> bool \<times> grants_table" where
  "delete_grant table sc grants = (hm_contains grants (grant_id table sc), hm_remove (grant_id table sc) grants)"

text \<open>The fields of \<open>AuthPrincipal\<close> that a grant can refer to.\<close>

record auth_principal =
  p_user_id :: string
  p_role :: string
  p_email :: string

definition resolve_for_principal :: "predicate \<Rightarrow> auth_principal \<Rightarrow> resolved_condition list list result" where
  "resolve_for_principal pred pr = resolve_clauses pred (p_user_id pr)
     (\<lambda>claim. if claim = ''role'' then Some (p_role pr)
       else if claim = ''email'' then Some (p_email pr)
       else if claim = ''sub'' \<or> claim = ''uid'' then Some (p_user_id pr) else None)"

section \<open>The filter and the check of a request\<close>

type_synonym scan = "string \<Rightarrow> where_clause list \<Rightarrow> string \<Rightarrow> string list result"

fun execute_resolved :: "scan \<Rightarrow> resolved_condition list \<Rightarrow> enforced_condition list result" where
  "execute_resolved scan_col [] = Inr []"
| "execute_resolved scan_col (RCmp column op v # cs) = map_sum id ((#) (ECmp column op v)) (execute_resolved scan_col cs)"
| "execute_resolved scan_col (InSubqueryResolved column negated table proj inner # cs) =
     (case reserved_table_access_error table of
        Some e \<Rightarrow> Inl (Err e)
      | None \<Rightarrow>
          (case execute_resolved scan_col inner of
             Inl e \<Rightarrow> Inl e
           | Inr enforced \<Rightarrow>
               (case inner_conds_to_where enforced of
                  Inl e \<Rightarrow> Inl e
                | Inr ws \<Rightarrow>
                    (case scan_col table ws proj of
                       Inl e \<Rightarrow> Inl e
                     | Inr vals \<Rightarrow> map_sum id ((#) (InSet column negated vals)) (execute_resolved scan_col cs)))))"

definition execute_resolved_clauses :: "scan \<Rightarrow> resolved_condition list list \<Rightarrow> enforced_condition list list result" where
  "execute_resolved_clauses scan_col cls = collect_clauses (map (execute_resolved scan_col) cls)"

definition enforced_conds :: "scan \<Rightarrow> grants_table \<Rightarrow> auth_principal \<Rightarrow> string \<Rightarrow> scope
    \<Rightarrow> enforced_condition list list option result" where
  "enforced_conds scan_col grants pr table sc =
     (case load_grant_predicate grants table sc of
        Inl e \<Rightarrow> Inl e
      | Inr None \<Rightarrow> Inr None
      | Inr (Some pred) \<Rightarrow>
          (case resolve_for_principal pred pr of
             Inl e \<Rightarrow> Inl e
           | Inr resolved \<Rightarrow> map_sum id Some (execute_resolved_clauses scan_col resolved)))"

definition require_grant :: "string \<Rightarrow> string \<Rightarrow> enforced_condition list list option result
    \<Rightarrow> enforced_condition list list result" where
  "require_grant what table r =
     (case r of
        Inl e \<Rightarrow> Inl e
      | Inr None \<Rightarrow> Inl (Err (''no '' @ what @ '' access to '' @ qt table))
      | Inr (Some cls) \<Rightarrow> Inr cls)"

definition read_filter :: "scan \<Rightarrow> grants_table \<Rightarrow> auth_principal \<Rightarrow> string \<Rightarrow> string result" where
  "read_filter scan_col grants pr table =
     (case require_grant ''read'' table (enforced_conds scan_col grants pr table Read) of
        Inl e \<Rightarrow> Inl e
      | Inr cls \<Rightarrow> render_enforced_clauses cls None)"

definition read_filter_qualified :: "scan \<Rightarrow> grants_table \<Rightarrow> auth_principal \<Rightarrow> string \<Rightarrow> string \<Rightarrow> string result" where
  "read_filter_qualified scan_col grants pr table qualifier =
     (case require_grant ''read'' table (enforced_conds scan_col grants pr table Read) of
        Inl e \<Rightarrow> Inl e
      | Inr cls \<Rightarrow> render_enforced_clauses cls (Some qualifier))"

definition write_filter :: "scan \<Rightarrow> grants_table \<Rightarrow> auth_principal \<Rightarrow> string \<Rightarrow> string result" where
  "write_filter scan_col grants pr table =
     (case require_grant ''write'' table (enforced_conds scan_col grants pr table Write) of
        Inl e \<Rightarrow> Inl e
      | Inr cls \<Rightarrow> render_enforced_clauses cls None)"

definition check_write_row :: "'f eval_ops \<Rightarrow> scan \<Rightarrow> grants_table \<Rightarrow> auth_principal \<Rightarrow> string
    \<Rightarrow> (string \<Rightarrow> string option) \<Rightarrow> unit result" where
  "check_write_row en scan_col grants pr table row_value =
     (case require_grant ''write'' table (enforced_conds scan_col grants pr table Write) of
        Inl e \<Rightarrow> Inl e
      | Inr cls \<Rightarrow> write_grant_check en table cls row_value)"

section \<open>What is stored is what is enforced\<close>

lemma and_then_Inr [simp]: "and_then r s = Inr () \<longleftrightarrow> r = Inr () \<and> s = Inr ()"
  by (auto simp: and_then_def split: sum.splits)

lemma reserved_clauses_iff: "reserved_clauses cls = Inr () \<longleftrightarrow> (\<forall>c\<in>set cls. reserved_conditions c = Inr ())"
  by (induction cls) auto

text \<open>A merged grant means either of the two.\<close>

lemma append_alternatives_holds:
  "list_ex (list_all P) (clauses (append_alternatives p q))
     \<longleftrightarrow> list_ex (list_all P) (clauses p) \<or> list_ex (list_all P) (clauses q)"
  by (auto simp: append_alternatives_def clauses_def)

lemma append_alternatives_wf:
  "predicate_wf p \<Longrightarrow> predicate_wf q \<Longrightarrow> predicate_wf (append_alternatives p q)"
  by (cases p; cases q) (auto simp: append_alternatives_def)

lemma append_alternatives_reserved:
  "\<lbrakk>validate_grant_reserved_tables t p = Inr (); validate_grant_reserved_tables t q = Inr ()\<rbrakk>
   \<Longrightarrow> validate_grant_reserved_tables t (append_alternatives p q) = Inr ()"
  by (auto simp: validate_grant_reserved_tables_def append_alternatives_def clauses_def reserved_clauses_iff)

text \<open>Every stored text is the print of a readable predicate on tables that are not reserved.\<close>

definition stored_ok :: "grants_table \<Rightarrow> string \<Rightarrow> scope \<Rightarrow> bool" where
  "stored_ok grants table sc \<longleftrightarrow> (\<forall>text. hm_get grants (grant_id table sc) = Some text \<longrightarrow>
     (\<exists>p. text = predicate_to_string p \<and> predicate_wf p \<and> validate_grant_reserved_tables table p = Inr ()))"

definition grants_ok :: "grants_table \<Rightarrow> bool" where
  "grants_ok grants \<longleftrightarrow> (\<forall>table sc. stored_ok grants table sc)"

lemma load_printed:
  assumes "hm_get grants (grant_id table sc) = Some (predicate_to_string p)" and "predicate_wf p"
    and "validate_grant_reserved_tables table p = Inr ()"
  shows "load_grant_predicate grants table sc = Inr (Some p)"
  using assms tokenize_printed(3) [OF assms(2)] parse_predicate_tokens(3) [OF assms(2)]
  by (simp add: load_grant_predicate_def)

lemma load_ok:
  assumes "grants_ok grants"
  obtains old where "load_grant_predicate grants table sc = Inr old"
    "\<forall>p. old = Some p \<longrightarrow> predicate_wf p \<and> validate_grant_reserved_tables table p = Inr ()"
proof (cases "hm_get grants (grant_id table sc)")
  case None
  then show ?thesis using that [of None] by (simp add: load_grant_predicate_def)
next
  case (Some s)
  then obtain p where p: "s = predicate_to_string p" "predicate_wf p" "validate_grant_reserved_tables table p = Inr ()"
    using assms unfolding grants_ok_def stored_ok_def by blast
  then show ?thesis using load_printed [of grants table sc p] Some that [of "Some p"] by simp
qed

lemma grant_id_inj: "grant_id t sc = grant_id t' sc' \<longleftrightarrow> t = t' \<and> sc = sc'"
proof
  assume a: "grant_id t sc = grant_id t' sc'"
  then have "last (grant_id t sc) = last (grant_id t' sc')"
    "last (butlast (grant_id t sc)) = last (butlast (grant_id t' sc'))" by simp_all
  then have "sc = sc'" by (cases sc; cases sc') (simp_all add: grant_id_def scope_as_str_def butlast_append)
  with a show "t = t' \<and> sc = sc'" by (simp add: grant_id_def)
qed simp

lemma hm_insert_ok:
  assumes "grants_ok grants" and "predicate_wf p" and "validate_grant_reserved_tables table p = Inr ()"
  shows "grants_ok (hm_insert (grant_id table sc) (predicate_to_string p) grants)"
  using assms by (auto simp: grants_ok_def stored_ok_def grant_id_inj)

lemma load_insert_other:
  "\<not> (t = table \<and> sc' = sc) \<Longrightarrow>
   load_grant_predicate (hm_insert (grant_id table sc) s grants) t sc' = load_grant_predicate grants t sc'"
  by (auto simp: load_grant_predicate_def grant_id_inj)

lemma put_scopes_ok:
  assumes "put_scopes sch g scs grants = (r, grants')" and "grants_ok grants" and "predicate_wf (g_predicate g)"
    and "validate_grant_reserved_tables (g_table g) (g_predicate g) = Inr ()" and "distinct scs"
  shows "grants_ok grants' \<and>
    (\<forall>t sc. \<not> (t = g_table g \<and> sc \<in> set scs) \<longrightarrow> load_grant_predicate grants' t sc = load_grant_predicate grants t sc) \<and>
    (r = Inr () \<longrightarrow> (\<forall>sc\<in>set scs. \<exists>old. load_grant_predicate grants (g_table g) sc = Inr old \<and>
       load_grant_predicate grants' (g_table g) sc = Inr (Some (merged_predicate old (g_predicate g)))))"
  using assms(1,2,5)
proof (induction scs arbitrary: grants)
  case (Cons sc scs)
  obtain old where old: "load_grant_predicate grants (g_table g) sc = Inr old"
      "\<forall>p. old = Some p \<longrightarrow> predicate_wf p \<and> validate_grant_reserved_tables (g_table g) p = Inr ()"
    by (rule load_ok [OF Cons.prems(2)])
  let ?p = "merged_predicate old (g_predicate g)"
  let ?grants = "hm_insert (grant_id (g_table g) sc) (predicate_to_string ?p) grants"
  have p: "predicate_wf ?p" "validate_grant_reserved_tables (g_table g) ?p = Inr ()"
    using old(2) assms(3,4) append_alternatives_wf append_alternatives_reserved
    by (auto simp: merged_predicate_def split: option.splits)
  show ?case
  proof (cases "validate_grant_predicate_for_schema sch (g_table g) ?p")
    case (Inl e)
    with Cons.prems old(1) show ?thesis by auto
  next
    case (Inr u)
    then have put: "put_scopes sch g scs ?grants = (r, grants')" using Cons.prems(1) old(1) by simp
    have load: "load_grant_predicate ?grants (g_table g) sc = Inr (Some ?p)" by (rule load_printed [OF _ p]) simp
    have d: "sc \<notin> set scs" "distinct scs" using Cons.prems(3) by simp_all
    note IH = Cons.IH [OF put hm_insert_ok [OF Cons.prems(2) p] d(2)]
    have other: "load_grant_predicate ?grants t sc' = load_grant_predicate grants t sc'"
      if "\<not> (t = g_table g \<and> sc' = sc)" for t sc'
      by (rule load_insert_other [OF that])
    have unchanged: "load_grant_predicate grants' t sc' = load_grant_predicate grants t sc'"
      if "\<not> (t = g_table g \<and> sc' \<in> set (sc # scs))" for t sc'
      using IH other [of t sc'] that by auto
    have "load_grant_predicate grants' (g_table g) sc = Inr (Some ?p)" using IH load d(1) by simp
    moreover have "\<exists>old. load_grant_predicate grants (g_table g) sc' = Inr old \<and>
        load_grant_predicate grants' (g_table g) sc' = Inr (Some (merged_predicate old (g_predicate g)))"
      if "r = Inr ()" "sc' \<in> set scs" for sc'
    proof -
      have "load_grant_predicate ?grants (g_table g) sc' = load_grant_predicate grants (g_table g) sc'"
        using that(2) d(1) by (intro other) auto
      then show ?thesis using IH that by (metis (no_types, lifting))
    qed
    ultimately show ?thesis using IH old(1) unchanged by simp
  qed
qed auto

text \<open>
  Claim C20. GRANT and REVOKE keep the table of grants readable. After a GRANT that succeeds,
  each of its scopes loads the earlier predicate with the new one as an alternative, which
  means either of the two; a GRANT, failed or not, leaves the other tables and scopes as
  they are. After a REVOKE the scope loads no grant, and then reads, writes and row
  checks are refused.
\<close>

theorem grants_stored_faithfully:
  assumes "grants_ok grants" and "predicate_wf (g_predicate g)" and "distinct (g_scopes g)"
    and "put_grant sch g grants = (r, grants')"
  shows "grants_ok grants' \<and>
    (\<forall>t sc. \<not> (t = g_table g \<and> sc \<in> set (g_scopes g)) \<longrightarrow>
       load_grant_predicate grants' t sc = load_grant_predicate grants t sc) \<and>
    (r = Inr () \<longrightarrow> (\<forall>sc\<in>set (g_scopes g). \<exists>old new.
       load_grant_predicate grants (g_table g) sc = Inr old \<and> load_grant_predicate grants' (g_table g) sc = Inr (Some new) \<and>
       (\<forall>P. list_ex (list_all P) (clauses new) \<longleftrightarrow>
          (\<exists>p. old = Some p \<and> list_ex (list_all P) (clauses p)) \<or> list_ex (list_all P) (clauses (g_predicate g))))) \<and>
    (\<forall>t sc. let revoked = snd (delete_grant t sc grants') in
       grants_ok revoked \<and> load_grant_predicate revoked t sc = Inr None \<and>
       (sc = Read \<longrightarrow> read_filter scan_col revoked pr t = Inl (Err (''no read access to '' @ qt t))) \<and>
       (sc = Write \<longrightarrow> write_filter scan_col revoked pr t = Inl (Err (''no write access to '' @ qt t)) \<and>
          check_write_row en scan_col revoked pr t row = Inl (Err (''no write access to '' @ qt t))))"
proof -
  have holds: "list_ex (list_all P) (clauses (merged_predicate old q)) \<longleftrightarrow>
      (\<exists>p. old = Some p \<and> list_ex (list_all P) (clauses p)) \<or> list_ex (list_all P) (clauses q)" for P old q
    by (cases old) (simp_all add: merged_predicate_def append_alternatives_holds)
  have put: "grants_ok grants' \<and>
    (\<forall>t sc. \<not> (t = g_table g \<and> sc \<in> set (g_scopes g)) \<longrightarrow>
       load_grant_predicate grants' t sc = load_grant_predicate grants t sc) \<and>
    (r = Inr () \<longrightarrow> (\<forall>sc\<in>set (g_scopes g). \<exists>old. load_grant_predicate grants (g_table g) sc = Inr old \<and>
       load_grant_predicate grants' (g_table g) sc = Inr (Some (merged_predicate old (g_predicate g)))))"
  proof (cases "validate_grant_reserved_tables (g_table g) (g_predicate g)")
    case (Inl e)
    with assms(1,4) show ?thesis by (auto simp: put_grant_def)
  next
    case (Inr u)
    with assms(4) have "put_scopes sch g (g_scopes g) grants = (r, grants')" by (simp add: put_grant_def)
    from put_scopes_ok [OF this assms(1,2) _ assms(3)] Inr show ?thesis by simp
  qed
  have revoke: "load_grant_predicate (snd (delete_grant t sc grants')) t sc = Inr None"
      "grants_ok (snd (delete_grant t sc grants'))" for t sc
    using put by (auto simp: delete_grant_def load_grant_predicate_def grants_ok_def stored_ok_def)
  have denied: "require_grant w t (enforced_conds scan_col (snd (delete_grant t sc grants')) pr t sc)
      = Inl (Err (''no '' @ w @ '' access to '' @ qt t))" for w t sc
    by (simp add: enforced_conds_def revoke require_grant_def)
  show ?thesis
    using put revoke denied holds
    by (auto simp: Let_def read_filter_def write_filter_def check_write_row_def)
qed

definition demo_grant :: grant where
  "demo_grant = \<lparr>g_table = ''notes'', g_scopes = [Read], g_predicate = demo_predicate\<rparr>"

definition demo_principal :: auth_principal where
  "demo_principal = \<lparr>p_user_id = ''u1'', p_role = ''user'', p_email = ''u1@lux''\<rparr>"

theorem grants_stored_faithfully_witness:
  "fst (put_grant (\<lambda>_. None) demo_grant []) = Inr () \<and> grants_ok (snd (put_grant (\<lambda>_. None) demo_grant [])) \<and>
   (\<exists>new. load_grant_predicate (snd (put_grant (\<lambda>_. None) demo_grant [])) ''notes'' Read = Inr (Some new) \<and>
     (\<forall>P. list_ex (list_all P) (clauses new) \<longleftrightarrow> list_ex (list_all P) (clauses demo_predicate)))"
proof -
  have ok: "grants_ok []" by (simp add: grants_ok_def stored_ok_def)
  have wf: "predicate_wf (g_predicate demo_grant)" "distinct (g_scopes demo_grant)" by code_simp+
  have put: "fst (put_grant (\<lambda>_. None) demo_grant []) = Inr ()" by code_simp
  have none: "load_grant_predicate [] ''notes'' Read = Inr None" by (simp add: load_grant_predicate_def)
  note stored = grants_stored_faithfully [OF ok wf prod.collapse [symmetric], of "\<lambda>_. None" "\<lambda>_ _ _. Inr []" demo_principal demo_ops Map.empty]
  show ?thesis using stored put none by (auto simp: demo_grant_def)
qed

section \<open>Predicates that do not restrict\<close>

definition demo_body :: "string \<Rightarrow> string list \<Rightarrow> string list" where
  "demo_body kw rest = [''read'', ''ON'', ''notes'', kw] @ rest"

lemma notes_keywords: "\<not> eq_ic ''read'' ''ON''" "\<not> eq_ic ''read'' ''WHERE''" "\<not> eq_ic ''ON'' ''WHERE''"
  "\<not> eq_ic ''notes'' ''WHERE''" "\<not> eq_ic ''WHRE'' ''WHERE''" "\<not> eq_ic ''='' ''WHERE''" "\<not> eq_ic ''auth.uid()'' ''WHERE''"
  by code_simp+

lemma parse_read_scope: "parse_scopes True hint [''read''] [] = Inr [Read]"
  by (simp add: trim_end_comma_def scope_parse_def)

lemma parse_grant_where:
  "parse_grant (demo_body ''WHERE'' rest) =
     map_sum id (\<lambda>p. \<lparr>g_table = ''notes'', g_scopes = [Read], g_predicate = p\<rparr>) (parse_predicate rest)"
  using notes_keywords parse_read_scope
  by (simp add: parse_grant_def demo_body_def has_kw_def before_kw_def after_kw_def)

lemma parse_grant_no_where:
  assumes "\<not> eq_ic kw ''WHERE''" and "\<not> list_ex (\<lambda>t. eq_ic t ''WHERE'') rest"
  shows "parse_grant (demo_body kw rest) = Inr \<lparr>g_table = ''notes'', g_scopes = [Read], g_predicate = Predicate [] []\<rparr>"
  using notes_keywords parse_read_scope assms
  by (simp add: parse_grant_def demo_body_def has_kw_def before_kw_def after_kw_def)

text \<open>An empty alternative makes the filter empty, whatever the first branch is.\<close>

lemma dangling_filter:
  assumes "word_ok column"
  defines "p \<equiv> Predicate [Cmp column ''='' AuthUid] [[]]"
  shows "\<exists>grants'. put_grant (\<lambda>_. None) \<lparr>g_table = ''notes'', g_scopes = [Read], g_predicate = p\<rparr> [] = (Inr (), grants')
    \<and> read_filter scan_col grants' pr ''notes'' = Inr []"
proof -
  have wf: "predicate_wf p" using assms by (simp add: p_def VALID_OPS_def operand_wf_def)
  have reserved: "validate_grant_reserved_tables ''notes'' p = Inr ()"
    by (simp add: validate_grant_reserved_tables_def p_def clauses_def table_access_def reserved_table_access_error_def
        is_reserved_system_table_def strip_prefix_def)
  let ?grants = "hm_insert (grant_id ''notes'' Read) (predicate_to_string p) []"
  have put: "put_grant (\<lambda>_. None) \<lparr>g_table = ''notes'', g_scopes = [Read], g_predicate = p\<rparr> [] = (Inr (), ?grants)"
    using reserved by (simp add: put_grant_def load_grant_predicate_def merged_predicate_def
        validate_grant_predicate_for_schema_def)
  have "load_grant_predicate ?grants ''notes'' Read = Inr (Some p)" by (rule load_printed [OF _ wf reserved]) simp
  then have "read_filter scan_col ?grants pr ''notes'' = Inr []"
    by (simp add: read_filter_def require_grant_def enforced_conds_def resolve_for_principal_def resolve_clauses_def
        p_def clauses_def resolve_operand_def execute_resolved_clauses_def render_enforced_clauses_def
        render_enforced_or_clauses_def collapse_same_column_or_clauses_def)
  with put show ?thesis by blast
qed



end
