(* ===== verification/Spec2Isabelle.thy ===== *)
theory Spec2Isabelle
  imports Glob Limits RespParse StoreBits StoreHll StreamProps Keyspace Eviction GrantStore
begin

text \<open>
  Verification of lux, an in-memory data store with a RESP interface, a write-ahead
  journal, an optional cold tier on disk and a table engine. The sources are under
  \<^verbatim>\<open>src/\<close>; this development models the parser, the storage engine and its
  durability layer, and proves what a client and an operator rely on.

  \<^bold>\<open>The program and its model.\<close> A client's bytes are parsed into commands
  (\<^verbatim>\<open>src/src/resp.rs\<close>); a command is run on the sharded keyspace
  (\<^verbatim>\<open>src/src/store/\<close>); a command that changes data first goes through the journal
  (\<^verbatim>\<open>src/src/disk.rs\<close>, \<^verbatim>\<open>src/src/store/transactions.rs\<close>); when memory is short, keys are
  evicted, to the cold tier where there is one (\<^verbatim>\<open>src/src/eviction.rs\<close>,
  \<^verbatim>\<open>src/src/disk.rs\<close>). The theories follow this structure; each operation has the name
  it has in the source.

  \<^item> \<open>Prelude\<close>, \<open>Text\<close>, \<open>StreamId\<close>: bytes, machine integers, results with errors and
    panics, hash maps as association lists, ordered maps, UTF-8, decimal numbers.
    A panic aborts the process in the release profile, so it is an error value of its
    own; \<open>+\<close> on machine integers wraps where the source does not check.
  \<^item> \<open>RespWrite\<close>, \<open>RespParse\<close> (\<^verbatim>\<open>src/src/resp.rs\<close>): reply writers under an output limit,
    and the incremental request parser. Round trip, incremental parsing, and safety on
    arbitrary input are proved; parsing loops are structural in the announced count.
  \<^item> \<open>Glob\<close> (\<^verbatim>\<open>src/src/glob.rs\<close>), \<open>Limits\<close> (\<^verbatim>\<open>src/src/limits.rs\<close>), \<open>Bits\<close> (bit fields),
    \<open>Hll\<close> (\<^verbatim>\<open>src/src/hll.rs\<close>), \<open>Crc\<close>: self-contained algorithms, each proved
    equivalent to a declarative definition. The budgets of \<open>Limits\<close> are also a step
    relation of threads with compare-and-swap, with an invariant over all interleavings.
  \<^item> \<open>HashData\<close>, \<open>SetData\<close>, \<open>Values\<close>: the value types of \<^verbatim>\<open>src/src/store/mod.rs\<close> and their
    conversion to and from the dump format.
  \<^item> \<open>Codec\<close>, \<open>DiskEntry\<close>, \<open>Wal\<close>, \<open>DiskShard\<close> (\<^verbatim>\<open>src/src/disk.rs\<close>): binary encodings
    through the locale \<open>codec\<close>, the journal with its frames, replay, checkpoints and
    rotation, and a shard of the cold tier with its index and compaction through the
    locale \<open>cold_tier\<close>. What the operating system does to a write, a sync, a truncation
    or a rename is an input, so the theorems hold for every failure and crash point.
  \<^item> \<open>Store\<close>, \<open>Tier\<close>: the shards with their data, version and memory counters, the key
    count, eviction of a key to the cold tier and its promotion.
  \<^item> \<open>KeyedOp\<close>, \<open>StoreStrings\<close>, \<open>StoreLists\<close>, \<open>StoreSets\<close>, \<open>StoreHashes\<close>, \<open>StoreKeys\<close>: the
    commands. The locale \<open>keyed_op\<close> is the contract of a command on one key (its reply
    and effect are determined by what is visible of that key, other keys are untouched);
    \<open>counted_op\<close> and \<open>metered_op\<close> add that the key count and the memory figure stay
    exact. Every command on one key interprets one of them. Hash fields with deadlines
    have a contract of their own, \<open>field_op\<close>. \<open>StoreBits\<close> and \<open>StoreHll\<close> hold the bitmap
    and HyperLogLog commands on the algorithms of \<open>Bits\<close> and \<open>Hll\<close>.
  \<^item> \<open>StoreStreams\<close>, \<open>StreamGroups\<close>, \<open>StreamProps\<close> (\<^verbatim>\<open>src/src/store/streams.rs\<close>): streams and
    consumer groups. Reads and claims go through the prepared commit of \<open>JournalCommit\<close>
    and journal their effect. The step relation \<open>stream_step\<close> has the consistency of
    pending entries as an invariant; \<open>group_run\<close> is a run of the clients of one group.
  \<^item> \<open>Keyspace\<close>: the locale \<open>command_set\<close>, interpreted on all commands on one key, gives
    the refinement of any timed sequence of commands by updates of a plain map, and
    that commands respect the types of values.
  \<^item> \<open>JournalCommit\<close>: the commit path (routing, gates, append, rollback, poisoning, live
    apply), \<open>EXEC\<close> transactions and replay after a restart.
  \<^item> \<open>Eviction\<close> (\<^verbatim>\<open>src/src/eviction.rs\<close>): the policies and the eviction loop, a
    \<open>partial_function\<close> proved to return for every store and every sequence of clock and
    disk outcomes.
  \<^item> \<open>WhereLang\<close>, \<open>WhereEval\<close> (\<^verbatim>\<open>src/src/tables/\<close>): the WHERE language of tables, its tokenizer,
    parser and evaluation on a row, and the LIKE matcher against the meaning of a pattern.
  \<^item> \<open>Grants\<close>, \<open>GrantText\<close> (\<^verbatim>\<open>src/src/grants.rs\<close>), \<open>GrantFilter\<close>, \<open>GrantStore\<close> (\<^verbatim>\<open>src/src/auth.rs\<close>,
    \<^verbatim>\<open>src/src/http.rs\<close>): row-level access grants, the round trip of their stored text, the
    filter they add to a statement and what it selects, and the table of grants. The locale
    \<open>row_evaluation\<close> is what the filter relies on in the evaluation of conditions; it is
    interpreted on the evaluation of \<open>WhereEval\<close>.

  \<^bold>\<open>Abstractions.\<close> A \<open>HashMap\<close> is an association list with distinct keys, and no theorem
  depends on its order except where the source's own result does. Times are natural
  numbers of nanoseconds and are inputs of the operations; so are wall-clock
  milliseconds. The locks of the source are held for a whole operation, so an operation
  is one step; the interleaving of compare-and-swap loops is explicit in \<open>Limits\<close>. A
  floating-point number is its 64-bit pattern. The cardinality estimate of a
  HyperLogLog and the encryption keyring are parameters, and so are \<open>f64\<close> operations
  and JSON parsing in WHERE conditions; texts of queries and grants have characters below
  U+0100.

  \<^bold>\<open>Bounds.\<close> Lengths are natural numbers; where a length meets a 32-bit field, an
  \<open>i64\<close> or \<open>usize\<close>, the conversion or the overflow check of the source is written out, and
  theorems that need it assume that files and frames fit the address space. No fuel is
  used: loops are structural, or have a termination proof, or are partial functions
  proved to return.

  \<^bold>\<open>Not modelled.\<close> Command dispatch and argument parsing (\<^verbatim>\<open>src/src/cmd/\<close>,
  \<^verbatim>\<open>src/src/command.rs\<close>), sorted sets, time series and vectors as commands (their
  values, memory estimates and encodings are modelled), the storage,
  indexes and queries of the table engine (\<^verbatim>\<open>src/src/tables/\<close>) beyond WHERE conditions,
  authentication and cryptography, HTTP, pub/sub, push, Lua,
  snapshot files, and the command-line client. Replay theorems take the command
  dispatcher as a parameter with the hypothesis that it repeats the recorded mutation.
\<close>

end
